(* ===== verification/Kernel_Prelude.thy ===== *)
theory Kernel_Prelude
  imports Main "HOL-Library.Word"
begin

unbundle bit_operations_syntax

text \<open>
  The shared base of the development: names for the machine integer types of the kernel
  (\<^verbatim>\<open>include/os/stdint.h\<close>), pointers, and the generic facts on lists, maps and words that
  the component theories use. Pointers are natural numbers with 0 as \<^verbatim>\<open>nullptr\<close>; a
  \<^verbatim>\<open>size_t\<close> that only counts bytes of an object in memory is a \<^typ>\<open>nat\<close>, an integer whose
  wrap-around the code relies on (or could run into) is a word of the C type's width.
\<close>

section \<open>Machine types\<close>

type_synonym u8 = "8 word"
type_synonym u16 = "16 word"
type_synonym u32 = "32 word"
type_synonym u64 = "64 word"
type_synonym bytes = "8 word list"
type_synonym ptr = nat

abbreviation (input) nullptr :: ptr where
  "nullptr \<equiv> 0"

text \<open>The collections the components extend: rewriting to the abstract view of a structure,
  and the facts that one operation leaves a part of the state alone.\<close>

named_theorems view_simps
named_theorems frame_simps

text \<open>\<open>Fault\<close> stands for a step the C code must never take (following a null pointer,
  indexing outside an object): a theorem that the result is \<open>Done\<close> excludes it.\<close>

datatype 'a run = Done 'a | Fault

fun bind_run :: "'a run \<Rightarrow> ('a \<Rightarrow> 'b run) \<Rightarrow> 'b run" where
  "bind_run (Done x) f = f x"
| "bind_run Fault f = Fault"

lemma bind_run_Done: "bind_run r f = Done y \<longleftrightarrow> (\<exists>x. r = Done x \<and> f x = Done y)"
  by (cases r) auto

text \<open>The outcome of each \<^verbatim>\<open>malloc\<close> of a computation, in call order: \<open>None\<close> for an
  allocation that fails, \<open>Some g\<close> for a block whose byte \<open>i\<close> holds the arbitrary value
  \<open>g i\<close>. Past the end of the list every allocation fails.\<close>

type_synonym malloc_results = "(nat \<Rightarrow> u8) option list"

fun malloc_bytes :: "malloc_results \<Rightarrow> nat \<Rightarrow> bytes option \<times> malloc_results" where
  "malloc_bytes [] n = (None, [])"
| "malloc_bytes (None # os) n = (None, os)"
| "malloc_bytes (Some g # os) n = (Some (map g [0..<n]), os)"

lemma malloc_bytes_length: "malloc_bytes os n = (Some bs, os') \<Longrightarrow> length bs = n"
  by (cases "(os, n)" rule: malloc_bytes.cases) auto

text \<open>\<^verbatim>\<open>memcpy\<close> of \<open>src\<close> into an object at offset \<open>i\<close>.\<close>

definition write_at :: "nat \<Rightarrow> 'a list \<Rightarrow> 'a list \<Rightarrow> 'a list" where
  "write_at i src dst = take i dst @ src @ drop (i + length src) dst"

lemma length_write_at [simp]:
  "i + length src \<le> length dst \<Longrightarrow> length (write_at i src dst) = length dst"
  by (simp add: write_at_def)

lemma take_write_at: "k \<le> i \<Longrightarrow> i \<le> length dst \<Longrightarrow> take k (write_at i src dst) = take k dst"
  by (simp add: write_at_def min_def)

lemma take_drop_write_at:
  assumes "i + length src \<le> length dst"
  shows "take (length src) (drop i (write_at i src dst)) = src"
  using assms by (simp add: write_at_def)

section \<open>Lists\<close>

lemma take_min_length [simp]: "take (min (length xs) n) xs = take n xs"
  by (simp add: min_def)

lemma nth_update_range:
  "i < length xs \<Longrightarrow> (xs[j := v]) ! i = (if i = j then v else xs ! i)"
  by (simp add: nth_list_update)

lemma map_upt_take_drop:
  assumes "h + n \<le> length xs"
  shows "map (\<lambda>i. xs ! (h + i)) [0..<n] = take n (drop h xs)"
  using assms by (intro nth_equalityI) auto

lemma remove1_split:
  assumes "x \<notin> set as"
  shows "remove1 x (as @ x # bs) = as @ bs"
  using assms by (simp add: remove1_append)

lemma sum_list_le_elem:
  fixes f :: "'a \<Rightarrow> nat"
  assumes "x \<in> set xs"
  shows "f x \<le> sum_list (map f xs)"
  using assms by (induction xs) auto

section \<open>Words\<close>

lemma unat_word_of_nat_id:
  "n < 2 ^ LENGTH('a) \<Longrightarrow> unat (word_of_nat n :: 'a::len word) = n"
  by (simp add: unsigned_of_nat take_bit_nat_eq_self)

lemma unat_minus_le:
  fixes a b :: "'a::len word"
  assumes "unat b \<le> unat a"
  shows "unat (a - b) = unat a - unat b"
  using assms by (simp add: unat_sub word_le_nat_alt)

lemma unat_plus_no_wrap:
  fixes a b :: "'a::len word"
  assumes "unat a + unat b < 2 ^ LENGTH('a)"
  shows "unat (a + b) = unat a + unat b"
  using assms by (simp add: unat_add_lem [THEN iffD1])

lemma unat_drop_bit: "unat (drop_bit n (w :: 'a::len word)) = unat w div 2 ^ n"
proof -
  have "unat (drop_bit n w) = drop_bit n (unat w)"
    by (simp only: unsigned_drop_bit_eq take_bit_nat_eq_self unsigned_less)
  then show ?thesis by (simp add: drop_bit_eq_div)
qed

lemma unat_take_bit: "unat (take_bit n (w :: 'a::len word)) = unat w mod 2 ^ n"
proof -
  have "unat (take_bit n w) = take_bit n (unat w)"
    by (simp add: unsigned_take_bit_eq flip: take_bit_eq_mod)
  then show ?thesis by (simp add: take_bit_eq_mod)
qed

lemma unat_and_mask: "unat (w AND mask n :: 'a::len word) = unat w mod 2 ^ n"
  by (simp only: take_bit_eq_mask [symmetric] unat_take_bit)

lemma unat_push_bit_small:
  assumes "unat (w :: 'a::len word) * 2 ^ n < 2 ^ LENGTH('a)"
  shows "unat (push_bit n w) = unat w * 2 ^ n"
proof -
  have "unat (push_bit n w) = take_bit LENGTH('a) (push_bit n (unat w))"
    by (rule unsigned_push_bit_eq)
  also have "\<dots> = take_bit LENGTH('a) (unat w * 2 ^ n)" by (simp add: push_bit_eq_mult)
  finally have "unat (push_bit n w) = take_bit LENGTH('a) (unat w * 2 ^ n)" .
  with assms show ?thesis by (simp add: take_bit_nat_eq_self)
qed

lemma or_add_nat:
  fixes a y :: nat
  assumes "2 ^ k dvd a" and "y < 2 ^ k"
  shows "a OR y = a + y"
proof (rule disjunctive_add [symmetric])
  fix n
  have "take_bit k a = 0" "take_bit k y = y" using assms by (auto simp: take_bit_eq_mod)
  then have "n < k \<Longrightarrow> \<not> bit a n" "\<not> n < k \<Longrightarrow> \<not> bit y n" by (metis bit_take_bit_iff bit_0_eq bot_apply bot_bool_def)+
  then show "\<not> bit a n \<or> \<not> bit y n" by blast
qed

lemma unat_or_add:
  fixes a y :: "'a::len word"
  assumes "2 ^ k dvd unat a" and "unat y < 2 ^ k"
  shows "unat (a OR y) = unat a + unat y"
  by (simp add: unsigned_or_eq or_add_nat [OF assms])

lemma unat_ucast_16_32: "unat (ucast (u :: u16) :: u32) = unat u"
proof -
  have "unat u < 2 ^ LENGTH(16)" by (rule unsigned_less)
  then show ?thesis by (simp add: unsigned_ucast_eq take_bit_nat_eq_self)
qed

lemma u16_bound: "unat (u :: u16) < 0x10000"
proof -
  have "unat u < 2 ^ LENGTH(16)" by (rule unsigned_less)
  then show ?thesis by simp
qed

end
