(* ===== verification/Dlist_Queue.thy ===== *)
theory Dlist_Queue
  imports Kernel_Prelude
begin

text \<open>
  The intrusive doubly linked list of \<^verbatim>\<open>src/kernel/utils/queue/queue.c\<close>. The nodes live in a
  memory that maps a node's address to its two links; several lists share one memory. An
  operation takes the memory and the list header and returns both, with the assignments of
  the C function in their order. The invariant \<open>dlist_inv\<close> says that the header and the links
  spell out one chain of distinct non-null nodes in both directions, \<open>dlist_view\<close> reads it as
  a HOL list, and the locale \<open>node_queue\<close> is the contract the clients (page cache, block
  cache, callout wheel) rely on: every operation acts on the view as on a list.
\<close>

section \<open>Data and operations\<close>

record dlist_node =
  dn_prev :: ptr
  dn_next :: ptr

record dlist =
  dl_head :: ptr
  dl_tail :: ptr
  dl_count :: u64

type_synonym nodes = "ptr \<Rightarrow> dlist_node"
type_synonym dl_state = "nodes \<times> dlist"

definition dlist_init :: "nodes \<Rightarrow> dl_state" where
  "dlist_init m = (m, \<lparr>dl_head = nullptr, dl_tail = nullptr, dl_count = 0\<rparr>)"

definition set_prev :: "ptr \<Rightarrow> ptr \<Rightarrow> nodes \<Rightarrow> nodes" where
  "set_prev x v m = m(x := (m x)\<lparr>dn_prev := v\<rparr>)"

definition set_next :: "ptr \<Rightarrow> ptr \<Rightarrow> nodes \<Rightarrow> nodes" where
  "set_next x v m = m(x := (m x)\<lparr>dn_next := v\<rparr>)"

fun dlist_insert_head :: "dl_state \<Rightarrow> ptr \<Rightarrow> dl_state" where
  "dlist_insert_head (m, l) node =
     (let m = set_prev node nullptr m;
          m = set_next node (dl_head l) m;
          (m, l) = (if dl_head l \<noteq> nullptr then (set_prev (dl_head l) node m, l)
                    else (m, l\<lparr>dl_tail := node\<rparr>))
      in (m, l\<lparr>dl_head := node, dl_count := dl_count l + 1\<rparr>))"

fun dlist_insert_tail :: "dl_state \<Rightarrow> ptr \<Rightarrow> dl_state" where
  "dlist_insert_tail (m, l) node =
     (let m = set_next node nullptr m;
          m = set_prev node (dl_tail l) m;
          (m, l) = (if dl_tail l \<noteq> nullptr then (set_next (dl_tail l) node m, l)
                    else (m, l\<lparr>dl_head := node\<rparr>))
      in (m, l\<lparr>dl_tail := node, dl_count := dl_count l + 1\<rparr>))"

fun dlist_insert_after :: "dl_state \<Rightarrow> ptr \<Rightarrow> ptr \<Rightarrow> dl_state" where
  "dlist_insert_after (m, l) pos node =
     (let m = set_prev node pos m;
          m = set_next node (dn_next (m pos)) m;
          (m, l) = (if dn_next (m pos) \<noteq> nullptr then (set_prev (dn_next (m pos)) node m, l)
                    else (m, l\<lparr>dl_tail := node\<rparr>));
          m = set_next pos node m
      in (m, l\<lparr>dl_count := dl_count l + 1\<rparr>))"

fun dlist_insert_before :: "dl_state \<Rightarrow> ptr \<Rightarrow> ptr \<Rightarrow> dl_state" where
  "dlist_insert_before (m, l) pos node =
     (let m = set_next node pos m;
          m = set_prev node (dn_prev (m pos)) m;
          (m, l) = (if dn_prev (m pos) \<noteq> nullptr then (set_next (dn_prev (m pos)) node m, l)
                    else (m, l\<lparr>dl_head := node\<rparr>));
          m = set_prev pos node m
      in (m, l\<lparr>dl_count := dl_count l + 1\<rparr>))"

fun dlist_remove :: "dl_state \<Rightarrow> ptr \<Rightarrow> dl_state" where
  "dlist_remove (m, l) node =
     (let (m, l) = (if dn_prev (m node) \<noteq> nullptr
                    then (set_next (dn_prev (m node)) (dn_next (m node)) m, l)
                    else (m, l\<lparr>dl_head := dn_next (m node)\<rparr>));
          (m, l) = (if dn_next (m node) \<noteq> nullptr
                    then (set_prev (dn_next (m node)) (dn_prev (m node)) m, l)
                    else (m, l\<lparr>dl_tail := dn_prev (m node)\<rparr>));
          m = set_prev node nullptr (set_next node nullptr m)
      in (m, l\<lparr>dl_count := dl_count l - 1\<rparr>))"

definition dlist_empty :: "dl_state \<Rightarrow> bool" where
  "dlist_empty s \<longleftrightarrow> dl_head (snd s) = nullptr"

definition dlist_first :: "dl_state \<Rightarrow> ptr" where
  "dlist_first s = dl_head (snd s)"

definition dlist_last :: "dl_state \<Rightarrow> ptr" where
  "dlist_last s = dl_tail (snd s)"

definition dlist_next :: "dl_state \<Rightarrow> ptr \<Rightarrow> ptr" where
  "dlist_next s node = dn_next (fst s node)"

definition dlist_prev :: "dl_state \<Rightarrow> ptr \<Rightarrow> ptr" where
  "dlist_prev s node = dn_prev (fst s node)"

section \<open>The chain invariant and the view as a list\<close>

definition hd_or :: "ptr \<Rightarrow> ptr list \<Rightarrow> ptr" where
  "hd_or q xs = (case xs of [] \<Rightarrow> q | x # _ \<Rightarrow> x)"

definition last_or :: "ptr \<Rightarrow> ptr list \<Rightarrow> ptr" where
  "last_or p xs = (if xs = [] then p else last xs)"

fun links :: "nodes \<Rightarrow> ptr \<Rightarrow> ptr list \<Rightarrow> ptr \<Rightarrow> bool" where
  "links m p [] q = True"
| "links m p (x # xs) q \<longleftrightarrow>
     dn_prev (m x) = p \<and> dn_next (m x) = hd_or q xs \<and> links m x xs q"

fun dlist_rep :: "dl_state \<Rightarrow> ptr list \<Rightarrow> bool" where
  "dlist_rep (m, l) xs \<longleftrightarrow>
     distinct xs \<and> nullptr \<notin> set xs \<and> length xs < 2 ^ 64 \<and>
     dl_head l = hd_or nullptr xs \<and> dl_tail l = last_or nullptr xs \<and>
     dl_count l = word_of_nat (length xs) \<and> links m nullptr xs nullptr"

fun dlist_walk :: "nodes \<Rightarrow> nat \<Rightarrow> ptr \<Rightarrow> ptr list" where
  "dlist_walk m 0 p = []"
| "dlist_walk m (Suc n) p = (if p = nullptr then [] else p # dlist_walk m n (dn_next (m p)))"

definition dlist_view :: "dl_state \<Rightarrow> ptr list" where
  "dlist_view s = dlist_walk (fst s) (unat (dl_count (snd s))) (dl_head (snd s))"

definition dlist_inv :: "dl_state \<Rightarrow> bool" where
  "dlist_inv s \<longleftrightarrow> dlist_rep s (dlist_view s)"

lemma hd_or_simps [simp]: "hd_or q [] = q" "hd_or q (x # xs) = x"
  by (simp_all add: hd_or_def)

lemma hd_or_append: "hd_or q (xs @ ys) = hd_or (hd_or q ys) xs"
  by (simp add: hd_or_def split: list.split)

lemma last_or_simps [simp]:
  "last_or p [] = p" "last_or p (x # xs) = last_or x xs" "last_or p (xs @ [x]) = x"
  by (simp_all add: last_or_def)

lemma last_or_append: "last_or p (xs @ ys) = last_or (last_or p xs) ys"
  by (simp add: last_or_def)

lemma last_or_in: "xs \<noteq> [] \<Longrightarrow> last_or p xs \<in> set xs"
  by (simp add: last_or_def)

lemma hd_or_in: "xs \<noteq> [] \<Longrightarrow> hd_or p xs \<in> set xs"
  by (cases xs) auto

lemma hd_or_neq: "y \<notin> set xs \<Longrightarrow> y \<noteq> q \<Longrightarrow> hd_or q xs \<noteq> y"
  by (cases xs) auto

lemma last_or_neq: "y \<notin> set xs \<Longrightarrow> y \<noteq> q \<Longrightarrow> last_or q xs \<noteq> y"
  by (auto simp: last_or_def)

lemma links_append:
  "links m p (xs @ ys) q \<longleftrightarrow> links m p xs (hd_or q ys) \<and> links m (last_or p xs) ys q"
  by (induction xs arbitrary: p) (auto simp: hd_or_append)

lemma links_frame [frame_simps]:
  "(\<forall>y \<in> set xs. m' y = m y) \<Longrightarrow> links m' p xs q = links m p xs q"
  by (induction xs arbitrary: p) auto

lemma links_upd_other [frame_simps]:
  "y \<notin> set xs \<Longrightarrow> links (m(y := v)) p xs q = links m p xs q"
  by (rule links_frame) auto

text \<open>Changing the entry's predecessor link, or the last node's successor link.\<close>

lemma links_set_first_prev:
  assumes "links m p (x # xs) q" and "x \<notin> set xs"
  shows "links (set_prev x p' m) p' (x # xs) q"
  using assms by (simp add: set_prev_def frame_simps)

lemma links_set_last_next:
  assumes "links m p (xs @ [x]) q" and "x \<notin> set xs"
  shows "links (set_next x q' m) p (xs @ [x]) q'"
  using assms by (simp add: links_append set_next_def frame_simps)

lemma dlist_walk_links:
  assumes "links m p xs nullptr" and "nullptr \<notin> set xs"
  shows "dlist_walk m (length xs) (hd_or nullptr xs) = xs"
  using assms by (induction xs arbitrary: p) auto

lemma dlist_view_eq [view_simps]: "dlist_rep s xs \<Longrightarrow> dlist_view s = xs"
  by (cases s)
     (auto simp: dlist_view_def unat_word_of_nat_id dlist_walk_links)

lemma dlist_inv_iff: "dlist_inv s \<longleftrightarrow> (\<exists>xs. dlist_rep s xs)"
  unfolding dlist_inv_def by (auto simp: dlist_view_eq)

lemma dlist_repI: "dlist_inv s \<Longrightarrow> dlist_rep s (dlist_view s)"
  by (simp add: dlist_inv_def)

lemma dlist_rep_viewI: "dlist_rep s xs \<Longrightarrow> dlist_inv s \<and> dlist_view s = xs"
  by (auto simp: dlist_inv_iff dlist_view_eq)


section \<open>Every operation acts on the view as on a list\<close>

lemma dlist_rep_init: "dlist_rep (dlist_init m) []"
  by (simp add: dlist_init_def)

lemma dlist_rep_insert_tail:
  assumes "dlist_rep s xs" and "x \<notin> set xs" and "x \<noteq> nullptr" and "Suc (length xs) < 2 ^ 64"
  shows "dlist_rep (dlist_insert_tail s x) (xs @ [x])"
proof (cases s)
  case (Pair m l)
  show ?thesis
  proof (cases xs rule: rev_cases)
    case Nil
    with assms Pair show ?thesis by (simp add: set_next_def set_prev_def)
  next
    case (snoc ys y)
    with assms Pair show ?thesis
      by (auto simp: links_append set_next_def set_prev_def frame_simps hd_or_append
          last_or_append)
  qed
qed

lemma dlist_rep_insert_head:
  assumes "dlist_rep s xs" and "x \<notin> set xs" and "x \<noteq> nullptr" and "Suc (length xs) < 2 ^ 64"
  shows "dlist_rep (dlist_insert_head s x) (x # xs)"
proof (cases s)
  case (Pair m l)
  show ?thesis
  proof (cases xs)
    case Nil
    with assms Pair show ?thesis by (simp add: set_next_def set_prev_def)
  next
    case (Cons y ys)
    with assms Pair show ?thesis
      by (auto simp: set_next_def set_prev_def frame_simps)
  qed
qed

lemma dlist_rep_insert_after:
  assumes "dlist_rep s (as @ pos # bs)" and "x \<notin> set (as @ pos # bs)" and "x \<noteq> nullptr"
    and "Suc (length (as @ pos # bs)) < 2 ^ 64"
  shows "dlist_rep (dlist_insert_after s pos x) (as @ pos # x # bs)"
proof (cases s)
  case (Pair m l)
  show ?thesis
  proof (cases bs)
    case Nil
    with assms Pair show ?thesis
      by (auto simp: links_append set_next_def set_prev_def frame_simps hd_or_append
          last_or_append)
  next
    case (Cons b bs')
    with assms Pair show ?thesis
      by (auto simp: links_append set_next_def set_prev_def frame_simps hd_or_append
          last_or_append)
  qed
qed

lemma dlist_rep_insert_before:
  assumes "dlist_rep s (as @ pos # bs)" and "x \<notin> set (as @ pos # bs)" and "x \<noteq> nullptr"
    and "Suc (length (as @ pos # bs)) < 2 ^ 64"
  shows "dlist_rep (dlist_insert_before s pos x) (as @ x # pos # bs)"
proof (cases s)
  case (Pair m l)
  show ?thesis
  proof (cases as rule: rev_cases)
    case Nil
    with assms Pair show ?thesis
      by (auto simp: links_append set_next_def set_prev_def frame_simps)
  next
    case (snoc as' a)
    with assms Pair show ?thesis
      by (auto simp: links_append set_next_def set_prev_def frame_simps hd_or_append
          last_or_append)
  qed
qed

lemma dlist_rep_remove:
  assumes "dlist_rep s (as @ x # bs)"
  shows "dlist_rep (dlist_remove s x) (as @ bs)"
proof (cases s)
  case (Pair m l)
  show ?thesis
  proof (cases as rule: rev_cases; cases bs)
    fix as' a b bs'
    assume "as = as' @ [a]" and "bs = b # bs'"
    with assms Pair show ?thesis
      by (auto simp: links_append set_next_def set_prev_def frame_simps hd_or_append
          last_or_append)
  next
    fix as' a
    assume "as = as' @ [a]" and "bs = []"
    with assms Pair show ?thesis
      by (auto simp: links_append set_next_def set_prev_def frame_simps hd_or_append
          last_or_append)
  next
    fix b bs'
    assume "as = []" and "bs = b # bs'"
    with assms Pair show ?thesis
      by (auto simp: set_next_def set_prev_def frame_simps)
  next
    assume "as = []" and "bs = []"
    with assms Pair show ?thesis
      by (auto simp: set_next_def set_prev_def)
  qed
qed

lemma dlist_rep_next:
  assumes "dlist_rep s (as @ x # bs)"
  shows "dlist_next s x = hd_or nullptr bs" and "dlist_prev s x = last_or nullptr as"
  using assms by (cases s; simp add: dlist_next_def dlist_prev_def links_append)+


section \<open>The contract of the list\<close>

text \<open>What a client of the queue relies on. The size bound keeps the 64-bit count exact.\<close>

locale node_queue =
  fixes inv :: "'s \<Rightarrow> bool"
    and view :: "'s \<Rightarrow> ptr list"
    and ins_head :: "'s \<Rightarrow> ptr \<Rightarrow> 's"
    and ins_tail :: "'s \<Rightarrow> ptr \<Rightarrow> 's"
    and rem :: "'s \<Rightarrow> ptr \<Rightarrow> 's"
    and first :: "'s \<Rightarrow> ptr"
    and succ :: "'s \<Rightarrow> ptr \<Rightarrow> ptr"
  assumes nodes: "inv s \<Longrightarrow> distinct (view s) \<and> nullptr \<notin> set (view s)"
    and ins_head: "inv s \<Longrightarrow> x \<notin> set (view s) \<Longrightarrow> x \<noteq> nullptr \<Longrightarrow>
      Suc (length (view s)) < 2 ^ 64 \<Longrightarrow> inv (ins_head s x) \<and> view (ins_head s x) = x # view s"
    and ins_tail: "inv s \<Longrightarrow> x \<notin> set (view s) \<Longrightarrow> x \<noteq> nullptr \<Longrightarrow>
      Suc (length (view s)) < 2 ^ 64 \<Longrightarrow> inv (ins_tail s x) \<and> view (ins_tail s x) = view s @ [x]"
    and rem: "inv s \<Longrightarrow> x \<in> set (view s) \<Longrightarrow> inv (rem s x) \<and> view (rem s x) = remove1 x (view s)"
    and size_bound: "inv s \<Longrightarrow> length (view s) < 2 ^ 64"
    and first: "inv s \<Longrightarrow> first s = hd_or nullptr (view s)"
    and succ: "inv s \<Longrightarrow> view s = as @ x # bs \<Longrightarrow> succ s x = hd_or nullptr bs"
begin

lemma first_null_iff: "inv s \<Longrightarrow> first s = nullptr \<longleftrightarrow> view s = []"
  using nodes [of s] by (cases "view s") (auto simp: first)

lemma first_hd: "inv s \<Longrightarrow> view s \<noteq> [] \<Longrightarrow> first s = hd (view s) \<and> first s \<in> set (view s)"
  by (cases "view s") (auto simp: first)

lemma touch:
  assumes "inv s" and "x \<in> set (view s)"
  shows "inv (ins_tail (rem s x) x) \<and> view (ins_tail (rem s x) x) = remove1 x (view s) @ [x]"
proof -
  have r: "inv (rem s x)" "view (rem s x) = remove1 x (view s)"
    using rem [OF assms] by auto
  have "x \<notin> set (remove1 x (view s))" "x \<noteq> nullptr"
    using nodes [OF assms(1)] assms(2) by (auto intro: gr0I)
  moreover have "Suc (length (remove1 x (view s))) < 2 ^ 64"
    using size_bound [OF assms(1)] assms(2)
    by (simp add: length_remove1)
  ultimately show ?thesis using ins_tail [OF r(1), of x] r(2) by simp
qed

lemma rotate_first:
  assumes "inv s" and "view s \<noteq> []"
  shows "inv (ins_tail (rem s (first s)) (first s)) \<and>
    view (ins_tail (rem s (first s)) (first s)) = rotate1 (view s)"
  using touch [OF assms(1), of "first s"] first_hd [OF assms] assms(2)
  by (cases "view s") auto

lemma fifo:
  assumes "inv s" and "x \<notin> set (view s)" and "x \<noteq> nullptr" and "Suc (length (view s)) < 2 ^ 64"
    and "view s \<noteq> []"
  shows "first (ins_tail s x) = first s"
proof -
  have "inv (ins_tail s x)" "view (ins_tail s x) = view s @ [x]"
    using ins_tail assms by blast+
  then show ?thesis using assms(1,5) by (cases "view s") (auto simp: first)
qed

end

interpretation dq: node_queue dlist_inv dlist_view dlist_insert_head dlist_insert_tail
  dlist_remove dlist_first dlist_next
proof (unfold_locales, goal_cases)
  case (1 s)
  then show ?case by (cases s) (auto simp: dlist_inv_def)
next
  case (2 s x)
  then show ?case
    using dlist_rep_viewI [OF dlist_rep_insert_head [OF dlist_repI]] by blast
next
  case (3 s x)
  then show ?case
    using dlist_rep_viewI [OF dlist_rep_insert_tail [OF dlist_repI]] by blast
next
  case (4 s x)
  then obtain as bs where v: "dlist_view s = as @ x # bs" and "x \<notin> set as"
    by (metis split_list_first)
  then have "dlist_rep (dlist_remove s x) (as @ bs)"
    using dlist_rep_remove [of s as x bs] dlist_repI [OF 4(1)] by simp
  with v \<open>x \<notin> set as\<close> show ?case by (auto dest: dlist_rep_viewI simp: remove1_split)
next
  case (5 s)
  then show ?case by (cases s) (auto simp: dlist_inv_def)
next
  case (6 s)
  then show ?case by (cases s) (auto simp: dlist_inv_def dlist_first_def)
next
  case (7 s as x bs)
  then show ?case using dlist_repI [OF 7(1)] by (simp add: dlist_rep_next)
qed

section \<open>Properties\<close>


definition example_list :: dl_state where
  "example_list = dlist_insert_tail (dlist_insert_tail
     (dlist_init (\<lambda>_. \<lparr>dn_prev = nullptr, dn_next = nullptr\<rparr>)) 3) 5"

lemma example_list_rep: "dlist_rep example_list [3, 5]"
  using dlist_rep_insert_tail [OF dlist_rep_insert_tail [OF dlist_rep_init], of 3 5]
  by (simp add: example_list_def)

lemmas example_list_facts = dlist_rep_viewI [OF example_list_rep]


text \<open>C40: removing a member of a well-formed list unlinks exactly that node, keeps the list well
  formed, and clears the removed node's own links.\<close>

theorem dlist_remove_refines:
  assumes "dlist_inv s" and "x \<in> set (dlist_view s)"
  shows "dlist_inv (dlist_remove s x) \<and> dlist_view (dlist_remove s x) = remove1 x (dlist_view s) \<and>
    dlist_next (dlist_remove s x) x = nullptr \<and> dlist_prev (dlist_remove s x) x = nullptr"
proof -
  have "dlist_next (dlist_remove s x) x = nullptr \<and> dlist_prev (dlist_remove s x) x = nullptr"
    by (cases s)
       (simp add: dlist_next_def dlist_prev_def set_next_def set_prev_def Let_def split: prod.split)
  with dq.rem [OF assms] show ?thesis by blast
qed

theorem dlist_remove_refines_witness:
  "dlist_view (dlist_remove example_list 3) = [5] \<and> dlist_next (dlist_remove example_list 3) 3 = nullptr"
  using dlist_remove_refines [of example_list 3] example_list_facts by simp

end
