(* ===== verification/Net_Buffers.thy ===== *)
theory Net_Buffers
  imports Kernel_Prelude
begin

text \<open>
  Network buffers, \<^verbatim>\<open>src/kernel/drivers/net/core/netbuf.c\<close>. A \<^verbatim>\<open>struct netbuf\<close> is a record with
  its storage (\<open>nb_buf\<close>, of length \<^verbatim>\<open>buf_size\<close>), the offset of \<^verbatim>\<open>data\<close> in it and the number of
  valid bytes; a chain linked by \<^verbatim>\<open>next\<close> is a list of records whose head carries the packet
  header fields. Allocation outcomes are a parameter (\<open>malloc_results\<close>), releasing memory has
  no other effect on the model. The payload of a chain, \<open>chain_bytes\<close>, is the abstract view:
  every operation is proved to act on it as the corresponding list operation, whatever the
  segmentation of the chain.
\<close>

section \<open>Data\<close>

definition NETBUF_SIZE :: nat where "NETBUF_SIZE = 256"
definition NETBUF_CLUSTER_SIZE :: nat where "NETBUF_CLUSTER_SIZE = 2048"
definition NETBUF_HEADROOM :: nat where "NETBUF_HEADROOM = 64"

definition NETBUF_PKTHDR :: u32 where "NETBUF_PKTHDR = 0x0001"
definition NETBUF_EXT :: u32 where "NETBUF_EXT = 0x0002"

lemmas netbuf_consts = NETBUF_SIZE_def NETBUF_CLUSTER_SIZE_def NETBUF_HEADROOM_def

record netbuf =
  nb_buf :: bytes
  nb_off :: nat
  nb_len :: nat
  nb_flags :: u32
  nb_pkt_len :: u64
  nb_rcvif :: ptr
  nb_csum_flags :: u32
  nb_l3_offset :: u16
  nb_l4_offset :: u16

type_synonym chain = "netbuf list"

abbreviation nb_buf_size :: "netbuf \<Rightarrow> nat" where
  "nb_buf_size b \<equiv> length (nb_buf b)"

section \<open>Allocation\<close>

definition netbuf_setup :: "bytes \<Rightarrow> bool \<Rightarrow> netbuf" where
  "netbuf_setup storage pkthdr =
     \<lparr>nb_buf = storage, nb_off = (if pkthdr then NETBUF_HEADROOM else 0), nb_len = 0,
      nb_flags = (if pkthdr then NETBUF_PKTHDR else 0), nb_pkt_len = 0, nb_rcvif = nullptr,
      nb_csum_flags = 0, nb_l3_offset = 0, nb_l4_offset = 0\<rparr>"

definition netbuf_alloc_sized ::
  "malloc_results \<Rightarrow> nat \<Rightarrow> bool \<Rightarrow> netbuf option \<times> malloc_results" where
  "netbuf_alloc_sized os sz pkthdr =
     (case malloc_bytes os sz of
        (None, os) \<Rightarrow> (None, os)
      | (Some storage, os) \<Rightarrow> (Some (netbuf_setup storage pkthdr), os))"

definition netbuf_alloc :: "malloc_results \<Rightarrow> bool \<Rightarrow> netbuf option \<times> malloc_results" where
  "netbuf_alloc os pkthdr = netbuf_alloc_sized os NETBUF_SIZE pkthdr"

definition netbuf_alloc_cluster :: "malloc_results \<Rightarrow> bool \<Rightarrow> netbuf option \<times> malloc_results" where
  "netbuf_alloc_cluster os pkthdr = netbuf_alloc_sized os NETBUF_CLUSTER_SIZE pkthdr"

definition netbuf_alloc_fit :: "malloc_results \<Rightarrow> nat \<Rightarrow> bool \<Rightarrow> netbuf option \<times> malloc_results" where
  "netbuf_alloc_fit os len pkthdr =
     (if len \<le> NETBUF_SIZE then netbuf_alloc os pkthdr else netbuf_alloc_cluster os pkthdr)"

text \<open>The loop of \<^verbatim>\<open>netbuf_alloc_packet\<close>: clusters are linked until the room suffices.\<close>

function netbuf_grow_packet ::
  "malloc_results \<Rightarrow> chain \<Rightarrow> nat \<Rightarrow> nat \<Rightarrow> chain option \<times> malloc_results" where
  "netbuf_grow_packet os c room len =
     (if room < len then
        (case netbuf_alloc_cluster os False of
           (None, os) \<Rightarrow> (None, os)
         | (Some nb, os) \<Rightarrow> netbuf_grow_packet os (c @ [nb]) (room + nb_buf_size nb) len)
      else (Some c, os))"
  by pat_completeness auto
termination
  by (relation "measure (\<lambda>(os, c, room, len). len - room)")
     (auto simp: netbuf_alloc_cluster_def netbuf_alloc_sized_def netbuf_setup_def netbuf_consts
       dest!: malloc_bytes_length split: prod.splits option.splits)

definition netbuf_alloc_packet :: "malloc_results \<Rightarrow> nat \<Rightarrow> chain option \<times> malloc_results" where
  "netbuf_alloc_packet os len =
     (case (if len + NETBUF_HEADROOM \<le> NETBUF_SIZE then netbuf_alloc os True
            else netbuf_alloc_cluster os True) of
        (None, os) \<Rightarrow> (None, os)
      | (Some head, os) \<Rightarrow> netbuf_grow_packet os [head] (nb_buf_size head - NETBUF_HEADROOM) len)"

section \<open>Operations on chains\<close>

definition netbuf_trailing_space :: "netbuf \<Rightarrow> nat" where
  "netbuf_trailing_space b = nb_buf_size b - (nb_off b + nb_len b)"

text \<open>\<^verbatim>\<open>netbuf_move_pkthdr(to, from)\<close> returns both buffers. (The packet list link
  \<^verbatim>\<open>next_pkt\<close> belongs to the queue that holds the chain.)\<close>

definition netbuf_move_pkthdr :: "netbuf \<Rightarrow> netbuf \<Rightarrow> netbuf \<times> netbuf" where
  "netbuf_move_pkthdr to from =
     (to\<lparr>nb_flags := (nb_flags to AND NETBUF_EXT) OR (nb_flags from AND NOT NETBUF_EXT) OR NETBUF_PKTHDR,
         nb_pkt_len := nb_pkt_len from, nb_rcvif := nb_rcvif from,
         nb_csum_flags := nb_csum_flags from, nb_l3_offset := nb_l3_offset from,
         nb_l4_offset := nb_l4_offset from\<rparr>,
      from\<lparr>nb_flags := nb_flags from AND NOT NETBUF_PKTHDR\<rparr>)"

fun netbuf_prepend :: "malloc_results \<Rightarrow> chain \<Rightarrow> nat \<Rightarrow> chain option run \<times> malloc_results" where
  "netbuf_prepend os [] len = (Fault, os)"
| "netbuf_prepend os (nb # rest) len =
     (if nb_off nb \<ge> len then
        (Done (Some (nb\<lparr>nb_off := nb_off nb - len, nb_len := nb_len nb + len,
                        nb_pkt_len := nb_pkt_len nb + word_of_nat len\<rparr> # rest)), os)
      else
        (case (if len \<le> NETBUF_CLUSTER_SIZE then netbuf_alloc_fit os len False else (None, os)) of
           (None, os) \<Rightarrow> (Done None, os)
         | (Some head, os) \<Rightarrow>
             (let (head, nb) = netbuf_move_pkthdr head nb;
                  head = head\<lparr>nb_off := nb_buf_size head - len, nb_len := len,
                              nb_pkt_len := nb_pkt_len head + word_of_nat len\<rparr>
              in (Done (Some (head # nb # rest)), os))))"

text \<open>The two loops of \<^verbatim>\<open>netbuf_adj\<close>: dropping from the front (with the count that could not be
  dropped) and cutting the chain after \<open>keep\<close> bytes.\<close>

fun netbuf_adj_front :: "chain \<Rightarrow> nat \<Rightarrow> chain \<times> nat" where
  "netbuf_adj_front [] left = ([], left)"
| "netbuf_adj_front (b # bs) left =
     (if left = 0 then (b # bs, left)
      else let n = min left (nb_len b);
               (bs, left) = netbuf_adj_front bs (left - n)
           in (b\<lparr>nb_off := nb_off b + n, nb_len := nb_len b - n\<rparr> # bs, left))"

fun netbuf_cut_after :: "chain \<Rightarrow> nat \<Rightarrow> chain" where
  "netbuf_cut_after [] keep = []"
| "netbuf_cut_after (b # bs) keep =
     (if nb_len b \<ge> keep \<or> bs = [] then [b\<lparr>nb_len := min keep (nb_len b)\<rparr>]
      else b # netbuf_cut_after bs (keep - nb_len b))"

definition chain_total :: "chain \<Rightarrow> nat" where
  "chain_total c = sum_list (map nb_len c)"

fun set_pkt_len :: "u64 \<Rightarrow> chain \<Rightarrow> chain" where
  "set_pkt_len v [] = []"
| "set_pkt_len v (b # bs) = b\<lparr>nb_pkt_len := v\<rparr> # bs"

fun netbuf_adj :: "chain \<Rightarrow> int \<Rightarrow> chain run" where
  "netbuf_adj [] len = Fault"
| "netbuf_adj (nb # rest) len =
     (if len \<ge> 0 then
        (let (c, left) = netbuf_adj_front (nb # rest) (nat len)
         in Done (set_pkt_len (nb_pkt_len nb - word_of_nat (nat len - left)) c))
      else
        (let total = chain_total (nb # rest);
             trim = nat (- len);
             keep = (if trim < total then total - trim else 0);
             c = netbuf_cut_after (nb # rest) keep
         in Done (set_pkt_len (word_of_nat (total - min trim total)) c)))"

text \<open>The copying loop of \<^verbatim>\<open>netbuf_pullup\<close>, on the head and the rest of the chain.\<close>

fun netbuf_pull :: "netbuf \<Rightarrow> chain \<Rightarrow> nat \<Rightarrow> chain run" where
  "netbuf_pull head [] len = (if nb_len head < len then Fault else Done [head])"
| "netbuf_pull head (rest # bs) len =
     (if nb_len head < len then
        (let n = min (len - nb_len head) (nb_len rest);
             head = head\<lparr>nb_buf := write_at (nb_off head + nb_len head)
                                     (take n (drop (nb_off rest) (nb_buf rest))) (nb_buf head),
                         nb_len := nb_len head + n\<rparr>;
             rest = rest\<lparr>nb_off := nb_off rest + n, nb_len := nb_len rest - n\<rparr>
         in if nb_len rest = 0 then netbuf_pull head bs len
            else Done (head # rest # bs))
      else Done (head # rest # bs))"

fun netbuf_pullup :: "malloc_results \<Rightarrow> chain \<Rightarrow> nat \<Rightarrow> chain option run \<times> malloc_results" where
  "netbuf_pullup os [] len = (Fault, os)"
| "netbuf_pullup os (nb # rest) len =
     (if nb_len nb \<ge> len then (Done (Some (nb # rest)), os)
      else if len > NETBUF_CLUSTER_SIZE \<or> unat (nb_pkt_len nb) < len then (Done None, os)
      else
        (case (if nb_buf_size nb - nb_off nb < len then
                 (case netbuf_alloc_fit os len False of
                    (None, os) \<Rightarrow> (None, os)
                  | (Some head, os) \<Rightarrow>
                      (let (head, nb) = netbuf_move_pkthdr head nb;
                           head = head\<lparr>nb_buf := write_at (nb_off head)
                                         (take (nb_len nb) (drop (nb_off nb) (nb_buf nb))) (nb_buf head),
                                       nb_len := nb_len nb\<rparr>
                       in (Some head, os)))
               else (Some nb, os)) of
           (None, os) \<Rightarrow> (Done None, os)
         | (Some head, os) \<Rightarrow>
             (case netbuf_pull head rest len of
                Fault \<Rightarrow> (Fault, os)
              | Done c \<Rightarrow> (Done (Some c), os))))"


text \<open>\<^verbatim>\<open>netbuf_append\<close>: fill the last buffer, then link clusters while bytes are left.\<close>

function netbuf_append_loop ::
  "malloc_results \<Rightarrow> chain \<Rightarrow> bytes \<Rightarrow> chain \<times> bytes \<times> malloc_results" where
  "netbuf_append_loop os c src =
     (if src = [] then (c, src, os)
      else case netbuf_alloc_cluster os False of
        (None, os) \<Rightarrow> (c, src, os)
      | (Some b, os) \<Rightarrow>
          (let n = min (netbuf_trailing_space b) (length src);
               b = b\<lparr>nb_buf := write_at (nb_off b) (take n src) (nb_buf b), nb_len := n\<rparr>
           in netbuf_append_loop os (c @ [b]) (drop n src)))"
  by pat_completeness auto
termination
  by (relation "measure (\<lambda>(os, c, src). length src)")
     (auto simp: netbuf_alloc_cluster_def netbuf_alloc_sized_def netbuf_setup_def netbuf_consts
       netbuf_trailing_space_def dest!: malloc_bytes_length split: prod.splits option.splits)

fun netbuf_append :: "malloc_results \<Rightarrow> chain \<Rightarrow> bytes \<Rightarrow> (bool \<times> chain) run \<times> malloc_results" where
  "netbuf_append os [] data = (Fault, os)"
| "netbuf_append os (nb # rest) data =
     (let c = nb # rest;
          b = last c;
          n = min (netbuf_trailing_space b) (length data);
          b = b\<lparr>nb_buf := write_at (nb_off b + nb_len b) (take n data) (nb_buf b),
                nb_len := nb_len b + n\<rparr>;
          (c, src, os) = netbuf_append_loop os (butlast c @ [b]) (drop n data);
          c = (if nb_flags nb AND NETBUF_PKTHDR \<noteq> 0
               then set_pkt_len (nb_pkt_len nb + word_of_nat (length data - length src)) c else c)
      in (Done (src = [], c), os))"

fun netbuf_skip :: "chain \<Rightarrow> nat \<Rightarrow> chain \<times> nat" where
  "netbuf_skip [] offset = ([], offset)"
| "netbuf_skip (b # bs) offset =
     (if offset \<ge> nb_len b \<and> offset \<noteq> 0 then netbuf_skip bs (offset - nb_len b)
      else (b # bs, offset))"

fun netbuf_copy_loop :: "chain \<Rightarrow> nat \<Rightarrow> nat \<Rightarrow> bytes" where
  "netbuf_copy_loop [] offset len = []"
| "netbuf_copy_loop (b # bs) offset len =
     (if len = 0 then []
      else let n = min len (nb_len b - offset)
           in take n (drop (nb_off b + offset) (nb_buf b)) @ netbuf_copy_loop bs 0 (len - n))"

text \<open>The bytes \<^verbatim>\<open>netbuf_copydata\<close> writes to \<^verbatim>\<open>out\<close>.\<close>

definition netbuf_copydata :: "chain \<Rightarrow> nat \<Rightarrow> nat \<Rightarrow> bytes" where
  "netbuf_copydata c offset len =
     (let (c, offset) = netbuf_skip c offset in netbuf_copy_loop c offset len)"

text \<open>\<^verbatim>\<open>netbuf_copyback\<close>: the position (how many buffers are passed, the offset in the next),
  the overwriting loop, and the final append.\<close>

fun netbuf_seek :: "chain \<Rightarrow> nat \<Rightarrow> (chain \<times> chain \<times> nat)" where
  "netbuf_seek [] offset = ([], [], offset)"
| "netbuf_seek (b # bs) offset =
     (if offset > nb_len b then
        (let (passed, bs, offset) = netbuf_seek bs (offset - nb_len b) in (b # passed, bs, offset))
      else ([], b # bs, offset))"

fun netbuf_overwrite :: "chain \<Rightarrow> nat \<Rightarrow> bytes \<Rightarrow> chain \<times> bytes" where
  "netbuf_overwrite [] offset src = ([], src)"
| "netbuf_overwrite (b # bs) offset src =
     (if src = [] then (b # bs, src)
      else let n = min (length src) (nb_len b - offset);
               b = b\<lparr>nb_buf := write_at (nb_off b + offset) (take n src) (nb_buf b)\<rparr>;
               (bs, src) = netbuf_overwrite bs 0 (drop n src)
           in (b # bs, src))"

definition netbuf_copyback ::
  "malloc_results \<Rightarrow> chain \<Rightarrow> nat \<Rightarrow> bytes \<Rightarrow> (bool \<times> chain) run \<times> malloc_results" where
  "netbuf_copyback os c offset data =
     (let (passed, bs, offset) = netbuf_seek c offset
      in if bs = [] then (Done (False, c), os)
         else let (bs, src) = netbuf_overwrite bs offset data;
                  c = passed @ bs
              in if src = [] then (Done (True, c), os) else netbuf_append os c src)"

fun netbuf_dup_loop :: "malloc_results \<Rightarrow> chain \<Rightarrow> chain \<Rightarrow> chain option run \<times> malloc_results" where
  "netbuf_dup_loop os copy [] = (Done (Some copy), os)"
| "netbuf_dup_loop os copy (b # bs) =
     (case netbuf_append os copy (take (nb_len b) (drop (nb_off b) (nb_buf b))) of
        (Fault, os) \<Rightarrow> (Fault, os)
      | (Done (False, _), os) \<Rightarrow> (Done None, os)
      | (Done (True, copy), os) \<Rightarrow> netbuf_dup_loop os copy bs)"

fun netbuf_dup :: "malloc_results \<Rightarrow> chain \<Rightarrow> chain option run \<times> malloc_results" where
  "netbuf_dup os [] = (Fault, os)"
| "netbuf_dup os (nb # rest) =
     (case netbuf_alloc_fit os (unat (nb_pkt_len nb + word_of_nat NETBUF_HEADROOM)) True of
        (None, os) \<Rightarrow> (Done None, os)
      | (Some copy, os) \<Rightarrow>
          (case netbuf_dup_loop os [copy] (nb # rest) of
             (Done (Some (h # t)), os) \<Rightarrow>
               (Done (Some (h\<lparr>nb_flags := nb_flags h OR (nb_flags nb AND NOT NETBUF_EXT),
                              nb_rcvif := nb_rcvif nb, nb_csum_flags := nb_csum_flags nb,
                              nb_l3_offset := nb_l3_offset nb, nb_l4_offset := nb_l4_offset nb\<rparr> # t)), os)
           | (r, os) \<Rightarrow> (r, os)))"

text \<open>\<^verbatim>\<open>netbuf_split\<close> returns the shortened chain and the new tail packet.\<close>

fun netbuf_split :: "malloc_results \<Rightarrow> chain \<Rightarrow> nat \<Rightarrow> (chain \<times> chain option) run \<times> malloc_results" where
  "netbuf_split os [] offset = (Fault, os)"
| "netbuf_split os (nb # rest) offset =
     (if offset > unat (nb_pkt_len nb) then (Done (nb # rest, None), os)
      else case netbuf_seek (nb # rest) offset of
        (passed, [], k) \<Rightarrow> (Fault, os)
      | (passed, b # bs, k) \<Rightarrow>
          (case netbuf_alloc_fit os (nb_len b - k + NETBUF_HEADROOM) True of
             (None, os) \<Rightarrow> (Done (nb # rest, None), os)
           | (Some tail, os) \<Rightarrow>
               (case netbuf_append os [tail] (take (nb_len b - k) (drop (nb_off b + k) (nb_buf b))) of
                  (Fault, os) \<Rightarrow> (Fault, os)
                | (Done (False, _), os) \<Rightarrow> (Done (nb # rest, None), os)
                | (Done (True, tail), os) \<Rightarrow>
                    (let tail = tail @ bs;
                         c = passed @ [b\<lparr>nb_len := k\<rparr>];
                         tail = (case tail of [] \<Rightarrow> [] | t # ts \<Rightarrow> t\<lparr>nb_rcvif := nb_rcvif nb\<rparr> # ts);
                         tail = set_pkt_len (nb_pkt_len nb - word_of_nat offset) tail;
                         c = set_pkt_len (word_of_nat offset) c
                     in (Done (c, Some tail), os)))))"

definition netbuf_cat :: "chain \<Rightarrow> chain \<Rightarrow> chain" where
  "netbuf_cat nb tail =
     (case tail of [] \<Rightarrow> nb
      | t # ts \<Rightarrow> nb @ t\<lparr>nb_flags := nb_flags t AND NOT NETBUF_PKTHDR\<rparr> # ts)"

declare netbuf_grow_packet.simps [simp del] netbuf_append_loop.simps [simp del]


section \<open>The payload view and well-formed chains\<close>

definition nb_bytes :: "netbuf \<Rightarrow> bytes" where
  "nb_bytes b = take (nb_len b) (drop (nb_off b) (nb_buf b))"

definition chain_bytes :: "chain \<Rightarrow> bytes" where
  "chain_bytes c = concat (map nb_bytes c)"

definition nb_wf :: "netbuf \<Rightarrow> bool" where
  "nb_wf b \<longleftrightarrow> nb_off b + nb_len b \<le> nb_buf_size b"

definition chain_wf :: "chain \<Rightarrow> bool" where
  "chain_wf c \<longleftrightarrow> (\<forall>b \<in> set c. nb_wf b)"

text \<open>A packet: a non-empty well-formed chain whose header carries the total length.\<close>

definition pkt_wf :: "chain \<Rightarrow> bool" where
  "pkt_wf c \<longleftrightarrow> c \<noteq> [] \<and> chain_wf c \<and> chain_total c < 2 ^ 64 \<and>
     nb_pkt_len (hd c) = word_of_nat (chain_total c)"

lemma chain_bytes_simps [simp, view_simps]:
  "chain_bytes [] = []" "chain_bytes (b # c) = nb_bytes b @ chain_bytes c"
  "chain_bytes (c @ d) = chain_bytes c @ chain_bytes d"
  by (simp_all add: chain_bytes_def)

lemma chain_total_simps [simp]:
  "chain_total [] = 0" "chain_total (b # c) = nb_len b + chain_total c"
  "chain_total (c @ d) = chain_total c + chain_total d"
  by (simp_all add: chain_total_def)

lemma chain_wf_simps [simp]:
  "chain_wf []" "chain_wf (b # c) \<longleftrightarrow> nb_wf b \<and> chain_wf c"
  "chain_wf (c @ d) \<longleftrightarrow> chain_wf c \<and> chain_wf d"
  by (auto simp: chain_wf_def)

lemma length_nb_bytes [simp]: "nb_wf b \<Longrightarrow> length (nb_bytes b) = nb_len b"
  by (simp add: nb_bytes_def nb_wf_def)

lemma length_chain_bytes [simp]: "chain_wf c \<Longrightarrow> length (chain_bytes c) = chain_total c"
  by (induction c) auto

lemma set_pkt_len_view [simp]:
  "chain_bytes (set_pkt_len v c) = chain_bytes c"
  "chain_total (set_pkt_len v c) = chain_total c"
  "chain_wf (set_pkt_len v c) = chain_wf c"
  "set_pkt_len v c = [] \<longleftrightarrow> c = []"
  "c \<noteq> [] \<Longrightarrow> nb_pkt_len (hd (set_pkt_len v c)) = v"
  by (cases c; simp add: nb_bytes_def nb_wf_def)+

lemma nb_hdr_update [simp]:
  "nb_bytes (b\<lparr>nb_flags := f\<rparr>) = nb_bytes b" "nb_wf (b\<lparr>nb_flags := f\<rparr>) = nb_wf b"
  "nb_bytes (b\<lparr>nb_rcvif := r\<rparr>) = nb_bytes b" "nb_wf (b\<lparr>nb_rcvif := r\<rparr>) = nb_wf b"
  "nb_bytes (b\<lparr>nb_pkt_len := p\<rparr>) = nb_bytes b" "nb_wf (b\<lparr>nb_pkt_len := p\<rparr>) = nb_wf b"
  "nb_bytes (b\<lparr>nb_csum_flags := cf\<rparr>) = nb_bytes b" "nb_wf (b\<lparr>nb_csum_flags := cf\<rparr>) = nb_wf b"
  "nb_bytes (b\<lparr>nb_l3_offset := o3\<rparr>) = nb_bytes b" "nb_wf (b\<lparr>nb_l3_offset := o3\<rparr>) = nb_wf b"
  "nb_bytes (b\<lparr>nb_l4_offset := o4\<rparr>) = nb_bytes b" "nb_wf (b\<lparr>nb_l4_offset := o4\<rparr>) = nb_wf b"
  by (simp_all add: nb_bytes_def nb_wf_def)

lemma pkt_wfI:
  "c \<noteq> [] \<Longrightarrow> chain_wf c \<Longrightarrow> chain_total c < 2 ^ 64 \<Longrightarrow>
   nb_pkt_len (hd c) = word_of_nat (chain_total c) \<Longrightarrow> pkt_wf c"
  by (simp add: pkt_wf_def)

lemma pkt_wfD:
  assumes "pkt_wf c"
  shows "c \<noteq> []" "chain_wf c" "chain_total c < 2 ^ 64"
    "nb_pkt_len (hd c) = word_of_nat (chain_total c)" "length (chain_bytes c) = chain_total c"
    "unat (nb_pkt_len (hd c)) = length (chain_bytes c)"
  using assms by (auto simp: pkt_wf_def unat_word_of_nat_id)

lemma nb_drop_front:
  assumes "nb_wf b" and "n \<le> nb_len b"
  shows "nb_wf (b\<lparr>nb_off := nb_off b + n, nb_len := nb_len b - n\<rparr>)"
    and "nb_bytes (b\<lparr>nb_off := nb_off b + n, nb_len := nb_len b - n\<rparr>) = drop n (nb_bytes b)"
  using assms by (simp_all add: nb_wf_def nb_bytes_def drop_take add.commute)

lemma nb_cut:
  assumes "nb_wf b" and "k \<le> nb_len b"
  shows "nb_wf (b\<lparr>nb_len := k\<rparr>)" and "nb_bytes (b\<lparr>nb_len := k\<rparr>) = take k (nb_bytes b)"
  using assms by (simp_all add: nb_wf_def nb_bytes_def min_def)

lemma nb_extend:
  assumes "nb_wf b" and "nb_off b + nb_len b + length src \<le> nb_buf_size b"
  defines "b' \<equiv> b\<lparr>nb_buf := write_at (nb_off b + nb_len b) src (nb_buf b), nb_len := nb_len b + length src\<rparr>"
  shows "nb_wf b'" and "nb_bytes b' = nb_bytes b @ src"
  using assms by (simp_all add: nb_wf_def nb_bytes_def b'_def write_at_def drop_append take_drop add.commute)

section \<open>Lemmas for the loops\<close>

lemma adj_front_spec:
  assumes "chain_wf c"
  shows "\<exists>c'. netbuf_adj_front c n = (c', n - chain_total c) \<and> chain_wf c' \<and>
    chain_bytes c' = drop n (chain_bytes c) \<and> (c' = [] \<longleftrightarrow> c = []) \<and>
    chain_total c' = chain_total c - n"
  using assms
proof (induction c arbitrary: n)
  case Nil
  then show ?case by simp
next
  case (Cons b c)
  let ?n = "min n (nb_len b)"
  from Cons obtain c' where "netbuf_adj_front c (n - ?n) = (c', n - ?n - chain_total c)"
    "chain_wf c'" "chain_bytes c' = drop (n - ?n) (chain_bytes c)"
    "chain_total c' = chain_total c - (n - ?n)"
    by force
  with Cons.prems show ?case
    using nb_drop_front [of b ?n] by (cases "n \<le> nb_len b") (auto simp: min_def Let_def)
qed

lemma cut_after_spec:
  assumes "chain_wf c" and "c \<noteq> []"
  shows "chain_wf (netbuf_cut_after c k) \<and> netbuf_cut_after c k \<noteq> [] \<and>
    chain_bytes (netbuf_cut_after c k) = take k (chain_bytes c) \<and>
    chain_total (netbuf_cut_after c k) = min k (chain_total c)"
  using assms
proof (induction c arbitrary: k)
  case Nil
  then show ?case by simp
next
  case (Cons b c)
  show ?case
  proof (cases "nb_len b \<ge> k \<or> c = []")
    case True
    with Cons.prems nb_cut [of b "min k (nb_len b)"] show ?thesis by (auto simp: min_def)
  next
    case False
    with Cons.prems Cons.IH [of "k - nb_len b"] show ?thesis by auto
  qed
qed

lemma pull_spec:
  assumes "nb_wf head" and "chain_wf rest" and "nb_off head + len \<le> nb_buf_size head"
    and "len \<le> nb_len head + chain_total rest"
  shows "\<exists>h t. netbuf_pull head rest len = Done (h # t) \<and> chain_wf (h # t) \<and> len \<le> nb_len h \<and>
    chain_bytes (h # t) = nb_bytes head @ chain_bytes rest \<and> nb_pkt_len h = nb_pkt_len head \<and>
    chain_total (h # t) = nb_len head + chain_total rest"
  using assms
proof (induction rest arbitrary: head)
  case Nil
  then show ?case by auto
next
  case (Cons r rest)
  show ?case
  proof (cases "nb_len head < len")
    case False
    with Cons.prems show ?thesis by auto
  next
    case True
    let ?n = "min (len - nb_len head) (nb_len r)"
    let ?src = "take ?n (drop (nb_off r) (nb_buf r))"
    let ?h = "head\<lparr>nb_buf := write_at (nb_off head + nb_len head) ?src (nb_buf head),
                    nb_len := nb_len head + ?n\<rparr>"
    let ?r = "r\<lparr>nb_off := nb_off r + ?n, nb_len := nb_len r - ?n\<rparr>"
    have len_src: "length ?src = ?n" using Cons.prems(2) by (auto simp: nb_wf_def min_def)
    have src: "?src = take ?n (nb_bytes r)" by (simp add: nb_bytes_def)
    have h: "nb_wf ?h" "nb_bytes ?h = nb_bytes head @ ?src" "nb_buf_size ?h = nb_buf_size head"
      using nb_extend [of head ?src] Cons.prems len_src True by auto
    have r: "nb_wf ?r" "nb_bytes ?r = drop ?n (nb_bytes r)"
      using nb_drop_front [of r ?n] Cons.prems(2) by auto
    show ?thesis
    proof (cases "nb_len r - ?n = 0")
      case True
      then have "nb_bytes ?h = nb_bytes head @ nb_bytes r"
        using h(2) src Cons.prems(2) by simp
      with True \<open>nb_len head < len\<close> Cons.prems Cons.IH [of ?h] h show ?thesis by (auto simp: Let_def)
    next
      case False
      then show ?thesis
        using \<open>nb_len head < len\<close> Cons.prems h r src by (auto simp: Let_def)
    qed
  qed
qed


lemma alloc_sized_Some:
  assumes "netbuf_alloc_sized os n pkthdr = (Some b, os')"
  shows "nb_buf_size b = n" "nb_len b = 0" "nb_off b = (if pkthdr then NETBUF_HEADROOM else 0)"
    "nb_flags b = (if pkthdr then NETBUF_PKTHDR else 0)" "nb_pkt_len b = 0"
  using assms
  by (auto simp: netbuf_alloc_sized_def netbuf_setup_def dest: malloc_bytes_length
      split: prod.splits option.splits)

lemma alloc_fit_Some:
  assumes "netbuf_alloc_fit os len pkthdr = (Some b, os')"
  shows "nb_len b = 0" "nb_off b = (if pkthdr then NETBUF_HEADROOM else 0)"
    "nb_flags b = (if pkthdr then NETBUF_PKTHDR else 0)" "nb_pkt_len b = 0"
    "len \<le> NETBUF_CLUSTER_SIZE \<Longrightarrow> len \<le> nb_buf_size b" "nb_buf_size b \<ge> NETBUF_SIZE" "nb_wf b"
    "nb_bytes b = []"
  using assms
  by (auto simp: netbuf_alloc_fit_def netbuf_alloc_def netbuf_alloc_cluster_def netbuf_consts
      nb_wf_def nb_bytes_def alloc_sized_Some split: if_splits)

lemma nb_fill_empty:
  assumes "nb_len b = 0" and "nb_wf b" and "length src \<le> netbuf_trailing_space b"
  defines "b' \<equiv> b\<lparr>nb_buf := write_at (nb_off b) src (nb_buf b), nb_len := length src\<rparr>"
  shows "nb_wf b'" and "nb_bytes b' = src"
  using nb_extend [of b src] assms by (simp_all add: netbuf_trailing_space_def nb_wf_def nb_bytes_def)

lemma append_loop_spec:
  assumes "chain_wf c" and "netbuf_append_loop os c src = (c', src', os')"
  shows "\<exists>d ys. c' = c @ d \<and> src = ys @ src' \<and> chain_wf d \<and> chain_bytes d = ys"
  using assms
proof (induction os c src rule: netbuf_append_loop.induct)
  case (1 os c src)
  show ?case
  proof (cases "src = []")
    case True
    with "1.prems" show ?thesis by (simp add: netbuf_append_loop.simps)
  next
    case False
    obtain r os1 where a: "netbuf_alloc_cluster os False = (r, os1)" by force
    show ?thesis
    proof (cases r)
      case None
      with False a "1.prems" show ?thesis by (simp add: netbuf_append_loop.simps)
    next
      case (Some b)
      let ?n = "min (netbuf_trailing_space b) (length src)"
      let ?b = "b\<lparr>nb_buf := write_at (nb_off b) (take ?n src) (nb_buf b), nb_len := ?n\<rparr>"
      have "nb_wf b" "nb_len b = 0"
        using alloc_sized_Some [of os NETBUF_CLUSTER_SIZE False b os1] a Some
        by (auto simp: netbuf_alloc_cluster_def nb_wf_def)
      then have b: "nb_wf ?b" "nb_bytes ?b = take ?n src"
        using nb_fill_empty [of b "take ?n src"]
        by (cases "netbuf_trailing_space b \<le> length src"; simp)+
      with False a Some "1.prems" "1.IH" [of "Some b" os1 b ?n ?b]
      obtain d ys where "c' = (c @ [?b]) @ d" "drop ?n src = ys @ src'" "chain_wf d" "chain_bytes d = ys"
        by (auto simp: netbuf_append_loop.simps [of os c src] Let_def)
      with b have "c' = c @ (?b # d) \<and> src = (take ?n src @ ys) @ src' \<and> chain_wf (?b # d) \<and>
          chain_bytes (?b # d) = take ?n src @ ys"
        by (metis append.assoc append_Cons append_Nil append_take_drop_id chain_bytes_simps(2)
            chain_wf_simps(2))
      then show ?thesis by blast
    qed
  qed
qed

lemma append_loop_all:
  assumes "netbuf_append_loop os c src = (c', src', os')"
    and "length src \<le> NETBUF_CLUSTER_SIZE * length os" and "None \<notin> set os"
  shows "src' = []"
  using assms
proof (induction os c src rule: netbuf_append_loop.induct)
  case (1 os c src)
  show ?case
  proof (cases "src = []")
    case True
    with "1.prems" show ?thesis by (simp add: netbuf_append_loop.simps)
  next
    case False
    then obtain g os1 where os: "os = Some g # os1"
      using "1.prems" by (cases os; cases "hd os"; force)
    let ?b = "netbuf_setup (map g [0..<NETBUF_CLUSTER_SIZE]) False"
    have a: "netbuf_alloc_cluster os False = (Some ?b, os1)"
      by (simp add: os netbuf_alloc_cluster_def netbuf_alloc_sized_def)
    let ?n = "min (netbuf_trailing_space ?b) (length src)"
    let ?b' = "?b\<lparr>nb_buf := write_at (nb_off ?b) (take ?n src) (nb_buf ?b), nb_len := ?n\<rparr>"
    have n: "?n = min NETBUF_CLUSTER_SIZE (length src)"
      by (simp add: netbuf_trailing_space_def netbuf_setup_def)
    have loop: "netbuf_append_loop os1 (c @ [?b']) (drop ?n src) = (c', src', os')"
      using "1.prems"(1) False a by (simp add: netbuf_append_loop.simps [of os c src] Let_def)
    have "length (drop ?n src) \<le> NETBUF_CLUSTER_SIZE * length os1" "None \<notin> set os1"
      using "1.prems"(2,3) n os by auto
    with "1.IH" [OF False a [symmetric] refl refl refl] loop show ?thesis by blast
  qed
qed

lemma append_spec:
  assumes "chain_wf (nb # rest)"
  shows "\<exists>ok c os' ys src. netbuf_append os (nb # rest) data = (Done (ok, c), os') \<and>
    data = ys @ src \<and> (ok \<longleftrightarrow> src = []) \<and> c \<noteq> [] \<and> chain_wf c \<and>
    chain_bytes c = chain_bytes (nb # rest) @ ys \<and>
    chain_total c = chain_total (nb # rest) + length ys \<and>
    nb_flags (hd c) = nb_flags nb \<and>
    nb_pkt_len (hd c) = (if nb_flags nb AND NETBUF_PKTHDR \<noteq> 0
      then nb_pkt_len nb + word_of_nat (length ys) else nb_pkt_len nb)"
proof -
  obtain cs b where cs: "nb # rest = cs @ [b]" by (metis rev_exhaust list.distinct(1))
  let ?n = "min (netbuf_trailing_space b) (length data)"
  let ?b = "b\<lparr>nb_buf := write_at (nb_off b + nb_len b) (take ?n data) (nb_buf b),
               nb_len := nb_len b + ?n\<rparr>"
  have wf: "chain_wf cs" "nb_wf b" using assms cs by (metis chain_wf_simps(2,3))+
  have ln: "length (take ?n data) = ?n" by simp
  have "nb_off b + nb_len b + length (take ?n data) \<le> nb_buf_size b"
    using wf(2) by (auto simp: netbuf_trailing_space_def nb_wf_def)
  note b = nb_extend [OF wf(2) this, unfolded ln]
  obtain c src os' where l: "netbuf_append_loop os (cs @ [?b]) (drop ?n data) = (c, src, os')"
    by (metis prod_cases3)
  then obtain d ys where d: "c = (cs @ [?b]) @ d" "drop ?n data = ys @ src" "chain_wf d"
    "chain_bytes d = ys"
    using append_loop_spec [OF _ l] wf b by auto
  define c' where "c' = (if nb_flags nb AND NETBUF_PKTHDR \<noteq> 0
    then set_pkt_len (nb_pkt_len nb + word_of_nat (length data - length src)) c else c)"
  have eq: "netbuf_append os (nb # rest) data = (Done (src = [], c'), os')"
  proof -
    have "last (nb # rest) = b" "butlast (nb # rest) = cs" by (simp_all only: cs last_snoc butlast_snoc)
    then show ?thesis by (subst netbuf_append.simps) (simp only: Let_def l prod.case c'_def)
  qed
  have data: "data = (take ?n data @ ys) @ src" using d(2) by (metis append.assoc append_take_drop_id)
  have len: "length data - length src = length (take ?n data @ ys)"
    by (subst data) simp
  have hd: "c \<noteq> []" "nb_flags (hd c) = nb_flags nb" "nb_pkt_len (hd c) = nb_pkt_len nb"
    using d(1) cs by (cases cs; auto)+
  have v: "chain_wf c" "chain_bytes c = chain_bytes (nb # rest) @ (take ?n data @ ys)"
    using wf b d cs by auto
  then have t: "chain_total c = chain_total (nb # rest) + length (take ?n data @ ys)"
    using length_chain_bytes [of c] length_chain_bytes [OF assms] by simp
  have "c' \<noteq> [] \<and> chain_wf c' \<and> chain_bytes c' = chain_bytes (nb # rest) @ (take ?n data @ ys) \<and>
    chain_total c' = chain_total (nb # rest) + length (take ?n data @ ys) \<and>
    nb_flags (hd c') = nb_flags nb \<and>
    nb_pkt_len (hd c') = (if nb_flags nb AND NETBUF_PKTHDR \<noteq> 0
      then nb_pkt_len nb + word_of_nat (length (take ?n data @ ys)) else nb_pkt_len nb)"
    using hd v t len by (cases c) (auto simp: c'_def)
  with eq data show ?thesis by blast
qed


lemma skip_copy_spec:
  assumes "chain_wf c"
  shows "netbuf_copydata c offset len = take len (drop offset (chain_bytes c))"
proof -
  have loop: "netbuf_copy_loop d k n = take n (drop k (chain_bytes d))"
    if "chain_wf d" and "d = [] \<or> k \<le> nb_len (hd d)" for d k n
    using that
  proof (induction d arbitrary: k n)
    case Nil
    then show ?case by simp
  next
    case (Cons b d)
    have "take m (drop (nb_off b + k) (nb_buf b)) = take m (drop k (nb_bytes b))"
      if "m \<le> nb_len b - k" for m
      using that by (simp add: nb_bytes_def drop_take add.commute min_def)
    with Cons show ?case by (auto simp: min_def Let_def)
  qed
  have skip: "\<exists>d k. netbuf_skip c offset = (d, k) \<and> chain_wf d \<and> (d = [] \<or> k \<le> nb_len (hd d)) \<and>
    drop k (chain_bytes d) = drop offset (chain_bytes c)"
    using assms
    by (induction c arbitrary: offset) auto
  then show ?thesis using loop by (auto simp: netbuf_copydata_def)
qed

lemma seek_spec:
  assumes "chain_wf c" and "netbuf_seek c offset = (passed, bs, k)"
  shows "c = passed @ bs \<and> offset = chain_total passed + k \<and>
    (bs \<noteq> [] \<longrightarrow> k \<le> nb_len (hd bs)) \<and> (bs = [] \<longrightarrow> c = [] \<or> chain_total c < offset)"
  using assms
proof (induction c arbitrary: offset passed)
  case Nil
  then show ?case by simp
next
  case (Cons b c)
  show ?case
  proof (cases "offset > nb_len b")
    case True
    then obtain ps where "netbuf_seek c (offset - nb_len b) = (ps, bs, k)" "passed = b # ps"
      using Cons.prems by (auto split: prod.splits)
    with Cons.IH [of "offset - nb_len b" ps] Cons.prems(1) True show ?thesis by auto
  qed (use Cons.prems in auto)
qed

lemma nb_overwrite:
  assumes "nb_wf b" and "k + length src \<le> nb_len b"
  defines "b' \<equiv> b\<lparr>nb_buf := write_at (nb_off b + k) src (nb_buf b)\<rparr>"
  shows "nb_wf b'" and "nb_bytes b' = write_at k src (nb_bytes b)"
proof -
  show "nb_wf b'" using assms by (simp add: nb_wf_def)
  have "nb_bytes b' = take (nb_len b) (drop (nb_off b) (take (nb_off b + k) (nb_buf b) @ src @
      drop (nb_off b + k + length src) (nb_buf b)))"
    by (simp add: b'_def nb_bytes_def write_at_def)
  also have "\<dots> = take k (drop (nb_off b) (nb_buf b)) @ src @
      take (nb_len b - k - length src) (drop (nb_off b + k + length src) (nb_buf b))"
    using assms(1,2) by (cases "k = nb_len b") (auto simp: nb_wf_def drop_take min_def)
  also have "\<dots> = write_at k src (nb_bytes b)"
    using assms(1,2)
    by (simp add: nb_bytes_def write_at_def nb_wf_def drop_take min_def add.commute add.left_commute)
  finally show "nb_bytes b' = write_at k src (nb_bytes b)" .
qed

lemma overwrite_spec:
  assumes "chain_wf c" and "c \<noteq> [] \<Longrightarrow> k \<le> nb_len (hd c)" and "netbuf_overwrite c k src = (c', src')"
  shows "chain_wf c' \<and> length c' = length c \<and> map nb_len c' = map nb_len c \<and>
    (c \<noteq> [] \<longrightarrow> nb_pkt_len (hd c') = nb_pkt_len (hd c) \<and> nb_flags (hd c') = nb_flags (hd c)) \<and>
    (\<exists>ys. src = ys @ src' \<and> chain_bytes c' = write_at k ys (chain_bytes c) \<and>
      (src' \<noteq> [] \<longrightarrow> k + length ys = chain_total c \<or> c = []) \<and> (c = [] \<longrightarrow> ys = []) \<and>
      (c \<noteq> [] \<longrightarrow> k + length ys \<le> chain_total c))"
  using assms
proof (induction c arbitrary: k src c' src')
  case Nil
  then show ?case by (simp add: write_at_def)
next
  case (Cons b c)
  show ?case
  proof (cases "src = []")
    case True
    with Cons.prems show ?thesis by (auto simp: write_at_def)
  next
    case False
    let ?n = "min (length src) (nb_len b - k)"
    let ?b = "b\<lparr>nb_buf := write_at (nb_off b + k) (take ?n src) (nb_buf b)\<rparr>"
    obtain d where o: "netbuf_overwrite c 0 (drop ?n src) = (d, src')" and c': "c' = ?b # d"
      using Cons.prems(3) False by (auto simp: Let_def split: prod.splits)
    have b: "nb_wf ?b" "nb_bytes ?b = write_at k (take ?n src) (nb_bytes b)"
      using nb_overwrite [of b k "take ?n src"] Cons.prems(1,2) by auto
    from Cons.IH [OF _ _ o] Cons.prems(1) obtain ys where ys:
      "chain_wf d" "length d = length c" "map nb_len d = map nb_len c" "drop ?n src = ys @ src'"
      "chain_bytes d = write_at 0 ys (chain_bytes c)"
      "src' \<noteq> [] \<longrightarrow> length ys = chain_total c \<or> c = []" "c = [] \<longrightarrow> ys = []"
      "c \<noteq> [] \<longrightarrow> length ys \<le> chain_total c"
      by auto
    have full: "ys = [] \<or> ?n = nb_len b - k"
      using ys(4) by (cases "length src \<le> nb_len b - k") auto
    define zs where "zs = take ?n src @ ys"
    have "chain_bytes c' = write_at k zs (chain_bytes (b # c))"
      using full Cons.prems(1,2) c' b ys(5) by (auto simp: write_at_def zs_def)
    moreover have "src = zs @ src'"
      using ys(4) unfolding zs_def by (metis append.assoc append_take_drop_id)
    moreover have "src' \<noteq> [] \<longrightarrow> k + length zs = chain_total (b # c)"
    proof
      assume "src' \<noteq> []"
      then have "?n = nb_len b - k" using ys(4) by (cases "length src \<le> nb_len b - k") auto
      with \<open>src' \<noteq> []\<close> ys(6,7) Cons.prems(2) show "k + length zs = chain_total (b # c)"
        by (cases "c = []") (auto simp: zs_def)
    qed
    moreover have "k + length zs \<le> chain_total (b # c)"
      using ys(7,8) Cons.prems(2) by (cases "c = []") (auto simp: zs_def)
    ultimately show ?thesis using c' b(1) ys(1,2,3) by auto
  qed
qed


lemma append_ok:
  assumes "chain_wf (nb # rest)" and "None \<notin> set os"
    and "length data \<le> NETBUF_CLUSTER_SIZE * length os"
  shows "\<exists>c os'. netbuf_append os (nb # rest) data = (Done (True, c), os')"
proof -
  obtain ok c os' ys src where a: "netbuf_append os (nb # rest) data = (Done (ok, c), os')"
    and ok: "ok \<longleftrightarrow> src = []"
    using append_spec [OF assms(1)] by blast
  define b where "b = last (nb # rest)"
  define n where "n = min (netbuf_trailing_space b) (length data)"
  define b' where "b' = b\<lparr>nb_buf := write_at (nb_off b + nb_len b) (take n data) (nb_buf b),
                nb_len := nb_len b + n\<rparr>"
  obtain c1 src1 os1 where l:
    "netbuf_append_loop os (butlast (nb # rest) @ [b']) (drop n data) = (c1, src1, os1)"
    by (metis prod_cases3)
  have "src1 = []" using append_loop_all [OF l] assms(2,3) by simp
  moreover have "ok = (src1 = [])"
    using a l by (simp only: netbuf_append.simps Let_def b_def [symmetric] n_def [symmetric]
        b'_def [symmetric] prod.case) simp
  ultimately show ?thesis using a by simp
qed

lemma append_okD:
  assumes "chain_wf (nb # rest)" and "netbuf_append os (nb # rest) data = (Done (True, c), os')"
  shows "c \<noteq> []" "chain_wf c" "chain_bytes c = chain_bytes (nb # rest) @ data"
    "chain_total c = chain_total (nb # rest) + length data"
    "nb_pkt_len (hd c) = (if nb_flags nb AND NETBUF_PKTHDR \<noteq> 0
      then nb_pkt_len nb + word_of_nat (length data) else nb_pkt_len nb)"
proof -
  obtain ok c1 os1 ys src where a: "netbuf_append os (nb # rest) data = (Done (ok, c1), os1)"
    and b: "data = ys @ src" "ok \<longleftrightarrow> src = []" "c1 \<noteq> []" "chain_wf c1"
      "chain_bytes c1 = chain_bytes (nb # rest) @ ys"
      "chain_total c1 = chain_total (nb # rest) + length ys"
      "nb_pkt_len (hd c1) = (if nb_flags nb AND NETBUF_PKTHDR \<noteq> 0
        then nb_pkt_len nb + word_of_nat (length ys) else nb_pkt_len nb)"
    using append_spec [OF assms(1)] by blast
  have "c1 = c" "ok" using a assms(2) by simp_all
  moreover from this have "ys = data" using b(1,2) by simp
  ultimately show "c \<noteq> []" "chain_wf c" "chain_bytes c = chain_bytes (nb # rest) @ data"
    "chain_total c = chain_total (nb # rest) + length data"
    "nb_pkt_len (hd c) = (if nb_flags nb AND NETBUF_PKTHDR \<noteq> 0
      then nb_pkt_len nb + word_of_nat (length data) else nb_pkt_len nb)"
    using b(3-7) by simp_all
qed

lemma move_pkthdr_view:
  assumes "netbuf_move_pkthdr to from = (to', from')"
  shows "nb_bytes to' = nb_bytes to" "nb_wf to' = nb_wf to" "nb_bytes from' = nb_bytes from"
    "nb_wf from' = nb_wf from" "nb_pkt_len to' = nb_pkt_len from" "nb_len from' = nb_len from"
    "nb_len to' = nb_len to" "nb_off to' = nb_off to" "nb_buf to' = nb_buf to"
    "nb_off from' = nb_off from" "nb_buf from' = nb_buf from"
  using assms by (auto simp: netbuf_move_pkthdr_def nb_bytes_def nb_wf_def)

section \<open>Properties\<close>

lemma netbuf_adj_pkt:
  assumes "pkt_wf c"
  shows "\<exists>c'. netbuf_adj c n = Done c' \<and> pkt_wf c' \<and>
    chain_bytes c' = (if 0 \<le> n then drop (nat n) (chain_bytes c)
                      else take (length (chain_bytes c) - nat (- n)) (chain_bytes c))"
proof (cases c)
  case Nil
  with assms show ?thesis by (simp add: pkt_wf_def)
next
  case (Cons nb rest)
  note wf = pkt_wfD [OF assms]
  show ?thesis
  proof (cases "0 \<le> n")
    case True
    obtain c' where c': "netbuf_adj_front c (nat n) = (c', nat n - chain_total c)" "chain_wf c'"
      "chain_bytes c' = drop (nat n) (chain_bytes c)" "c' = [] \<longleftrightarrow> c = []"
      "chain_total c' = chain_total c - nat n"
      using adj_front_spec [OF wf(2)] by blast
    have "nb_pkt_len nb - word_of_nat (nat n - (nat n - chain_total c)) =
        (word_of_nat (chain_total c - nat n) :: u64)"
      using wf(4) Cons by (cases "nat n \<le> chain_total c") (auto simp: of_nat_diff)
    then have "netbuf_adj c n = Done (set_pkt_len (word_of_nat (chain_total c - nat n)) c')"
      using c'(1) True unfolding Cons netbuf_adj.simps by (simp only: if_True Let_def prod.case)
    moreover have "pkt_wf (set_pkt_len (word_of_nat (chain_total c - nat n)) c')"
      by (rule pkt_wfI) (use c' wf(1,3) in simp_all)
    ultimately show ?thesis using c'(3) True by simp
  next
    case False
    let ?k = "chain_total c - nat (- n)"
    note k = cut_after_spec [OF wf(2,1), of ?k]
    have k2: "(if nat (- n) < chain_total c then chain_total c - nat (- n) else 0) = ?k"
      "chain_total c - min (nat (- n)) (chain_total c) = ?k"
      by auto
    have "netbuf_adj c n = Done (set_pkt_len (word_of_nat ?k) (netbuf_cut_after c ?k))"
      using False k2 unfolding Cons netbuf_adj.simps by (simp only: if_False Let_def)
    moreover have "pkt_wf (set_pkt_len (word_of_nat ?k) (netbuf_cut_after c ?k))"
      by (rule pkt_wfI) (use k wf(3) in simp_all)
    ultimately show ?thesis using k wf(5) False by simp
  qed
qed

text \<open>C30: trimming a packet. On a well-formed packet \<^verbatim>\<open>netbuf_adj\<close> removes exactly the given number
  of bytes from the front (non-negative argument) or from the end (negative argument), at
  most all of them, over any segmentation of the chain, and leaves a well-formed packet whose
  header length is right.\<close>

theorem netbuf_adj_view:
  assumes "pkt_wf c"
  shows "\<exists>c'. netbuf_adj c n = Done c' \<and> pkt_wf c' \<and>
    chain_bytes c' = (if 0 \<le> n then drop (nat n) (chain_bytes c)
                      else take (length (chain_bytes c) - nat (- n)) (chain_bytes c))"
  by (rule netbuf_adj_pkt [OF assms])

definition example_buf :: "bytes \<Rightarrow> nat \<Rightarrow> netbuf" where
  "example_buf bs off = (netbuf_setup (replicate off 0 @ bs @ replicate 100 0) True)
     \<lparr>nb_off := off, nb_len := length bs\<rparr>"

definition example_pkt :: chain where
  "example_pkt = set_pkt_len 5 [example_buf [1, 2] 4, example_buf [3, 4, 5] 0]"

lemma example_pkt_wf: "pkt_wf example_pkt" and example_pkt_bytes: "chain_bytes example_pkt = [1, 2, 3, 4, 5]"
  by (simp_all add: pkt_wf_def example_pkt_def example_buf_def netbuf_setup_def nb_wf_def nb_bytes_def)

theorem netbuf_adj_view_witness:
  "(\<exists>c'. netbuf_adj example_pkt 3 = Done c' \<and> pkt_wf c' \<and> chain_bytes c' = [4, 5]) \<and>
   (\<exists>c'. netbuf_adj example_pkt (-4) = Done c' \<and> pkt_wf c' \<and> chain_bytes c' = [1])"
  using netbuf_adj_view [OF example_pkt_wf, of 3] netbuf_adj_view [OF example_pkt_wf, of "-4"]
  by (simp add: example_pkt_bytes)






text \<open>C31: splitting a packet. With enough memory, \<^verbatim>\<open>netbuf_split\<close> cuts a packet at any offset up
  to its length into two well-formed packets, and \<^verbatim>\<open>netbuf_cat\<close> of the two has the payload
  of the original.\<close>

theorem netbuf_split_cat:
  assumes "pkt_wf c" and "offset \<le> length (chain_bytes c)" and "None \<notin> set os"
    and "length (chain_bytes c) \<le> NETBUF_CLUSTER_SIZE * (length os - 1)" and "os \<noteq> []"
  shows "\<exists>c1 c2 os'. netbuf_split os c offset = (Done (c1, Some c2), os') \<and> pkt_wf c1 \<and> pkt_wf c2 \<and>
    chain_bytes c1 = take offset (chain_bytes c) \<and> chain_bytes c2 = drop offset (chain_bytes c) \<and>
    chain_bytes (netbuf_cat c1 c2) = chain_bytes c"
proof -
  note wf = pkt_wfD [OF assms(1)]
  obtain nb rest where c: "c = nb # rest" using wf(1) by (cases c) auto
  obtain passed bs k where sk: "netbuf_seek c offset = (passed, bs, k)" by (metis prod_cases3)
  note s = seek_spec [OF wf(2) sk]
  then obtain b bs' where bs: "bs = b # bs'" using assms(2) wf(1,5) by (cases bs) auto
  have "chain_wf (passed @ b # bs')" using wf(2) s bs by metis
  then have wfs: "chain_wf passed" "nb_wf b" "chain_wf bs'" by simp_all
  have k: "k \<le> nb_len b" using s bs by simp
  obtain g os1 where os: "os = Some g # os1" using assms(3,5) by (cases os; cases "hd os"; force)
  have "\<exists>t. netbuf_alloc_fit os n True = (Some t, os1)" for n
    by (simp add: os netbuf_alloc_fit_def netbuf_alloc_def netbuf_alloc_cluster_def netbuf_alloc_sized_def)
  then obtain t where al: "netbuf_alloc_fit os (nb_len b - k + NETBUF_HEADROOM) True = (Some t, os1)"
    by blast
  let ?d = "take (nb_len b - k) (drop (nb_off b + k) (nb_buf b))"
  have d: "?d = drop k (nb_bytes b)" "length ?d = nb_len b - k"
    using wfs(2) k by (simp_all add: nb_bytes_def drop_take add.commute nb_wf_def)
  have "length ?d \<le> NETBUF_CLUSTER_SIZE * length os1"
    using d(2) assms(4) wf(5) s bs os by simp
  then obtain tl os2 where ap: "netbuf_append os1 [t] ?d = (Done (True, tl), os2)"
    using append_ok [of t "[]" os1 ?d] alloc_fit_Some(7) [OF al] assms(3) os by auto
  have tl: "tl \<noteq> []" "chain_wf tl" "chain_bytes tl = ?d"
    using append_okD(1,2,3) [OF _ ap] alloc_fit_Some(7,8) [OF al] by simp_all
  then obtain t0 ts where t0: "tl = t0 # ts" by (cases tl) auto
  define c2 where "c2 = set_pkt_len (nb_pkt_len nb - word_of_nat offset)
     (t0\<lparr>nb_rcvif := nb_rcvif nb\<rparr> # ts @ bs')"
  define c1 where "c1 = set_pkt_len (word_of_nat offset) (passed @ [b\<lparr>nb_len := k\<rparr>])"
  have eq: "netbuf_split os c offset = (Done (c1, Some c2), os2)"
    using sk bs al ap assms(2) wf(6) c t0 by (simp add: c1_def c2_def)
  have cut: "nb_wf (b\<lparr>nb_len := k\<rparr>)" "nb_bytes (b\<lparr>nb_len := k\<rparr>) = take k (nb_bytes b)"
    using nb_cut [OF wfs(2) k] by auto
  have view: "chain_bytes c = chain_bytes passed @ nb_bytes b @ chain_bytes bs'" using s bs by simp
  have lp: "length (chain_bytes passed) = chain_total passed" using wfs(1) by simp
  have c1: "chain_bytes c1 = take offset (chain_bytes c)"
    using cut view lp s wfs(2) k by (simp add: c1_def)
  have c2: "chain_bytes c2 = drop offset (chain_bytes c)" "chain_wf c2" "c2 \<noteq> []"
    "nb_pkt_len (hd c2) = nb_pkt_len nb - word_of_nat offset"
    using tl wfs d view lp s k t0 by (simp_all add: c2_def)
  have "pkt_wf c1"
  proof (rule pkt_wfI)
    have tot: "chain_total c1 = offset" using s by (simp add: c1_def)
    show "chain_total c1 < 2 ^ 64" using wf(3,5) assms(2) tot by simp
    show "nb_pkt_len (hd c1) = word_of_nat (chain_total c1)" unfolding tot by (simp add: c1_def)
  qed (use cut wfs in \<open>simp_all add: c1_def\<close>)
  moreover have "pkt_wf c2"
  proof (rule pkt_wfI)
    have tot: "chain_total c2 = chain_total c - offset"
      using length_chain_bytes [OF c2(2)] c2(1) wf(5) by simp
    show "chain_total c2 < 2 ^ 64" using wf(3) tot by simp
    have "nb_pkt_len nb = word_of_nat (chain_total c)" using wf(4) c by simp
    then show "nb_pkt_len (hd c2) = word_of_nat (chain_total c2)"
      unfolding tot c2(4) using wf(5) assms(2) by (simp add: of_nat_diff)
  qed (use c2 in simp_all)
  moreover have "chain_bytes (netbuf_cat c1 c2) = chain_bytes c1 @ chain_bytes c2"
    by (simp add: netbuf_cat_def split: list.split)
  ultimately show ?thesis using eq c1 c2(1) by auto
qed

theorem netbuf_split_cat_witness:
  "\<exists>c1 c2 os'. netbuf_split [Some (\<lambda>_. 0), Some (\<lambda>_. 0)] example_pkt 3 = (Done (c1, Some c2), os') \<and>
     chain_bytes c1 = [1, 2, 3] \<and> chain_bytes c2 = [4, 5]"
  using netbuf_split_cat [OF example_pkt_wf, of 3 "[Some (\<lambda>_. 0), Some (\<lambda>_. 0)]"] example_pkt_bytes
  by (auto simp: netbuf_consts)

end
