(* ===== verification/Inet_Checksum.thy ===== *)
theory Inet_Checksum
  imports Net_Buffers
begin

text \<open>
  The Internet checksum, \<^verbatim>\<open>src/kernel/drivers/net/core/checksum.c\<close>: sums of 32-bit loads in
  two 64-bit accumulators, folded and byte swapped at the end, over flat buffers and over
  buffer chains whose pieces may start at odd offsets. The reference is RFC 1071: the one's
  complement of the one's complement sum of the 16-bit big-endian words. Sums are compared
  up to one's complement equality \<open>oc_eq\<close>, congruence modulo 65535 that keeps zero apart.
  The machine is little endian (x86-64), as the source's \<^verbatim>\<open>__BYTE_ORDER__\<close> test selects.
\<close>

section \<open>The code\<close>

fun le_nat :: "bytes \<Rightarrow> nat" where
  "le_nat [] = 0"
| "le_nat (b # bs) = unat b + 256 * le_nat bs"

text \<open>\<^verbatim>\<open>memcpy\<close> of the first \<open>n\<close> bytes into a zeroed integer.\<close>

definition load_le :: "nat \<Rightarrow> bytes \<Rightarrow> u64" where
  "load_le n buf = word_of_nat (le_nat (take n buf))"

function inet_fold :: "u64 \<Rightarrow> u16" where
  "inet_fold s =
     (if drop_bit 16 s \<noteq> 0 then inet_fold ((s AND 0xFFFF) + drop_bit 16 s) else ucast s)"
  by pat_completeness auto

function inet_sum_loop :: "u64 \<Rightarrow> u64 \<Rightarrow> bytes \<Rightarrow> u64 \<times> u64 \<times> bytes" where
  "inet_sum_loop s0 s1 buf =
     (if length buf \<ge> 8
      then inet_sum_loop (s0 + load_le 4 buf) (s1 + load_le 4 (drop 4 buf)) (drop 8 buf)
      else (s0, s1, buf))"
  by pat_completeness auto
termination
  by (relation "measure (\<lambda>(s0, s1, buf). length buf)") auto

definition inet_sum_raw :: "bytes \<Rightarrow> u64" where
  "inet_sum_raw buf =
     (let (s0, s1, buf) = inet_sum_loop 0 0 buf;
          (s0, buf) = (if length buf \<ge> 4 then (s0 + load_le 4 buf, drop 4 buf) else (s0, buf));
          (s0, buf) = (if length buf \<ge> 2 then (s0 + load_le 2 buf, drop 2 buf) else (s0, buf));
          s0 = (if length buf \<noteq> 0 then s0 + load_le 1 buf else s0)
      in s0 + s1)"

definition csum_add :: "u64 \<Rightarrow> u64 \<Rightarrow> u64" where
  "csum_add a b = (let a = a + b in a + (if a < b then 1 else 0))"

definition csum_fold :: "u64 \<Rightarrow> u16" where
  "csum_fold s =
     (let s = (s AND 0xFFFFFFFF) + drop_bit 32 s;
          s = (s AND 0xFFFFFFFF) + drop_bit 32 s;
          s = (s AND 0xFFFF) + drop_bit 16 s;
          s = (s AND 0xFFFF) + drop_bit 16 s;
          s = (s AND 0xFFFF) + drop_bit 16 s;
          s = push_bit 8 (s AND 0xFF) OR drop_bit 8 s
      in ucast s)"

definition inet_sum :: "bytes \<Rightarrow> u64" where
  "inet_sum buf = ucast (csum_fold (inet_sum_raw buf))"

section \<open>Folding\<close>

lemma unat_and_lows:
  fixes s :: u64
  shows "unat (s AND 0xFFFF) = unat s mod 65536" "unat (s AND 0xFFFFFFFF) = unat s mod 4294967296"
    "unat (s AND 0xFF) = unat s mod 256"
  using unat_and_mask [of s 16] unat_and_mask [of s 32] unat_and_mask [of s 8]
  by (simp_all add: mask_eq_exp_minus_1)

lemma unat_fold16:
  fixes s :: u64
  shows "unat ((s AND 0xFFFF) + drop_bit 16 s) = unat s mod 65536 + unat s div 65536"
proof -
  have "unat s < 2 ^ 64" using unsigned_less [of s] by simp
  then have "unat s mod 65536 + unat s div 65536 < 2 ^ 64" by auto
  then show ?thesis
    using unat_plus_no_wrap [of "s AND 0xFFFF" "drop_bit 16 s"]
    by (simp only: unat_and_lows unat_drop_bit) simp
qed

lemma unat_fold32:
  fixes s :: u64
  shows "unat ((s AND 0xFFFFFFFF) + drop_bit 32 s) = unat s mod 4294967296 + unat s div 4294967296"
proof -
  have "unat s < 2 ^ 64" using unsigned_less [of s] by simp
  then have "unat s mod 4294967296 + unat s div 4294967296 < 2 ^ 64" by auto
  then show ?thesis
    using unat_plus_no_wrap [of "s AND 0xFFFFFFFF" "drop_bit 32 s"]
    by (simp only: unat_and_lows unat_drop_bit) simp
qed

termination inet_fold
proof (relation "measure unat")
  fix s :: u64
  assume "drop_bit 16 s \<noteq> 0"
  then have "unat (drop_bit 16 s) \<noteq> 0" by (simp only: unat_eq_zero not_False_eq_True)
  then have "unat s div 65536 \<noteq> 0" by (simp add: unat_drop_bit)
  then have "unat s mod 65536 + unat s div 65536 < unat s"
    using div_mult_mod_eq [of "unat s" 65536] by linarith
  then show "(((s AND 0xFFFF) + drop_bit 16 s), s) \<in> measure unat"
    by (simp only: in_measure unat_fold16)
qed simp

declare inet_fold.simps [simp del] inet_sum_loop.simps [simp del]

definition inet_checksum :: "bytes \<Rightarrow> u16" where
  "inet_checksum data = NOT (inet_fold (inet_sum data)) AND 0xFFFF"

text \<open>\<^verbatim>\<open>inet_checksum_netbuf\<close>: skip to the offset, then one part per buffer; a part that starts at
  an odd position of the data is rotated by a byte.\<close>

fun csum_skip :: "chain \<Rightarrow> nat \<Rightarrow> chain \<times> nat" where
  "csum_skip [] offset = ([], offset)"
| "csum_skip (nb # c) offset =
     (if offset \<ge> nb_len nb then csum_skip c (offset - nb_len nb) else (nb # c, offset))"

fun csum_chain :: "u64 \<Rightarrow> bool \<Rightarrow> chain \<Rightarrow> nat \<Rightarrow> nat \<Rightarrow> u64" where
  "csum_chain acc odd_pos [] offset len = acc"
| "csum_chain acc odd_pos (nb # c) offset len =
     (if len > 0 then
        (let n = min len (nb_len nb - offset);
             part = inet_sum_raw (take n (drop (nb_off nb + offset) (nb_buf nb)));
             part = (if odd_pos then push_bit 8 part OR drop_bit 56 part else part)
         in csum_chain (csum_add acc part) (odd_pos \<noteq> odd n) c 0 (len - n))
      else acc)"

definition inet_checksum_netbuf :: "chain \<Rightarrow> nat \<Rightarrow> nat \<Rightarrow> u16" where
  "inet_checksum_netbuf c offset len =
     (let (c, offset) = csum_skip c offset in NOT (csum_fold (csum_chain 0 False c offset len)))"

definition inet_pseudo_checksum4 :: "bytes \<Rightarrow> bytes \<Rightarrow> u8 \<Rightarrow> u16 \<Rightarrow> u32" where
  "inet_pseudo_checksum4 src dst proto len =
     (let s = inet_sum src;
          s = s + inet_sum dst;
          s = s + ucast proto;
          s = s + ucast len
      in ucast (inet_fold s))"

definition inet_pseudo_checksum6 :: "bytes \<Rightarrow> bytes \<Rightarrow> u8 \<Rightarrow> u32 \<Rightarrow> u32" where
  "inet_pseudo_checksum6 src dst next_header len =
     (let s = inet_sum src;
          s = s + inet_sum dst;
          s = s + ucast (drop_bit 16 len);
          s = s + ucast (len AND 0xFFFF);
          s = s + ucast next_header
      in ucast (inet_fold s))"

definition inet_checksum_update :: "u16 \<Rightarrow> u16 \<Rightarrow> u16 \<Rightarrow> u16" where
  "inet_checksum_update checksum old_value new_value =
     (let s = (ucast (NOT checksum) :: u64);
          s = s + ucast (NOT old_value);
          s = s + ucast new_value
      in NOT (inet_fold s) AND 0xFFFF)"

section \<open>One's complement arithmetic\<close>

definition oc_eq :: "nat \<Rightarrow> nat \<Rightarrow> bool" where
  "oc_eq a b \<longleftrightarrow> a mod 65535 = b mod 65535 \<and> (a = 0 \<longleftrightarrow> b = 0)"

text \<open>The 16-bit one's complement representative of a sum (end-around carries added in).\<close>

definition ones_norm :: "nat \<Rightarrow> nat" where
  "ones_norm n = (if n = 0 then 0 else (n - 1) mod 65535 + 1)"

fun be_sum :: "bytes \<Rightarrow> nat" where
  "be_sum [] = 0"
| "be_sum [a] = 256 * unat a"
| "be_sum (a # b # bs) = 256 * unat a + unat b + be_sum bs"

fun le_sum :: "bytes \<Rightarrow> nat" where
  "le_sum [] = 0"
| "le_sum [a] = unat a"
| "le_sum (a # b # bs) = unat a + 256 * unat b + le_sum bs"

lemma oc_eq_refl [simp]: "oc_eq a a"
  by (simp add: oc_eq_def)

lemma oc_eq_sym: "oc_eq a b \<Longrightarrow> oc_eq b a"
  by (auto simp: oc_eq_def)

lemma oc_eq_trans [trans]: "oc_eq a b \<Longrightarrow> oc_eq b c \<Longrightarrow> oc_eq a c"
  by (auto simp: oc_eq_def)

lemma oc_eq_add: "oc_eq a b \<Longrightarrow> oc_eq c d \<Longrightarrow> oc_eq (a + c) (b + d)"
  by (auto simp: oc_eq_def intro: mod_add_cong)

lemma oc_eq_mult: "0 < k \<Longrightarrow> oc_eq a b \<Longrightarrow> oc_eq (k * a) (k * b)"
  by (auto simp: oc_eq_def intro: mod_mult_cong)

lemma oc_eq_carry:
  assumes "m mod 65535 = 1"
  shows "oc_eq (n mod m + n div m) n"
proof -
  have "n mod 65535 = (m * (n div m) + n mod m) mod 65535" by simp
  also have "\<dots> = (1 * (n div m) + n mod m) mod 65535"
    using assms by (intro mod_add_cong mod_mult_cong) auto
  finally have "n mod 65535 = (n mod m + n div m) mod 65535" by (simp add: add.commute)
  moreover have "n mod m + n div m = 0 \<longleftrightarrow> n = 0"
    using mod_eq_self_iff_div_eq_0 [of n m] by auto
  ultimately show ?thesis by (simp add: oc_eq_def)
qed

lemma ones_norm_le: "ones_norm n \<le> 65535"
  by (simp add: ones_norm_def less_Suc_eq_le [symmetric])

lemma oc_eq_ones_norm: "oc_eq (ones_norm n) n"
proof (cases n)
  case (Suc m)
  have "(m mod 65535 + 1) mod 65535 = (m + 1) mod 65535" by (rule mod_add_left_eq)
  with Suc show ?thesis by (simp add: oc_eq_def ones_norm_def)
qed (simp add: ones_norm_def)

lemma ones_normI:
  assumes "oc_eq r n" and "r \<le> 65535"
  shows "r = ones_norm n"
proof -
  have "oc_eq r (ones_norm n)" using assms(1) oc_eq_ones_norm oc_eq_sym oc_eq_trans by blast
  with assms(2) ones_norm_le [of n] show ?thesis
    unfolding oc_eq_def by (cases "r = 65535"; cases "ones_norm n = 65535") auto
qed

lemma ones_norm_cong: "oc_eq a b \<Longrightarrow> ones_norm a = ones_norm b"
  by (rule ones_normI) (auto intro: oc_eq_trans oc_eq_ones_norm ones_norm_le)


lemma inet_fold_spec: "unat (inet_fold s) = ones_norm (unat s)"
proof (induction s rule: inet_fold.induct)
  case (1 s)
  have hi: "drop_bit 16 s = 0 \<longleftrightarrow> unat s div 65536 = 0"
    using unat_drop_bit [of 16 s] by (simp add: unat_eq_zero [symmetric] del: unat_eq_zero)
  show ?case
  proof (cases "drop_bit 16 s = 0")
    case True
    then have "unat s < 65536" using hi by (simp add: div_eq_0_iff)
    then have "unat (ucast s :: u16) = unat s"
      by (simp add: unsigned_ucast_eq take_bit_nat_eq_self)
    with True \<open>unat s < 65536\<close> show ?thesis
      by (subst inet_fold.simps) (auto intro: ones_normI)
  next
    case False
    then have "unat (inet_fold s) = ones_norm (unat s mod 65536 + unat s div 65536)"
      using "1" by (subst inet_fold.simps) (simp add: unat_fold16)
    then show ?thesis using ones_norm_cong [OF oc_eq_carry [of 65536 "unat s"]] by simp
  qed
qed

lemma csum_fold_spec: "unat (csum_fold s) = ones_norm (256 * unat s)"
proof -
  define f16 where "f16 = (\<lambda>n::nat. n mod 65536 + n div 65536)"
  define f32 where "f32 = (\<lambda>n::nat. n mod 4294967296 + n div 4294967296)"
  define r where "r = f16 (f16 (f16 (f32 (f32 (unat s)))))"
  have oc: "oc_eq r (unat s)"
    unfolding r_def f16_def f32_def
    by (rule oc_eq_trans, rule oc_eq_carry, simp)+ simp
  have "unat s < 2 ^ 64" using unsigned_less [of s] by simp
  then have a: "f32 (unat s) \<le> 8589934590" unfolding f32_def by auto
  have f32: "f32 n \<le> 4294967295" if "n \<le> 8589934590" for n
    using that unfolding f32_def by (cases "n < 4294967296") (auto simp: le_mod_geq le_div_geq)
  have f16: "f16 n \<le> 131070" if "n \<le> 4294967295" for n
    using that unfolding f16_def by auto
  have f16': "f16 n \<le> 65535" if "n \<le> 131070" for n
    using that unfolding f16_def by (cases "n < 65536") (auto simp: le_mod_geq le_div_geq)
  have "f16 (f16 (f32 (f32 (unat s)))) \<le> 65535" by (intro f16' f16 f32 a)
  then have r: "r \<le> 65535" unfolding r_def by (intro f16') simp
  define w where "w = (let s = (s AND 0xFFFFFFFF) + drop_bit 32 s;
          s = (s AND 0xFFFFFFFF) + drop_bit 32 s;
          s = (s AND 0xFFFF) + drop_bit 16 s;
          s = (s AND 0xFFFF) + drop_bit 16 s
      in (s AND 0xFFFF) + drop_bit 16 s)"
  have w: "unat w = r"
    by (simp only: w_def Let_def unat_fold16 unat_fold32 r_def f16_def f32_def)
  have "csum_fold s = ucast (push_bit 8 (w AND 0xFF) OR drop_bit 8 w)"
    by (simp only: csum_fold_def w_def Let_def)
  also have "push_bit 8 (w AND 0xFF) OR drop_bit 8 w = push_bit 8 (w AND 0xFF) + drop_bit 8 w"
  proof (rule disjunctive_add [symmetric])
    fix i
    have "unat (drop_bit 8 w) < 2 ^ 8" using r w by (simp add: unat_drop_bit)
    then have "take_bit 8 (drop_bit 8 w) = drop_bit 8 w"
      by (simp add: take_bit_eq_self_iff_drop_bit_eq_0 unat_eq_zero [symmetric] unat_drop_bit
          del: unat_eq_zero drop_bit_drop_bit)
    then have "bit (drop_bit 8 w) i \<Longrightarrow> i < 8" by (metis bit_take_bit_iff)
    then show "\<not> bit (push_bit 8 (w AND 0xFF)) i \<or> \<not> bit (drop_bit 8 w) i"
      by (cases "i < 8") (auto simp only: bit_push_bit_iff not_le simp_thms)
  qed
  finally have c: "csum_fold s = ucast (push_bit 8 (w AND 0xFF) + drop_bit 8 w)" .
  define lo where "lo = push_bit 8 (w AND 0xFF)"
  have "unat (w AND 0xFF) * 2 ^ 8 < 2 ^ LENGTH(64)" unfolding unat_and_lows by auto
  note p = unat_push_bit_small [OF this, folded lo_def, unfolded unat_and_lows w]
  have "unat lo + unat (drop_bit 8 w) < 2 ^ LENGTH(64)"
    using r unfolding p unat_drop_bit w by auto
  note sum = unat_plus_no_wrap [OF this, unfolded p unat_drop_bit w, simplified]
  have "r mod 256 < 256" "r div 256 < 256" using r by auto
  then have small: "r mod 256 * 256 + r div 256 < 65536" by linarith
  have "unat (csum_fold s) = r mod 256 * 256 + r div 256"
    unfolding c lo_def [symmetric] using sum small by (simp add: unsigned_ucast_eq take_bit_nat_eq_self)
  moreover have "oc_eq (r mod 256 * 256 + r div 256) (256 * r)"
    using oc_eq_carry [of 65536 "256 * r"] by (simp add: mult.commute mult_mod_right)
  ultimately show ?thesis
    using small oc_eq_mult [OF _ oc, of 256] by (auto intro!: ones_normI intro: oc_eq_trans)
qed


section \<open>Summing\<close>

lemma le_nat_bound: "le_nat bs < 256 ^ length bs"
proof (induction bs)
  case (Cons b bs)
  have "unat b < 256" using unsigned_less [of b] by simp
  with Cons show ?case by simp
qed simp

lemma le_4_cases:
  fixes n :: nat
  obtains "n = 0" | "n = 1" | "n = 2" | "n = 3" | "n = 4" | "4 < n"
  by linarith

lemma unat_load_le:
  assumes "n \<le> 4"
  shows "unat (load_le n buf) = le_nat (take n buf)" "le_nat (take n buf) \<le> 2 ^ 30 * length (take n buf)"
proof -
  have "le_nat (take n buf) < 256 ^ length (take n buf)" by (rule le_nat_bound)
  also have "\<dots> \<le> 256 ^ 4" using assms by (intro power_increasing) auto
  finally show "unat (load_le n buf) = le_nat (take n buf)"
    unfolding load_le_def by (intro unat_word_of_nat_id) simp
  consider "length (take n buf) = 0" | "length (take n buf) = 1" | "length (take n buf) = 2"
    | "length (take n buf) = 3" | "length (take n buf) = 4"
    using assms by (cases "length (take n buf)" rule: le_4_cases) auto
  then show "le_nat (take n buf) \<le> 2 ^ 30 * length (take n buf)"
    using le_nat_bound [of "take n buf"] by cases simp_all
qed

lemma oc_eq_le_nat: "oc_eq (le_nat bs) (le_sum bs)"
proof (induction bs rule: le_sum.induct)
  case (3 a b bs)
  have "oc_eq (65536 * le_nat bs) (le_nat bs)"
    by (auto simp: oc_eq_def mod_mult_left_eq [of 65536 65535 "le_nat bs", symmetric])
  then have "oc_eq (65536 * le_nat bs) (le_sum bs)" using "3" oc_eq_trans by blast
  then have "oc_eq (unat a + 256 * unat b + 65536 * le_nat bs) (unat a + 256 * unat b + le_sum bs)"
    by (intro oc_eq_add) auto
  then show ?case by (simp add: algebra_simps)
qed auto

lemma le_sum_append_even: "even (length xs) \<Longrightarrow> le_sum (xs @ ys) = le_sum xs + le_sum ys"
  by (induction xs rule: le_sum.induct) auto

lemma le_sum_split: "even n \<Longrightarrow> n \<le> length bs \<Longrightarrow> le_sum bs = le_sum (take n bs) + le_sum (drop n bs)"
  using le_sum_append_even [of "take n bs" "drop n bs"] by simp

lemma load_step:
  assumes "n \<le> 4" and "n \<le> length buf" and "even n"
    and "unat s + a + 2 ^ 30 * length buf < 2 ^ 64"
  shows "unat (s + load_le n buf) + a + 2 ^ 30 * length (drop n buf) < 2 ^ 64"
    and "oc_eq (unat (s + load_le n buf) + a + le_sum (drop n buf)) (unat s + a + le_sum buf)"
proof -
  note l = unat_load_le [OF assms(1), of buf]
  have len: "length (take n buf) = n" "length (drop n buf) = length buf - n" using assms(2) by auto
  have p: "unat (s + load_le n buf) = unat s + le_nat (take n buf)"
  proof -
    have "unat s + unat (load_le n buf) < 2 ^ LENGTH(64)"
    proof -
      have "2 ^ 30 * n \<le> 2 ^ 30 * length buf" using assms(2) by simp
      then show ?thesis using l len assms(4) by simp
    qed
    then show ?thesis using l by (simp add: unat_plus_no_wrap)
  qed
  have "2 ^ 30 * length buf = 2 ^ 30 * n + 2 ^ 30 * (length buf - n)"
    using assms(2) by (simp add: algebra_simps)
  then show "unat (s + load_le n buf) + a + 2 ^ 30 * length (drop n buf) < 2 ^ 64"
    using assms(4) l(2) len p by simp
  have "oc_eq (le_nat (take n buf) + (unat s + a + le_sum (drop n buf)))
      (le_sum (take n buf) + (unat s + a + le_sum (drop n buf)))"
    by (intro oc_eq_add oc_eq_le_nat) auto
  then show "oc_eq (unat (s + load_le n buf) + a + le_sum (drop n buf)) (unat s + a + le_sum buf)"
    unfolding p using le_sum_split [OF assms(3,2)] by (simp add: algebra_simps)
qed

lemma sum_loop_spec:
  assumes "inet_sum_loop s0 s1 buf = (t0, t1, rest)"
    and "unat s0 + unat s1 + 2 ^ 30 * length buf < 2 ^ 64"
  shows "unat t0 + unat t1 + 2 ^ 30 * length rest < 2 ^ 64 \<and>
    oc_eq (unat t0 + unat t1 + le_sum rest) (unat s0 + unat s1 + le_sum buf) \<and> length rest < 8"
  using assms
proof (induction s0 s1 buf rule: inet_sum_loop.induct)
  case (1 s0 s1 buf)
  show ?case
  proof (cases "length buf \<ge> 8")
    case False
    with "1.prems" show ?thesis by (subst (asm) inet_sum_loop.simps) simp
  next
    case True
    then have lp: "inet_sum_loop (s0 + load_le 4 buf) (s1 + load_le 4 (drop 4 buf)) (drop 8 buf) = (t0, t1, rest)"
      using "1.prems"(1) by (subst (asm) inet_sum_loop.simps) simp
    have A: "unat (s0 + load_le 4 buf) + unat s1 + 2 ^ 30 * length (drop 4 buf) < 2 ^ 64"
      "oc_eq (unat (s0 + load_le 4 buf) + unat s1 + le_sum (drop 4 buf)) (unat s0 + unat s1 + le_sum buf)"
      using load_step [of 4 buf s0 "unat s1"] True "1.prems"(2) by auto
    have B: "unat (s1 + load_le 4 (drop 4 buf)) + unat (s0 + load_le 4 buf) + 2 ^ 30 * length (drop 4 (drop 4 buf)) < 2 ^ 64"
      "oc_eq (unat (s1 + load_le 4 (drop 4 buf)) + unat (s0 + load_le 4 buf) + le_sum (drop 4 (drop 4 buf)))
        (unat s1 + unat (s0 + load_le 4 buf) + le_sum (drop 4 buf))"
      using load_step [of 4 "drop 4 buf" s1 "unat (s0 + load_le 4 buf)"] True A(1) by (auto simp: add.commute)
    have d: "drop 4 (drop 4 buf) = drop 8 buf" by simp
    note IH = "1.IH" [OF True lp]
    have C: "unat (s0 + load_le 4 buf) + unat (s1 + load_le 4 (drop 4 buf)) + 2 ^ 30 * length (drop 8 buf) < 2 ^ 64"
      using B(1) unfolding d by (simp add: add.commute)
    have D: "oc_eq (unat (s0 + load_le 4 buf) + unat (s1 + load_le 4 (drop 4 buf)) + le_sum (drop 8 buf))
        (unat s0 + unat s1 + le_sum buf)"
      using oc_eq_trans [OF B(2) [unfolded d] A(2) [unfolded add.commute [of "unat (s0 + load_le 4 buf)" "unat s1"]]]
      unfolding add.commute [of "unat (s1 + load_le 4 (drop 4 buf))"] .
    show ?thesis using IH [OF C] oc_eq_trans [OF _ D] by blast
  qed
qed

lemma inet_sum_raw_spec:
  assumes "length buf < 2 ^ 32"
  shows "oc_eq (unat (inet_sum_raw buf)) (le_sum buf)"
proof -
  obtain t0 t1 r0 where lp: "inet_sum_loop 0 0 buf = (t0, t1, r0)" by (metis prod_cases3)
  have L: "unat t0 + unat t1 + 2 ^ 30 * length r0 < 2 ^ 64" "oc_eq (unat t0 + unat t1 + le_sum r0) (le_sum buf)"
    "length r0 < 8"
    using sum_loop_spec [OF lp] assms by auto
  define u0 r1 where "u0 = (if length r0 \<ge> 4 then t0 + load_le 4 r0 else t0)"
    and "r1 = (if length r0 \<ge> 4 then drop 4 r0 else r0)"
  have M: "unat u0 + unat t1 + 2 ^ 30 * length r1 < 2 ^ 64" "oc_eq (unat u0 + unat t1 + le_sum r1) (le_sum buf)"
    "length r1 < 4"
    using L load_step [of 4 r0 t0 "unat t1"] oc_eq_trans [OF _ L(2)] by (auto simp: u0_def r1_def)
  define v0 r2 where "v0 = (if length r1 \<ge> 2 then u0 + load_le 2 r1 else u0)"
    and "r2 = (if length r1 \<ge> 2 then drop 2 r1 else r1)"
  have N: "unat v0 + unat t1 + 2 ^ 30 * length r2 < 2 ^ 64" "oc_eq (unat v0 + unat t1 + le_sum r2) (le_sum buf)"
    "length r2 < 2"
    using M load_step [of 2 r1 u0 "unat t1"] oc_eq_trans [OF _ M(2)] by (auto simp: v0_def r2_def)
  have raw: "inet_sum_raw buf = (if length r2 \<noteq> 0 then v0 + load_le 1 r2 else v0) + t1"
    unfolding inet_sum_raw_def lp u0_def r1_def v0_def r2_def
    by (cases "length r0 \<ge> 4"; cases "length r0 \<ge> 2"; cases "length (drop 4 r0) \<ge> 2"; simp add: Let_def del: length_drop)
  show ?thesis
  proof (cases r2)
    case Nil
    with N raw show ?thesis by (simp add: unat_plus_no_wrap)
  next
    case (Cons b bs)
    then have r2: "r2 = [b]" using N(3) by simp
    have l: "unat (load_le 1 r2) = unat b" using unat_load_le(1) [of 1 r2] r2 by simp
    have "unat b < 256" using unsigned_less [of b] by simp
    then have "unat (v0 + load_le 1 r2 + t1) = unat v0 + unat b + unat t1"
      using N(1) r2 l by (simp add: unat_plus_no_wrap)
    with N(2) r2 raw show ?thesis by (simp add: add.commute add.left_commute)
  qed
qed

lemma oc_eq_swap: "oc_eq (256 * le_sum bs) (be_sum bs)"
proof (induction bs rule: be_sum.induct)
  case (3 a b bs)
  have "oc_eq (65536 * unat b) (unat b)"
    by (auto simp: oc_eq_def mod_mult_left_eq [of 65536 65535 "unat b", symmetric])
  then have "oc_eq (256 * unat a + 65536 * unat b + 256 * le_sum bs) (256 * unat a + unat b + be_sum bs)"
    using "3" by (intro oc_eq_add) auto
  then show ?case by (simp add: algebra_simps)
qed auto

lemma unat_inet_sum:
  assumes "length bs < 2 ^ 32"
  shows "unat (inet_sum bs) = ones_norm (be_sum bs)"
proof -
  have "unat (csum_fold (inet_sum_raw bs)) = ones_norm (be_sum bs)"
    unfolding csum_fold_spec
    by (intro ones_norm_cong oc_eq_trans [OF oc_eq_mult oc_eq_swap] inet_sum_raw_spec assms) simp
  then show ?thesis
    using ones_norm_le [of "be_sum bs"]
    by (simp add: inet_sum_def unsigned_ucast_eq take_bit_nat_eq_self)
qed

lemma unat_not16:
  fixes w :: u16
  shows "unat (NOT w) = 65535 - unat w"
proof -
  have "NOT w = - 1 - w" by (simp add: not_eq_complement)
  moreover have "unat (- 1 - w) = unat (- 1 :: u16) - unat w"
    by (rule unat_minus_le) (simp add: word_le_nat_alt [symmetric])
  moreover have "unat (- 1 :: u16) = 65535" by (simp add: unsigned_minus_1_eq_mask mask_eq_exp_minus_1)
  ultimately show ?thesis by simp
qed

lemma and_ffff [simp]: "(w :: u16) AND 0xFFFF = w"
  using take_bit_length_eq [of w] by (simp add: take_bit_eq_mask mask_eq_exp_minus_1)

lemma ones_norm_idem [simp]: "ones_norm (ones_norm n) = ones_norm n"
  by (rule ones_norm_cong [OF oc_eq_ones_norm])

lemma unat_inet_checksum:
  assumes "length bs < 2 ^ 32"
  shows "unat (inet_checksum bs) = 65535 - ones_norm (be_sum bs)"
  by (simp add: inet_checksum_def unat_not16 inet_fold_spec unat_inet_sum [OF assms])

section \<open>Chains\<close>

lemma csum_add_spec: "oc_eq (unat (csum_add a b)) (unat a + unat b)"
proof (cases "unat a + unat b < 2 ^ 64")
  case True
  then have "unat (a + b) = unat a + unat b" by (simp add: unat_plus_no_wrap)
  then show ?thesis by (simp add: csum_add_def Let_def word_less_nat_alt)
next
  case False
  have lt: "unat a < 2 ^ 64" "unat b < 2 ^ 64" using unsigned_less [of a] unsigned_less [of b] by simp_all
  have "unat (a + b) = (unat a + unat b) mod 2 ^ 64" by (simp add: unat_word_ariths)
  with False lt have s: "unat (a + b) = unat a + unat b - 2 ^ 64" by (simp add: le_mod_geq)
  have "unat (a + b + 1) = unat (a + b) + 1"
    using s lt by (subst unat_plus_no_wrap) simp_all
  moreover have "a + b < b" using s lt False by (simp add: word_less_nat_alt)
  ultimately have "unat (csum_add a b) = unat a + unat b - 2 ^ 64 + 1" using s by (simp add: csum_add_def)
  moreover have "oc_eq (unat a + unat b - 2 ^ 64 + 1) (unat a + unat b)"
    using oc_eq_carry [of "2 ^ 64" "unat a + unat b"] False lt by (simp add: le_mod_geq le_div_geq)
  ultimately show ?thesis by simp
qed

lemma rotate8_spec:
  fixes w :: u64
  shows "oc_eq (unat (push_bit 8 w OR drop_bit 56 w)) (256 * unat w)"
proof -
  have "push_bit 8 w OR drop_bit 56 w = push_bit 8 w + drop_bit 56 w"
  proof (rule disjunctive_add [symmetric])
    fix i
    show "\<not> bit (push_bit 8 w) i \<or> \<not> bit (drop_bit 56 w) i"
    proof (cases "i < 8")
      case False
      then have "\<not> bit w (56 + i)" using bit_imp_le_length [of w "56 + i"] by auto
      then show ?thesis by (simp add: bit_drop_bit_eq)
    qed (simp add: bit_push_bit_iff)
  qed
  moreover have hi: "unat (push_bit 8 w) = 256 * unat w mod 2 ^ 64"
    by (simp add: push_bit_eq_mult unat_word_ariths mult.commute)
  moreover have "unat (push_bit 8 w + drop_bit 56 w) = unat (push_bit 8 w) + unat (drop_bit 56 w)"
  proof (rule unat_plus_no_wrap)
    have "unat w < 2 ^ 64" using unsigned_less [of w] by simp
    then have "unat w div 2 ^ 56 < 256" by auto
    moreover have "256 * unat w mod 2 ^ 64 = 256 * (unat w mod 2 ^ 56)"
      by (simp add: mult_mod_right)
    moreover have "unat w mod 2 ^ 56 < 2 ^ 56" by simp
    ultimately show "unat (push_bit 8 w) + unat (drop_bit 56 w) < 2 ^ LENGTH(64)"
      unfolding hi unat_drop_bit by simp
  qed
  moreover have "unat w div 2 ^ 56 = 256 * unat w div 2 ^ 64" by simp
  ultimately show ?thesis
    using oc_eq_carry [of "2 ^ 64" "256 * unat w"] by (simp add: unat_drop_bit)
qed

lemma le_nat_append: "le_nat (xs @ ys) = le_nat xs + 256 ^ length xs * le_nat ys"
  by (induction xs) (simp_all add: algebra_simps)

lemma oc_eq_power: "oc_eq (256 ^ n) (if odd n then 256 else 1)"
proof (induction n)
  case (Suc n)
  have "oc_eq (256 * 256 ^ n) (256 * (if odd n then 256 else 1))" by (intro oc_eq_mult Suc) simp
  also have "oc_eq (256 * (if odd n then 256 else 1)) (if odd (Suc n) then 256 else 1)"
    by (simp add: oc_eq_def)
  finally show ?case by simp
qed simp

lemma le_sum_append:
  "oc_eq (le_sum (xs @ ys)) (le_sum xs + (if odd (length xs) then 256 else 1) * le_sum ys)"
proof -
  have "oc_eq (256 ^ length xs * le_nat ys) ((if odd (length xs) then 256 else 1) * le_nat ys)"
    using oc_eq_mult [OF _ oc_eq_power, of "le_nat ys" "length xs"]
    by (cases "le_nat ys = 0") (simp_all add: mult.commute)
  also have "oc_eq \<dots> ((if odd (length xs) then 256 else 1) * le_sum ys)"
    by (intro oc_eq_mult oc_eq_le_nat) simp
  finally have "oc_eq (le_nat (xs @ ys)) (le_sum xs + (if odd (length xs) then 256 else 1) * le_sum ys)"
    unfolding le_nat_append by (intro oc_eq_add oc_eq_le_nat)
  then show ?thesis using oc_eq_le_nat [of "xs @ ys"] oc_eq_sym oc_eq_trans by blast
qed

lemma csum_skip_spec:
  assumes "chain_wf c" and "csum_skip c offset = (c', offset')"
  shows "chain_wf c' \<and> set c' \<subseteq> set c \<and> drop offset' (chain_bytes c') = drop offset (chain_bytes c) \<and>
    (c' \<noteq> [] \<longrightarrow> offset' < nb_len (hd c'))"
  using assms by (induction c arbitrary: offset) (auto simp: split: if_splits)

lemma csum_chain_spec:
  assumes "chain_wf c" and "\<forall>b\<in>set c. nb_len b < 2 ^ 32" and "c \<noteq> [] \<longrightarrow> offset \<le> nb_len (hd c)"
  shows "oc_eq (unat (csum_chain acc odd_pos c offset len))
    (unat acc + (if odd_pos then 256 else 1) * le_sum (take len (drop offset (chain_bytes c))))"
  using assms
proof (induction c arbitrary: acc odd_pos offset len)
  case (Cons b c)
  show ?case
  proof (cases "len > 0")
    case True
    define n where "n = min len (nb_len b - offset)"
    define bs where "bs = take n (drop (nb_off b + offset) (nb_buf b))"
    define part where "part = inet_sum_raw bs"
    define k where "k = (if odd_pos then 256 else 1 :: nat)"
    define w where "w = (if odd_pos then push_bit 8 part OR drop_bit 56 part else part)"
    define rest where "rest = take (len - n) (chain_bytes c)"
    have wf: "nb_wf b" "chain_wf c" "offset \<le> nb_len b" using Cons.prems by auto
    have lb: "length (nb_bytes b) = nb_len b" using wf(1) by simp
    have bs: "bs = take len (drop offset (nb_bytes b))"
      by (simp add: bs_def n_def nb_bytes_def drop_take min.commute add.commute)
    have len: "length bs = n" using lb by (simp add: bs n_def)
    have data: "take len (drop offset (chain_bytes (b # c))) = bs @ rest"
      using wf(3) lb by (cases "len \<le> nb_len b - offset") (simp_all add: bs rest_def n_def)
    have step: "csum_chain acc odd_pos (b # c) offset len = csum_chain (csum_add acc w) (odd_pos \<noteq> odd n) c 0 (len - n)"
      using True by (simp only: csum_chain.simps Let_def w_def part_def bs_def n_def simp_thms if_True)
    have "oc_eq (unat part) (le_sum bs)"
      unfolding part_def using Cons.prems(2) len by (intro inet_sum_raw_spec) (auto simp: n_def)
    then have "oc_eq (k * unat part) (k * le_sum bs)" by (intro oc_eq_mult) (simp add: k_def)
    moreover have "oc_eq (unat w) (k * unat part)" using rotate8_spec by (simp add: w_def k_def)
    ultimately have w: "oc_eq (unat w) (k * le_sum bs)" using oc_eq_trans by blast
    have "oc_eq (unat (csum_chain (csum_add acc w) (odd_pos \<noteq> odd n) c 0 (len - n)))
        (unat (csum_add acc w) + (if odd_pos \<noteq> odd n then 256 else 1) * le_sum rest)"
      using Cons.IH [OF wf(2), of 0 "csum_add acc w" "odd_pos \<noteq> odd n" "len - n"] Cons.prems(2)
      unfolding rest_def by simp
    also have "oc_eq \<dots> ((unat acc + unat w) + k * ((if odd n then 256 else 1) * le_sum rest))"
      by (intro oc_eq_add csum_add_spec) (auto simp: k_def oc_eq_def mod_mult_left_eq [of 65536 65535 "le_sum rest", symmetric])
    also have "oc_eq \<dots> ((unat acc + k * le_sum bs) + k * ((if odd n then 256 else 1) * le_sum rest))"
      by (intro oc_eq_add w oc_eq_refl)
    also have "(unat acc + k * le_sum bs) + k * ((if odd n then 256 else 1) * le_sum rest)
        = unat acc + k * (le_sum bs + (if odd (length bs) then 256 else 1) * le_sum rest)"
      by (simp add: len algebra_simps)
    also have "oc_eq \<dots> (unat acc + k * le_sum (bs @ rest))"
      by (intro oc_eq_add oc_eq_mult oc_eq_sym [OF le_sum_append] oc_eq_refl) (simp add: k_def)
    finally show ?thesis unfolding step data k_def .
  qed simp
qed simp

section \<open>Fields\<close>

text \<open>A 16-bit field in network byte order.\<close>

definition be16 :: "u16 \<Rightarrow> bytes" where
  "be16 w = [ucast (drop_bit 8 w), ucast w]"

lemma be_sum_append: "even (length xs) \<Longrightarrow> be_sum (xs @ ys) = be_sum xs + be_sum ys"
  by (induction xs rule: be_sum.induct) auto

lemma be_sum_be16 [simp]: "be_sum (be16 w) = unat w"
proof -
  have "unat w < 65536" using unsigned_less [of w] by simp
  moreover have "unat (ucast (drop_bit 8 w) :: u8) = unat w div 256 mod 256"
    by (simp add: unsigned_ucast_eq take_bit_eq_mod unat_drop_bit)
  moreover have "unat (ucast w :: u8) = unat w mod 256" by (simp add: unsigned_ucast_eq take_bit_eq_mod)
  ultimately show ?thesis by (simp add: be16_def)
qed

lemma length_be16 [simp]: "length (be16 w) = 2"
  by (simp add: be16_def)

lemma be_sum_field:
  assumes "even (length pre)"
  shows "be_sum (pre @ be16 w @ post) = be_sum pre + unat w + be_sum post"
  using assms by (simp add: be_sum_append)

lemma unat_u16_le: "unat (w :: u16) \<le> 65535"
proof -
  have "unat w < 2 ^ LENGTH(16)" by (rule unsigned_less)
  then show ?thesis by simp
qed

section \<open>Properties\<close>

text \<open>C23: the Internet checksum of RFC 1071. For every buffer shorter than 4 GiB, the unrolled
  two-accumulator sum of 32-bit little-endian loads with deferred carries computes the one's
  complement of the one's complement sum of the 16-bit big-endian words, an odd last byte
  padded with zero.\<close>

theorem inet_checksum_rfc1071:
  assumes "length bs < 2 ^ 32"
  shows "unat (inet_checksum bs) = 65535 - ones_norm (be_sum bs)"
  by (rule unat_inet_checksum [OF assms])

theorem inet_checksum_rfc1071_witness:
  "unat (inet_checksum [0x00, 0x01, 0xf2, 0x03, 0xf4, 0xf5, 0xf6, 0xf7]) = 0x220d"
  using inet_checksum_rfc1071 [of "[0x00, 0x01, 0xf2, 0x03, 0xf4, 0xf5, 0xf6, 0xf7]"]
  by (simp add: ones_norm_def)

text \<open>C24: the checksum of a chain. On a well-formed chain of buffers each shorter than 4 GiB,
  \<^verbatim>\<open>inet_checksum_netbuf\<close> gives the checksum of the flat byte range it names, whatever the
  buffer boundaries (odd ones included) and also when the range runs past the chain's end.\<close>

theorem inet_checksum_netbuf_flat:
  assumes "chain_wf c" and "\<forall>b\<in>set c. nb_len b < 2 ^ 32"
    and "length (take len (drop offset (chain_bytes c))) < 2 ^ 32"
  shows "inet_checksum_netbuf c offset len = inet_checksum (take len (drop offset (chain_bytes c)))"
proof -
  obtain c' o' where sk: "csum_skip c offset = (c', o')" by fastforce
  note s = csum_skip_spec [OF assms(1) sk]
  define bs where "bs = take len (drop offset (chain_bytes c))"
  have "oc_eq (unat (csum_chain 0 False c' o' len)) (le_sum bs)"
  proof -
    have "\<forall>b\<in>set c'. nb_len b < 2 ^ 32" using s assms(2) by blast
    then have "oc_eq (unat (csum_chain 0 False c' o' len))
        (unat (0 :: u64) + (if False then 256 else 1) * le_sum (take len (drop o' (chain_bytes c'))))"
      using s by (intro csum_chain_spec) (auto intro: less_imp_le)
    with s show ?thesis by (simp add: bs_def)
  qed
  then have "oc_eq (256 * unat (csum_chain 0 False c' o' len)) (be_sum bs)"
    using oc_eq_trans [OF oc_eq_mult oc_eq_swap] by simp
  then have "unat (inet_checksum_netbuf c offset len) = 65535 - ones_norm (be_sum bs)"
    using ones_norm_cong by (simp add: inet_checksum_netbuf_def sk unat_not16 csum_fold_spec)
  then show ?thesis
    using unat_inet_checksum [OF assms(3)] unfolding bs_def by (metis word_unat_eq_iff)
qed

theorem inet_checksum_netbuf_flat_witness:
  "inet_checksum_netbuf [example_buf [1, 2, 3] 4, example_buf [4, 5] 0] 1 4 = inet_checksum [2, 3, 4, 5]"
  using inet_checksum_netbuf_flat [of "[example_buf [1, 2, 3] 4, example_buf [4, 5] 0]" 4 1]
  by (simp add: example_buf_def netbuf_setup_def nb_wf_def nb_bytes_def)

text \<open>C26: a checksum verifies. Storing the checksum of a message, computed with its field
  zeroed, into that field (at any even offset, in network byte order) makes the checksum of
  the whole message zero, the test the receive paths make.\<close>

theorem inet_checksum_verifies:
  assumes "even (length pre)" and "length pre + 2 + length post < 2 ^ 32"
  shows "inet_checksum (pre @ be16 (inet_checksum (pre @ be16 0 @ post)) @ post) = 0"
proof -
  define S where "S = be_sum (pre @ be16 0 @ post)"
  define ck where "ck = inet_checksum (pre @ be16 0 @ post)"
  have ck: "unat ck = 65535 - ones_norm S"
    unfolding ck_def S_def using assms(2) by (intro unat_inet_checksum) simp
  have sm: "be_sum (pre @ be16 ck @ post) = S + (65535 - ones_norm S)"
    using ck by (simp add: S_def be_sum_append assms(1))
  have "oc_eq (S + (65535 - ones_norm S)) (ones_norm S + (65535 - ones_norm S))"
    by (intro oc_eq_add oc_eq_refl oc_eq_sym [OF oc_eq_ones_norm])
  then have "65535 = ones_norm (S + (65535 - ones_norm S))"
    using ones_norm_le [of S] by (intro ones_normI) (auto intro: oc_eq_sym)
  then have "unat (inet_checksum (pre @ be16 ck @ post)) = 0"
    using unat_inet_checksum [of "pre @ be16 ck @ post"] assms(2) sm by simp
  then show ?thesis unfolding ck_def [symmetric] by (simp only: unat_eq_zero)
qed

theorem inet_checksum_verifies_witness:
  "inet_checksum ([0x45, 0x00] @ be16 (inet_checksum ([0x45, 0x00] @ be16 0 @ [0x12, 0x34, 0x56])) @ [0x12, 0x34, 0x56]) = 0"
  using inet_checksum_verifies [of "[0x45, 0x00]" "[0x12, 0x34, 0x56]"] by simp

text \<open>C25: incremental update (RFC 1624, equation 3). Changing one 16-bit field of a message,
  \<^verbatim>\<open>inet_checksum_update\<close> gives the checksum of the changed message from the old checksum and
  the two field values alone, unless every byte of the changed message is zero.\<close>

theorem inet_checksum_update_incremental:
  assumes "even (length pre)" and "length pre + 2 + length post < 2 ^ 32"
    and "be_sum (pre @ be16 new_value @ post) \<noteq> 0"
  shows "inet_checksum_update (inet_checksum (pre @ be16 old_value @ post)) old_value new_value
       = inet_checksum (pre @ be16 new_value @ post)"
proof -
  define ck where "ck = inet_checksum (pre @ be16 old_value @ post)"
  define R where "R = be_sum pre + be_sum post"
  define S where "S = ones_norm (R + unat old_value)"
  have ck: "unat ck = 65535 - S"
    using unat_inet_checksum [of "pre @ be16 old_value @ post"] assms(1,2)
    by (simp add: ck_def S_def R_def be_sum_field add.commute add.left_commute)
  have nck: "unat (NOT ck) = S" using ones_norm_le by (simp add: unat_not16 ck S_def)
  have no: "unat (NOT old_value) = 65535 - unat old_value" by (rule unat_not16)
  have le: "S \<le> 65535" "unat old_value \<le> 65535" "unat new_value \<le> 65535"
    by (simp_all add: S_def ones_norm_le unat_u16_le)
  have "unat (ucast (NOT ck) + ucast (NOT old_value) + ucast new_value :: u64)
      = S + (65535 - unat old_value) + unat new_value"
    using le unfolding no [symmetric] nck [symmetric]
    by (simp add: unat_plus_no_wrap unsigned_ucast_eq take_bit_nat_eq_self no nck)
  then have u: "unat (inet_checksum_update ck old_value new_value)
      = 65535 - ones_norm (S + (65535 - unat old_value) + unat new_value)"
    by (simp add: inet_checksum_update_def Let_def unat_not16 inet_fold_spec)
  have "oc_eq (S + (65535 - unat old_value) + unat new_value)
      ((R + unat old_value) + (65535 - unat old_value) + unat new_value)"
    unfolding S_def by (intro oc_eq_add oc_eq_ones_norm oc_eq_refl)
  also have "\<dots> = R + unat new_value + 65535" using le by simp
  also have "oc_eq \<dots> (R + unat new_value)"
    using assms(3) by (auto simp: oc_eq_def R_def be_sum_field [OF assms(1)])
  finally have "ones_norm (S + (65535 - unat old_value) + unat new_value) = ones_norm (R + unat new_value)"
    by (rule ones_norm_cong)
  moreover have "unat (inet_checksum (pre @ be16 new_value @ post)) = 65535 - ones_norm (R + unat new_value)"
    using unat_inet_checksum [of "pre @ be16 new_value @ post"] assms(1,2)
    by (simp add: R_def be_sum_field add.commute add.left_commute)
  ultimately show ?thesis unfolding ck_def [symmetric] u by (metis u word_unat_eq_iff)
qed

theorem inet_checksum_update_incremental_witness:
  "inet_checksum_update (inet_checksum ([1, 2] @ be16 0x4006 @ [7])) 0x4006 0x3F06
     = inet_checksum ([1, 2] @ be16 0x3F06 @ [7])"
  using inet_checksum_update_incremental [of "[1, 2]" "[7]" "0x3F06" "0x4006"]
  by (simp add: be_sum_field)

end
