(* ===== verification/Page_Frames.thy ===== *)
theory Page_Frames
  imports Kernel_Prelude
begin

text \<open>
  The physical page allocator, \<^verbatim>\<open>src/kernel/hardware/memory/pmm.c\<close>: a bitmap with one bit per
  frame (set = taken), a reference count per frame for shared pages, and two search hints.
  Physical addresses and byte counts are natural numbers: the memory map of an x86-64 machine
  stays below \<open>2 ^ 52\<close>, so that no address sum of the source wraps. The page cache's
  \<^verbatim>\<open>pcache_reclaim\<close> is an argument of the two entry points that call it. The abstraction is
  the set of free frames \<open>frames_free\<close>.
\<close>

section \<open>The code\<close>

definition PAGE_SIZE :: nat where "PAGE_SIZE = 0x1000"
definition IDENTITY_MAP_SIZE :: nat where "IDENTITY_MAP_SIZE = 0x40000000"
definition BOOT_WORDS :: nat where "BOOT_WORDS = IDENTITY_MAP_SIZE div PAGE_SIZE div 64"
definition LOW_WORDS :: nat where "LOW_WORDS = 0x100000000 div PAGE_SIZE div 64"
definition RECLAIM_BATCH :: nat where "RECLAIM_BATCH = 256"
definition MAX_MEMORY_REGIONS :: nat where "MAX_MEMORY_REGIONS = 64"

definition PAGE_ALIGN_UP :: "nat \<Rightarrow> nat" where
  "PAGE_ALIGN_UP x = (x + PAGE_SIZE - 1) div PAGE_SIZE * PAGE_SIZE"

datatype memory_type = MEMORY_AVAILABLE | MEMORY_RESERVED | MEMORY_ACPI_RECLAIMABLE | MEMORY_NVS | MEMORY_BADRAM

record memory_region =
  mr_addr :: nat
  mr_length :: nat
  mr_type :: memory_type

record pmm =
  physical_pages :: "u64 list"
  shared_refs :: "u16 list"
  total_pages :: nat
  total_words :: nat
  low_words :: nat
  boot_words :: nat
  usable_pages :: nat
  low_hint :: nat
  high_hint :: nat
  usable :: "memory_region list"

definition BITMAP_INDEX :: "nat \<Rightarrow> nat" where "BITMAP_INDEX page = page div 64"
definition BITMAP_OFFSET :: "nat \<Rightarrow> nat" where "BITMAP_OFFSET page = page mod 64"

definition SET_BIT :: "u64 list \<Rightarrow> nat \<Rightarrow> u64 list" where
  "SET_BIT bitmap page = bitmap[BITMAP_INDEX page := bitmap ! BITMAP_INDEX page OR push_bit (BITMAP_OFFSET page) 1]"

definition CLEAR_BIT :: "u64 list \<Rightarrow> nat \<Rightarrow> u64 list" where
  "CLEAR_BIT bitmap page =
     bitmap[BITMAP_INDEX page := bitmap ! BITMAP_INDEX page AND NOT (push_bit (BITMAP_OFFSET page) 1)]"

definition TEST_BIT :: "u64 list \<Rightarrow> nat \<Rightarrow> bool" where
  "TEST_BIT bitmap page \<longleftrightarrow> bitmap ! BITMAP_INDEX page AND push_bit (BITMAP_OFFSET page) 1 \<noteq> 0"

text \<open>\<^verbatim>\<open>__builtin_ctzll\<close>: the index of the lowest set bit (the argument is never zero).\<close>

definition ctzll :: "u64 \<Rightarrow> nat" where
  "ctzll w = length (takeWhile (\<lambda>i. \<not> bit w i) [0..<64])"

fun place_metadata :: "memory_region list \<Rightarrow> nat \<Rightarrow> nat \<Rightarrow> nat" where
  "place_metadata [] kernel_end sz = 0"
| "place_metadata (r # rs) kernel_end sz =
     (let start = PAGE_ALIGN_UP (mr_addr r);
          end_addr = mr_addr r + mr_length r;
          start = (if start < kernel_end then kernel_end else start);
          end_addr = (if end_addr > IDENTITY_MAP_SIZE then IDENTITY_MAP_SIZE else end_addr)
      in if start + sz \<le> end_addr then start else place_metadata rs kernel_end sz)"

text \<open>The loops of \<^verbatim>\<open>pmm_initialize\<close>: the end of the last usable region, the frames of a region
  (\<open>addr = start, start + PAGE_SIZE, ...\<close> while a whole page fits), and the clearing of their
  bits.\<close>

definition region_limit :: "memory_region list \<Rightarrow> nat" where
  "region_limit rs =
     fold (\<lambda>r limit. let end_addr = (mr_addr r + mr_length r) div PAGE_SIZE * PAGE_SIZE
                      in if end_addr > limit then end_addr else limit) rs 0"

definition region_pages :: "memory_region \<Rightarrow> nat list" where
  "region_pages r =
     (let start = PAGE_ALIGN_UP (mr_addr r); end_addr = mr_addr r + mr_length r
      in map (\<lambda>i. start + i * PAGE_SIZE) [0..<(end_addr - start) div PAGE_SIZE])"

definition release_boot_page :: "nat \<Rightarrow> nat \<Rightarrow> nat \<Rightarrow> nat \<Rightarrow> u64 list \<times> nat \<Rightarrow> u64 list \<times> nat" where
  "release_boot_page kernel_end meta meta_size addr = (\<lambda>(bitmap, usable_count).
     if addr < kernel_end \<or> (addr \<ge> meta \<and> addr < meta + meta_size) then (bitmap, usable_count)
     else let page = addr div PAGE_SIZE in
       if \<not> TEST_BIT bitmap page then (bitmap, usable_count)
       else (CLEAR_BIT bitmap page, usable_count + 1))"

definition pmm_initialize :: "nat \<Rightarrow> memory_region list \<Rightarrow> pmm run" where
  "pmm_initialize kernel_virtual_end regions =
     (let kernel_end = PAGE_ALIGN_UP (kernel_virtual_end + 2048);
          us = filter (\<lambda>r. mr_type r = MEMORY_AVAILABLE) (take MAX_MEMORY_REGIONS regions);
          total = region_limit us div PAGE_SIZE;
          words = (total + 63) div 64;
          low = (if words < LOW_WORDS then words else LOW_WORDS);
          boot = (if words < BOOT_WORDS then words else BOOT_WORDS);
          meta_size = PAGE_ALIGN_UP (words * 8 + total * 2);
          meta = place_metadata us kernel_end meta_size
      in if meta = 0 then Fault
         else let (bitmap, n) = fold (release_boot_page kernel_end meta meta_size)
                                  (concat (map region_pages us)) (replicate words (- 1), 0)
              in Done \<lparr>physical_pages = bitmap, shared_refs = replicate total 0, total_pages = total,
                   total_words = words, low_words = low, boot_words = boot, usable_pages = n,
                   low_hint = 0, high_hint = low, usable = us\<rparr>)"

function take_page_scan :: "u64 list \<Rightarrow> nat \<Rightarrow> nat \<Rightarrow> nat option" where
  "take_page_scan bitmap last_word word =
     (if word < last_word
      then if bitmap ! word = - 1 then take_page_scan bitmap last_word (word + 1) else Some word
      else None)"
  by pat_completeness auto
termination
  by (relation "measure (\<lambda>(bitmap, last_word, word). last_word - word)") auto

declare take_page_scan.simps [simp del]

definition take_page_locked :: "u64 list \<Rightarrow> nat \<Rightarrow> nat \<Rightarrow> nat \<times> u64 list \<times> nat" where
  "take_page_locked bitmap last_word hint =
     (case take_page_scan bitmap last_word hint of
        Some word \<Rightarrow> let page = word * 64 + ctzll (NOT (bitmap ! word))
                     in (page * PAGE_SIZE, SET_BIT bitmap page, word)
      | None \<Rightarrow> (nullptr, bitmap, last_word))"

definition direct_map_ready :: "u64 \<Rightarrow> bool" where
  "direct_map_ready direct_map_offset \<longleftrightarrow> direct_map_offset \<noteq> 0"

definition take_page :: "u64 \<Rightarrow> pmm \<Rightarrow> nat \<times> pmm" where
  "take_page dmo p =
     (if direct_map_ready dmo then
        (let (page, bm, h) = take_page_locked (physical_pages p) (total_words p) (high_hint p);
             p = p\<lparr>physical_pages := bm, high_hint := h\<rparr>
         in if page = nullptr then
              (let (page, bm, h) = take_page_locked (physical_pages p) (low_words p) (low_hint p)
               in (page, p\<lparr>physical_pages := bm, low_hint := h\<rparr>))
            else (page, p))
      else
        (let (page, bm, h) = take_page_locked (physical_pages p) (boot_words p) (low_hint p)
         in (page, p\<lparr>physical_pages := bm, low_hint := h\<rparr>)))"

definition alloc_physical_page :: "(nat \<Rightarrow> pmm \<Rightarrow> nat \<times> pmm) \<Rightarrow> u64 \<Rightarrow> pmm \<Rightarrow> nat \<times> pmm" where
  "alloc_physical_page pcache_reclaim dmo p =
     (let (page, p) = take_page dmo p
      in if page = nullptr
         then let (n, p) = pcache_reclaim RECLAIM_BATCH p
              in if n \<noteq> 0 then take_page dmo p else (page, p)
         else (page, p))"

definition free_page_locked :: "nat \<Rightarrow> pmm \<Rightarrow> pmm" where
  "free_page_locked page p =
     (let addr = page div PAGE_SIZE
      in if addr \<noteq> 0 \<and> addr < total_pages p then
           if shared_refs p ! addr \<noteq> 0
           then p\<lparr>shared_refs := (shared_refs p)[addr := shared_refs p ! addr - 1]\<rparr>
           else let p = p\<lparr>physical_pages := CLEAR_BIT (physical_pages p) addr\<rparr>
                in if BITMAP_INDEX addr < low_words p
                   then (if BITMAP_INDEX addr < low_hint p then p\<lparr>low_hint := BITMAP_INDEX addr\<rparr> else p)
                   else (if BITMAP_INDEX addr < high_hint p then p\<lparr>high_hint := BITMAP_INDEX addr\<rparr> else p)
         else p)"

definition free_physical_pages :: "nat \<Rightarrow> nat \<Rightarrow> pmm \<Rightarrow> pmm" where
  "free_physical_pages first count p = fold (\<lambda>i. free_page_locked (first + i * PAGE_SIZE)) [0..<count] p"

definition free_physical_page :: "nat \<Rightarrow> pmm \<Rightarrow> pmm" where
  "free_physical_page page p = free_physical_pages page 1 p"

definition pmm_share_page :: "nat \<Rightarrow> pmm \<Rightarrow> pmm" where
  "pmm_share_page page p =
     (let addr = page div PAGE_SIZE
      in if addr < total_pages p \<and> shared_refs p ! addr < 0xFFFF
         then p\<lparr>shared_refs := (shared_refs p)[addr := shared_refs p ! addr + 1]\<rparr> else p)"

definition pmm_page_shared :: "nat \<Rightarrow> pmm \<Rightarrow> bool" where
  "pmm_page_shared page p =
     (let addr = page div PAGE_SIZE in addr < total_pages p \<and> shared_refs p ! addr \<noteq> 0)"

function take_pages_scan :: "u64 list \<Rightarrow> nat \<Rightarrow> nat \<Rightarrow> nat \<Rightarrow> nat \<Rightarrow> nat option" where
  "take_pages_scan bitmap count last_page page run =
     (if page < last_page then
        (let run = (if TEST_BIT bitmap page then 0 else run + 1)
         in if run = count then Some (page + 1 - count) else take_pages_scan bitmap count last_page (page + 1) run)
      else None)"
  by pat_completeness auto
termination
  by (relation "measure (\<lambda>(bitmap, count, last_page, page, run). last_page - page)") (auto simp: Let_def)

declare take_pages_scan.simps [simp del]

definition take_pages :: "u64 \<Rightarrow> nat \<Rightarrow> pmm \<Rightarrow> nat \<times> pmm" where
  "take_pages dmo count p =
     (let last_page = (if direct_map_ready dmo then total_words p else boot_words p) * 64
      in case take_pages_scan (physical_pages p) count last_page (low_hint p * 64) 0 of
           Some first \<Rightarrow>
             (first * PAGE_SIZE,
              p\<lparr>physical_pages := fold (\<lambda>i bm. SET_BIT bm i) [first..<first + count] (physical_pages p)\<rparr>)
         | None \<Rightarrow> (nullptr, p))"

definition alloc_physical_pages :: "(nat \<Rightarrow> pmm \<Rightarrow> nat \<times> pmm) \<Rightarrow> u64 \<Rightarrow> nat \<Rightarrow> pmm \<Rightarrow> nat \<times> pmm" where
  "alloc_physical_pages pcache_reclaim dmo count p =
     (if count = 0 then (nullptr, p)
      else let (first, p) = take_pages dmo count p
           in if first = nullptr
              then let (n, p) = pcache_reclaim (RECLAIM_BATCH + count) p
                   in if n \<noteq> 0 then take_pages dmo count p else (first, p)
              else (first, p))"

function count_bits :: "u64 \<Rightarrow> nat" where
  "count_bits bits = (if bits \<noteq> 0 then Suc (count_bits (bits AND (bits - 1))) else 0)"
  by pat_completeness auto

definition pmm_free_pages :: "pmm \<Rightarrow> nat" where
  "pmm_free_pages p = (\<Sum>word \<leftarrow> [0..<total_words p]. count_bits (NOT (physical_pages p ! word)))"

definition DIRECT_MAP_BASE :: u64 where "DIRECT_MAP_BASE = 0xFFFF800000000000"

definition phys_to_virt :: "u64 \<Rightarrow> u64 \<Rightarrow> u64" where
  "phys_to_virt dmo phys = phys + dmo"

definition virt_to_phys :: "u64 \<Rightarrow> u64" where
  "virt_to_phys addr = (if addr \<ge> DIRECT_MAP_BASE then addr - DIRECT_MAP_BASE else addr)"

definition alloc_kernel_page :: "(nat \<Rightarrow> pmm \<Rightarrow> nat \<times> pmm) \<Rightarrow> u64 \<Rightarrow> pmm \<Rightarrow> u64 \<times> pmm" where
  "alloc_kernel_page pcache_reclaim dmo p =
     (let (page, p) = alloc_physical_page pcache_reclaim dmo p
      in (if page \<noteq> nullptr then phys_to_virt dmo (word_of_nat page) else 0, p))"

definition alloc_kernel_pages :: "(nat \<Rightarrow> pmm \<Rightarrow> nat \<times> pmm) \<Rightarrow> u64 \<Rightarrow> nat \<Rightarrow> pmm \<Rightarrow> u64 \<times> pmm" where
  "alloc_kernel_pages pcache_reclaim dmo count p =
     (let (first, p) = alloc_physical_pages pcache_reclaim dmo count p
      in (if first \<noteq> nullptr then phys_to_virt dmo (word_of_nat first) else 0, p))"

definition free_kernel_page :: "u64 \<Rightarrow> pmm \<Rightarrow> pmm" where
  "free_kernel_page page p = free_physical_page (unat (virt_to_phys page)) p"

definition free_kernel_pages :: "u64 \<Rightarrow> nat \<Rightarrow> pmm \<Rightarrow> pmm" where
  "free_kernel_pages first count p = free_physical_pages (unat (virt_to_phys first)) count p"

section \<open>Bits\<close>

lemma TEST_BIT_bit: "TEST_BIT bm pg \<longleftrightarrow> bit (bm ! (pg div 64)) (pg mod 64)"
  by (simp add: TEST_BIT_def BITMAP_INDEX_def BITMAP_OFFSET_def and_exp_eq_0_iff_not_bit push_bit_eq_mult)

lemma length_SET_BIT [simp]: "length (SET_BIT bm pg) = length bm"
  and length_CLEAR_BIT [simp]: "length (CLEAR_BIT bm pg) = length bm"
  by (simp_all add: SET_BIT_def CLEAR_BIT_def)

lemma page_eq_iff: "pg = pg' \<longleftrightarrow> pg div 64 = pg' div 64 \<and> pg mod 64 = (pg' mod 64 :: nat)"
  by (metis div_mult_mod_eq)

lemma TEST_SET_BIT [simp]:
  assumes "pg < 64 * length bm"
  shows "TEST_BIT (SET_BIT bm pg) pg' \<longleftrightarrow> pg' = pg \<or> TEST_BIT bm pg'"
proof -
  have "pg div 64 < length bm" using assms by (simp add: less_mult_imp_div_less mult.commute)
  moreover have "pg' mod 64 < 64" by simp
  ultimately show ?thesis
    by (cases "pg' div 64 = pg div 64")
      (auto simp: TEST_BIT_bit SET_BIT_def BITMAP_INDEX_def BITMAP_OFFSET_def bit_or_iff bit_exp_iff
        possible_bit_def page_eq_iff [of pg'])
qed

lemma TEST_CLEAR_BIT [simp]:
  assumes "pg < 64 * length bm"
  shows "TEST_BIT (CLEAR_BIT bm pg) pg' \<longleftrightarrow> pg' \<noteq> pg \<and> TEST_BIT bm pg'"
proof -
  have "pg div 64 < length bm" using assms by (simp add: less_mult_imp_div_less mult.commute)
  moreover have "pg' mod 64 < 64" by simp
  ultimately show ?thesis
    by (cases "pg' div 64 = pg div 64")
      (auto simp: TEST_BIT_bit CLEAR_BIT_def BITMAP_INDEX_def BITMAP_OFFSET_def bit_and_iff bit_not_iff
        bit_exp_iff possible_bit_def page_eq_iff [of pg'])
qed

lemma ctzll_spec:
  assumes "w \<noteq> 0"
  shows "ctzll w < 64" "bit w (ctzll w)" "i < ctzll w \<Longrightarrow> \<not> bit w i"
proof -
  let ?P = "\<lambda>i. \<not> bit w i"
  have "\<exists>i. bit w i \<and> i < 64"
    using assms bit_eq_iff [of w 0] bit_imp_le_length [of w] by fastforce
  then have "takeWhile ?P [0..<64] \<noteq> [0..<64]" by (auto simp: takeWhile_eq_all_conv)
  then show l: "ctzll w < 64"
    unfolding ctzll_def using length_takeWhile_le [of ?P "[0..<64]"] takeWhile_eq_take [of ?P "[0..<64]"]
    by (metis diff_zero le_neq_implies_less length_upt order_refl take_all_iff)
  show "bit w (ctzll w)"
    using nth_length_takeWhile [of ?P "[0..<64]"] l unfolding ctzll_def by simp
  show "i < ctzll w \<Longrightarrow> \<not> bit w i"
    using takeWhile_nth [of i ?P "[0..<64]"] nth_mem [of i "takeWhile ?P [0..<64]"] l
    unfolding ctzll_def by (auto dest: set_takeWhileD)
qed

lemma full_word: "bm ! (pg div 64) = - 1 \<Longrightarrow> TEST_BIT bm pg"
  by (simp add: TEST_BIT_bit bit_minus_1_iff possible_bit_def)

lemma word_not_full:
  assumes "bm ! w \<noteq> - 1"
  shows "(w * 64 + ctzll (NOT (bm ! w))) div 64 = w" "\<not> TEST_BIT bm (w * 64 + ctzll (NOT (bm ! w)))"
proof -
  have nz: "NOT (bm ! w) \<noteq> 0" using assms by (metis bit.double_compl bit.compl_zero)
  note c = ctzll_spec [OF nz]
  show d: "(w * 64 + ctzll (NOT (bm ! w))) div 64 = w" using c(1) by simp
  have "(w * 64 + ctzll (NOT (bm ! w))) mod 64 = ctzll (NOT (bm ! w))" using c(1) by simp
  with d c(1,2) show "\<not> TEST_BIT bm (w * 64 + ctzll (NOT (bm ! w)))"
    by (simp add: TEST_BIT_bit bit_not_iff possible_bit_def)
qed

lemma take_page_scan_Some:
  "take_page_scan bm last_word w = Some v \<Longrightarrow>
    w \<le> v \<and> v < last_word \<and> bm ! v \<noteq> - 1 \<and> (\<forall>u. w \<le> u \<and> u < v \<longrightarrow> bm ! u = - 1)"
proof (induction bm last_word w rule: take_page_scan.induct)
  case (1 bm last_word w)
  show ?case
  proof (cases "w < last_word \<and> bm ! w = - 1")
    case True
    with 1 have "w + 1 \<le> v \<and> v < last_word \<and> bm ! v \<noteq> - 1 \<and> (\<forall>u. w + 1 \<le> u \<and> u < v \<longrightarrow> bm ! u = - 1)"
      by (auto simp: take_page_scan.simps [of bm last_word w])
    with True show ?thesis by (metis Suc_eq_plus1 Suc_leD le_antisym not_less_eq_eq)
  next
    case False
    with "1.prems" show ?thesis by (auto simp: take_page_scan.simps [of bm last_word w] split: if_splits)
  qed
qed

lemma take_page_scan_None:
  "take_page_scan bm last_word w = None \<Longrightarrow> w \<le> u \<Longrightarrow> u < last_word \<Longrightarrow> bm ! u = - 1"
proof (induction bm last_word w rule: take_page_scan.induct)
  case (1 bm last_word w)
  then show ?case
    by (cases "u = w") (auto simp: take_page_scan.simps [of bm last_word w] split: if_splits)
qed

lemma take_page_locked_spec:
  assumes "take_page_locked bm last_word hint = (addr, bm', hint')" and "last_word \<le> length bm"
  shows "addr = 0 \<and> bm' = bm \<and> hint' = last_word \<and> (\<forall>pg. hint \<le> pg div 64 \<and> pg div 64 < last_word \<longrightarrow> TEST_BIT bm pg)
    \<or> (\<exists>page. addr = page * PAGE_SIZE \<and> page < 64 * length bm \<and> \<not> TEST_BIT bm page \<and> bm' = SET_BIT bm page \<and>
        hint \<le> hint' \<and> hint' < last_word \<and> page div 64 = hint' \<and>
        (\<forall>pg. hint \<le> pg div 64 \<and> pg div 64 < hint' \<longrightarrow> TEST_BIT bm pg))"
proof (cases "take_page_scan bm last_word hint")
  case None
  then show ?thesis
    using assms(1) take_page_scan_None [OF None] full_word by (auto simp: take_page_locked_def)
next
  case (Some w)
  note s = take_page_scan_Some [OF Some]
  then have ws: "(w * 64 + ctzll (NOT (bm ! w))) div 64 = w" "\<not> TEST_BIT bm (w * 64 + ctzll (NOT (bm ! w)))"
    using word_not_full by blast+
  have "w * 64 + ctzll (NOT (bm ! w)) < 64 * length bm"
    using ws(1) s assms(2) div_less_iff_less_mult [of 64 "w * 64 + ctzll (NOT (bm ! w))" "length bm"]
    by (simp add: mult.commute)
  with Some assms(1) s ws show ?thesis
    by (intro disjI2 exI [of _ "w * 64 + ctzll (NOT (bm ! w))"])
      (auto simp: take_page_locked_def Let_def intro: full_word)
qed

section \<open>The invariant\<close>

definition frames_free :: "pmm \<Rightarrow> nat set" where
  "frames_free p = {pg. pg < 64 * total_words p \<and> \<not> TEST_BIT (physical_pages p) pg}"

text \<open>Frame 0 and the bits beyond the last frame stay taken, free frames have no sharers, and no
  free frame lies below the hint of its half.\<close>

definition pmm_inv :: "pmm \<Rightarrow> bool" where
  "pmm_inv p \<longleftrightarrow>
     length (physical_pages p) = total_words p \<and> length (shared_refs p) = total_pages p \<and>
     total_pages p \<le> 64 * total_words p \<and> boot_words p \<le> low_words p \<and> low_words p \<le> total_words p \<and>
     low_hint p \<le> low_words p \<and> frames_free p \<subseteq> {0<..<total_pages p} \<and> (\<forall>pg \<in> frames_free p. shared_refs p ! pg = 0) \<and>
     (\<forall>pg \<in> frames_free p. pg div 64 < low_words p \<longrightarrow> low_hint p \<le> pg div 64) \<and>
     (\<forall>pg \<in> frames_free p. low_words p \<le> pg div 64 \<longrightarrow> high_hint p \<le> pg div 64)"

lemma PAGE_SIZE_pos [simp]: "0 < PAGE_SIZE" "PAGE_SIZE \<noteq> 0"
  by (simp_all add: PAGE_SIZE_def)

lemma frames_free_SET:
  assumes "pg < 64 * total_words p" and "length (physical_pages p) = total_words p"
  shows "frames_free (p\<lparr>physical_pages := SET_BIT (physical_pages p) pg\<rparr>) = frames_free p - {pg}"
  using assms by (auto simp: frames_free_def)

lemma frames_free_hints [simp]:
  "frames_free (p\<lparr>low_hint := h\<rparr>) = frames_free p" "frames_free (p\<lparr>high_hint := h\<rparr>) = frames_free p"
  "frames_free (p\<lparr>shared_refs := r\<rparr>) = frames_free p"
  by (simp_all add: frames_free_def)

lemma div64_less: "pg div 64 < w \<longleftrightarrow> pg < 64 * (w :: nat)"
  by (simp add: div_less_iff_less_mult mult.commute)

lemma free_iff: "pg \<in> frames_free p \<longleftrightarrow> pg div 64 < total_words p \<and> \<not> TEST_BIT (physical_pages p) pg"
  by (simp add: frames_free_def div64_less)

lemma pmm_invD:
  assumes "pmm_inv p" and "pg \<in> frames_free p"
  shows "0 < pg" "pg < total_pages p" "shared_refs p ! pg = 0" "pg div 64 < total_words p"
    "pg div 64 < low_words p \<Longrightarrow> low_hint p \<le> pg div 64"
    "low_words p \<le> pg div 64 \<Longrightarrow> high_hint p \<le> pg div 64" "\<not> TEST_BIT (physical_pages p) pg"
  using assms free_iff [of pg p] unfolding pmm_inv_def by (blast | auto)+

definition took :: "pmm \<Rightarrow> pmm \<Rightarrow> nat \<Rightarrow> nat set \<Rightarrow> bool" where
  "took p p' addr scope \<longleftrightarrow> pmm_inv p' \<and>
     (if addr = 0 then frames_free p' = frames_free p \<and> frames_free p \<inter> scope = {}
      else \<exists>pg \<in> frames_free p. addr = pg * PAGE_SIZE \<and> frames_free p' = frames_free p - {pg}) \<and>
     total_words p' = total_words p \<and> low_words p' = low_words p \<and> boot_words p' = boot_words p \<and>
     total_pages p' = total_pages p \<and> shared_refs p' = shared_refs p"

lemma take_low:
  assumes inv: "pmm_inv p" and last: "last_word \<le> low_words p"
    and t: "take_page_locked (physical_pages p) last_word (low_hint p) = (addr, bm, h)"
  shows "took p (p\<lparr>physical_pages := bm, low_hint := h\<rparr>) addr {pg. pg div 64 < last_word}"
proof -
  have len: "length (physical_pages p) = total_words p" "last_word \<le> length (physical_pages p)"
    using inv last by (auto simp: pmm_inv_def)
  from take_page_locked_spec [OF t len(2)] show ?thesis
  proof
    assume n: "addr = 0 \<and> bm = physical_pages p \<and> h = last_word \<and>
      (\<forall>pg. low_hint p \<le> pg div 64 \<and> pg div 64 < last_word \<longrightarrow> TEST_BIT (physical_pages p) pg)"
    have none: "\<not> pg div 64 < last_word" if "pg \<in> frames_free p" for pg
      using pmm_invD(5,7) [OF inv that] n last by (meson order_less_le_trans)
    have ff: "frames_free (p\<lparr>physical_pages := bm, low_hint := h\<rparr>) = frames_free p"
      using n by (simp add: frames_free_def)
    have "pmm_inv (p\<lparr>physical_pages := bm, low_hint := h\<rparr>)"
      using inv n none last unfolding pmm_inv_def ff by (simp add: not_less)
    then show ?thesis using n none unfolding took_def ff by auto
  next
    assume "\<exists>page. addr = page * PAGE_SIZE \<and> page < 64 * length (physical_pages p) \<and>
        \<not> TEST_BIT (physical_pages p) page \<and> bm = SET_BIT (physical_pages p) page \<and>
        low_hint p \<le> h \<and> h < last_word \<and> page div 64 = h \<and>
        (\<forall>pg. low_hint p \<le> pg div 64 \<and> pg div 64 < h \<longrightarrow> TEST_BIT (physical_pages p) pg)"
    then obtain page where pg: "addr = page * PAGE_SIZE" "page < 64 * length (physical_pages p)"
        "\<not> TEST_BIT (physical_pages p) page" "bm = SET_BIT (physical_pages p) page"
        "h < last_word" "page div 64 = h"
        "\<And>pg. low_hint p \<le> pg div 64 \<Longrightarrow> pg div 64 < h \<Longrightarrow> TEST_BIT (physical_pages p) pg" by blast
    have fr: "page \<in> frames_free p" using pg len by (simp add: frames_free_def)
    then have "page \<noteq> 0" using inv by (auto simp: pmm_inv_def)
    have ff: "frames_free (p\<lparr>physical_pages := bm, low_hint := h\<rparr>) = frames_free p - {page}"
      using pg(2) len unfolding pg(4) by (auto simp: frames_free_def)
    have "\<not> pg div 64 < h" if "pg \<in> frames_free p" "pg div 64 < low_words p" for pg
      using that pg(7) [of pg] pmm_invD(5,7) [OF inv that(1)] by blast
    then have "pmm_inv (p\<lparr>physical_pages := bm, low_hint := h\<rparr>)"
      using inv last pg(5) unfolding pmm_inv_def ff by (simp add: pg(4) not_less) blast
    then show ?thesis
      using fr \<open>page \<noteq> 0\<close> ff pg(1) by (auto simp: took_def)
  qed
qed

lemma take_high:
  assumes inv: "pmm_inv p"
    and t: "take_page_locked (physical_pages p) (total_words p) (high_hint p) = (addr, bm, h)"
  shows "took p (p\<lparr>physical_pages := bm, high_hint := h\<rparr>) addr {pg. low_words p \<le> pg div 64}"
proof -
  have len: "length (physical_pages p) = total_words p" "total_words p \<le> length (physical_pages p)"
    using inv by (auto simp: pmm_inv_def)
  from take_page_locked_spec [OF t len(2)] show ?thesis
  proof
    assume n: "addr = 0 \<and> bm = physical_pages p \<and> h = total_words p \<and>
      (\<forall>pg. high_hint p \<le> pg div 64 \<and> pg div 64 < total_words p \<longrightarrow> TEST_BIT (physical_pages p) pg)"
    have none: "\<not> low_words p \<le> pg div 64" if "pg \<in> frames_free p" for pg
      using pmm_invD(4,6,7) [OF inv that] n by blast
    have ff: "frames_free (p\<lparr>physical_pages := bm, high_hint := h\<rparr>) = frames_free p"
      using n by (simp add: frames_free_def)
    have "pmm_inv (p\<lparr>physical_pages := bm, high_hint := h\<rparr>)"
      using inv n none unfolding pmm_inv_def ff by (simp add: not_less)
    then show ?thesis using n none unfolding took_def ff by auto
  next
    assume "\<exists>page. addr = page * PAGE_SIZE \<and> page < 64 * length (physical_pages p) \<and>
        \<not> TEST_BIT (physical_pages p) page \<and> bm = SET_BIT (physical_pages p) page \<and>
        high_hint p \<le> h \<and> h < total_words p \<and> page div 64 = h \<and>
        (\<forall>pg. high_hint p \<le> pg div 64 \<and> pg div 64 < h \<longrightarrow> TEST_BIT (physical_pages p) pg)"
    then obtain page where pg: "addr = page * PAGE_SIZE" "page < 64 * length (physical_pages p)"
        "\<not> TEST_BIT (physical_pages p) page" "bm = SET_BIT (physical_pages p) page"
        "h < total_words p" "page div 64 = h"
        "\<And>pg. high_hint p \<le> pg div 64 \<Longrightarrow> pg div 64 < h \<Longrightarrow> TEST_BIT (physical_pages p) pg" by blast
    have fr: "page \<in> frames_free p" using pg len by (simp add: frames_free_def)
    then have "page \<noteq> 0" using inv by (auto simp: pmm_inv_def)
    have ff: "frames_free (p\<lparr>physical_pages := bm, high_hint := h\<rparr>) = frames_free p - {page}"
      using pg(2) len unfolding pg(4) by (auto simp: frames_free_def)
    have "\<not> pg div 64 < h" if "pg \<in> frames_free p" "low_words p \<le> pg div 64" for pg
      using that pg(7) [of pg] pmm_invD(6,7) [OF inv that(1)] by blast
    then have "pmm_inv (p\<lparr>physical_pages := bm, high_hint := h\<rparr>)"
      using inv unfolding pmm_inv_def ff by (simp add: pg(4) not_less) blast
    then show ?thesis
      using fr \<open>page \<noteq> 0\<close> ff pg(1) by (auto simp: took_def)
  qed
qed

definition reachable_frames :: "u64 \<Rightarrow> pmm \<Rightarrow> nat set" where
  "reachable_frames dmo p = (if direct_map_ready dmo then UNIV else {pg. pg div 64 < boot_words p})"

lemma take_page_took:
  assumes inv: "pmm_inv p" and t: "take_page dmo p = (addr, p')"
  shows "took p p' addr (reachable_frames dmo p)"
proof (cases "direct_map_ready dmo")
  case False
  obtain bm h where l: "take_page_locked (physical_pages p) (boot_words p) (low_hint p) = (addr, bm, h)"
    and p': "p' = p\<lparr>physical_pages := bm, low_hint := h\<rparr>"
    using t False by (auto simp: take_page_def split: prod.splits)
  show ?thesis
    using take_low [OF inv _ l] inv False by (simp add: p' reachable_frames_def pmm_inv_def)
next
  case True
  obtain a1 bm1 h1 where l: "take_page_locked (physical_pages p) (total_words p) (high_hint p) = (a1, bm1, h1)"
    by (metis prod_cases3)
  let ?q = "p\<lparr>physical_pages := bm1, high_hint := h1\<rparr>"
  note hi = take_high [OF inv l]
  show ?thesis
  proof (cases "a1 = 0")
    case False
    then show ?thesis using t True l hi by (auto simp: take_page_def took_def)
  next
    case a1: True
    obtain bm2 h2 where l2: "take_page_locked bm1 (low_words p) (low_hint p) = (addr, bm2, h2)"
      and p': "p' = p\<lparr>physical_pages := bm2, high_hint := h1, low_hint := h2\<rparr>"
      using t True l a1 by (auto simp: take_page_def split: prod.splits)
    define r where "r = ?q\<lparr>physical_pages := bm2, low_hint := h2\<rparr>"
    have r: "p' = r" by (simp add: p' r_def)
    have "pmm_inv ?q" using hi by (simp add: took_def)
    moreover have "low_words p \<le> low_words ?q" "take_page_locked (physical_pages ?q) (low_words p) (low_hint ?q) = (addr, bm2, h2)"
      using l2 by simp_all
    ultimately have lo: "took ?q r addr {pg. pg div 64 < low_words p}"
      unfolding r_def by (rule take_low)
    have "frames_free p \<inter> {pg. low_words p \<le> pg div 64} = {}" "frames_free ?q = frames_free p"
      using hi a1 by (simp_all add: took_def)
    moreover have "reachable_frames dmo p = {pg. low_words p \<le> pg div 64} \<union> {pg. pg div 64 < low_words p}"
      using True by (auto simp: reachable_frames_def)
    ultimately show ?thesis
      using lo hi unfolding r took_def by (auto simp: Int_Un_distrib)
  qed
qed

section \<open>Runs of frames\<close>

definition no_run :: "u64 list \<Rightarrow> nat \<Rightarrow> nat \<Rightarrow> nat \<Rightarrow> bool" where
  "no_run bm count start page \<longleftrightarrow>
     (\<forall>f. start \<le> f \<and> f + count \<le> page \<longrightarrow> (\<exists>i. f \<le> i \<and> i < f + count \<and> TEST_BIT bm i))"

text \<open>The state of the scan at \<open>page\<close>: the last \<open>run\<close> frames are free, the run is maximal and no
  long enough run ended earlier.\<close>

definition run_inv :: "u64 list \<Rightarrow> nat \<Rightarrow> nat \<Rightarrow> nat \<Rightarrow> nat \<Rightarrow> bool" where
  "run_inv bm count start page run \<longleftrightarrow>
     run < count \<and> start + run \<le> page \<and> (\<forall>i. page - run \<le> i \<and> i < page \<longrightarrow> \<not> TEST_BIT bm i) \<and>
     (page = start + run \<or> TEST_BIT bm (page - run - 1)) \<and> no_run bm count start page"

lemma run_inv_step:
  assumes inv: "run_inv bm count start page run" and r: "r = (if TEST_BIT bm page then 0 else run + 1)"
    and ne: "r \<noteq> count"
  shows "run_inv bm count start (page + 1) r"
proof -
  have I: "run < count" "start + run \<le> page" "page = start + run \<or> TEST_BIT bm (page - run - 1)"
    "no_run bm count start page" "\<And>i. page - run \<le> i \<Longrightarrow> i < page \<Longrightarrow> \<not> TEST_BIT bm i"
    using inv by (auto simp: run_inv_def)
  have "no_run bm count start (page + 1)"
    unfolding no_run_def
  proof (intro allI impI)
    fix f
    assume f: "start \<le> f \<and> f + count \<le> page + 1"
    show "\<exists>i. f \<le> i \<and> i < f + count \<and> TEST_BIT bm i"
    proof (cases "f + count \<le> page")
      case True
      with f I(4) show ?thesis by (auto simp: no_run_def)
    next
      case False
      then have e: "f + count = page + 1" using f by simp
      show ?thesis
      proof (cases "TEST_BIT bm page")
        case True
        with e I(1) show ?thesis by (intro exI [of _ page]) auto
      next
        case nt: False
        then have rc: "run + 1 < count" using r ne I(1) by simp
        then have lt: "f < page - run" using e by linarith
        then have "page \<noteq> start + run" using f by linarith
        then have "TEST_BIT bm (page - run - 1)" using I(3) by blast
        with lt e show ?thesis by (intro exI [of _ "page - run - 1"]) auto
      qed
    qed
  qed
  moreover have "i < page + 1 \<Longrightarrow> page + 1 - r \<le> i \<Longrightarrow> \<not> TEST_BIT bm i" for i
    using I(5) [of i] r by (cases "i = page") (auto split: if_splits)
  moreover have "r < count" "start + r \<le> page + 1" using r ne I(1,2) by (auto split: if_splits)
  moreover have "page + 1 = start + r \<or> TEST_BIT bm (page + 1 - r - 1)"
    using I(3) r by (auto split: if_splits)
  ultimately show ?thesis unfolding run_inv_def by blast
qed

lemma take_pages_scan_spec:
  assumes "run_inv bm count start page run"
  shows "case take_pages_scan bm count last_page page run of
      Some first \<Rightarrow> start \<le> first \<and> first + count \<le> last_page \<and> (\<forall>i. first \<le> i \<and> i < first + count \<longrightarrow> \<not> TEST_BIT bm i)
    | None \<Rightarrow> no_run bm count start last_page"
  using assms
proof (induction bm count last_page page run rule: take_pages_scan.induct)
  case (1 bm count last_page page run)
  define r where "r = (if TEST_BIT bm page then 0 else run + 1)"
  note I = "1.prems" [unfolded run_inv_def]
  consider "\<not> page < last_page" | "page < last_page" "r = count" | "page < last_page" "r \<noteq> count" by blast
  then show ?case
  proof cases
    case 1
    then have "no_run bm count start last_page" using I by (auto simp: no_run_def)
    then show ?thesis using 1 by (subst take_pages_scan.simps) simp
  next
    case 2
    have nt: "\<not> TEST_BIT bm page" "count = run + 1" using 2 I by (auto simp: r_def split: if_splits)
    have "\<not> TEST_BIT bm i" if "page - run \<le> i" "i < page + 1" for i
      using that nt I by (cases "i = page") auto
    then show ?thesis
      using 2 I nt by (subst take_pages_scan.simps) (auto simp: r_def)
  next
    case 3
    have "run_inv bm count start (page + 1) r" by (rule run_inv_step [OF "1.prems" r_def 3(2)])
    then show ?thesis
      using "1.IH" [OF 3(1) r_def 3(2)] 3 by (subst take_pages_scan.simps) (simp add: r_def [symmetric] Let_def)
  qed
qed

lemma TEST_fold_SET:
  assumes "\<forall>i\<in>set is. i < 64 * length bm"
  shows "TEST_BIT (fold (\<lambda>i bm. SET_BIT bm i) is bm) pg \<longleftrightarrow> pg \<in> set is \<or> TEST_BIT bm pg"
    and "length (fold (\<lambda>i bm. SET_BIT bm i) is bm) = length bm"
  using assms by (induction "is" arbitrary: bm) auto

text \<open>Enough room: the frames the scan may use.\<close>

definition scan_words :: "u64 \<Rightarrow> pmm \<Rightarrow> nat" where
  "scan_words dmo p = (if direct_map_ready dmo then total_words p else boot_words p)"

lemma take_pages_spec:
  assumes inv: "pmm_inv p" and c: "0 < count" and t: "take_pages dmo count p = (addr, p')"
  shows "pmm_inv p' \<and>
    (if addr = 0 then p' = p \<and> (\<forall>f. f + count \<le> 64 * scan_words dmo p \<longrightarrow> \<not> {f..<f + count} \<subseteq> frames_free p)
     else \<exists>f. addr = f * PAGE_SIZE \<and> {f..<f + count} \<subseteq> frames_free p \<and>
            frames_free p' = frames_free p - {f..<f + count})"
proof -
  define last_page where "last_page = scan_words dmo p * 64"
  have len: "length (physical_pages p) = total_words p" and last: "last_page \<le> 64 * total_words p"
    using inv by (auto simp: pmm_inv_def last_page_def scan_words_def)
  have start: "run_inv (physical_pages p) count (low_hint p * 64) (low_hint p * 64) 0"
    using c by (auto simp: run_inv_def no_run_def)
  note s = take_pages_scan_spec [OF start, of last_page]
  have td: "take_pages dmo count p = (case take_pages_scan (physical_pages p) count last_page (low_hint p * 64) 0 of
      Some first \<Rightarrow> (first * PAGE_SIZE, p\<lparr>physical_pages := fold (\<lambda>i bm. SET_BIT bm i) [first..<first + count] (physical_pages p)\<rparr>)
    | None \<Rightarrow> (nullptr, p))"
    by (simp add: take_pages_def last_page_def scan_words_def Let_def split: option.splits)
  show ?thesis
  proof (cases "take_pages_scan (physical_pages p) count last_page (low_hint p * 64) 0")
    case None
    have n: "no_run (physical_pages p) count (low_hint p * 64) last_page" using s None by simp
    have "\<not> {f..<f + count} \<subseteq> frames_free p" if "f + count \<le> last_page" for f
    proof (cases "low_hint p * 64 \<le> f")
      case True
      with n that show ?thesis by (fastforce simp: no_run_def frames_free_def)
    next
      case False
      then have w: "f div 64 < low_hint p" by (simp add: div64_less)
      have "f \<notin> frames_free p"
        using w pmm_invD(5) [OF inv, of f] inv by (auto simp: pmm_inv_def)
      moreover have "f \<in> {f..<f + count}" using c by simp
      ultimately show ?thesis by blast
    qed
    then show ?thesis using None t inv by (auto simp: td last_page_def mult.commute)
  next
    case (Some f)
    then have f: "f + count \<le> last_page" "\<forall>i. f \<le> i \<and> i < f + count \<longrightarrow> \<not> TEST_BIT (physical_pages p) i" using s by auto
    have sub: "{f..<f + count} \<subseteq> frames_free p" using f last by (auto simp: frames_free_def)
    then have "f \<in> frames_free p" using c by auto
    then have f0: "f \<noteq> 0" using pmm_invD(1) [OF inv] by blast
    have p': "addr = f * PAGE_SIZE" "p' = p\<lparr>physical_pages := fold (\<lambda>i bm. SET_BIT bm i) [f..<f + count] (physical_pages p)\<rparr>"
      using t Some by (auto simp: td)
    have T: "TEST_BIT (physical_pages p') pg \<longleftrightarrow> pg \<in> {f..<f + count} \<or> TEST_BIT (physical_pages p) pg"
      "length (physical_pages p') = total_words p" for pg
      using TEST_fold_SET [of "[f..<f + count]" "physical_pages p"] f(1) last len by (auto simp: p')
    have fields: "total_words p' = total_words p" "total_pages p' = total_pages p" "shared_refs p' = shared_refs p"
      "low_words p' = low_words p" "boot_words p' = boot_words p" "low_hint p' = low_hint p" "high_hint p' = high_hint p"
      by (simp_all add: p'(2))
    have ff: "frames_free p' = frames_free p - {f..<f + count}"
      unfolding frames_free_def T(1) fields by auto
    have "pmm_inv p'" using inv T(2) unfolding pmm_inv_def ff fields by blast
    moreover have "addr \<noteq> 0" using f0 p'(1) by simp
    ultimately show ?thesis using ff sub p'(1) by auto
  qed
qed

section \<open>Freeing and sharing\<close>

definition sharers :: "pmm \<Rightarrow> nat \<Rightarrow> nat" where
  "sharers p pg = (if pg < total_pages p then unat (shared_refs p ! pg) else 0)"

lemma sharers_zero: "pg < total_pages p \<Longrightarrow> sharers p pg = 0 \<longleftrightarrow> shared_refs p ! pg = 0"
  by (simp add: sharers_def unat_eq_zero)

lemma free_page_shared:
  assumes inv: "pmm_inv p" and pg: "pg = addr div PAGE_SIZE" "0 < pg" "pg < total_pages p" "0 < sharers p pg"
    and p': "p' = free_page_locked addr p"
  shows "pmm_inv p' \<and> frames_free p' = frames_free p \<and> total_pages p' = total_pages p \<and>
    sharers p' = (sharers p)(pg := sharers p pg - 1)"
proof -
  have nz: "shared_refs p ! pg \<noteq> 0" using pg by (simp add: sharers_zero [symmetric])
  have e: "p' = p\<lparr>shared_refs := (shared_refs p)[pg := shared_refs p ! pg - 1]\<rparr>"
    using nz pg by (simp add: p' free_page_locked_def Let_def)
  have nf: "pg \<notin> frames_free p" using pmm_invD(3) [OF inv] nz by blast
  have len: "pg < length (shared_refs p)" using inv pg by (simp add: pmm_inv_def)
  have "unat (shared_refs p ! pg - 1) = unat (shared_refs p ! pg) - 1"
    using nz by (simp add: unat_minus_le Suc_leI unat_gt_0)
  then have "sharers p' = (sharers p)(pg := sharers p pg - 1)"
    using len pg by (auto simp: sharers_def e fun_eq_iff)
  moreover have "pmm_inv p'"
    using inv nf unfolding pmm_inv_def e by simp (metis nth_list_update_neq)
  ultimately show ?thesis by (simp add: e)
qed

lemma free_page_last:
  assumes inv: "pmm_inv p" and pg: "pg = addr div PAGE_SIZE" "0 < pg" "pg < total_pages p" "sharers p pg = 0"
    and p': "p' = free_page_locked addr p"
  shows "pmm_inv p' \<and> frames_free p' = insert pg (frames_free p) \<and> total_pages p' = total_pages p \<and>
    sharers p' = sharers p"
proof -
  have z: "shared_refs p ! pg = 0" using pg by (simp add: sharers_zero [symmetric])
  have le: "pg < 64 * total_words p" "length (physical_pages p) = total_words p"
    using inv pg by (auto simp: pmm_inv_def)
  define q where "q = p\<lparr>physical_pages := CLEAR_BIT (physical_pages p) pg\<rparr>"
  have e: "p' = (if pg div 64 < low_words p
      then (if pg div 64 < low_hint p then q\<lparr>low_hint := pg div 64\<rparr> else q)
      else (if pg div 64 < high_hint p then q\<lparr>high_hint := pg div 64\<rparr> else q))"
    using z pg by (simp add: p' free_page_locked_def Let_def q_def BITMAP_INDEX_def)
  have ffq: "frames_free q = insert pg (frames_free p)"
    using le by (auto simp: frames_free_def q_def)
  then have ff: "frames_free p' = insert pg (frames_free p)" by (simp add: e)
  have fields: "total_words p' = total_words p" "total_pages p' = total_pages p" "shared_refs p' = shared_refs p"
    "low_words p' = low_words p" "boot_words p' = boot_words p" "length (physical_pages p') = length (physical_pages p)"
    "low_hint p' = (if pg div 64 < low_words p then min (pg div 64) (low_hint p) else low_hint p)"
    "high_hint p' = (if pg div 64 < low_words p then high_hint p else min (pg div 64) (high_hint p))"
    by (simp_all add: e q_def min_def)
  have "pmm_inv p'"
    using inv z pg unfolding pmm_inv_def ff fields by (auto simp: min_le_iff_disj)
  then show ?thesis by (simp add: ff fields sharers_def fun_eq_iff)
qed

lemma share_page_spec:
  assumes inv: "pmm_inv p" and pg: "pg = addr div PAGE_SIZE" "pg < total_pages p" "pg \<notin> frames_free p"
    "sharers p pg < 65535" and p': "p' = pmm_share_page addr p"
  shows "pmm_inv p' \<and> frames_free p' = frames_free p \<and> total_pages p' = total_pages p \<and>
    sharers p' = (sharers p)(pg := sharers p pg + 1)"
proof -
  have lt: "unat (shared_refs p ! pg) < 65535" using pg by (simp add: sharers_def)
  then have e: "p' = p\<lparr>shared_refs := (shared_refs p)[pg := shared_refs p ! pg + 1]\<rparr>"
    using pg by (simp add: p' pmm_share_page_def Let_def word_less_nat_alt)
  have len: "pg < length (shared_refs p)" using inv pg by (simp add: pmm_inv_def)
  have "unat (shared_refs p ! pg + 1) = unat (shared_refs p ! pg) + 1"
    using lt by (subst unat_plus_no_wrap) simp_all
  then have "sharers p' = (sharers p)(pg := sharers p pg + 1)"
    using len pg by (auto simp: sharers_def e fun_eq_iff)
  moreover have "pmm_inv p'"
    using inv pg(3) unfolding pmm_inv_def e by simp (metis nth_list_update_neq)
  ultimately show ?thesis by (simp add: e)
qed

text \<open>A saturated counter: the frame has one more user than the counter tells, so that the
  free of its last but one user releases it.\<close>

lemma pmm_share_saturated:
  "sharers p (addr div PAGE_SIZE) = 65535 \<Longrightarrow> pmm_share_page addr p = p"
  by (auto simp: pmm_share_page_def sharers_def word_less_nat_alt Let_def split: if_splits)

section \<open>The contract of a frame allocator\<close>

fun alloc_many :: "('s \<Rightarrow> nat \<times> 's) \<Rightarrow> nat \<Rightarrow> 's \<Rightarrow> nat list \<times> 's" where
  "alloc_many alloc 0 s = ([], s)"
| "alloc_many alloc (Suc n) s =
     (let (a, s) = alloc s; (as, s) = alloc_many alloc n s in (if a = nullptr then as else a # as, s))"

locale frame_store =
  fixes inv :: "'s \<Rightarrow> bool" and frames :: "'s \<Rightarrow> nat set" and avail :: "'s \<Rightarrow> nat set"
    and refs :: "'s \<Rightarrow> nat \<Rightarrow> nat"
    and alloc :: "'s \<Rightarrow> nat \<times> 's" and release :: "nat \<Rightarrow> 's \<Rightarrow> 's" and share :: "nat \<Rightarrow> 's \<Rightarrow> 's"
  assumes alloc_law: "inv s \<Longrightarrow> alloc s = (a, s') \<Longrightarrow> inv s' \<and> frames s' = frames s \<and> refs s' = refs s \<and>
      (if a = 0 then avail s' = avail s else \<exists>pg \<in> avail s. a = pg * PAGE_SIZE \<and> avail s' = avail s - {pg})"
    and release_shared: "inv s \<Longrightarrow> pg \<in> frames s \<Longrightarrow> 0 < refs s pg \<Longrightarrow> s' = release (pg * PAGE_SIZE) s \<Longrightarrow>
      inv s' \<and> frames s' = frames s \<and> avail s' = avail s \<and> refs s' = (refs s)(pg := refs s pg - 1)"
    and release_last: "inv s \<Longrightarrow> pg \<in> frames s \<Longrightarrow> refs s pg = 0 \<Longrightarrow> s' = release (pg * PAGE_SIZE) s \<Longrightarrow>
      inv s' \<and> frames s' = frames s \<and> avail s' = insert pg (avail s) \<and> refs s' = refs s"
    and share_law: "inv s \<Longrightarrow> pg \<in> frames s - avail s \<Longrightarrow> refs s pg < 65535 \<Longrightarrow> s' = share (pg * PAGE_SIZE) s \<Longrightarrow>
      inv s' \<and> frames s' = frames s \<and> avail s' = avail s \<and> refs s' = (refs s)(pg := refs s pg + 1)"
begin

lemma alloc_many_distinct:
  assumes "inv s" and "alloc_many alloc n s = (as, s')"
  shows "inv s' \<and> distinct as \<and> (\<forall>a\<in>set as. \<exists>pg\<in>avail s. a = pg * PAGE_SIZE) \<and>
    avail s' = avail s - {pg. pg * PAGE_SIZE \<in> set as}"
  using assms
proof (induction n arbitrary: s as)
  case (Suc n)
  obtain a s1 as1 where a: "alloc s = (a, s1)" and r: "alloc_many alloc n s1 = (as1, s')"
    and as: "as = (if a = 0 then as1 else a # as1)"
    using Suc.prems(2) by (auto simp: Let_def split: prod.splits)
  note l = alloc_law [OF Suc.prems(1) a]
  note IH = Suc.IH [OF conjunct1 [OF l] r]
  show ?case
  proof (cases "a = 0")
    case True
    with l IH as show ?thesis by simp
  next
    case False
    then obtain pg where pg: "pg \<in> avail s" "a = pg * PAGE_SIZE" "avail s1 = avail s - {pg}" using l by auto
    have "a \<notin> set as1" using IH pg by auto
    with False IH as pg show ?thesis by auto
  qed
qed simp

lemma share_many:
  assumes "inv s" and "pg \<in> frames s - avail s" and "refs s pg + n \<le> 65535"
  shows "inv ((share (pg * PAGE_SIZE) ^^ n) s) \<and> frames ((share (pg * PAGE_SIZE) ^^ n) s) = frames s \<and>
    avail ((share (pg * PAGE_SIZE) ^^ n) s) = avail s \<and>
    refs ((share (pg * PAGE_SIZE) ^^ n) s) = (refs s)(pg := refs s pg + n)"
  using assms(3)
proof (induction n)
  case (Suc n)
  then show ?case using share_law [of "(share (pg * PAGE_SIZE) ^^ n) s" pg, OF _ _ _ refl] assms by (simp add: fun_eq_iff)
qed (simp add: assms)

lemma release_many:
  assumes "inv s" and "pg \<in> frames s" and "n \<le> refs s pg"
  shows "inv ((release (pg * PAGE_SIZE) ^^ n) s) \<and> frames ((release (pg * PAGE_SIZE) ^^ n) s) = frames s \<and>
    avail ((release (pg * PAGE_SIZE) ^^ n) s) = avail s \<and>
    refs ((release (pg * PAGE_SIZE) ^^ n) s) = (refs s)(pg := refs s pg - n)"
  using assms(3)
proof (induction n)
  case (Suc n)
  then show ?case using release_shared [of "(release (pg * PAGE_SIZE) ^^ n) s" pg, OF _ _ _ refl] assms by (simp add: fun_eq_iff)
qed (simp add: assms)

lemma shared_until_last:
  assumes "inv s" and "pg \<in> frames s - avail s" and "refs s pg = 0" and "n \<le> 65535"
    and t: "t = (release (pg * PAGE_SIZE) ^^ n) ((share (pg * PAGE_SIZE) ^^ n) s)"
  shows "inv t \<and> avail t = avail s \<and> refs t = refs s \<and>
    inv (release (pg * PAGE_SIZE) t) \<and> avail (release (pg * PAGE_SIZE) t) = insert pg (avail s)"
proof -
  note sh = share_many [OF assms(1,2), of n]
  define u where "u = (share (pg * PAGE_SIZE) ^^ n) s"
  have u: "inv u" "frames u = frames s" "avail u = avail s" "refs u = (refs s)(pg := n)"
    using sh assms(3,4) by (simp_all add: u_def)
  have "inv t" "frames t = frames s" "avail t = avail s" "refs t = refs s"
    using release_many [of u pg n] u assms(2,3) by (auto simp: t u_def [symmetric])
  then show ?thesis using release_last [of t pg, OF _ _ _ refl] assms(2,3) by simp
qed

end

lemma free_physical_page_eq: "free_physical_page a p = free_page_locked a p"
  by (simp add: free_physical_page_def free_physical_pages_def)

interpretation pf: frame_store pmm_inv "\<lambda>p. {0<..<total_pages p}" frames_free sharers "take_page dmo"
  free_physical_page pmm_share_page
  for dmo
proof
  fix s a s' assume "pmm_inv s" "take_page dmo s = (a, s')"
  from take_page_took [OF this] show "pmm_inv s' \<and> {0<..<total_pages s'} = {0<..<total_pages s} \<and> sharers s' = sharers s \<and>
      (if a = 0 then frames_free s' = frames_free s else \<exists>pg \<in> frames_free s. a = pg * PAGE_SIZE \<and> frames_free s' = frames_free s - {pg})"
    by (auto simp: took_def sharers_def fun_eq_iff)
next
  fix s pg s' assume "pmm_inv s" "pg \<in> {0<..<total_pages s}" "0 < sharers s pg" "s' = free_physical_page (pg * PAGE_SIZE) s"
  then show "pmm_inv s' \<and> {0<..<total_pages s'} = {0<..<total_pages s} \<and> frames_free s' = frames_free s \<and>
      sharers s' = (sharers s)(pg := sharers s pg - 1)"
    using free_page_shared [of s pg "pg * PAGE_SIZE" s'] by (simp add: free_physical_page_eq)
next
  fix s pg s' assume "pmm_inv s" "pg \<in> {0<..<total_pages s}" "sharers s pg = 0" "s' = free_physical_page (pg * PAGE_SIZE) s"
  then show "pmm_inv s' \<and> {0<..<total_pages s'} = {0<..<total_pages s} \<and> frames_free s' = insert pg (frames_free s) \<and>
      sharers s' = sharers s"
    using free_page_last [of s pg "pg * PAGE_SIZE" s'] by (simp add: free_physical_page_eq)
next
  fix s pg s' assume "pmm_inv s" "pg \<in> {0<..<total_pages s} - frames_free s" "sharers s pg < 65535"
    "s' = pmm_share_page (pg * PAGE_SIZE) s"
  then show "pmm_inv s' \<and> {0<..<total_pages s'} = {0<..<total_pages s} \<and> frames_free s' = frames_free s \<and>
      sharers s' = (sharers s)(pg := sharers s pg + 1)"
    using share_page_spec [of s pg "pg * PAGE_SIZE" s'] by simp
qed

section \<open>Counting free frames\<close>

termination count_bits
proof (relation "measure unat")
  fix bits :: u64
  assume nz: "bits \<noteq> 0"
  have "bits AND (bits - 1) \<le> bits - 1" by (rule word_and_le1)
  then have "unat (bits AND (bits - 1)) \<le> unat (bits - 1)" by (simp add: word_le_nat_alt)
  also have "\<dots> < unat bits" using nz by (simp add: unat_minus_le Suc_leI unat_gt_0)
  finally show "(bits AND (bits - 1), bits) \<in> measure unat" by simp
qed simp

declare count_bits.simps [simp del]

fun pop :: "nat \<Rightarrow> nat" where
  "pop n = (if n = 0 then 0 else n mod 2 + pop (n div 2))"

declare pop.simps [simp del]

lemma pop_simps [simp]: "pop 0 = 0" "pop (2 * k) = pop k" "pop (Suc (2 * k)) = Suc (pop k)"
  by (subst pop.simps; simp)+

lemma pop_clear_lowest: "0 < n \<Longrightarrow> Suc (pop (n AND (n - 1))) = pop n"
proof (induction n rule: less_induct)
  case (less n)
  show ?case
  proof (cases "even n")
    case True
    then obtain k where k: "n = 2 * k" by blast
    with less.prems have "0 < k" "n - 1 = Suc (2 * (k - 1))" by auto
    then have "n AND (n - 1) = 2 * (k AND (k - 1))" by (simp add: k and_nat_rec [of "2 * k"])
    then show ?thesis using less.IH [of k] \<open>0 < k\<close> by (simp add: k)
  next
    case False
    then obtain k where k: "n = Suc (2 * k)" by (metis oddE Suc_eq_plus1)
    then have "n AND (n - 1) = 2 * k" by (simp add: and_nat_rec [of "Suc (2 * k)"])
    then show ?thesis by (simp add: k)
  qed
qed

lemma count_bits_pop: "count_bits b = pop (unat b)"
proof (induction b rule: count_bits.induct)
  case (1 b)
  show ?case
  proof (cases "b = 0")
    case False
    then have "unat (b AND (b - 1)) = unat b AND (unat b - 1)"
      by (simp add: unsigned_and_eq unat_minus_le Suc_leI unat_gt_0)
    then show ?thesis
      using 1 False pop_clear_lowest [of "unat b"] by (subst count_bits.simps) (simp add: unat_gt_0)
  qed (subst count_bits.simps, simp)
qed

lemma pop_card: "finite {i. bit n i} \<and> card {i. bit n i} = pop n"
proof (induction n rule: pop.induct)
  case (1 n)
  show ?case
  proof (cases "n = 0")
    case False
    have e: "{i. bit n i} = (if odd n then {0} else {}) \<union> Suc ` {i. bit (n div 2) i}"
    proof (rule set_eqI)
      fix i
      show "i \<in> {i. bit n i} \<longleftrightarrow> i \<in> (if odd n then {0} else {}) \<union> Suc ` {i. bit (n div 2) i}"
        by (cases i) (auto simp: bit_0 bit_Suc)
    qed
    have "card (Suc ` {i. bit (n div 2) i}) = pop (n div 2)" "finite (Suc ` {i. bit (n div 2) i})"
      using 1 False by (auto simp: card_image)
    then have "finite {i. bit n i}" "card {i. bit n i} = n mod 2 + pop (n div 2)"
      unfolding e by (cases "odd n"; auto simp: card_insert_if odd_iff_mod_2_eq_one)+
    then show ?thesis using False by (subst pop.simps) simp
  qed simp
qed

lemma count_bits_card: "count_bits (NOT w) = card {i. i < 64 \<and> \<not> bit w i}"
proof -
  have "{i. bit (unat (NOT w)) i} = {i. i < 64 \<and> \<not> bit w i}"
    by (auto simp: bit_unsigned_iff bit_not_iff possible_bit_def)
  then show ?thesis using pop_card [of "unat (NOT w)"] by (simp add: count_bits_pop)
qed

lemma pmm_free_pages_card: "pmm_free_pages p = card (frames_free p)"
proof -
  define S where "S = (SIGMA w:{..<total_words p}. {i. i < 64 \<and> \<not> bit (physical_pages p ! w) i})"
  have dm: "(64 * w + i) div 64 = w" "(64 * w + i) mod 64 = i" if "i < 64" for w i :: nat
    using that by simp_all
  have "frames_free p = (\<lambda>(w, i). 64 * w + i) ` S"
  proof (intro equalityI subsetI)
    fix pg
    assume "pg \<in> frames_free p"
    then have "(pg div 64, pg mod 64) \<in> S" by (simp add: S_def free_iff TEST_BIT_bit)
    moreover have "pg = (\<lambda>(w, i). 64 * w + i) (pg div 64, pg mod 64)" by simp
    ultimately show "pg \<in> (\<lambda>(w, i). 64 * w + i) ` S" by (rule rev_image_eqI)
  next
    fix pg
    assume "pg \<in> (\<lambda>(w, i). 64 * w + i) ` S"
    then show "pg \<in> frames_free p" by (auto simp: S_def free_iff TEST_BIT_bit dm)
  qed
  moreover have "inj_on (\<lambda>(w, i). 64 * w + i) S"
  proof (rule inj_onI, clarify)
    fix w i w' i'
    assume "(w, i) \<in> S" "(w', i') \<in> S" "64 * w + i = 64 * w' + i'"
    then show "w = w' \<and> i = i'" using dm [of i w] dm [of i' w'] by (simp add: S_def)
  qed
  ultimately have "card (frames_free p) = card S" by (simp add: card_image)
  also have "\<dots> = (\<Sum>w<total_words p. card {i. i < 64 \<and> \<not> bit (physical_pages p ! w) i})"
    unfolding S_def by (rule card_SigmaI) auto
  also have "\<dots> = pmm_free_pages p"
    by (simp add: pmm_free_pages_def count_bits_card interv_sum_list_conv_sum_set_nat atLeast0LessThan)
  finally show ?thesis by simp
qed

section \<open>Initialisation\<close>

lemma PAGE_ALIGN_UP_le: "PAGE_ALIGN_UP x \<le> pg * PAGE_SIZE \<longleftrightarrow> x \<le> pg * PAGE_SIZE"
proof -
  have "(4095 + x) div 4096 \<le> pg \<longleftrightarrow> x \<le> pg * 4096" by linarith
  then show ?thesis by (simp add: PAGE_ALIGN_UP_def PAGE_SIZE_def)
qed

lemma PAGE_ALIGN_UP_ge: "x \<le> PAGE_ALIGN_UP x"
  using PAGE_ALIGN_UP_le [of x "(x + PAGE_SIZE - 1) div PAGE_SIZE"] by (simp add: PAGE_ALIGN_UP_def)

lemma PAGE_ALIGN_UP_dvd [simp]: "PAGE_SIZE dvd PAGE_ALIGN_UP x"
  by (simp add: PAGE_ALIGN_UP_def)

lemma region_pages_iff:
  "a \<in> set (region_pages r) \<longleftrightarrow> PAGE_SIZE dvd a \<and> mr_addr r \<le> a \<and> a + PAGE_SIZE \<le> mr_addr r + mr_length r"
proof -
  define st where "st = PAGE_ALIGN_UP (mr_addr r)"
  define en where "en = mr_addr r + mr_length r"
  have set_eq: "a \<in> set (region_pages r) \<longleftrightarrow> (\<exists>i. i < (en - st) div PAGE_SIZE \<and> a = st + i * PAGE_SIZE)"
    by (auto simp: region_pages_def st_def en_def Let_def)
  obtain s where s: "st = s * PAGE_SIZE" by (metis PAGE_ALIGN_UP_dvd dvdE mult.commute st_def)
  have idx: "i < (en - st) div PAGE_SIZE \<longleftrightarrow> st + i * PAGE_SIZE + PAGE_SIZE \<le> en" for i
  proof -
    have "i < (en - st) div PAGE_SIZE \<longleftrightarrow> i * PAGE_SIZE + PAGE_SIZE \<le> en - st"
      using less_eq_div_iff_mult_less_eq [of PAGE_SIZE "Suc i" "en - st"] by (simp add: Suc_le_eq add.commute)
    then show ?thesis using PAGE_SIZE_pos(1) by linarith
  qed
  show ?thesis unfolding set_eq idx en_def [symmetric]
  proof
    assume "\<exists>i. st + i * PAGE_SIZE + PAGE_SIZE \<le> en \<and> a = st + i * PAGE_SIZE"
    then show "PAGE_SIZE dvd a \<and> mr_addr r \<le> a \<and> a + PAGE_SIZE \<le> en"
      using PAGE_ALIGN_UP_ge [of "mr_addr r"] s by (auto simp: st_def [symmetric])
  next
    assume a: "PAGE_SIZE dvd a \<and> mr_addr r \<le> a \<and> a + PAGE_SIZE \<le> en"
    then obtain pg where pg: "a = pg * PAGE_SIZE" by (metis dvdE mult.commute)
    with a have "st \<le> pg * PAGE_SIZE" by (simp add: st_def PAGE_ALIGN_UP_le)
    then have "s \<le> pg" using s by simp
    then have "a = st + (pg - s) * PAGE_SIZE" by (simp add: pg s diff_mult_distrib)
    with a show "\<exists>i. st + i * PAGE_SIZE + PAGE_SIZE \<le> en \<and> a = st + i * PAGE_SIZE" by metis
  qed
qed

lemma region_limit_ge:
  assumes "r \<in> set rs"
  shows "(mr_addr r + mr_length r) div PAGE_SIZE * PAGE_SIZE \<le> region_limit rs"
proof -
  have g: "l \<le> fold (\<lambda>r limit. let e = (mr_addr r + mr_length r) div PAGE_SIZE * PAGE_SIZE in if e > limit then e else limit) rs l \<and>
    (\<forall>r\<in>set rs. (mr_addr r + mr_length r) div PAGE_SIZE * PAGE_SIZE \<le>
       fold (\<lambda>r limit. let e = (mr_addr r + mr_length r) div PAGE_SIZE * PAGE_SIZE in if e > limit then e else limit) rs l)" for l
  proof (induction rs arbitrary: l)
    case (Cons x xs)
    define e where "e = (mr_addr x + mr_length x) div PAGE_SIZE * PAGE_SIZE"
    show ?case using Cons [of "if e > l then e else l"] by (auto simp: Let_def e_def split: if_splits)
  qed simp
  then show ?thesis using assms by (simp add: region_limit_def)
qed

lemma region_page_bound:
  assumes "r \<in> set rs" and "a \<in> set (region_pages r)"
  shows "a div PAGE_SIZE < region_limit rs div PAGE_SIZE"
proof -
  obtain pg where pg: "a = pg * PAGE_SIZE" using assms(2) by (auto simp: region_pages_iff elim: dvdE)
  then have "Suc pg * PAGE_SIZE \<le> mr_addr r + mr_length r" using assms(2) by (simp add: region_pages_iff)
  then have "Suc pg \<le> (mr_addr r + mr_length r) div PAGE_SIZE" by (simp add: less_eq_div_iff_mult_less_eq)
  also have "\<dots> \<le> region_limit rs div PAGE_SIZE"
    using div_le_mono [OF region_limit_ge [OF assms(1)], of PAGE_SIZE] by simp
  finally show ?thesis by (simp add: pg)
qed

lemma place_metadata_spec:
  "meta = place_metadata rs ke sz \<Longrightarrow> meta \<noteq> 0 \<Longrightarrow> PAGE_SIZE dvd ke \<Longrightarrow>
    PAGE_SIZE dvd meta \<and> ke \<le> meta \<and>
    (\<exists>r\<in>set rs. mr_addr r \<le> meta \<and> meta + sz \<le> mr_addr r + mr_length r \<and> meta + sz \<le> IDENTITY_MAP_SIZE)"
proof (induction rs)
  case (Cons r rs)
  define start where "start = (if PAGE_ALIGN_UP (mr_addr r) < ke then ke else PAGE_ALIGN_UP (mr_addr r))"
  define en where "en = (if mr_addr r + mr_length r > IDENTITY_MAP_SIZE then IDENTITY_MAP_SIZE else mr_addr r + mr_length r)"
  have pm: "place_metadata (r # rs) ke sz = (if start + sz \<le> en then start else place_metadata rs ke sz)"
    by (simp add: start_def en_def Let_def)
  show ?case
  proof (cases "start + sz \<le> en")
    case True
    then have "meta = start" using Cons.prems pm by simp
    moreover have "PAGE_SIZE dvd start" "ke \<le> start" "mr_addr r \<le> start"
      using Cons.prems(3) PAGE_ALIGN_UP_ge [of "mr_addr r"] by (auto simp: start_def)
    ultimately show ?thesis using True by (auto simp: en_def split: if_splits)
  next
    case False
    then have "meta = place_metadata rs ke sz" using Cons.prems(1) pm by simp
    then show ?thesis using Cons.IH Cons.prems by auto
  qed
qed simp

definition bit_free :: "u64 list \<Rightarrow> nat set" where
  "bit_free bm = {pg. pg < 64 * length bm \<and> \<not> TEST_BIT bm pg}"

lemma release_boot_fold:
  assumes "fold (release_boot_page ke meta sz) as (bm, n) = (bm', n')"
    and "\<forall>a\<in>set as. a div PAGE_SIZE < 64 * length bm"
  shows "length bm' = length bm \<and> n' + card (bit_free bm) = n + card (bit_free bm') \<and>
    bit_free bm' = bit_free bm \<union>
      {pg. \<exists>a\<in>set as. \<not> (a < ke \<or> (a \<ge> meta \<and> a < meta + sz)) \<and> pg = a div PAGE_SIZE}"
  using assms
proof (induction "as" arbitrary: bm n)
  case (Cons a as)
  obtain bm1 n1 where st: "release_boot_page ke meta sz a (bm, n) = (bm1, n1)" by fastforce
  have a: "a div PAGE_SIZE < 64 * length bm" using Cons.prems by simp
  have fin: "finite (bit_free bm)" by (simp add: bit_free_def)
  have step: "length bm1 = length bm \<and> n1 + card (bit_free bm) = n + card (bit_free bm1) \<and>
    bit_free bm1 = bit_free bm \<union> (if a < ke \<or> (a \<ge> meta \<and> a < meta + sz) then {} else {a div PAGE_SIZE})"
  proof (cases "(a < ke \<or> (a \<ge> meta \<and> a < meta + sz)) \<or> \<not> TEST_BIT bm (a div PAGE_SIZE)")
    case True
    then show ?thesis using st a by (auto simp: release_boot_page_def Let_def bit_free_def split: if_splits)
  next
    case False
    then have e: "bm1 = CLEAR_BIT bm (a div PAGE_SIZE)" "n1 = n + 1"
      using st by (auto simp: release_boot_page_def Let_def)
    have "bit_free bm1 = insert (a div PAGE_SIZE) (bit_free bm)" using a by (auto simp: e bit_free_def)
    moreover have "a div PAGE_SIZE \<notin> bit_free bm" using False by (simp add: bit_free_def)
    ultimately show ?thesis using False fin by (auto simp: e)
  qed
  have "fold (release_boot_page ke meta sz) as (bm1, n1) = (bm', n')" using Cons.prems(1) st by simp
  note IH = Cons.IH [OF this]
  show ?case using IH step Cons.prems(2) by auto
qed (auto)

lemma bit_free_full: "bit_free (replicate n (- 1)) = {}"
proof -
  have "TEST_BIT (replicate n (- 1)) pg" if "pg < 64 * n" for pg
    using that by (intro full_word) (simp add: div64_less)
  then show ?thesis by (auto simp: bit_free_def)
qed

lemma pmm_initialize_spec:
  assumes "pmm_initialize kernel_virtual_end regions = Done p"
  defines "ke \<equiv> PAGE_ALIGN_UP (kernel_virtual_end + 2048)"
    and "sz \<equiv> PAGE_ALIGN_UP (total_words p * 8 + total_pages p * 2)"
  shows "pmm_inv p \<and> usable_pages p = card (frames_free p) \<and> (\<forall>pg. sharers p pg = 0) \<and>
    (\<exists>meta. PAGE_SIZE dvd meta \<and> ke \<le> meta \<and>
      (\<exists>r\<in>set (usable p). mr_addr r \<le> meta \<and> meta + sz \<le> mr_addr r + mr_length r) \<and>
      frames_free p = {pg. ke \<le> pg * PAGE_SIZE \<and> \<not> (meta \<le> pg * PAGE_SIZE \<and> pg * PAGE_SIZE < meta + sz) \<and>
        (\<exists>r\<in>set (usable p). mr_addr r \<le> pg * PAGE_SIZE \<and> pg * PAGE_SIZE + PAGE_SIZE \<le> mr_addr r + mr_length r)})"
proof -
  define us where "us = filter (\<lambda>r. mr_type r = MEMORY_AVAILABLE) (take MAX_MEMORY_REGIONS regions)"
  define total where "total = region_limit us div PAGE_SIZE"
  define words where "words = (total + 63) div 64"
  define meta where "meta = place_metadata us ke (PAGE_ALIGN_UP (words * 8 + total * 2))"
  define as where "as = concat (map region_pages us)"
  obtain bm n where f: "fold (release_boot_page ke meta (PAGE_ALIGN_UP (words * 8 + total * 2))) as (replicate words (- 1), 0) = (bm, n)"
    by fastforce
  have m0: "meta \<noteq> 0" and p: "p = \<lparr>physical_pages = bm, shared_refs = replicate total 0, total_pages = total,
      total_words = words, low_words = (if words < LOW_WORDS then words else LOW_WORDS),
      boot_words = (if words < BOOT_WORDS then words else BOOT_WORDS), usable_pages = n,
      low_hint = 0, high_hint = (if words < LOW_WORDS then words else LOW_WORDS), usable = us\<rparr>"
    using assms(1) f
    by (simp_all add: pmm_initialize_def Let_def ke_def us_def total_def words_def meta_def as_def split: if_splits)
  have sz: "sz = PAGE_ALIGN_UP (words * 8 + total * 2)" by (simp add: sz_def p)
  have words: "total \<le> 64 * words" unfolding words_def by linarith
  have bound: "a div PAGE_SIZE < total" if "a \<in> set as" for a
    using that region_page_bound [of _ us a] by (auto simp: as_def total_def)
  then have b2: "\<forall>a\<in>set as. a div PAGE_SIZE < 64 * length (replicate words (- 1 :: u64))"
    using words by (auto intro: less_le_trans)
  note r = release_boot_fold [OF f b2, unfolded bit_free_full]
  have ke: "0 < ke" "PAGE_SIZE dvd ke" using PAGE_ALIGN_UP_ge [of "kernel_virtual_end + 2048"] by (simp_all add: ke_def)
  have len: "length bm = words" using r by simp
  have ff: "frames_free p = bit_free bm" by (simp add: frames_free_def bit_free_def p len)
  have free: "frames_free p = {pg. \<exists>a\<in>set as. \<not> (a < ke \<or> (a \<ge> meta \<and> a < meta + sz)) \<and> pg = a div PAGE_SIZE}"
    using r by (simp add: ff sz)
  have in_as: "a \<in> set as \<longleftrightarrow> PAGE_SIZE dvd a \<and> (\<exists>r\<in>set us. mr_addr r \<le> a \<and> a + PAGE_SIZE \<le> mr_addr r + mr_length r)" for a
    by (auto simp: as_def region_pages_iff)
  have sub: "frames_free p \<subseteq> {0<..<total}"
  proof
    fix pg
    assume "pg \<in> frames_free p"
    then obtain a where a: "a \<in> set as" "ke \<le> a" "pg = a div PAGE_SIZE" unfolding free by auto
    then have "PAGE_SIZE \<le> a" using in_as ke by (metis dvd_imp_le less_le_trans)
    with a bound show "pg \<in> {0<..<total}" by (auto simp: div_greater_zero_iff)
  qed
  have inv: "pmm_inv p"
    using sub words len by (auto simp: pmm_inv_def p LOW_WORDS_def BOOT_WORDS_def IDENTITY_MAP_SIZE_def PAGE_SIZE_def)
  have "frames_free p = {pg. ke \<le> pg * PAGE_SIZE \<and> \<not> (meta \<le> pg * PAGE_SIZE \<and> pg * PAGE_SIZE < meta + sz) \<and>
        (\<exists>r\<in>set us. mr_addr r \<le> pg * PAGE_SIZE \<and> pg * PAGE_SIZE + PAGE_SIZE \<le> mr_addr r + mr_length r)}"
    (is "_ = ?F")
  proof (intro equalityI subsetI)
    fix pg
    assume "pg \<in> frames_free p"
    then obtain a where a: "a \<in> set as" "\<not> (a < ke \<or> (a \<ge> meta \<and> a < meta + sz))" "pg = a div PAGE_SIZE"
      unfolding free by blast
    then have "pg * PAGE_SIZE = a" using in_as by simp
    then show "pg \<in> ?F" using a in_as by (auto simp: not_less)
  next
    fix pg
    assume "pg \<in> ?F"
    then have "pg * PAGE_SIZE \<in> set as" "\<not> (pg * PAGE_SIZE < ke \<or> (pg * PAGE_SIZE \<ge> meta \<and> pg * PAGE_SIZE < meta + sz))"
      using in_as by auto
    moreover have "pg = pg * PAGE_SIZE div PAGE_SIZE" by simp
    ultimately show "pg \<in> frames_free p" unfolding free by blast
  qed
  moreover have "usable_pages p = card (frames_free p)"
    unfolding ff using conjunct1 [OF conjunct2 [OF r]] by (simp add: p)
  moreover have "\<forall>pg. sharers p pg = 0" by (simp add: sharers_def p)
  moreover have "usable p = us" by (simp add: p)
  moreover note place_metadata_spec [OF meta_def m0 ke(2)] inv
  ultimately show ?thesis unfolding sz by auto
qed

section \<open>Properties\<close>

definition example_regions :: "memory_region list" where
  "example_regions = [\<lparr>mr_addr = 0, mr_length = 0x8000, mr_type = MEMORY_AVAILABLE\<rparr>]"

definition example_pmm :: pmm where
  "example_pmm = \<lparr>physical_pages = [0xFFFFFFFFFFFFFF03], shared_refs = replicate 8 0, total_pages = 8, total_words = 1,
     low_words = 1, boot_words = 1, usable_pages = 6, low_hint = 0, high_hint = 1, usable = example_regions\<rparr>"

lemmas bitmap_eval = TEST_BIT_def BITMAP_INDEX_def BITMAP_OFFSET_def CLEAR_BIT_def PAGE_SIZE_def

lemma example_pmm_initialize: "pmm_initialize 0x100 example_regions = Done example_pmm"
proof -
  have "[0..<8] = [0, 1, 2, 3, 4, 5, 6, 7 :: nat]" by (simp add: upt_rec)
  then show ?thesis
    by (simp add: pmm_initialize_def example_regions_def PAGE_ALIGN_UP_def MAX_MEMORY_REGIONS_def
        region_limit_def LOW_WORDS_def BOOT_WORDS_def IDENTITY_MAP_SIZE_def region_pages_def
        release_boot_page_def example_pmm_def bitmap_eval)
qed

lemma example_pmm_inv: "pmm_inv example_pmm"
  using pmm_initialize_spec [OF example_pmm_initialize] by blast



text \<open>C18: single frames. \<^verbatim>\<open>take_page\<close> keeps the invariant; a non-null result is the address of a
  frame that was free and is taken now, no other frame changes, and a null result means that
  no frame of the memory reachable at this stage of the boot was free.\<close>

theorem take_page_correct:
  assumes "pmm_inv p" and "take_page dmo p = (addr, p')"
  shows "pmm_inv p' \<and>
    (if addr = 0 then frames_free p' = frames_free p \<and> frames_free p \<inter> reachable_frames dmo p = {}
     else \<exists>pg \<in> frames_free p. addr = pg * PAGE_SIZE \<and> frames_free p' = frames_free p - {pg}) \<and>
    sharers p' = sharers p"
  using take_page_took [OF assms] by (auto simp: took_def sharers_def)

theorem take_page_correct_witness:
  "\<exists>p'. take_page 1 example_pmm = (0x2000, p') \<and> pmm_inv p' \<and> frames_free p' = frames_free example_pmm - {2}"
proof -
  obtain addr p' where t: "take_page 1 example_pmm = (addr, p')" by fastforce
  moreover have "fst (take_page 1 example_pmm) = 0x2000"
    by (simp add: take_page_def direct_map_ready_def take_page_locked_def take_page_scan.simps
        example_pmm_def ctzll_def PAGE_SIZE_def upt_rec)
  ultimately show ?thesis
    using take_page_correct [OF example_pmm_inv t] by (auto simp: PAGE_SIZE_def)
qed

text \<open>C17: contiguous frames. \<^verbatim>\<open>take_pages\<close> keeps the invariant; a non-null result is the address of
  \<open>count\<close> consecutive frames that were all free and are all taken now, and a null result means
  that the memory it may use had no run of \<open>count\<close> free frames at all.\<close>

theorem take_pages_correct:
  assumes "pmm_inv p" and "0 < count" and "take_pages dmo count p = (addr, p')"
  shows "pmm_inv p' \<and>
    (if addr = 0 then p' = p \<and> (\<forall>f. f + count \<le> 64 * scan_words dmo p \<longrightarrow> \<not> {f..<f + count} \<subseteq> frames_free p)
     else \<exists>f. addr = f * PAGE_SIZE \<and> {f..<f + count} \<subseteq> frames_free p \<and>
            frames_free p' = frames_free p - {f..<f + count})"
  by (rule take_pages_spec [OF assms])

theorem take_pages_correct_witness:
  "\<exists>p'. take_pages 1 4 example_pmm = (0x2000, p') \<and> pmm_inv p' \<and> frames_free p' = frames_free example_pmm - {2..<6}"
proof -
  obtain addr p' where t: "take_pages 1 4 example_pmm = (addr, p')" by fastforce
  moreover have "fst (take_pages 1 4 example_pmm) = 0x2000"
    by (simp add: take_pages_def direct_map_ready_def take_pages_scan.simps example_pmm_def bitmap_eval)
  ultimately show ?thesis
    using take_pages_correct [OF example_pmm_inv _ t] by (auto simp: PAGE_SIZE_def)
qed



end
