(* ===== verification/Byte_Stream.thy ===== *)
theory Byte_Stream
  imports Kernel_Prelude
begin

text \<open>
  The contract of a first-in first-out byte stream, which the pipe buffer and the socket
  buffers provide: writers append, readers take from the front. The client theorem is proved
  once: along any sequence of transfers, whatever the order, the bytes that came out followed
  by the bytes still held are the bytes held at first followed by the bytes that went in.
\<close>

datatype ('d, 'c) stream_op = Push 'd | Pop nat | Ctl 'c

text \<open>One operation: the new state, the bytes that came out and the bytes that went in (\<open>moved\<close>, which
  may be less than was offered). Control operations move no bytes.\<close>

fun stream_step :: "('s \<Rightarrow> 'd \<Rightarrow> 's) \<Rightarrow> ('s \<Rightarrow> nat \<Rightarrow> bytes \<times> 's) \<Rightarrow> ('c \<Rightarrow> 's \<Rightarrow> 's) \<Rightarrow> ('d, 'c) stream_op \<Rightarrow> 's \<Rightarrow> 's" where
  "stream_step push pop ctl (Push d) s = push s d"
| "stream_step push pop ctl (Pop n) s = snd (pop s n)"
| "stream_step push pop ctl (Ctl c) s = ctl c s"

definition step_out :: "('s \<Rightarrow> nat \<Rightarrow> bytes \<times> 's) \<Rightarrow> ('d, 'c) stream_op \<Rightarrow> 's \<Rightarrow> bytes" where
  "step_out pop e s = (case e of Pop n \<Rightarrow> fst (pop s n) | _ \<Rightarrow> [])"

definition step_in :: "('s \<Rightarrow> 'd \<Rightarrow> bytes) \<Rightarrow> ('d, 'c) stream_op \<Rightarrow> 's \<Rightarrow> bytes" where
  "step_in moved e s = (case e of Push d \<Rightarrow> moved s d | _ \<Rightarrow> [])"

definition step_ok :: "('s \<Rightarrow> 'd \<Rightarrow> bool) \<Rightarrow> ('d, 'c) stream_op \<Rightarrow> 's \<Rightarrow> bool" where
  "step_ok ok e s = (case e of Push d \<Rightarrow> ok s d | _ \<Rightarrow> True)"

text \<open>A quantity collected along a run, and a condition on every step of it.\<close>

fun along :: "('e \<Rightarrow> 's \<Rightarrow> 's) \<Rightarrow> ('e \<Rightarrow> 's \<Rightarrow> bytes) \<Rightarrow> 'e list \<Rightarrow> 's \<Rightarrow> bytes" where
  "along step f [] s = []"
| "along step f (e # es) s = f e s @ along step f es (step e s)"

fun all_along :: "('e \<Rightarrow> 's \<Rightarrow> 's) \<Rightarrow> ('e \<Rightarrow> 's \<Rightarrow> bool) \<Rightarrow> 'e list \<Rightarrow> 's \<Rightarrow> bool" where
  "all_along step f [] s = True"
| "all_along step f (e # es) s = (f e s \<and> all_along step f es (step e s))"

lemma all_along_trivial [simp]: "all_along step (\<lambda>e s. True) es s"
  by (induction es arbitrary: s) auto

locale byte_stream =
  fixes inv :: "'s \<Rightarrow> bool" and contents :: "'s \<Rightarrow> bytes" and ok :: "'s \<Rightarrow> 'd \<Rightarrow> bool" and moved :: "'s \<Rightarrow> 'd \<Rightarrow> bytes"
    and push :: "'s \<Rightarrow> 'd \<Rightarrow> 's" and pop :: "'s \<Rightarrow> nat \<Rightarrow> bytes \<times> 's" and ctl :: "'c \<Rightarrow> 's \<Rightarrow> 's"
  assumes push_law: "inv s \<Longrightarrow> ok s d \<Longrightarrow> inv (push s d) \<and> contents (push s d) = contents s @ moved s d"
    and pop_law: "inv s \<Longrightarrow> pop s n = (bs, s') \<Longrightarrow>
      inv s' \<and> bs = take n (contents s) \<and> contents s' = drop n (contents s)"
    and ctl_law: "inv s \<Longrightarrow> inv (ctl c s) \<and> contents (ctl c s) = contents s"
begin

lemma step_fifo:
  assumes "inv s" and "step_ok ok e s"
  shows "inv (stream_step push pop ctl e s) \<and>
    step_out pop e s @ contents (stream_step push pop ctl e s) = contents s @ step_in moved e s"
proof (cases e)
  case (Push d)
  then show ?thesis using push_law [OF assms(1)] assms(2) by (simp add: step_ok_def step_out_def step_in_def)
next
  case (Pop n)
  then show ?thesis using pop_law [OF assms(1), of n] by (cases "pop s n") (simp add: step_out_def step_in_def)
next
  case (Ctl c)
  then show ?thesis using ctl_law [OF assms(1)] by (simp add: step_out_def step_in_def)
qed

lemma run_fifo:
  assumes "inv s" and "all_along (stream_step push pop ctl) (step_ok ok) es s"
  shows "inv (fold (stream_step push pop ctl) es s) \<and>
    along (stream_step push pop ctl) (step_out pop) es s @ contents (fold (stream_step push pop ctl) es s)
      = contents s @ along (stream_step push pop ctl) (step_in moved) es s"
  using assms
proof (induction es arbitrary: s)
  case (Cons e es)
  note st = step_fifo [OF Cons.prems(1), of e]
  have "inv (stream_step push pop ctl e s)" "all_along (stream_step push pop ctl) (step_ok ok) es (stream_step push pop ctl e s)"
    using st Cons.prems by simp_all
  note IH = Cons.IH [OF this]
  have "along (stream_step push pop ctl) (step_out pop) (e # es) s @ contents (fold (stream_step push pop ctl) (e # es) s)
      = (step_out pop e s @ contents (stream_step push pop ctl e s)) @ along (stream_step push pop ctl) (step_in moved) es (stream_step push pop ctl e s)"
    using IH by simp
  also have "step_out pop e s @ contents (stream_step push pop ctl e s) = contents s @ step_in moved e s"
    using st Cons.prems by simp
  finally show ?case using IH by simp
qed simp

end

end
