(* ===== verification/Kernel_Errno.thy ===== *)
theory Kernel_Errno
  imports Kernel_Prelude
begin

text \<open>
  The error numbers of \<^verbatim>\<open>src/include/os/errno.h\<close> that the modelled code returns. System calls and
  protocol handlers return their negation.
\<close>

definition EINTR :: int where "EINTR = 4"
definition EAGAIN :: int where "EAGAIN = 11"
definition ENOMEM :: int where "ENOMEM = 12"
definition EEXIST :: int where "EEXIST = 17"
definition EINVAL :: int where "EINVAL = 22"
definition ENFILE :: int where "ENFILE = 23"
definition EPIPE :: int where "EPIPE = 32"
definition ENOPROTOOPT :: int where "ENOPROTOOPT = 92"
definition EOPNOTSUPP :: int where "EOPNOTSUPP = 95"
definition EAFNOSUPPORT :: int where "EAFNOSUPPORT = 97"
definition EADDRINUSE :: int where "EADDRINUSE = 98"
definition EADDRNOTAVAIL :: int where "EADDRNOTAVAIL = 99"
definition ECONNABORTED :: int where "ECONNABORTED = 103"
definition ECONNRESET :: int where "ECONNRESET = 104"
definition ENOBUFS :: int where "ENOBUFS = 105"
definition EISCONN :: int where "EISCONN = 106"
definition ENOTCONN :: int where "ENOTCONN = 107"
definition ETIMEDOUT :: int where "ETIMEDOUT = 110"
definition ECONNREFUSED :: int where "ECONNREFUSED = 111"
definition EHOSTUNREACH :: int where "EHOSTUNREACH = 113"
definition EALREADY :: int where "EALREADY = 114"
definition ERESTARTSYS :: int where "ERESTARTSYS = 512"

lemmas errno_defs =
  EINTR_def EAGAIN_def ENOMEM_def EEXIST_def EINVAL_def ENFILE_def
  EPIPE_def ENOPROTOOPT_def EOPNOTSUPP_def EAFNOSUPPORT_def EADDRINUSE_def EADDRNOTAVAIL_def
  ECONNABORTED_def ECONNRESET_def ENOBUFS_def EISCONN_def ENOTCONN_def ETIMEDOUT_def
  ECONNREFUSED_def EHOSTUNREACH_def EALREADY_def ERESTARTSYS_def

lemma errno_pos [simp]:
  "0 < EINTR" "0 < EAGAIN" "0 < ENOMEM" "0 < EEXIST" "0 < EINVAL" "0 < ENFILE"
  "0 < EPIPE" "0 < ENOPROTOOPT" "0 < EOPNOTSUPP" "0 < EAFNOSUPPORT" "0 < EADDRINUSE" "0 < EADDRNOTAVAIL"
  "0 < ECONNABORTED" "0 < ECONNRESET" "0 < ENOBUFS" "0 < EISCONN" "0 < ENOTCONN" "0 < ETIMEDOUT"
  "0 < ECONNREFUSED" "0 < EHOSTUNREACH" "0 < EALREADY" "0 < ERESTARTSYS"
  by (simp_all add: errno_defs)

lemmas errno_nonneg [simp] = errno_pos [THEN order_less_imp_le]

end
