(* ===== verification/Pipe.thy ===== *)
theory Pipe
  imports Byte_Stream Kernel_Errno
begin

text \<open>
  Pipes, \<^verbatim>\<open>src/kernel/drivers/fs/pipe/pipe.c\<close>: a 64 KiB ring buffer with reader and writer
  counts. A call that sleeps lets other processes use the pipe; what they do before the
  sleeper runs again is an argument of the call, one entry per sleep: whether a signal
  interrupted it and the transfers and closes the others made. A call with no entry left is
  still asleep (\<open>Blocked\<close>). Each call returns its value, the history of all transfers up to
  its return and the pipe it leaves.
\<close>

section \<open>The code\<close>

definition PIPE_BUFFER_SIZE :: nat where "PIPE_BUFFER_SIZE = 64 * 1024"
definition PIPE_ATOMIC :: nat where "PIPE_ATOMIC = 4096"

definition O_RDONLY :: u32 where "O_RDONLY = 0x01"
definition O_NONBLOCK_K :: u32 where "O_NONBLOCK_K = 0x800"

record pipe =
  pp_buf :: bytes
  pp_head :: nat
  pp_len :: nat
  pp_readers :: int
  pp_writers :: int

text \<open>The copy loops of \<^verbatim>\<open>pipe_read\<close> and \<^verbatim>\<open>pipe_write\<close>.\<close>

definition pipe_take :: "pipe \<Rightarrow> nat \<Rightarrow> bytes \<times> pipe" where
  "pipe_take p len =
     (let n = (if pp_len p < len then pp_len p else len)
      in (map (\<lambda>i. pp_buf p ! ((pp_head p + i) mod PIPE_BUFFER_SIZE)) [0..<n],
          p\<lparr>pp_head := (pp_head p + n) mod PIPE_BUFFER_SIZE, pp_len := pp_len p - n\<rparr>))"

definition pipe_put :: "pipe \<Rightarrow> bytes \<Rightarrow> pipe" where
  "pipe_put p bs =
     p\<lparr>pp_buf := fold (\<lambda>i buf. buf[(pp_head p + pp_len p + i) mod PIPE_BUFFER_SIZE := bs ! i]) [0..<length bs] (pp_buf p),
       pp_len := pp_len p + length bs\<rparr>"

definition pipe_space :: "pipe \<Rightarrow> nat" where
  "pipe_space p = PIPE_BUFFER_SIZE - pp_len p"

datatype pipe_ctl = ReaderClosed | WriterClosed

fun pipe_control :: "pipe_ctl \<Rightarrow> pipe \<Rightarrow> pipe" where
  "pipe_control ReaderClosed p = p\<lparr>pp_readers := pp_readers p - 1\<rparr>"
| "pipe_control WriterClosed p = p\<lparr>pp_writers := pp_writers p - 1\<rparr>"

text \<open>What another process writes in one transfer is clipped to the space there is.\<close>

definition pipe_push :: "pipe \<Rightarrow> bytes \<Rightarrow> pipe" where
  "pipe_push p bs = pipe_put p (take (pipe_space p) bs)"

definition pipe_apply :: "(bytes, pipe_ctl) stream_op \<Rightarrow> pipe \<Rightarrow> pipe" where
  "pipe_apply = stream_step pipe_push pipe_take pipe_control"

text \<open>One sleep: the result of \<^verbatim>\<open>process_sleep_interruptible\<close> and what the others did meanwhile. In
  the history of a call, \<open>True\<close> marks its own transfers.\<close>

type_synonym pipe_sleep = "int \<times> (bytes, pipe_ctl) stream_op list"
type_synonym pipe_history = "(bool \<times> (bytes, pipe_ctl) stream_op) list"

datatype pipe_result = Blocked | Returned int bytes pipe_history pipe

fun pipe_read :: "u32 \<Rightarrow> pipe_sleep list \<Rightarrow> pipe \<Rightarrow> nat \<Rightarrow> pipe_history \<Rightarrow> pipe_result" where
  "pipe_read status_flags sleeps p len evs =
     (if pp_len p = 0 then
        if pp_writers p = 0 \<or> len = 0 then Returned 0 [] evs p
        else if status_flags AND O_NONBLOCK_K \<noteq> 0 then Returned (- EAGAIN) [] evs p
        else (case sleeps of
                [] \<Rightarrow> Blocked
              | (err, others) # sleeps \<Rightarrow>
                  let p = fold pipe_apply others p; evs = evs @ map (Pair False) others
                  in if err < 0 then Returned (- ERESTARTSYS) [] evs p
                     else pipe_read status_flags sleeps p len evs)
      else let n = (if pp_len p < len then pp_len p else len); (bs, p) = pipe_take p len
           in Returned (int n) bs (evs @ [(True, Pop len)]) p)"

declare pipe_read.simps [simp del]

text \<open>\<^verbatim>\<open>SIGPIPE\<close> is sent exactly on the first return below (no reader).\<close>

function pipe_write :: "u32 \<Rightarrow> pipe_sleep list \<Rightarrow> pipe \<Rightarrow> bytes \<Rightarrow> nat \<Rightarrow> pipe_history \<Rightarrow> pipe_result" where
  "pipe_write status_flags sleeps p buf written evs =
     (if written < length buf then
        if pp_readers p = 0 then
          Returned (if written \<noteq> 0 then int written else - EPIPE) [] evs p
        else
          let space = PIPE_BUFFER_SIZE - pp_len p;
              need = (if length buf - written \<le> PIPE_ATOMIC then length buf - written else 1)
          in if space < need then
               if status_flags AND O_NONBLOCK_K \<noteq> 0
               then Returned (if written \<noteq> 0 then int written else - EAGAIN) [] evs p
               else (case sleeps of
                       [] \<Rightarrow> Blocked
                     | (err, others) # sleeps \<Rightarrow>
                         let p = fold pipe_apply others p; evs = evs @ map (Pair False) others
                         in if err < 0 then Returned (if written \<noteq> 0 then int written else - ERESTARTSYS) [] evs p
                            else pipe_write status_flags sleeps p buf written evs)
             else
               let n = (if length buf - written < space then length buf - written else space);
                   chunk = take n (drop written buf)
               in pipe_write status_flags sleeps (pipe_put p chunk) buf (written + n) (evs @ [(True, Push chunk)])
      else Returned (int written) [] evs p)"
  by pat_completeness auto
termination
proof (relation "measures [\<lambda>(fl, sleeps, p, buf, written, evs). length buf - written,
      \<lambda>(fl, sleeps, p, buf, written, evs). length sleeps]")
qed (auto split: if_splits)

declare pipe_write.simps [simp del]

definition pipe_close :: "u32 \<Rightarrow> pipe \<Rightarrow> pipe \<times> bool" where
  "pipe_close flags p =
     (let p = (if flags AND O_RDONLY \<noteq> 0 then p\<lparr>pp_readers := pp_readers p - 1\<rparr> else p\<lparr>pp_writers := pp_writers p - 1\<rparr>)
      in (p, pp_readers p = 0 \<and> pp_writers p = 0))"

definition VFS_POLLIN :: u32 where "VFS_POLLIN = 0x001"
definition VFS_POLLOUT :: u32 where "VFS_POLLOUT = 0x004"
definition VFS_POLLERR :: u32 where "VFS_POLLERR = 0x008"
definition VFS_POLLHUP :: u32 where "VFS_POLLHUP = 0x010"

definition pipe_poll :: "u32 \<Rightarrow> pipe \<Rightarrow> u32" where
  "pipe_poll flags p =
     (if flags AND O_RDONLY \<noteq> 0
      then (if pp_len p \<noteq> 0 then VFS_POLLIN else 0) OR (if pp_writers p = 0 then VFS_POLLHUP else 0)
      else (if PIPE_BUFFER_SIZE - pp_len p \<ge> PIPE_ATOMIC then VFS_POLLOUT else 0) OR
           (if pp_readers p = 0 then VFS_POLLERR else 0))"

text \<open>\<^verbatim>\<open>pipe_create\<close>: the outcomes of the two allocations and of the two \<^verbatim>\<open>pipe_end\<close> calls are
  arguments. When only the write end fails, \<^verbatim>\<open>vfs_close\<close> closes the read end, which frees the
  pipe.\<close>

definition pipe_create :: "bool \<Rightarrow> (nat \<Rightarrow> u8) option \<Rightarrow> bool \<Rightarrow> bool \<Rightarrow> int \<times> pipe option" where
  "pipe_create malloc_pipe malloc_buf read_end write_end =
     (if \<not> malloc_pipe then (- ENOMEM, None)
      else case malloc_buf of
        None \<Rightarrow> (- ENOMEM, None)
      | Some junk \<Rightarrow>
          let p = \<lparr>pp_buf = map junk [0..<PIPE_BUFFER_SIZE], pp_head = 0, pp_len = 0, pp_readers = 1, pp_writers = 1\<rparr>
          in if \<not> read_end then (- ENFILE, None)
             else if \<not> write_end then
               (let (p, freed) = pipe_close O_RDONLY (p\<lparr>pp_writers := 0\<rparr>)
                in (- ENFILE, if freed then None else Some p))
             else (0, Some p))"

definition pipe_wait_id :: "u64 \<Rightarrow> u32" where
  "pipe_wait_id p = ucast (drop_bit 4 p AND 0x0FFFFFFF) OR 0x50000000"

section \<open>The stream\<close>

definition pipe_bytes :: "pipe \<Rightarrow> bytes" where
  "pipe_bytes p = map (\<lambda>i. pp_buf p ! ((pp_head p + i) mod PIPE_BUFFER_SIZE)) [0..<pp_len p]"

definition pipe_inv :: "pipe \<Rightarrow> bool" where
  "pipe_inv p \<longleftrightarrow> length (pp_buf p) = PIPE_BUFFER_SIZE \<and> pp_head p < PIPE_BUFFER_SIZE \<and> pp_len p \<le> PIPE_BUFFER_SIZE"

lemma length_pipe_bytes [simp]: "length (pipe_bytes p) = pp_len p"
  by (simp add: pipe_bytes_def)

lemma ring_idx: "h < N \<Longrightarrow> i < N \<Longrightarrow> (h + i) mod N = (if h + i < N then h + i else h + i - N)" for h i N :: nat
  by (simp add: le_mod_geq)

lemma ring_inj:
  fixes h i j N :: nat
  assumes "h < N" "i < N" "j < N" "(h + i) mod N = (h + j) mod N"
  shows "i = j"
  using assms by (auto simp: ring_idx split: if_splits)

lemma ring_write_nth:
  assumes "length buf = N" "h < N" "off + length bs \<le> N" "n \<le> length bs" "k < N"
  shows "fold (\<lambda>i buf. buf[(h + off + i) mod N := bs ! i]) [0..<n] buf ! ((h + k) mod N)
    = (if off \<le> k \<and> k < off + n then bs ! (k - off) else buf ! ((h + k) mod N))"
  using assms(4)
proof (induction n)
  case (Suc n)
  define F where "F = fold (\<lambda>i buf. buf[(h + off + i) mod N := bs ! i]) [0..<n] buf"
  have len: "length F = N"
    unfolding F_def using assms(1) by (induction n) auto
  have eq: "(h + off + n) mod N = (h + k) mod N \<longleftrightarrow> k = off + n"
    using ring_inj [of h N "off + n" k] assms Suc.prems by (auto simp: add.assoc)
  have "(h + k) mod N < N" using assms(2) by simp
  then show ?case
    using Suc eq len by (auto simp: F_def [symmetric] nth_list_update)
qed auto

lemma pipe_put_spec:
  assumes inv: "pipe_inv p" and fits: "length bs \<le> pipe_space p"
  shows "pipe_inv (pipe_put p bs) \<and> pipe_bytes (pipe_put p bs) = pipe_bytes p @ bs"
proof -
  let ?N = PIPE_BUFFER_SIZE
  have I: "length (pp_buf p) = ?N" "pp_head p < ?N" "pp_len p + length bs \<le> ?N"
    using inv fits by (auto simp: pipe_inv_def pipe_space_def)
  define F where "F = fold (\<lambda>i buf. buf[(pp_head p + pp_len p + i) mod ?N := bs ! i]) [0..<length bs] (pp_buf p)"
  have F: "F ! ((pp_head p + k) mod ?N) = (if pp_len p \<le> k \<and> k < pp_len p + length bs then bs ! (k - pp_len p)
      else pp_buf p ! ((pp_head p + k) mod ?N))" if "k < ?N" for k
    unfolding F_def by (rule ring_write_nth) (use I that in auto)
  have len: "length F = ?N"
  proof -
    have "length (fold (\<lambda>i buf. buf[(pp_head p + pp_len p + i) mod ?N := bs ! i]) [0..<n] (pp_buf p)) = ?N" for n
      using I(1) by (induction n) auto
    then show ?thesis by (simp add: F_def)
  qed
  have q: "pipe_put p bs = p\<lparr>pp_buf := F, pp_len := pp_len p + length bs\<rparr>" by (simp add: pipe_put_def F_def)
  have "pipe_bytes (pipe_put p bs) = pipe_bytes p @ bs"
  proof (rule nth_equalityI)
    fix k
    assume "k < length (pipe_bytes (pipe_put p bs))"
    then have k: "k < pp_len p + length bs" by (simp add: q)
    then show "pipe_bytes (pipe_put p bs) ! k = (pipe_bytes p @ bs) ! k"
      using F [of k] I(3) by (simp add: q pipe_bytes_def nth_append)
  qed (simp add: q)
  then show ?thesis using I len by (simp add: q pipe_inv_def)
qed

lemma pipe_take_spec:
  assumes inv: "pipe_inv p" and t: "pipe_take p len = (bs, p')"
  shows "pipe_inv p' \<and> bs = take len (pipe_bytes p) \<and> pipe_bytes p' = drop len (pipe_bytes p)"
proof -
  let ?N = PIPE_BUFFER_SIZE
  define n where "n = min (pp_len p) len"
  have n: "(if pp_len p < len then pp_len p else len) = n" by (simp add: n_def)
  have bs: "bs = map (\<lambda>i. pp_buf p ! ((pp_head p + i) mod ?N)) [0..<n]"
    and p': "p' = p\<lparr>pp_head := (pp_head p + n) mod ?N, pp_len := pp_len p - n\<rparr>"
    using t unfolding pipe_take_def n by (auto simp: Let_def)
  have "bs = take len (pipe_bytes p)"
    by (auto simp: bs pipe_bytes_def take_map n_def min_def take_upt)
  moreover have "pipe_bytes p' = drop len (pipe_bytes p)"
  proof (rule nth_equalityI)
    show "length (pipe_bytes p') = length (drop len (pipe_bytes p))" by (simp add: p' n_def)
    fix i
    assume "i < length (pipe_bytes p')"
    then have i: "i < pp_len p - n" by (simp add: p')
    then have "n = len" by (simp add: n_def)
    with i have "len + i < pp_len p" by simp
    with i \<open>n = len\<close> show "pipe_bytes p' ! i = drop len (pipe_bytes p) ! i"
      by (simp add: p' pipe_bytes_def mod_add_left_eq add.assoc)
  qed
  moreover have "pipe_inv p'" using inv by (auto simp: pipe_inv_def p' PIPE_BUFFER_SIZE_def)
  ultimately show ?thesis by simp
qed

lemma pipe_control_spec: "pipe_inv p \<Longrightarrow> pipe_inv (pipe_control c p) \<and> pipe_bytes (pipe_control c p) = pipe_bytes p"
  by (cases c) (simp_all add: pipe_inv_def pipe_bytes_def)

interpretation ps: byte_stream pipe_inv pipe_bytes "\<lambda>p bs. True" "\<lambda>p bs. take (pipe_space p) bs"
  pipe_push pipe_take pipe_control
proof
  fix p bs
  assume "pipe_inv p"
  from pipe_put_spec [OF this, of "take (pipe_space p) bs"]
  show "pipe_inv (pipe_push p bs) \<and> pipe_bytes (pipe_push p bs) = pipe_bytes p @ take (pipe_space p) bs"
    by (simp add: pipe_push_def)
qed (use pipe_take_spec pipe_control_spec in blast)+

lemma pipe_run:
  assumes "pipe_inv p"
  shows "pipe_inv (fold pipe_apply es p) \<and>
    along pipe_apply (step_out pipe_take) es p @ pipe_bytes (fold pipe_apply es p)
      = pipe_bytes p @ along pipe_apply (step_in (\<lambda>p bs. take (pipe_space p) bs)) es p"
proof -
  have "(step_ok (\<lambda>p bs. True) :: (bytes, pipe_ctl) stream_op \<Rightarrow> pipe \<Rightarrow> bool) = (\<lambda>e s. True)"
    by (simp add: step_ok_def fun_eq_iff split: stream_op.splits)
  then show ?thesis using ps.run_fifo [OF assms, of es] by (simp add: pipe_apply_def)
qed

lemmas pipe_run_inv = conjunct1 [OF pipe_run]
lemmas pipe_run_fifo = conjunct2 [OF pipe_run]

section \<open>Reading and writing\<close>

text \<open>The bytes a call wrote itself, and the bytes that went in and came out along a history.\<close>

fun own_writes :: "pipe_history \<Rightarrow> bytes list" where
  "own_writes [] = []"
| "own_writes ((own, e) # evs) = (case e of Push bs \<Rightarrow> if own then bs # own_writes evs else own_writes evs | _ \<Rightarrow> own_writes evs)"

abbreviation pipe_out :: "pipe_history \<Rightarrow> pipe \<Rightarrow> bytes" where
  "pipe_out evs \<equiv> along pipe_apply (step_out pipe_take) (map snd evs)"

abbreviation pipe_in :: "pipe_history \<Rightarrow> pipe \<Rightarrow> bytes" where
  "pipe_in evs \<equiv> along pipe_apply (step_in (\<lambda>p bs. take (pipe_space p) bs)) (map snd evs)"

lemma own_writes_append [simp]: "own_writes (xs @ ys) = own_writes xs @ own_writes ys"
  by (induction xs rule: own_writes.induct) (auto split: stream_op.splits)

lemma own_writes_others [simp]: "own_writes (map (Pair False) es) = []"
  by (induction es) (auto split: stream_op.splits)

text \<open>Own writes are not clipped: each fits the space there was.\<close>

fun own_fit :: "pipe_history \<Rightarrow> pipe \<Rightarrow> bool" where
  "own_fit [] p = True"
| "own_fit ((own, e) # evs) p =
     ((case e of Push bs \<Rightarrow> own \<longrightarrow> length bs \<le> pipe_space p | _ \<Rightarrow> True) \<and> own_fit evs (pipe_apply e p))"

lemma own_fit_others [simp]: "own_fit (map (Pair False) es @ evs) p \<longleftrightarrow> own_fit evs (fold pipe_apply es p)"
  by (induction es arbitrary: p) (auto split: stream_op.splits)

lemma own_fit_only_others [simp]: "own_fit (map (Pair False) es) p"
  using own_fit_others [of es "[]" p] by simp

text \<open>The outcomes of one round of the write loop.\<close>

lemma pipe_write_cases:
  assumes "pipe_write fl sleeps p buf written evs = Returned r d evs' p'"
  obtains (full) "\<not> written < length buf" "r = int written" "evs' = evs" "p' = p"
  | (stop) "written < length buf" "r = (if written \<noteq> 0 then int written else - EPIPE) \<or>
      r = (if written \<noteq> 0 then int written else - EAGAIN)" "evs' = evs" "p' = p"
  | (interrupted) err others rest where "written < length buf" "sleeps = (err, others) # rest"
      "r = (if written \<noteq> 0 then int written else - ERESTARTSYS)"
      "evs' = evs @ map (Pair False) others" "p' = fold pipe_apply others p"
  | (woken) err others rest where "written < length buf" "sleeps = (err, others) # rest"
      "pipe_write fl rest (fold pipe_apply others p) buf written (evs @ map (Pair False) others) = Returned r d evs' p'"
  | (chunk) n where "written < length buf" "0 < n" "n \<le> pipe_space p" "written + n \<le> length buf"
      "length buf - written \<le> PIPE_ATOMIC \<Longrightarrow> n = length buf - written"
      "pipe_write fl sleeps (pipe_put p (take n (drop written buf))) buf (written + n)
         (evs @ [(True, Push (take n (drop written buf)))]) = Returned r d evs' p'"
proof -
  define space where "space = PIPE_BUFFER_SIZE - pp_len p"
  define need where "need = (if length buf - written \<le> PIPE_ATOMIC then length buf - written else 1)"
  define n where "n = (if length buf - written < space then length buf - written else space)"
  note w = assms [unfolded pipe_write.simps [of fl sleeps p buf written evs], folded space_def need_def n_def, unfolded Let_def,
      folded space_def need_def, folded n_def]
  consider "\<not> written < length buf" | "written < length buf" "pp_readers p = 0"
    | "written < length buf" "pp_readers p \<noteq> 0" "space < need" "fl AND O_NONBLOCK_K \<noteq> 0"
    | "written < length buf" "pp_readers p \<noteq> 0" "space < need" "fl AND O_NONBLOCK_K = 0"
    | "written < length buf" "pp_readers p \<noteq> 0" "\<not> space < need" by blast
  then show thesis
  proof cases
    case 1
    with w show thesis by (intro full) simp_all
  next
    case 2
    with w show thesis by (intro stop) simp_all
  next
    case 3
    with w show thesis by (intro stop) simp_all
  next
    case 4
    show thesis
    proof (cases sleeps)
      case Nil
      with 4 w show thesis by simp
    next
      case (Cons a rest)
      then obtain err others where a: "sleeps = (err, others) # rest" by (cases a) auto
      show thesis
      proof (cases "err < 0")
        case True
        with 4 a w show thesis by (intro interrupted [of err others rest]) simp_all
      next
        case False
        with 4 a w show thesis by (intro woken [of err others rest]) simp_all
      qed
    qed
  next
    case 5
    then have "0 < need" by (simp add: need_def)
    with 5 have "0 < n" "n \<le> pipe_space p" "written + n \<le> length buf"
      "length buf - written \<le> PIPE_ATOMIC \<Longrightarrow> n = length buf - written"
      by (auto simp: n_def space_def need_def pipe_space_def)
    with 5 w show thesis by (intro chunk [of n]) simp_all
  qed
qed

lemma pipe_write_spec:
  assumes "pipe_write fl sleeps p buf written evs = Returned r d evs' p'" and "pipe_inv p" and "written \<le> length buf"
  shows "\<exists>new w. evs' = evs @ new \<and> pipe_inv p' \<and> p' = fold pipe_apply (map snd new) p \<and> own_fit new p \<and>
    written \<le> w \<and> w \<le> length buf \<and> concat (own_writes new) = take (w - written) (drop written buf) \<and>
    (if w = 0 then r < 0 \<or> buf = [] \<and> r = 0 else r = int w)"
  using assms
proof (induction "length buf - written + length sleeps" arbitrary: sleeps p written evs rule: less_induct)
  case less
  from less.prems(1) show ?case
  proof (cases rule: pipe_write_cases)
    case full
    with less.prems(2,3) show ?thesis by (intro exI [of _ "[]"] exI [of _ written]) auto
  next
    case stop
    with less.prems(2,3) show ?thesis by (intro exI [of _ "[]"] exI [of _ written]) (auto split: if_splits)
  next
    case (interrupted err others rest)
    with less.prems(2,3) show ?thesis
      by (intro exI [of _ "map (Pair False) others"] exI [of _ written]) (auto simp: comp_def intro: pipe_run_inv)
  next
    case (woken err others rest)
    have "pipe_inv (fold pipe_apply others p)" using less.prems(2) by (rule pipe_run_inv)
    then obtain new w where n: "evs' = (evs @ map (Pair False) others) @ new" "pipe_inv p'"
      "p' = fold pipe_apply (map snd new) (fold pipe_apply others p)" "own_fit new (fold pipe_apply others p)" "written \<le> w" "w \<le> length buf"
      "concat (own_writes new) = take (w - written) (drop written buf)"
      "if w = 0 then r < 0 \<or> buf = [] \<and> r = 0 else r = int w"
      using less.hyps [of written rest, OF _ woken(3) _ less.prems(3)] woken(2) by auto
    then show ?thesis
      by (intro exI [of _ "map (Pair False) others @ new"] exI [of _ w]) (simp add: comp_def)
  next
    case (chunk n)
    define c where "c = take n (drop written buf)"
    have c: "length c = n" "length c \<le> pipe_space p" using chunk by (simp_all add: c_def)
    have put: "pipe_inv (pipe_put p c)" "pipe_apply (Push c) p = pipe_put p c"
      using pipe_put_spec [OF less.prems(2) c(2)] c by (simp_all add: pipe_apply_def pipe_push_def)
    obtain new w where n: "evs' = (evs @ [(True, Push c)]) @ new" "pipe_inv p'"
      "p' = fold pipe_apply (map snd new) (pipe_put p c)" "own_fit new (pipe_put p c)" "written + n \<le> w" "w \<le> length buf"
      "concat (own_writes new) = take (w - (written + n)) (drop (written + n) buf)"
      "if w = 0 then r < 0 \<or> buf = [] \<and> r = 0 else r = int w"
    proof -
      have "length buf - (written + n) + length sleeps < length buf - written + length sleeps"
        using chunk(2,4) by linarith
      from less.hyps [OF this chunk(6) [folded c_def] put(1) chunk(4)] show thesis using that by blast
    qed
    have "c @ take (w - (written + n)) (drop (written + n) buf) = take (w - written) (drop written buf)"
      using n(5) take_add [of n "w - (written + n)" "drop written buf"] by (simp add: c_def add.commute)
    then show ?thesis
      using n put(2) c(2) by (intro exI [of _ "(True, Push c) # new"] exI [of _ w]) simp
  qed
qed

lemma pipe_write_atomic:
  assumes "pipe_write fl sleeps p buf 0 evs = Returned r d evs' p'" and "length buf \<le> PIPE_ATOMIC" and "own_writes evs = []"
  shows "own_writes evs' = [] \<and> r \<le> 0 \<or> own_writes evs' = [buf] \<and> r = int (length buf)"
  using assms
proof (induction "length sleeps" arbitrary: sleeps p evs rule: less_induct)
  case less
  from less.prems(1) show ?case
  proof (cases rule: pipe_write_cases)
    case (woken err others rest)
    then show ?thesis using less.hyps [of rest, OF _ woken(3)] less.prems by simp
  next
    case (chunk n)
    then have "n = length buf" using less.prems by simp
    with chunk less.prems show ?thesis by (subst (asm) pipe_write.simps) auto
  qed (use less.prems in \<open>auto split: if_splits\<close>)
qed

lemma clip_min: "(if a < b then a else b) = min a (b :: nat)"
  by (simp add: min_def)

lemma pipe_read_spec:
  assumes "pipe_read fl sleeps p len evs = Returned r d evs' p'" and "pipe_inv p"
  shows "\<exists>others p1. p1 = fold pipe_apply others p \<and> pipe_inv p1 \<and>
    (pp_len p1 \<noteq> 0 \<and> evs' = evs @ map (Pair False) others @ [(True, Pop len)] \<and> p' = pipe_apply (Pop len) p1 \<and>
       d = take len (pipe_bytes p1) \<and> r = int (length d)
     \<or> evs' = evs @ map (Pair False) others \<and> p' = p1 \<and> d = [] \<and>
       (r = - ERESTARTSYS \<or> pp_len p1 = 0 \<and>
         (r = - EAGAIN \<and> fl AND O_NONBLOCK_K \<noteq> 0 \<or> r = 0 \<and> (pp_writers p1 = 0 \<or> len = 0))))"
  using assms
proof (induction sleeps arbitrary: p evs)
  case Nil
  note r = Nil.prems(1) [unfolded pipe_read.simps [of fl "[]"]]
  show ?case
  proof (cases "pp_len p = 0")
    case True
    with r Nil.prems(2) show ?thesis by (intro exI [of _ "[]"] exI [of _ p]) (auto split: if_splits)
  next
    case False
    then show ?thesis
      using r Nil.prems(2) pipe_take_spec [OF Nil.prems(2), of len "fst (pipe_take p len)" "snd (pipe_take p len)"]
      by (intro exI [of _ "[]"] exI [of _ p]) (auto simp: pipe_apply_def split_def Let_def clip_min)
  qed
next
  case (Cons a sleeps)
  obtain err others where a: "a = (err, others)" by (cases a)
  note r = Cons.prems(1) [unfolded pipe_read.simps [of fl "a # sleeps"]]
  consider (data) "pp_len p \<noteq> 0" | (now) "pp_len p = 0" "pp_writers p = 0 \<or> len = 0 \<or> fl AND O_NONBLOCK_K \<noteq> 0"
    | (intr) "pp_len p = 0" "\<not> (pp_writers p = 0 \<or> len = 0 \<or> fl AND O_NONBLOCK_K \<noteq> 0)" "err < 0"
    | (again) "pp_len p = 0" "\<not> (pp_writers p = 0 \<or> len = 0 \<or> fl AND O_NONBLOCK_K \<noteq> 0)" "\<not> err < 0" by blast
  then show ?case
  proof cases
    case data
    then show ?thesis
      using r Cons.prems(2) pipe_take_spec [OF Cons.prems(2), of len "fst (pipe_take p len)" "snd (pipe_take p len)"]
      by (intro exI [of _ "[]"] exI [of _ p]) (auto simp: pipe_apply_def split_def Let_def clip_min)
  next
    case now
    with r Cons.prems(2) show ?thesis by (intro exI [of _ "[]"] exI [of _ p]) (auto split: if_splits)
  next
    case intr
    with r Cons.prems(2) show ?thesis
      by (intro exI [of _ others] exI [of _ "fold pipe_apply others p"]) (auto simp: a Let_def intro: pipe_run_inv)
  next
    case again
    then have r': "pipe_read fl sleeps (fold pipe_apply others p) len (evs @ map (Pair False) others) = Returned r d evs' p'"
      using r by (simp add: a Let_def)
    from Cons.IH [OF r' pipe_run_inv [OF Cons.prems(2)]] show ?thesis
      by (metis (no_types, lifting) append.assoc comp_apply fold_append map_append)
  qed
qed

section \<open>Properties\<close>

text \<open>C10: writing to a pipe. Whatever other readers, writers and closers do while the call sleeps,
  a returning \<^verbatim>\<open>pipe_write\<close> leaves the ring consistent; along the whole history the bytes read
  followed by those still in the pipe are the bytes first in it followed by those written; the
  call's own chunks all fit and are exactly the first bytes of the buffer, as many as it
  reports (none when it reports an error); and a write of at most \<^verbatim>\<open>PIPE_ATOMIC\<close> bytes went in as
  one chunk or not at all.\<close>

theorem pipe_write_correct:
  assumes "pipe_inv p" and "pipe_write fl sleeps p buf 0 [] = Returned r d evs p'"
  shows "pipe_inv p' \<and> pipe_out evs p @ pipe_bytes p' = pipe_bytes p @ pipe_in evs p \<and>
    own_fit evs p \<and> concat (own_writes evs) = take (nat r) buf \<and> r \<le> int (length buf) \<and>
    (length buf \<le> PIPE_ATOMIC \<longrightarrow> own_writes evs \<in> {[], [buf]})"
proof -
  obtain w where w: "pipe_inv p'" "p' = fold pipe_apply (map snd evs) p" "own_fit evs p" "w \<le> length buf"
    "concat (own_writes evs) = take w buf" "if w = 0 then r < 0 \<or> buf = [] \<and> r = 0 else r = int w"
    using pipe_write_spec [OF assms(2,1)] by auto
  then have "take w buf = take (nat r) buf" "r \<le> int (length buf)" by (auto split: if_splits)
  moreover have "pipe_out evs p @ pipe_bytes p' = pipe_bytes p @ pipe_in evs p"
    unfolding w(2) by (rule pipe_run_fifo [OF assms(1)])
  moreover have "length buf \<le> PIPE_ATOMIC \<longrightarrow> own_writes evs \<in> {[], [buf]}"
    using pipe_write_atomic [OF assms(2)] by auto
  ultimately show ?thesis using w by simp
qed

definition example_pipe :: pipe where
  "example_pipe = \<lparr>pp_buf = replicate PIPE_BUFFER_SIZE 0, pp_head = 65535, pp_len = 0, pp_readers = 1, pp_writers = 1\<rparr>"

lemma example_pipe_inv: "pipe_inv example_pipe"
  by (simp add: example_pipe_def pipe_inv_def PIPE_BUFFER_SIZE_def)

lemma example_pipe_write:
  "\<exists>d p'. pipe_write 0 [] example_pipe [7, 8] 0 [] = Returned 2 d [(True, Push [7, 8])] p'"
  by (simp add: pipe_write.simps example_pipe_def PIPE_BUFFER_SIZE_def PIPE_ATOMIC_def Let_def)

theorem pipe_write_correct_witness:
  "\<exists>p'. pipe_write 0 [] example_pipe [7, 8] 0 [] = Returned 2 [] [(True, Push [7, 8])] p' \<and>
     pipe_inv p' \<and> pipe_bytes p' = [7, 8]"
proof -
  obtain d p' where w: "pipe_write 0 [] example_pipe [7, 8] 0 [] = Returned 2 d [(True, Push [7, 8])] p'"
    using example_pipe_write by blast
  moreover have "d = []" using w by (simp add: pipe_write.simps example_pipe_def PIPE_BUFFER_SIZE_def PIPE_ATOMIC_def Let_def)
  ultimately show ?thesis
    using pipe_write_correct [OF example_pipe_inv w]
    by (simp add: pipe_bytes_def example_pipe_def pipe_space_def PIPE_BUFFER_SIZE_def step_in_def step_out_def)
qed

text \<open>C11: reading from a pipe. After whatever the others did while the call slept, a returning
  \<^verbatim>\<open>pipe_read\<close> either hands over the first bytes of the stream, at least one unless none was asked
  for, and removes exactly those; or it returns nothing and takes nothing: interrupted, or
  because the pipe is empty and the call may not block, has no writer left or asked for zero
  bytes.\<close>

theorem pipe_read_correct:
  assumes "pipe_inv p" and "pipe_read fl sleeps p len [] = Returned r d evs p'"
  shows "\<exists>others p1. p1 = fold pipe_apply others p \<and> pipe_inv p1 \<and> pipe_inv p' \<and> d @ pipe_bytes p' = pipe_bytes p1 \<and>
    pipe_out evs p @ pipe_bytes p' = pipe_bytes p @ pipe_in evs p \<and>
    (evs = map (Pair False) others @ [(True, Pop len)] \<and> d = take len (pipe_bytes p1) \<and> pipe_bytes p1 \<noteq> [] \<and> r = int (length d)
     \<or> evs = map (Pair False) others \<and> d = [] \<and> (r = - ERESTARTSYS \<or> pipe_bytes p1 = [] \<and>
         (r = - EAGAIN \<and> fl AND O_NONBLOCK_K \<noteq> 0 \<or> r = 0 \<and> (pp_writers p1 = 0 \<or> len = 0))))"
proof -
  obtain others p1 where p1: "p1 = fold pipe_apply others p" "pipe_inv p1" and
    c: "pp_len p1 \<noteq> 0 \<and> evs = map (Pair False) others @ [(True, Pop len)] \<and> p' = pipe_apply (Pop len) p1 \<and>
       d = take len (pipe_bytes p1) \<and> r = int (length d)
     \<or> evs = map (Pair False) others \<and> p' = p1 \<and> d = [] \<and>
       (r = - ERESTARTSYS \<or> pp_len p1 = 0 \<and>
         (r = - EAGAIN \<and> fl AND O_NONBLOCK_K \<noteq> 0 \<or> r = 0 \<and> (pp_writers p1 = 0 \<or> len = 0)))"
    using pipe_read_spec [OF assms(2,1)] by auto
  have e: "pipe_bytes q = [] \<longleftrightarrow> pp_len q = 0" for q by (simp add: length_0_conv [symmetric] del: length_0_conv)
  have "p' = fold pipe_apply (map snd evs) p" using c p1 by (auto simp: comp_def)
  then have fifo: "pipe_out evs p @ pipe_bytes p' = pipe_bytes p @ pipe_in evs p"
    using pipe_run_fifo [OF assms(1)] by simp
  have pop: "pipe_inv (pipe_apply (Pop len) p1) \<and> take len (pipe_bytes p1) @ pipe_bytes (pipe_apply (Pop len) p1) = pipe_bytes p1"
    using pipe_take_spec [OF p1(2), of len "fst (pipe_take p1 len)" "snd (pipe_take p1 len)"] by (simp add: pipe_apply_def)
  show ?thesis using c p1 fifo pop unfolding e by (intro exI [of _ others] exI [of _ p1]) auto
qed

theorem pipe_read_correct_witness:
  "\<exists>r d evs p'. pipe_read 0 [(0, [Push [5, 6, 7]])] example_pipe 2 [] = Returned r d evs p' \<and> r = 2 \<and> d = [5, 6] \<and>
     pipe_bytes p' = [7]"
proof -
  let ?q = "pipe_put example_pipe [5, 6, 7]"
  have ap: "pipe_apply (Push [5, 6, 7]) example_pipe = ?q"
    by (simp add: pipe_apply_def pipe_push_def pipe_space_def example_pipe_def PIPE_BUFFER_SIZE_def)
  have q: "pipe_bytes ?q = [5, 6, 7]" "pp_len ?q = 3"
    using pipe_put_spec [OF example_pipe_inv, of "[5, 6, 7]"]
    by (simp_all add: pipe_space_def example_pipe_def PIPE_BUFFER_SIZE_def pipe_bytes_def pipe_put_def)
  obtain d p' where r: "pipe_read 0 [(0, [Push [5, 6, 7]])] example_pipe 2 [] =
      Returned 2 d [(False, Push [5, 6, 7]), (True, Pop 2)] p'"
  proof -
    have "pp_len example_pipe = 0" "pp_writers example_pipe = 1" by (simp_all add: example_pipe_def)
    then have "pipe_read 0 [(0, [Push [5, 6, 7]])] example_pipe 2 [] = pipe_read 0 [] ?q 2 [(False, Push [5, 6, 7])]"
      by (subst pipe_read.simps) (simp add: ap Let_def)
    also have "\<dots> = Returned 2 (fst (pipe_take ?q 2)) [(False, Push [5, 6, 7]), (True, Pop 2)] (snd (pipe_take ?q 2))"
      using q(2) by (subst pipe_read.simps) (simp add: split_def Let_def)
    finally show thesis by (rule that)
  qed
  obtain others p1 where p1: "p1 = fold pipe_apply others example_pipe" "d @ pipe_bytes p' = pipe_bytes p1"
    "d = take 2 (pipe_bytes p1)" "others = [Push [5, 6, 7]]"
    using pipe_read_correct [OF example_pipe_inv r] by (auto simp: Cons_eq_append_conv Cons_eq_map_conv)
  then have "pipe_bytes p1 = [5, 6, 7]" using ap q by simp
  with p1 r show ?thesis by auto
qed

text \<open>C36: a call on a non-blocking pipe end never sleeps: it returns at once whatever the other
  processes would do, and with room for all of it a write is complete.\<close>

theorem pipe_nonblocking_returns:
  assumes "fl AND O_NONBLOCK_K \<noteq> 0"
  shows "pipe_read fl sleeps p len evs \<noteq> Blocked \<and> pipe_write fl sleeps p buf 0 evs \<noteq> Blocked \<and>
    (pp_readers p \<noteq> 0 \<and> length buf \<le> pipe_space p \<longrightarrow>
      (\<exists>d evs' p'. pipe_write fl sleeps p buf 0 evs = Returned (int (length buf)) d evs' p'))"
proof -
  have w: "pipe_write fl sleeps p buf written evs \<noteq> Blocked" for written
  proof (induction "length buf - written" arbitrary: p written evs rule: less_induct)
    case less
    define n where "n = (if length buf - written < PIPE_BUFFER_SIZE - pp_len p then length buf - written else PIPE_BUFFER_SIZE - pp_len p)"
    show ?case
    proof (cases "written < length buf \<and> 0 < n")
      case True
      then have "length buf - (written + n) < length buf - written" by linarith
      from less [OF this] show ?thesis
        using assms by (subst pipe_write.simps) (simp add: Let_def n_def [symmetric])
    next
      case False
      then show ?thesis using assms by (subst pipe_write.simps) (auto simp: Let_def n_def split: if_splits)
    qed
  qed
  have "pipe_write fl sleeps p buf 0 evs = Returned (int (length buf)) [] (if buf = [] then evs else evs @ [(True, Push buf)])
      (if buf = [] then p else pipe_put p buf)"
    if "pp_readers p \<noteq> 0" "length buf \<le> pipe_space p"
  proof (cases "buf = []")
    case False
    with that show ?thesis
      by (subst pipe_write.simps, subst pipe_write.simps) (auto simp: Let_def pipe_space_def)
  qed (subst pipe_write.simps, simp)
  moreover have "pipe_read fl sleeps p len evs \<noteq> Blocked"
    using assms by (subst pipe_read.simps) (simp add: split_def Let_def)
  ultimately show ?thesis using w by blast
qed

theorem pipe_nonblocking_returns_witness:
  "(0x800 :: u32) AND O_NONBLOCK_K \<noteq> 0 \<and> pipe_read 0x800 [] example_pipe 1 [] \<noteq> Blocked"
proof -
  have "(0x800 :: u32) AND O_NONBLOCK_K \<noteq> 0" by (simp add: O_NONBLOCK_K_def)
  then show ?thesis using pipe_nonblocking_returns [of "0x800" "[]" example_pipe 1 "[]" "[]"] by blast
qed

end
