(* ===== verification/Socket_Buffers.thy ===== *)
theory Socket_Buffers
  imports Net_Buffers Byte_Stream Kernel_Errno
begin

text \<open>
  Socket buffers, \<^verbatim>\<open>src/kernel/drivers/net/socket/sockbuf.c\<close>: a queue of records, each a chain
  of packet buffers; the first buffer of a datagram record may hold the sender's address and
  does not count as data. The record queue (\<^verbatim>\<open>head\<close>, \<^verbatim>\<open>tail\<close>, \<^verbatim>\<open>next_pkt\<close>) is the list of its
  records in link order. The byte stream a socket reads is \<open>sb_stream\<close>.
\<close>

section \<open>The code\<close>

definition SB_WAIT :: u32 where "SB_WAIT = 0x01"
definition SB_CANTMORE :: u32 where "SB_CANTMORE = 0x04"
definition NETBUF_SOCKADDR :: u32 where "NETBUF_SOCKADDR = 0x0100"

record sockbuf =
  sb_records :: "chain list"
  sb_cc :: u64
  sb_hiwat :: u64
  sb_lowat :: u64
  sb_flags :: u32

definition sockbuf_is_addr :: "netbuf \<Rightarrow> bool" where
  "sockbuf_is_addr nb \<longleftrightarrow> nb_flags nb AND NETBUF_SOCKADDR \<noteq> 0"

fun sockbuf_chain_len :: "chain \<Rightarrow> nat" where
  "sockbuf_chain_len [] = 0"
| "sockbuf_chain_len (nb # c) = (if \<not> sockbuf_is_addr nb then nb_len nb else 0) + sockbuf_chain_len c"

definition sockbuf_init :: "u64 \<Rightarrow> sockbuf" where
  "sockbuf_init hiwat = \<lparr>sb_records = [], sb_cc = 0, sb_hiwat = hiwat, sb_lowat = 1, sb_flags = 0\<rparr>"

definition sockbuf_release :: "sockbuf \<Rightarrow> sockbuf" where
  "sockbuf_release sb = sb\<lparr>sb_records := [], sb_cc := 0\<rparr>"

definition sockbuf_append :: "sockbuf \<Rightarrow> chain \<Rightarrow> sockbuf" where
  "sockbuf_append sb nb =
     (if nb = [] then sb
      else let len = sockbuf_chain_len nb;
               recs = (if sb_records sb \<noteq> []
                       then butlast (sb_records sb) @ [netbuf_cat (last (sb_records sb)) nb] else [nb])
           in sb\<lparr>sb_records := recs, sb_cc := sb_cc sb + word_of_nat len\<rparr>)"

definition sockbuf_space :: "sockbuf \<Rightarrow> u64" where
  "sockbuf_space sb = (if sb_cc sb < sb_hiwat sb then sb_hiwat sb - sb_cc sb else 0)"

fun clear_pkthdr :: "chain \<Rightarrow> chain" where
  "clear_pkthdr [] = []"
| "clear_pkthdr (nb # c) = nb\<lparr>nb_flags := nb_flags nb AND NOT NETBUF_PKTHDR\<rparr> # c"

text \<open>The sender's address is the byte list \<open>from\<close>, empty for a null pointer or zero length.\<close>

definition sockbuf_append_addr ::
  "malloc_results \<Rightarrow> sockbuf \<Rightarrow> bytes \<Rightarrow> chain \<Rightarrow> (bool \<times> sockbuf) \<times> malloc_results" where
  "sockbuf_append_addr os sb from nb =
     (let len = sockbuf_chain_len nb
      in if length from > NETBUF_SIZE - NETBUF_HEADROOM then ((False, sb), os)
         else case netbuf_alloc os True of
           (None, os) \<Rightarrow> ((False, sb), os)
         | (Some rec, os) \<Rightarrow>
             let rec = (if from \<noteq> [] then rec\<lparr>nb_buf := write_at (nb_off rec) from (nb_buf rec), nb_len := length from\<rparr> else rec);
                 rec = rec\<lparr>nb_flags := nb_flags rec OR NETBUF_SOCKADDR\<rparr>
             in if word_of_nat len > sockbuf_space sb \<or> sb_flags sb AND SB_CANTMORE \<noteq> 0 then ((False, sb), os)
                else ((True, sb\<lparr>sb_records := sb_records sb @ [rec # clear_pkthdr nb], sb_cc := sb_cc sb + word_of_nat len\<rparr>), os))"

fun rest_records :: "chain \<Rightarrow> chain list \<Rightarrow> chain list" where
  "rest_records [] rs = rs"
| "rest_records (b # c) rs = (b # c) # rs"

text \<open>The loop of \<^verbatim>\<open>sockbuf_drop\<close>. Records are never empty chains.\<close>

function sockbuf_drop_loop :: "chain list \<Rightarrow> nat \<Rightarrow> u64 \<Rightarrow> chain list \<times> u64" where
  "sockbuf_drop_loop [] len cc = ([], cc)"
| "sockbuf_drop_loop ([] # rs) len cc = sockbuf_drop_loop rs len cc"
| "sockbuf_drop_loop ((b # rest) # rs) len cc =
     (if len = 0 then ((b # rest) # rs, cc)
      else if \<not> sockbuf_is_addr b \<and> nb_len b > len
      then ((b\<lparr>nb_off := nb_off b + len, nb_len := nb_len b - len\<rparr> # rest) # rs, cc - word_of_nat len)
      else if \<not> sockbuf_is_addr b
      then sockbuf_drop_loop (rest_records rest rs) (len - nb_len b) (cc - word_of_nat (nb_len b))
      else sockbuf_drop_loop (rest_records rest rs) len cc)"
  by pat_completeness auto
termination
proof -
  have "sum_list (map (Suc \<circ> length) (rest_records rest rs)) < Suc (Suc (length rest + sum_list (map (Suc \<circ> length) rs)))"
    for rest rs by (cases rest) simp_all
  then show ?thesis
    by (relation "measure (\<lambda>(rs, len, cc). sum_list (map (Suc \<circ> length) rs))") simp_all
qed

definition sockbuf_drop :: "sockbuf \<Rightarrow> nat \<Rightarrow> sockbuf" where
  "sockbuf_drop sb len =
     (let (recs, cc) = sockbuf_drop_loop (sb_records sb) len (sb_cc sb) in sb\<lparr>sb_records := recs, sb_cc := cc\<rparr>)"

definition sockbuf_drop_record :: "sockbuf \<Rightarrow> sockbuf" where
  "sockbuf_drop_record sb =
     (case sb_records sb of [] \<Rightarrow> sb
      | rec # rs \<Rightarrow> sb\<lparr>sb_records := rs, sb_cc := sb_cc sb - word_of_nat (sockbuf_chain_len rec)\<rparr>)"

fun sockbuf_copy_record :: "chain \<Rightarrow> nat \<Rightarrow> nat \<Rightarrow> bytes \<times> nat \<times> nat" where
  "sockbuf_copy_record [] offset len = ([], offset, len)"
| "sockbuf_copy_record (b # c) offset len =
     (if len = 0 then ([], offset, len)
      else if sockbuf_is_addr b then sockbuf_copy_record c offset len
      else if offset \<ge> nb_len b then sockbuf_copy_record c (offset - nb_len b) len
      else let n = (if nb_len b - offset < len then nb_len b - offset else len);
               (out, offset', len') = sockbuf_copy_record c 0 (len - n)
           in (take n (drop (nb_off b + offset) (nb_buf b)) @ out, offset', len'))"

fun sockbuf_copy_records :: "chain list \<Rightarrow> nat \<Rightarrow> nat \<Rightarrow> bytes" where
  "sockbuf_copy_records [] offset len = []"
| "sockbuf_copy_records (rec # rs) offset len =
     (if len = 0 then []
      else let (out, offset, len) = sockbuf_copy_record rec offset len in out @ sockbuf_copy_records rs offset len)"

definition sockbuf_copy :: "sockbuf \<Rightarrow> nat \<Rightarrow> nat \<Rightarrow> bytes" where
  "sockbuf_copy sb offset len = sockbuf_copy_records (sb_records sb) offset len"

definition sockbuf_wait_id :: "u64 \<Rightarrow> u32" where
  "sockbuf_wait_id sb = ucast (drop_bit 4 sb AND 0x3FFFFFFF) OR 0x40000000"

text \<open>\<^verbatim>\<open>sockbuf_timedwait\<close>: whether network work is pending, whether the caller may sleep and what
  \<^verbatim>\<open>process_sleep_interruptible\<close> returned are arguments.\<close>

definition sockbuf_timedwait :: "bool \<Rightarrow> bool \<Rightarrow> int \<Rightarrow> sockbuf \<Rightarrow> u64 \<Rightarrow> int \<times> sockbuf" where
  "sockbuf_timedwait poll_pending can_sleep err sb timeout =
     (if poll_pending then (0, sb)
      else if \<not> can_sleep then (0, sb\<lparr>sb_flags := sb_flags sb OR SB_WAIT\<rparr>)
      else (if err = - EINTR \<and> timeout = 0 then - ERESTARTSYS else err, sb\<lparr>sb_flags := sb_flags sb OR SB_WAIT\<rparr>))"

definition sockbuf_wait :: "bool \<Rightarrow> bool \<Rightarrow> int \<Rightarrow> sockbuf \<Rightarrow> int \<times> sockbuf" where
  "sockbuf_wait poll_pending can_sleep err sb = sockbuf_timedwait poll_pending can_sleep err sb 0"

definition sockbuf_wakeup :: "sockbuf \<Rightarrow> bool \<times> sockbuf" where
  "sockbuf_wakeup sb =
     (if sb_flags sb AND SB_WAIT = 0 then (False, sb)
      else (True, sb\<lparr>sb_flags := sb_flags sb AND NOT SB_WAIT\<rparr>))"

section \<open>The stream view\<close>

definition sb_data :: "chain \<Rightarrow> bytes" where
  "sb_data c = concat (map nb_bytes (filter (\<lambda>b. \<not> sockbuf_is_addr b) c))"

definition sb_stream :: "sockbuf \<Rightarrow> bytes" where
  "sb_stream sb = concat (map sb_data (sb_records sb))"

definition recs_wf :: "chain list \<Rightarrow> bool" where
  "recs_wf rs \<longleftrightarrow> (\<forall>c \<in> set rs. c \<noteq> [] \<and> chain_wf c)"

definition sockbuf_inv :: "sockbuf \<Rightarrow> bool" where
  "sockbuf_inv sb \<longleftrightarrow> recs_wf (sb_records sb) \<and> length (sb_stream sb) < 2 ^ 64 \<and>
     sb_cc sb = word_of_nat (length (sb_stream sb))"

lemma sb_data_simps [simp]:
  "sb_data [] = []" "sb_data (b # c) = (if sockbuf_is_addr b then sb_data c else nb_bytes b @ sb_data c)"
  "sb_data (c @ d) = sb_data c @ sb_data d"
  by (simp_all add: sb_data_def)

lemma recs_wf_simps [simp]:
  "recs_wf []" "recs_wf (c # rs) \<longleftrightarrow> c \<noteq> [] \<and> chain_wf c \<and> recs_wf rs"
  "recs_wf (rs @ rs') \<longleftrightarrow> recs_wf rs \<and> recs_wf rs'"
  by (auto simp: recs_wf_def)

lemma chain_len_data [simp]: "chain_wf c \<Longrightarrow> sockbuf_chain_len c = length (sb_data c)"
  by (induction c) auto

lemma rest_records_simps [simp]:
  "concat (map sb_data (rest_records c rs)) = sb_data c @ concat (map sb_data rs)"
  "recs_wf (rest_records c rs) \<longleftrightarrow> chain_wf c \<and> recs_wf rs"
  by (cases c; auto)+

lemma is_addr_flags [simp]:
  "sockbuf_is_addr (b\<lparr>nb_flags := nb_flags b AND NOT NETBUF_PKTHDR\<rparr>) = sockbuf_is_addr b"
proof -
  have "(f AND NOT NETBUF_PKTHDR) AND NETBUF_SOCKADDR = f AND NETBUF_SOCKADDR" for f
    by (simp add: NETBUF_PKTHDR_def NETBUF_SOCKADDR_def and.assoc)
  then show ?thesis by (simp add: sockbuf_is_addr_def)
qed

lemma netbuf_cat_data [simp]: "sb_data (netbuf_cat c d) = sb_data c @ sb_data d"
  by (cases d) (auto simp: netbuf_cat_def)

lemma netbuf_cat_wf [simp]: "chain_wf (netbuf_cat c d) \<longleftrightarrow> chain_wf c \<and> chain_wf d"
  "netbuf_cat c d = [] \<longleftrightarrow> c = [] \<and> d = []"
  by (cases d; auto simp: netbuf_cat_def)+

lemma clear_pkthdr_view [simp]:
  "sb_data (clear_pkthdr c) = sb_data c" "chain_wf (clear_pkthdr c) = chain_wf c"
  by (cases c; simp)+

section \<open>The operations on the stream\<close>

lemma records_append_view:
  assumes "rs \<noteq> []"
  shows "concat (map sb_data (butlast rs @ [netbuf_cat (last rs) c])) = concat (map sb_data rs) @ sb_data c"
    and "recs_wf rs \<Longrightarrow> chain_wf c \<Longrightarrow> recs_wf (butlast rs @ [netbuf_cat (last rs) c])"
proof -
  obtain ys y where r: "rs = ys @ [y]" using assms by (metis append_butlast_last_id)
  show "concat (map sb_data (butlast rs @ [netbuf_cat (last rs) c])) = concat (map sb_data rs) @ sb_data c"
    by (simp add: r)
  show "recs_wf rs \<Longrightarrow> chain_wf c \<Longrightarrow> recs_wf (butlast rs @ [netbuf_cat (last rs) c])"
    by (simp add: r)
qed

lemma sockbuf_append_spec:
  assumes inv: "sockbuf_inv sb" and c: "chain_wf c" "length (sb_stream sb) + length (sb_data c) < 2 ^ 64"
  shows "sockbuf_inv (sockbuf_append sb c) \<and> sb_stream (sockbuf_append sb c) = sb_stream sb @ sb_data c"
proof (cases "c = []")
  case False
  define recs where "recs = (if sb_records sb \<noteq> [] then butlast (sb_records sb) @ [netbuf_cat (last (sb_records sb)) c] else [c])"
  have a: "sockbuf_append sb c = sb\<lparr>sb_records := recs, sb_cc := sb_cc sb + word_of_nat (length (sb_data c))\<rparr>"
    using False c(1) by (simp add: sockbuf_append_def recs_def Let_def)
  have "concat (map sb_data recs) = sb_stream sb @ sb_data c"
    using records_append_view(1) [of "sb_records sb" c] by (auto simp: recs_def sb_stream_def)
  moreover have "recs_wf recs"
    using records_append_view(2) [of "sb_records sb" c] inv False c by (auto simp: recs_def sockbuf_inv_def)
  ultimately show ?thesis using inv c by (simp add: a sockbuf_inv_def sb_stream_def)
qed (simp add: sockbuf_append_def inv)

lemma sockbuf_drop_loop_spec:
  assumes "recs_wf rs" and "sockbuf_drop_loop rs len cc = (rs', cc')"
    and "cc = word_of_nat (length (concat (map sb_data rs)))"
  shows "recs_wf rs' \<and> concat (map sb_data rs') = drop len (concat (map sb_data rs)) \<and>
    cc' = word_of_nat (length (concat (map sb_data rs')))"
  using assms
proof (induction rs len cc rule: sockbuf_drop_loop.induct)
  case (3 b rest rs len cc)
  have wf: "nb_wf b" "chain_wf rest" "recs_wf rs" using "3.prems"(1) by simp_all
  have rest: "recs_wf (rest_records rest rs)" using wf by simp
  consider "len = 0" | "0 < len" "\<not> sockbuf_is_addr b" "len < nb_len b"
    | "0 < len" "\<not> sockbuf_is_addr b" "\<not> len < nb_len b" | "0 < len" "sockbuf_is_addr b" by blast
  then show ?case
  proof cases
    case 1
    with "3.prems" show ?thesis by auto
  next
    case 2
    note d = nb_drop_front [OF wf(1), of len]
    have na: "\<not> sockbuf_is_addr (b\<lparr>nb_off := nb_off b + len, nb_len := nb_len b - len\<rparr>)"
      using 2 by (simp add: sockbuf_is_addr_def)
    have r: "rs' = (b\<lparr>nb_off := nb_off b + len, nb_len := nb_len b - len\<rparr> # rest) # rs" "cc' = cc - word_of_nat len"
      using "3.prems"(2) 2 by auto
    show ?thesis
      using d na wf 2 "3.prems"(3) by (simp add: r of_nat_diff)
  next
    case 3
    have "sockbuf_drop_loop (rest_records rest rs) (len - nb_len b) (cc - word_of_nat (nb_len b)) = (rs', cc')"
      using "3.prems"(2) 3 by simp
    note IH = "3.IH"(1) [OF _ _ _ rest this]
    show ?thesis using IH 3 wf "3.prems"(3) by simp
  next
    case 4
    have "sockbuf_drop_loop (rest_records rest rs) len cc = (rs', cc')" using "3.prems"(2) 4 by simp
    note IH = "3.IH"(2) [OF _ _ _ rest this]
    show ?thesis using IH 4 "3.prems"(3) by simp
  qed
qed simp_all

lemma sockbuf_drop_spec:
  assumes "sockbuf_inv sb"
  shows "sockbuf_inv (sockbuf_drop sb len) \<and> sb_stream (sockbuf_drop sb len) = drop len (sb_stream sb)"
proof -
  obtain rs cc where d: "sockbuf_drop_loop (sb_records sb) len (sb_cc sb) = (rs, cc)" by fastforce
  have "recs_wf rs \<and> concat (map sb_data rs) = drop len (sb_stream sb) \<and> cc = word_of_nat (length (concat (map sb_data rs)))"
    using sockbuf_drop_loop_spec [OF _ d] assms by (simp add: sockbuf_inv_def sb_stream_def)
  then show ?thesis using assms d by (auto simp: sockbuf_drop_def sockbuf_inv_def sb_stream_def)
qed

lemma sockbuf_copy_record_spec:
  assumes "chain_wf c" and "sockbuf_copy_record c offset len = (out, offset', len')"
  shows "out = take len (drop offset (sb_data c)) \<and> len' = len - length out \<and>
    (len' \<noteq> 0 \<longrightarrow> offset' = offset - length (sb_data c))"
  using assms
proof (induction c arbitrary: offset len out)
  case (Cons b c)
  have wf: "nb_wf b" "chain_wf c" using Cons.prems(1) by simp_all
  note r = Cons.prems(2)
  consider "len = 0" | "0 < len" "sockbuf_is_addr b" | "0 < len" "\<not> sockbuf_is_addr b" "nb_len b \<le> offset"
    | "0 < len" "\<not> sockbuf_is_addr b" "offset < nb_len b" by linarith
  then show ?case
  proof cases
    case 3
    then show ?thesis using Cons.IH [OF wf(2), of "offset - nb_len b" len out] r wf by simp
  next
    case 4
    define n where "n = (if nb_len b - offset < len then nb_len b - offset else len)"
    obtain out1 where c: "sockbuf_copy_record c 0 (len - n) = (out1, offset', len')"
      and o: "out = take n (drop (nb_off b + offset) (nb_buf b)) @ out1"
      using r 4 by (auto simp: n_def Let_def split: prod.splits)
    note IH = Cons.IH [OF wf(2) c]
    have "take n (drop (nb_off b + offset) (nb_buf b)) = take len (drop offset (nb_bytes b))"
      using 4 by (auto simp: nb_bytes_def drop_take n_def add.commute min_def)
    then show ?thesis using IH 4 wf o by (auto simp: n_def split: if_splits)
  qed (use Cons.IH [OF wf(2)] r wf in auto)
qed simp

lemma sockbuf_copy_records_spec:
  "recs_wf rs \<Longrightarrow> sockbuf_copy_records rs offset len = take len (drop offset (concat (map sb_data rs)))"
proof (induction rs arbitrary: offset len)
  case (Cons c rs)
  obtain out offset' len' where c: "sockbuf_copy_record c offset len = (out, offset', len')" by (metis prod_cases3)
  have wf: "chain_wf c" "recs_wf rs" using Cons.prems by simp_all
  note s = sockbuf_copy_record_spec [OF wf(1) c]
  show ?case
  proof (cases "len' = 0")
    case True
    then have "length out = len \<or> len = 0 \<or> length out \<le> len" using s by auto
    moreover have "take 0 xs = []" for xs :: bytes by simp
    ultimately show ?thesis using c s True Cons.IH [OF wf(2)] by (auto simp: Let_def)
  next
    case False
    with s have "offset' = offset - length (sb_data c)" "len' = len - length out" by auto
    moreover have "length out = length (sb_data c) - offset" using s False by (auto simp: min_def split: if_splits)
    ultimately show ?thesis using c s False Cons.IH [OF wf(2)] by (auto simp: Let_def)
  qed
qed simp

lemma sockbuf_copy_spec:
  "sockbuf_inv sb \<Longrightarrow> sockbuf_copy sb offset len = take len (drop offset (sb_stream sb))"
  by (simp add: sockbuf_copy_def sockbuf_inv_def sockbuf_copy_records_spec sb_stream_def)

text \<open>Reading consumes what it copied.\<close>

definition sockbuf_read :: "sockbuf \<Rightarrow> nat \<Rightarrow> bytes \<times> sockbuf" where
  "sockbuf_read sb n = (sockbuf_copy sb 0 n, sockbuf_drop sb n)"

lemma sockbuf_wakeup_stream:
  "sockbuf_inv sb \<Longrightarrow> sockbuf_inv (snd (sockbuf_wakeup sb)) \<and> sb_stream (snd (sockbuf_wakeup sb)) = sb_stream sb"
  by (simp add: sockbuf_wakeup_def sockbuf_inv_def sb_stream_def)

interpretation sbs: byte_stream sockbuf_inv sb_stream
  "\<lambda>sb c. chain_wf c \<and> length (sb_stream sb) + length (sb_data c) < 2 ^ 64" "\<lambda>sb c. sb_data c"
  sockbuf_append sockbuf_read "\<lambda>_ :: unit. \<lambda>sb. snd (sockbuf_wakeup sb)"
  by unfold_locales
    (use sockbuf_append_spec sockbuf_drop_spec sockbuf_copy_spec sockbuf_wakeup_stream in \<open>auto simp: sockbuf_read_def\<close>)

section \<open>Properties\<close>

abbreviation sb_step :: "(chain, unit) stream_op \<Rightarrow> sockbuf \<Rightarrow> sockbuf" where
  "sb_step \<equiv> stream_step sockbuf_append sockbuf_read (\<lambda>_ sb. snd (sockbuf_wakeup sb))"

abbreviation sb_ok :: "(chain, unit) stream_op \<Rightarrow> sockbuf \<Rightarrow> bool" where
  "sb_ok \<equiv> step_ok (\<lambda>sb c. chain_wf c \<and> length (sb_stream sb) + length (sb_data c) < 2 ^ 64)"

text \<open>C13: a stream socket's buffer. Along any sequence of appends of well-formed chains, reads
  (copy, then drop) and wakeups, the bytes read followed by those still buffered are the bytes
  buffered at first followed by those appended, whatever the record and buffer boundaries; the
  byte count is exact and the buffer stays well formed.\<close>

theorem sockbuf_fifo:
  assumes "sockbuf_inv sb" and "all_along sb_step sb_ok ops sb"
  shows "along sb_step (step_out sockbuf_read) ops sb @ sb_stream (fold sb_step ops sb)
      = sb_stream sb @ along sb_step (step_in (\<lambda>sb c. sb_data c)) ops sb \<and>
    sockbuf_inv (fold sb_step ops sb) \<and> unat (sb_cc (fold sb_step ops sb)) = length (sb_stream (fold sb_step ops sb))"
proof -
  have "sockbuf_inv s \<Longrightarrow> unat (sb_cc s) = length (sb_stream s)" for s
    by (simp add: sockbuf_inv_def unat_word_of_nat_id)
  then show ?thesis using sbs.run_fifo [OF assms] by blast
qed

theorem sockbuf_fifo_witness:
  "along sb_step (step_out sockbuf_read) [Push example_pkt, Pop 3, Push example_pkt] (sockbuf_init 100)
     @ sb_stream (fold sb_step [Push example_pkt, Pop 3, Push example_pkt] (sockbuf_init 100))
   = [1, 2, 3, 4, 5, 1, 2, 3, 4, 5]"
proof -
  have wf: "chain_wf example_pkt" using example_pkt_wf by (simp add: pkt_wf_def)
  have d: "sb_data example_pkt = [1, 2, 3, 4, 5]"
    by (simp add: example_pkt_def example_buf_def netbuf_setup_def sb_data_def nb_bytes_def sockbuf_is_addr_def
        NETBUF_PKTHDR_def NETBUF_SOCKADDR_def)
  have i: "sockbuf_inv (sockbuf_init 100)" "sb_stream (sockbuf_init 100) = []"
    by (simp_all add: sockbuf_init_def sockbuf_inv_def sb_stream_def)
  define s1 where "s1 = sockbuf_append (sockbuf_init 100) example_pkt"
  have s1: "sockbuf_inv s1" "sb_stream s1 = [1, 2, 3, 4, 5]"
    using sockbuf_append_spec [OF i(1) wf] by (simp_all add: s1_def i d)
  have ok: "all_along sb_step sb_ok [Push example_pkt, Pop 3, Push example_pkt] (sockbuf_init 100)"
    using sockbuf_drop_spec [OF s1(1), of 3] s1(2)
    by (simp add: step_ok_def wf d i(2) s1_def [symmetric] sockbuf_read_def)
  have "along sb_step (step_in (\<lambda>sb c. sb_data c)) [Push example_pkt, Pop 3, Push example_pkt] (sockbuf_init 100)
      = [1, 2, 3, 4, 5, 1, 2, 3, 4, 5]" by (simp add: step_in_def d)
  then show ?thesis using sockbuf_fifo [OF i(1) ok] i(2) by simp
qed



end
