(* ===== verification/C_Strings.thy ===== *)
theory C_Strings
  imports Kernel_Prelude
begin

text \<open>
  C strings and number formatting, \<^verbatim>\<open>src/kernel/utils/str/str.h\<close>. A string argument is the
  memory from its pointer to the end of its object, a list of bytes; reading or writing past
  the end is a \<open>Fault\<close>. A pointer result into an argument is an offset into it, \<open>None\<close> for
  \<^verbatim>\<open>nullptr\<close>. Functions that allocate take the outcome of their allocation.
\<close>

section \<open>The code\<close>

fun strlen_loop :: "bytes \<Rightarrow> nat \<Rightarrow> nat run" where
  "strlen_loop [] len = Fault"
| "strlen_loop (c # str) len = (if c \<noteq> 0 then strlen_loop str (len + 1) else Done len)"

definition strlen :: "bytes \<Rightarrow> nat run" where
  "strlen str = strlen_loop str 0"

fun strcmp_loop :: "bytes \<Rightarrow> bytes \<Rightarrow> nat \<Rightarrow> nat option run" where
  "strcmp_loop (a # str1) (b # str2) i =
     (if a \<noteq> 0 \<and> b \<noteq> 0
      then if a \<noteq> b then Done (Some i) else strcmp_loop str1 str2 (i + 1)
      else if a \<noteq> b then Done (Some i) else Done None)"
| "strcmp_loop [] str2 i = Fault"
| "strcmp_loop (a # str1) [] i = Fault"

definition strcmp :: "bytes \<Rightarrow> bytes \<Rightarrow> nat option run" where
  "strcmp str1 str2 = strcmp_loop str1 str2 0"

fun strchr_loop :: "bytes \<Rightarrow> u8 \<Rightarrow> nat \<Rightarrow> nat option run" where
  "strchr_loop [] c i = Fault"
| "strchr_loop (x # str) c i =
     (if x \<noteq> 0 \<and> x \<noteq> c then strchr_loop str c (i + 1)
      else if x = c then Done (Some i) else Done None)"

definition strchr :: "bytes \<Rightarrow> u8 \<Rightarrow> nat option run" where
  "strchr str c = strchr_loop str c 0"

text \<open>\<^verbatim>\<open>strtok\<close> keeps the position of the next token in a static variable; positions are offsets
  into the string's memory. The two scans go on while the character is (skip) or is not
  (token) one of the delimiters.\<close>

function strtok_scan :: "bool \<Rightarrow> bytes \<Rightarrow> bytes \<Rightarrow> nat \<Rightarrow> nat run" where
  "strtok_scan want delim buf p =
     (if p < length buf
      then if buf ! p \<noteq> 0
           then (case strchr delim (buf ! p) of
                   Fault \<Rightarrow> Fault
                 | Done r \<Rightarrow> if (r \<noteq> None) = want then strtok_scan want delim buf (p + 1) else Done p)
           else Done p
      else Fault)"
  by pat_completeness auto
termination
  by (relation "measure (\<lambda>(want, delim, buf, p). length buf - p)") auto

declare strtok_scan.simps [simp del]

text \<open>The result: the token's start, the memory and the static variable.\<close>

definition strtok ::
  "bytes \<Rightarrow> nat option \<Rightarrow> nat option \<Rightarrow> bytes \<Rightarrow> (nat option \<times> bytes \<times> nat option) run" where
  "strtok buf next_token str delim =
     (case (if str \<noteq> None then str else next_token) of
        None \<Rightarrow> Done (None, buf, None)
      | Some p \<Rightarrow>
          bind_run (strtok_scan True delim buf p) (\<lambda>start.
            if buf ! start = 0 then Done (None, buf, None)
            else bind_run (strtok_scan False delim buf start) (\<lambda>stop.
              if buf ! stop \<noteq> 0 then Done (Some start, buf[stop := 0], Some (stop + 1))
              else Done (Some start, buf, None))))"

fun strcpy_loop :: "bytes \<Rightarrow> bytes \<Rightarrow> nat \<Rightarrow> bytes run" where
  "strcpy_loop dest [] i = Fault"
| "strcpy_loop dest (c # src) i =
     (if i < length dest
      then if c \<noteq> 0 then strcpy_loop (dest[i := c]) src (i + 1) else Done (dest[i := 0])
      else Fault)"

definition strcpy :: "bytes \<Rightarrow> bytes \<Rightarrow> bytes run" where
  "strcpy dest src = strcpy_loop dest src 0"

definition strdup :: "malloc_results \<Rightarrow> bytes \<Rightarrow> (bytes option \<times> malloc_results) run" where
  "strdup os str =
     bind_run (strlen str) (\<lambda>l.
       let len = l + 1 in
       case malloc_bytes os len of
         (None, os) \<Rightarrow> Done (None, os)
       | (Some copy, os) \<Rightarrow> Done (Some (write_at 0 (take len str) copy), os))"

fun total_strlen :: "bytes list \<Rightarrow> nat \<Rightarrow> nat run" where
  "total_strlen [] total_len = Done total_len"
| "total_strlen (str # args) total_len =
     bind_run (strlen str) (\<lambda>len. total_strlen args (total_len + len))"

fun copy_strings :: "bytes list \<Rightarrow> nat \<Rightarrow> bytes \<Rightarrow> bytes run" where
  "copy_strings [] current_pos result = Done result"
| "copy_strings (str # args) current_pos result =
     bind_run (strlen str) (\<lambda>len.
       if current_pos + len \<le> length result
       then copy_strings args (current_pos + len) (write_at current_pos (take len str) result)
       else Fault)"

definition str_concat_variadic :: "malloc_results \<Rightarrow> bytes list \<Rightarrow> (bytes option \<times> malloc_results) run" where
  "str_concat_variadic os args =
     bind_run (total_strlen args 0) (\<lambda>total_len.
       case malloc_bytes os (total_len + 1) of
         (None, os) \<Rightarrow> Done (None, os)
       | (Some result, os) \<Rightarrow>
           bind_run (copy_strings args 0 result) (\<lambda>result. Done (Some (result[total_len := 0]), os)))"

text \<open>\<^verbatim>\<open>str_concat\<close> writes to the block without testing the allocation.\<close>

definition str_concat :: "malloc_results \<Rightarrow> bytes \<Rightarrow> bytes \<Rightarrow> (bytes \<times> malloc_results) run" where
  "str_concat os str1 str2 =
     bind_run (strlen str1) (\<lambda>len1.
     bind_run (strlen str2) (\<lambda>len2.
       case malloc_bytes os (len1 + len2 + 1) of
         (None, os) \<Rightarrow> Fault
       | (Some result, os) \<Rightarrow>
           let result = fold (\<lambda>i r. r[i := str1 ! i]) [0..<len1] result;
               result = fold (\<lambda>i r. r[len1 + i := str2 ! i]) [0..<len2] result
           in Done (result[len1 + len2 := 0], os)))"

text \<open>The decimal digits as the loops of \<^verbatim>\<open>str_u64\<close>, \<^verbatim>\<open>str_u32\<close> and \<^verbatim>\<open>str_u16\<close> produce them, least
  significant first, into a buffer of \<open>room\<close> characters; then reversed into the result.\<close>

function str_digits :: "nat \<Rightarrow> nat \<Rightarrow> bytes run" where
  "str_digits room n =
     (if n > 0
      then if room = 0 then Fault
           else bind_run (str_digits (room - 1) (n div 10)) (\<lambda>ds. Done (word_of_nat (48 + n mod 10) # ds))
      else Done [])"
  by pat_completeness auto
termination
  by (relation "measure snd") auto

declare str_digits.simps [simp del]

definition str_unsigned :: "nat \<Rightarrow> malloc_results \<Rightarrow> nat \<Rightarrow> (bytes option \<times> malloc_results) run" where
  "str_unsigned room os n =
     (if n = 0 then
        (case malloc_bytes os 2 of
           (None, os) \<Rightarrow> Done (None, os)
         | (Some buffer, os) \<Rightarrow> Done (Some (buffer[0 := 48, 1 := 0]), os))
      else bind_run (str_digits room n) (\<lambda>temp.
        let pos = length temp in
        case malloc_bytes os (pos + 1) of
          (None, os) \<Rightarrow> Done (None, os)
        | (Some buffer, os) \<Rightarrow>
            let buffer = fold (\<lambda>i b. b[i := temp ! (pos - 1 - i)]) [0..<pos] buffer
            in Done (Some (buffer[pos := 0]), os)))"

definition str_u64 :: "malloc_results \<Rightarrow> u64 \<Rightarrow> (bytes option \<times> malloc_results) run" where
  "str_u64 os n = str_unsigned 21 os (unat n)"

definition str_u32 :: "malloc_results \<Rightarrow> u32 \<Rightarrow> (bytes option \<times> malloc_results) run" where
  "str_u32 os n = str_unsigned 11 os (unat n)"

definition str_u16 :: "malloc_results \<Rightarrow> u16 \<Rightarrow> (bytes option \<times> malloc_results) run" where
  "str_u16 os n = str_unsigned 6 os (unat n)"

text \<open>Fixed-width conversions: \<open>k\<close> digits from the right, then the terminator.\<close>

fun fixed_digits :: "(nat \<Rightarrow> u8) \<Rightarrow> nat \<Rightarrow> nat \<Rightarrow> nat \<Rightarrow> bytes" where
  "fixed_digits digit base 0 n = []"
| "fixed_digits digit base (Suc k) n = fixed_digits digit base k (n div base) @ [digit (n mod base)]"

definition dec_digit :: "nat \<Rightarrow> u8" where
  "dec_digit d = word_of_nat (48 + d)"

definition hex_digit :: "nat \<Rightarrow> u8" where
  "hex_digit d = (if d < 10 then word_of_nat (48 + d) else word_of_nat (65 + d - 10))"

definition str_fixed :: "(nat \<Rightarrow> u8) \<Rightarrow> nat \<Rightarrow> nat \<Rightarrow> malloc_results \<Rightarrow> nat \<Rightarrow> bytes option \<times> malloc_results" where
  "str_fixed digit base k os n =
     (case malloc_bytes os (k + 1) of
        (None, os) \<Rightarrow> (None, os)
      | (Some buffer, os) \<Rightarrow> (Some (write_at 0 (fixed_digits digit base k n) (buffer[k := 0])), os))"

definition str_u8 :: "malloc_results \<Rightarrow> u8 \<Rightarrow> bytes option \<times> malloc_results" where
  "str_u8 os n = str_fixed dec_digit 10 3 os (unat n)"

definition str_u32_hex :: "malloc_results \<Rightarrow> u32 \<Rightarrow> bytes option \<times> malloc_results" where
  "str_u32_hex os n = str_fixed hex_digit 16 8 os (unat n)"

definition str_u16_hex :: "malloc_results \<Rightarrow> u16 \<Rightarrow> bytes option \<times> malloc_results" where
  "str_u16_hex os n = str_fixed hex_digit 16 4 os (unat n)"

definition str_u8_hex :: "malloc_results \<Rightarrow> u8 \<Rightarrow> bytes option \<times> malloc_results" where
  "str_u8_hex os n = str_fixed hex_digit 16 2 os (unat n)"

definition utf8_encode :: "u32 \<Rightarrow> bytes" where
  "utf8_encode c =
     (if c < 0x80 then [ucast c]
      else if c < 0x800 then [ucast (0xC0 OR drop_bit 6 c), ucast (0x80 OR (c AND 0x3F))]
      else if c < 0x10000
      then [ucast (0xE0 OR drop_bit 12 c), ucast (0x80 OR (drop_bit 6 c AND 0x3F)), ucast (0x80 OR (c AND 0x3F))]
      else [ucast (0xF0 OR drop_bit 18 c), ucast (0x80 OR (drop_bit 12 c AND 0x3F)),
            ucast (0x80 OR (drop_bit 6 c AND 0x3F)), ucast (0x80 OR (c AND 0x3F))])"

text \<open>The conversion loop over the code units before the terminator.\<close>

fun utf16_loop :: "u16 list \<Rightarrow> bytes" where
  "utf16_loop [] = []"
| "utf16_loop [u] = utf8_encode (ucast u)"
| "utf16_loop (u # u2 # us) =
     (let c = ucast u :: u32; c2 = ucast u2 :: u32 in
      if c \<ge> 0xD800 \<and> c \<le> 0xDBFF \<and> c2 \<ge> 0xDC00 \<and> c2 \<le> 0xDFFF
      then utf8_encode (0x10000 + push_bit 10 (c AND 0x3FF) + (c2 AND 0x3FF)) @ utf16_loop us
      else utf8_encode c @ utf16_loop (u2 # us))"

fun utf16_len :: "u16 list \<Rightarrow> nat run" where
  "utf16_len [] = Fault"
| "utf16_len (u # us) = (if u \<noteq> 0 then bind_run (utf16_len us) (\<lambda>n. Done (n + 1)) else Done 0)"

definition str_utf16_to_utf8 :: "malloc_results \<Rightarrow> u16 list \<Rightarrow> (bytes option \<times> malloc_results) run" where
  "str_utf16_to_utf8 os utf16 =
     bind_run (utf16_len utf16) (\<lambda>len.
       case malloc_bytes os (len * 4 + 1) of
         (None, os) \<Rightarrow> Done (None, os)
       | (Some utf8, os) \<Rightarrow>
           let out = utf16_loop (take len utf16)
           in if length out + 1 \<le> length utf8 then Done (Some (write_at 0 (out @ [0]) utf8), os) else Fault)"

fun strncpy_loop :: "bytes \<Rightarrow> bytes \<Rightarrow> nat \<Rightarrow> nat \<Rightarrow> (bytes \<times> nat) run" where
  "strncpy_loop dest [] i n = (if i < n then Fault else Done (dest, i))"
| "strncpy_loop dest (c # src) i n =
     (if i < n \<and> c \<noteq> 0
      then if i < length dest then strncpy_loop (dest[i := c]) src (i + 1) n else Fault
      else Done (dest, i))"

definition strncpy :: "bytes \<Rightarrow> bytes \<Rightarrow> nat \<Rightarrow> bytes run" where
  "strncpy dest src n =
     bind_run (strncpy_loop dest src 0 n) (\<lambda>(dest, i).
       if n \<le> length dest \<or> i \<ge> n then Done (fold (\<lambda>k d. d[k := 0]) [i..<n] dest) else Fault)"

text \<open>Characters are signed, so is their difference.\<close>

fun strncmp :: "bytes \<Rightarrow> bytes \<Rightarrow> nat \<Rightarrow> int run" where
  "strncmp dest src 0 = Done 0"
| "strncmp (a # dest) (b # src) (Suc n) =
     (if a \<noteq> b then Done (sint a - sint b) else if a = 0 then Done 0 else strncmp dest src n)"
| "strncmp [] src (Suc n) = Fault"
| "strncmp (a # dest) [] (Suc n) = Fault"

definition strncat :: "bytes \<Rightarrow> bytes \<Rightarrow> nat \<Rightarrow> bytes run" where
  "strncat dest src n =
     bind_run (strlen dest) (\<lambda>dest_len.
     bind_run (strncpy_loop (drop dest_len dest) src 0 n) (\<lambda>(tail, i).
       if i < length tail then Done (take dest_len dest @ tail[i := 0]) else Fault))"

section \<open>Strings in memory\<close>

definition cstr :: "bytes \<Rightarrow> bytes \<Rightarrow> bool" where
  "cstr mem s \<longleftrightarrow> 0 \<notin> set s \<and> (\<exists>rest. mem = s @ 0 # rest)"

lemma cstrE:
  assumes "cstr mem s"
  obtains rest where "0 \<notin> set s" "mem = s @ 0 # rest"
  using assms by (auto simp: cstr_def)

lemma cstr_Cons [simp]: "cstr (c # mem) (x # s) \<longleftrightarrow> c = x \<and> x \<noteq> 0 \<and> cstr mem s"
  by (auto simp: cstr_def)

lemma cstr_Nil [simp]: "cstr (c # mem) [] \<longleftrightarrow> c = 0" "\<not> cstr [] s"
  by (auto simp: cstr_def)

lemma strlen_loop_cstr: "cstr mem s \<Longrightarrow> strlen_loop mem n = Done (n + length s)"
proof (induction s arbitrary: mem n)
  case Nil
  then show ?case by (cases mem) auto
next
  case (Cons c s)
  then show ?case by (cases mem) auto
qed

lemma strlen_cstr [simp]: "cstr mem s \<Longrightarrow> strlen mem = Done (length s)"
  by (simp add: strlen_def strlen_loop_cstr)

lemma cstr_take [simp]: "cstr mem s \<Longrightarrow> take (length s) mem = s" "cstr mem s \<Longrightarrow> take (Suc (length s)) mem = s @ [0]"
  by (auto elim!: cstrE)

lemma strcmp_loop_cstr:
  "cstr m1 s \<Longrightarrow> cstr m2 t \<Longrightarrow>
    \<exists>r. strcmp_loop m1 m2 i = Done r \<and> (r = None \<longleftrightarrow> s = t) \<and>
      (\<forall>k. r = Some k \<longrightarrow> i \<le> k \<and> take (k - i) s = take (k - i) t \<and> m1 ! (k - i) \<noteq> m2 ! (k - i))"
proof (induction s arbitrary: m1 m2 t i)
  case Nil
  then show ?case by (cases m1; cases m2; cases t) auto
next
  case (Cons c s)
  obtain n1 where m1: "m1 = c # n1" "cstr n1 s" "c \<noteq> 0" using Cons.prems(1) by (cases m1) auto
  show ?case
  proof (cases t)
    case Nil
    then show ?thesis using Cons.prems(2) m1 by (cases m2) auto
  next
    case (Cons d t')
    then obtain n2 where m2: "m2 = d # n2" "cstr n2 t'" "d \<noteq> 0" using Cons.prems(2) by (cases m2) auto
    show ?thesis
    proof (cases "c = d")
      case False
      with m1 m2 Cons show ?thesis by auto
    next
      case True
      obtain r where r: "strcmp_loop n1 n2 (i + 1) = Done r" "r = None \<longleftrightarrow> s = t'"
        "\<forall>k. r = Some k \<longrightarrow> i + 1 \<le> k \<and> take (k - (i + 1)) s = take (k - (i + 1)) t' \<and> n1 ! (k - (i + 1)) \<noteq> n2 ! (k - (i + 1))"
        using Cons.IH [OF m1(2) m2(2), of "i + 1"] by blast
      have "i \<le> k \<and> take (k - i) (c # s) = take (k - i) t \<and> m1 ! (k - i) \<noteq> m2 ! (k - i)" if "r = Some k" for k
      proof -
        have "i + 1 \<le> k" using r(3) that by blast
        then have "k - i = Suc (k - (i + 1))" by simp
        then show ?thesis using r(3) that True Cons m1 m2 by simp
      qed
      then show ?thesis using r True m1 m2 Cons by auto
    qed
  qed
qed

lemma strchr_cstr: "cstr mem s \<Longrightarrow> c \<noteq> 0 \<Longrightarrow> \<exists>r. strchr_loop mem c i = Done r \<and> (r \<noteq> None \<longleftrightarrow> c \<in> set s)"
proof (induction s arbitrary: mem i)
  case Nil
  then show ?case by (cases mem) auto
next
  case (Cons x s)
  then show ?case by (cases mem) auto
qed

lemma strcpy_loop_cstr:
  "cstr mem s \<Longrightarrow> i + length s < length dest \<Longrightarrow>
    strcpy_loop dest mem i = Done (take i dest @ s @ 0 # drop (i + length s + 1) dest)"
proof (induction s arbitrary: mem i dest)
  case Nil
  then show ?case by (cases mem) (auto simp: upd_conv_take_nth_drop)
next
  case (Cons c s)
  then obtain m where m: "mem = c # m" "cstr m s" "c \<noteq> 0" by (cases mem) auto
  have "strcpy_loop (dest[i := c]) m (i + 1) = Done (take (i + 1) (dest[i := c]) @ s @ 0 # drop (i + 1 + length s + 1) (dest[i := c]))"
    using Cons.IH [OF m(2), of "i + 1" "dest[i := c]"] Cons.prems(2) by simp
  moreover have "take (i + 1) (dest[i := c]) = take i dest @ [c]"
    using Cons.prems(2) by (simp add: take_Suc_conv_app_nth)
  ultimately show ?case using m Cons.prems(2) by simp
qed

section \<open>Tokens\<close>

function tokens :: "(u8 \<Rightarrow> bool) \<Rightarrow> bytes \<Rightarrow> bytes list" where
  "tokens isd s =
     (let s' = dropWhile isd s in
      if s' = [] then [] else takeWhile (\<lambda>c. \<not> isd c) s' # tokens isd (dropWhile (\<lambda>c. \<not> isd c) s'))"
  by pat_completeness auto
termination
proof (relation "measure (\<lambda>(isd, s). length s)")
  fix isd :: "u8 \<Rightarrow> bool" and s s' :: bytes
  assume s': "s' = dropWhile isd s" "s' \<noteq> []"
  then have "\<not> isd (hd s')" using hd_dropWhile [of isd s] by simp
  with s'(2) have "length (dropWhile (\<lambda>c. \<not> isd c) s') < length s'"
    by (cases s') (auto simp: le_imp_less_Suc length_dropWhile_le)
  also have "\<dots> \<le> length s" using s'(1) length_dropWhile_le by simp
  finally show "((isd, dropWhile (\<lambda>c. \<not> isd c) s'), isd, s) \<in> measure (\<lambda>(isd, s). length s)" by simp
qed simp

declare tokens.simps [simp del]

lemma strtok_scan_spec:
  assumes d: "cstr dmem ds" and "0 \<notin> set s"
  shows "strtok_scan want dmem (pre @ s @ 0 # rest) (length pre)
    = Done (length pre + length (takeWhile (\<lambda>c. (c \<in> set ds) = want) s))"
  using assms(2)
proof (induction s arbitrary: pre)
  case Nil
  show ?case by (subst strtok_scan.simps) simp
next
  case (Cons c s)
  obtain r where r: "strchr dmem c = Done r" "r \<noteq> None \<longleftrightarrow> c \<in> set ds"
    using strchr_cstr [OF d, of c 0] Cons.prems by (auto simp: strchr_def)
  have IH: "strtok_scan want dmem (pre @ c # s @ 0 # rest) (Suc (length pre))
      = Done (Suc (length pre) + length (takeWhile (\<lambda>c. (c \<in> set ds) = want) s))"
    using Cons.IH [of "pre @ [c]"] Cons.prems by simp
  show ?case using r IH Cons.prems by (subst strtok_scan.simps) (auto simp: nth_append)
qed

text \<open>Splitting a whole string: the first call passes it, the others \<^verbatim>\<open>nullptr\<close>, until no token is
  left; each token is read from the memory after its call.\<close>

fun strtok_all :: "nat \<Rightarrow> bytes \<Rightarrow> nat option \<Rightarrow> nat option \<Rightarrow> bytes \<Rightarrow> bytes list run" where
  "strtok_all 0 buf next_token str delim = Fault"
| "strtok_all (Suc fuel) buf next_token str delim =
     bind_run (strtok buf next_token str delim) (\<lambda>(tok, buf, next_token).
       case tok of
         None \<Rightarrow> Done []
       | Some start \<Rightarrow>
           bind_run (strtok_all fuel buf next_token None delim) (\<lambda>toks.
             Done (takeWhile (\<lambda>c. c \<noteq> 0) (drop start buf) # toks)))"

lemma tokens_Nil [simp]: "tokens isd [] = []"
  by (subst tokens.simps) simp

lemma tokens_delim: "isd c \<Longrightarrow> tokens isd (c # s) = tokens isd s"
  by (subst (1 2) tokens.simps) simp

lemma strtok_all_none: "0 < fuel \<Longrightarrow> strtok_all fuel buf None None delim = Done []"
  by (cases fuel) (simp_all add: strtok_def)

lemma takeWhile_token: "0 \<notin> set t \<Longrightarrow> takeWhile (\<lambda>c. c \<noteq> 0) (t @ 0 # rest) = (t :: bytes)"
  by (induction t) auto

lemma strtok_all_spec:
  assumes d: "cstr dmem ds"
  defines "isd \<equiv> \<lambda>c. c \<in> set ds"
  shows "0 \<notin> set s \<Longrightarrow> length s < fuel \<Longrightarrow> (if str \<noteq> None then str else next_token) = Some (length pre) \<Longrightarrow>
    strtok_all fuel (pre @ s @ 0 # rest) next_token str dmem = Done (tokens isd s)"
proof (induction fuel arbitrary: pre s rest next_token str)
  case (Suc fuel)
  define a s' where "a = takeWhile isd s" and "s' = dropWhile isd s"
  have s: "s = a @ s'" by (simp add: a_def s'_def)
  define t u where "t = takeWhile (\<lambda>c. \<not> isd c) s'" and "u = dropWhile (\<lambda>c. \<not> isd c) s'"
  have s'_eq: "s' = t @ u" by (simp add: t_def u_def)
  have nz: "0 \<notin> set t" "0 \<notin> set u" using Suc.prems(1) by (auto simp: s s'_eq)
  have sc1: "strtok_scan True dmem (pre @ s @ 0 # rest) (length pre) = Done (length pre + length a)"
    using strtok_scan_spec [OF d Suc.prems(1), of True pre rest] by (simp add: a_def isd_def)
  show ?case
  proof (cases "s' = []")
    case True
    then have "tokens isd s = []" by (subst tokens.simps) (simp add: s'_def)
    moreover have "(pre @ s @ 0 # rest) ! (length pre + length a) = 0" using True by (simp add: s nth_append)
    ultimately show ?thesis using Suc.prems(3) sc1 by (simp add: strtok_def)
  next
    case False
    have tk: "tokens isd s = t # tokens isd u"
      using False by (subst tokens.simps) (simp add: s'_def [symmetric] t_def u_def Let_def)
    have tne: "t \<noteq> []" using False hd_dropWhile [of isd s] by (cases s') (auto simp: t_def s'_def)
    have st: "(pre @ s @ 0 # rest) ! (length pre + length a) \<noteq> 0"
      using tne nz(1) by (cases t) (auto simp: s s'_eq nth_append)
    have sc2: "strtok_scan False dmem (pre @ s @ 0 # rest) (length pre + length a) = Done (length pre + length a + length t)"
      using strtok_scan_spec [OF d, of s' False "pre @ a" rest] Suc.prems(1) by (simp add: s t_def isd_def)
    show ?thesis
    proof (cases u)
      case Nil
      have "(pre @ s @ 0 # rest) ! (length pre + length a + length t) = 0" by (simp add: s s'_eq Nil nth_append)
      moreover have "0 < fuel" using Suc.prems(2) tne by (cases t) (auto simp: s s'_eq)
      ultimately show ?thesis
        using Suc.prems(3) sc1 sc2 st takeWhile_token [OF nz(1), of rest]
        by (simp add: strtok_def strtok_all_none tk Nil) (simp add: s s'_eq Nil)
    next
      case (Cons c u')
      define stop where "stop = length pre + length a + length t"
      have c: "isd c" using Cons hd_dropWhile [of "\<lambda>c. \<not> isd c" s'] by (simp add: u_def)
      have buf: "(pre @ s @ 0 # rest) ! stop = c" "c \<noteq> 0"
        "(pre @ s @ 0 # rest)[stop := 0] = (pre @ a @ t @ [0]) @ u' @ 0 # rest"
        using nz(2) by (simp_all add: stop_def s s'_eq Cons nth_append list_update_append)
      have "strtok_all fuel ((pre @ a @ t @ [0]) @ u' @ 0 # rest) (Some (stop + 1)) None dmem = Done (tokens isd u')"
        using Suc.prems(2) nz(2) by (intro Suc.IH) (simp_all add: Cons s s'_eq stop_def)
      moreover have "strtok (pre @ s @ 0 # rest) next_token str dmem
          = Done (Some (length pre + length a), (pre @ a @ t @ [0]) @ u' @ 0 # rest, Some (stop + 1))"
        using Suc.prems(3) sc1 sc2 st buf by (simp add: strtok_def stop_def [symmetric])
      moreover have "takeWhile (\<lambda>c. c \<noteq> 0) (drop (length pre + length a) ((pre @ a @ t @ [0]) @ u' @ 0 # rest)) = t"
        using takeWhile_token [OF nz(1), of "u' @ 0 # rest"] by simp
      ultimately show ?thesis using tokens_delim [of isd c u'] c by (simp add: tk Cons)
    qed
  qed
qed simp

section \<open>Numbers\<close>

definition dec_value :: "bytes \<Rightarrow> nat" where
  "dec_value s = foldl (\<lambda>v c. v * 10 + (unat c - 48)) 0 s"

fun dec_rev :: "bytes \<Rightarrow> nat" where
  "dec_rev [] = 0"
| "dec_rev (c # cs) = (unat c - 48) + 10 * dec_rev cs"

lemma dec_value_rev: "dec_value (rev ds) = dec_rev ds"
  by (induction ds) (simp_all add: dec_value_def)

lemma unat_digit: "d < 10 \<Longrightarrow> unat (word_of_nat (48 + d) :: u8) = 48 + d"
  by (rule unat_word_of_nat_id) simp

lemma str_digits_spec:
  "n < 10 ^ room \<Longrightarrow> \<exists>ds. str_digits room n = Done ds \<and> dec_rev ds = n \<and> length ds \<le> room \<and>
    (\<forall>c\<in>set ds. 48 \<le> unat c \<and> unat c \<le> 57) \<and> (0 < n \<longrightarrow> ds \<noteq> [] \<and> unat (last ds) \<noteq> 48)"
proof (induction room n rule: str_digits.induct)
  case (1 room n)
  show ?case
  proof (cases "0 < n")
    case False
    then show ?thesis by (subst str_digits.simps) simp
  next
    case True
    then have room: "room \<noteq> 0" using "1.prems" by (cases room) auto
    have "n div 10 < 10 ^ (room - 1)" using "1.prems" room
      by (cases room) (auto simp: div_less_iff_less_mult mult.commute)
    from "1.IH" [OF True room this] obtain ds where ds: "str_digits (room - 1) (n div 10) = Done ds"
      "dec_rev ds = n div 10" "length ds \<le> room - 1" "\<forall>c\<in>set ds. 48 \<le> unat c \<and> unat c \<le> 57"
      "0 < n div 10 \<longrightarrow> ds \<noteq> [] \<and> unat (last ds) \<noteq> 48" by (elim exE conjE) (rule that)
    define c where "c = (word_of_nat (48 + n mod 10) :: u8)"
    have c: "unat c = 48 + n mod 10" unfolding c_def by (rule unat_digit) simp
    have "str_digits room n = Done (c # ds)"
      using True room ds(1) by (subst str_digits.simps) (simp add: c_def)
    moreover have "dec_rev (c # ds) = n" using c ds(2) by simp
    moreover have "unat (last (c # ds)) \<noteq> 48"
    proof (cases "ds = []")
      case True
      then have "n div 10 = 0" using ds(2) by simp
      then show ?thesis using True c \<open>0 < n\<close> by (auto simp: div_eq_0_iff)
    next
      case False
      then have "0 < n div 10 \<or> n div 10 = 0 \<and> ds \<noteq> []" by auto
      moreover have "ds = []" if "n div 10 = 0" using ds(1) that by (subst (asm) str_digits.simps) simp
      ultimately have "0 < n div 10" using False by blast
      then show ?thesis using False ds(5) by simp
    qed
    moreover have "\<forall>x\<in>set (c # ds). 48 \<le> unat x \<and> unat x \<le> 57" using c ds(4) by auto
    ultimately show ?thesis using ds(3) room by auto
  qed
qed

lemma fill_map: "length b = n \<Longrightarrow> k \<le> n \<Longrightarrow> fold (\<lambda>i b. b[i := f i]) [0..<k] b = map f [0..<k] @ drop k b"
proof (induction k)
  case (Suc k)
  then have "fold (\<lambda>i b. b[i := f i]) [0..<k] b = map f [0..<k] @ drop k b" by simp
  moreover have "(map f [0..<k] @ drop k b)[k := f k] = map f [0..<Suc k] @ drop (Suc k) b"
    using Suc.prems by (simp add: list_update_append Cons_nth_drop_Suc [symmetric])
  ultimately show ?case by simp
qed simp

lemma rev_by_index: "map (\<lambda>i. xs ! (length xs - 1 - i)) [0..<length xs] = rev xs"
  by (intro nth_equalityI) (simp_all add: rev_nth)

definition decimal :: "bytes \<Rightarrow> nat \<Rightarrow> bool" where
  "decimal s n \<longleftrightarrow> s \<noteq> [] \<and> (\<forall>c\<in>set s. 48 \<le> unat c \<and> unat c \<le> 57) \<and> dec_value s = n \<and> (unat (hd s) = 48 \<longrightarrow> s = [48])"

lemma str_unsigned_spec:
  assumes "n < 10 ^ room"
  shows "\<exists>s. str_unsigned room (Some g # os) n = Done (Some (s @ [0]), os) \<and> decimal s n \<and> length s \<le> max 1 room"
proof (cases "n = 0")
  case True
  then show ?thesis
    by (intro exI [of _ "[48]"]) (simp add: str_unsigned_def decimal_def dec_value_def upt_rec)
next
  case False
  obtain ds where ds: "str_digits room n = Done ds" "dec_rev ds = n" "length ds \<le> room"
    "\<forall>c\<in>set ds. 48 \<le> unat c \<and> unat c \<le> 57" "ds \<noteq> []" "unat (last ds) \<noteq> 48"
    using str_digits_spec [OF assms] False by auto
  define b where "b = map g [0..<length ds + 1]"
  have "fold (\<lambda>i b. b[i := ds ! (length ds - 1 - i)]) [0..<length ds] b = rev ds @ drop (length ds) b"
    by (subst fill_map [of _ "length ds + 1"]) (simp_all add: b_def rev_by_index [simplified])
  then have "str_unsigned room (Some g # os) n = Done (Some (rev ds @ [0]), os)"
    using False ds(1) by (simp add: str_unsigned_def b_def Let_def list_update_append)
  moreover have "decimal (rev ds) n"
    using ds by (simp add: decimal_def dec_value_rev hd_rev)
  ultimately show ?thesis using ds(3) by auto
qed

section \<open>UTF-8\<close>

text \<open>A reference decoder, by arithmetic on the lead byte's range.\<close>

fun utf8_decode :: "bytes \<Rightarrow> nat list option" where
  "utf8_decode [] = Some []"
| "utf8_decode (a # s) =
     (if unat a < 0x80 then map_option (Cons (unat a)) (utf8_decode s)
      else if 0xC0 \<le> unat a \<and> unat a < 0xE0 then
        (case s of b # s \<Rightarrow> map_option (Cons ((unat a - 0xC0) * 64 + (unat b - 0x80))) (utf8_decode s) | _ \<Rightarrow> None)
      else if 0xE0 \<le> unat a \<and> unat a < 0xF0 then
        (case s of b # c # s \<Rightarrow>
           map_option (Cons ((unat a - 0xE0) * 4096 + (unat b - 0x80) * 64 + (unat c - 0x80))) (utf8_decode s) | _ \<Rightarrow> None)
      else if 0xF0 \<le> unat a then
        (case s of b # c # d # s \<Rightarrow>
           map_option (Cons ((unat a - 0xF0) * 262144 + (unat b - 0x80) * 4096 + (unat c - 0x80) * 64 + (unat d - 0x80)))
             (utf8_decode s) | _ \<Rightarrow> None)
      else None)"

text \<open>The code points a UTF-16 text stands for; an unpaired surrogate stands for itself.\<close>

fun utf16_points :: "u16 list \<Rightarrow> nat list" where
  "utf16_points [] = []"
| "utf16_points [u] = [unat u]"
| "utf16_points (u # v # us) =
     (if 0xD800 \<le> unat u \<and> unat u < 0xDC00 \<and> 0xDC00 \<le> unat v \<and> unat v < 0xE000
      then (0x10000 + (unat u - 0xD800) * 1024 + (unat v - 0xDC00)) # utf16_points us
      else unat u # utf16_points (v # us))"

lemma unat_ucast8: "unat (w :: u32) < 256 \<Longrightarrow> unat (ucast w :: u8) = unat w"
  by (simp add: unsigned_ucast_eq take_bit_nat_eq_self)

lemma unat_low6:
  fixes c :: u32
  shows "unat (ucast (0x80 OR (c AND 0x3F)) :: u8) = 0x80 + unat c mod 64"
proof -
  have l: "unat (c AND 0x3F) = unat c mod 64"
    using unat_and_mask [of c 6] by (simp add: mask_eq_exp_minus_1)
  have "unat (0x80 OR (c AND 0x3F)) = unat (0x80 :: u32) + unat (c AND 0x3F)"
    by (rule unat_or_add [of 7]) (simp_all add: l order_less_trans [of _ 64])
  then show ?thesis using l by (subst unat_ucast8) simp_all
qed

lemma unat_lead:
  fixes x lead :: u32
  assumes "2 ^ k dvd unat lead" and "unat x < 2 ^ k" and "unat lead + 2 ^ k \<le> 256"
  shows "unat (ucast (lead OR x) :: u8) = unat lead + unat x"
proof -
  have "unat (lead OR x) = unat lead + unat x" by (rule unat_or_add [OF assms(1,2)])
  then show ?thesis using assms(2,3) by (subst unat_ucast8) simp_all
qed

lemma base64_digits:
  fixes n :: nat
  shows "n div 4096 * 4096 + n div 64 mod 64 * 64 + n mod 64 = n"
    and "n div 262144 * 262144 + n div 4096 mod 64 * 4096 + n div 64 mod 64 * 64 + n mod 64 = n"
proof -
  have "n div 64 div 64 = n div 4096" "n div 4096 div 64 = n div 262144" by (simp_all flip: div_mult2_eq)
  then have a: "n = n div 64 * 64 + n mod 64" "n div 64 = n div 4096 * 64 + n div 64 mod 64"
    "n div 4096 = n div 262144 * 64 + n div 4096 mod 64"
    using div_mult_mod_eq [of "n div 64" 64] div_mult_mod_eq [of "n div 4096" 64] by simp_all
  then show "n div 4096 * 4096 + n div 64 mod 64 * 64 + n mod 64 = n" by linarith
  with a show "n div 262144 * 262144 + n div 4096 mod 64 * 4096 + n div 64 mod 64 * 64 + n mod 64 = n" by linarith
qed

lemma utf8_decode_encode:
  assumes "unat c < 0x200000"
  shows "utf8_decode (utf8_encode c @ rest) = map_option (Cons (unat c)) (utf8_decode rest)"
proof -
  define n where "n = unat c"
  have d: "unat (drop_bit k c) = n div 2 ^ k" for k by (simp add: unat_drop_bit n_def)
  consider "n < 0x80" | "0x80 \<le> n" "n < 0x800" | "0x800 \<le> n" "n < 0x10000" | "0x10000 \<le> n" by linarith
  then show ?thesis
  proof cases
    case 1
    then have "unat (ucast c :: u8) = n" by (simp add: unat_ucast8 n_def)
    with 1 show ?thesis by (simp add: utf8_encode_def word_less_nat_alt n_def [symmetric])
  next
    case 2
    have "unat (ucast (0xC0 OR drop_bit 6 c) :: u8) = 0xC0 + n div 64"
      using unat_lead [of 5 "0xC0" "drop_bit 6 c"] 2 by (simp add: d div_less_iff_less_mult)
    moreover have "n div 64 < 32" using 2 by (simp add: div_less_iff_less_mult)
    ultimately show ?thesis
      using 2 unat_low6 [of c] by (simp add: utf8_encode_def word_less_nat_alt n_def [symmetric])
  next
    case 3
    have "unat (ucast (0xE0 OR drop_bit 12 c) :: u8) = 0xE0 + n div 4096"
      using unat_lead [of 4 "0xE0" "drop_bit 12 c"] 3 by (simp add: d div_less_iff_less_mult)
    moreover have "n div 4096 < 16" using 3 by (simp add: div_less_iff_less_mult)
    moreover note base64_digits(1) [of n]
    ultimately show ?thesis
      using 3 unat_low6 [of c] unat_low6 [of "drop_bit 6 c"] d [of 6]
      by (simp add: utf8_encode_def word_less_nat_alt n_def [symmetric])
  next
    case 4
    have n: "n < 0x200000" using assms by (simp add: n_def)
    have "unat (ucast (0xF0 OR drop_bit 18 c) :: u8) = 0xF0 + n div 262144"
      using unat_lead [of 3 "0xF0" "drop_bit 18 c"] n by (simp add: d div_less_iff_less_mult)
    moreover note base64_digits(2) [of n]
    ultimately show ?thesis
      using 4 unat_low6 [of c] unat_low6 [of "drop_bit 6 c"] unat_low6 [of "drop_bit 12 c"] d [of 6] d [of 12]
      by (simp add: utf8_encode_def word_less_nat_alt n_def [symmetric])
  qed
qed

lemma unat_surrogate:
  fixes u v :: u16
  assumes "0xD800 \<le> unat u" "unat u < 0xDC00" "0xDC00 \<le> unat v" "unat v < 0xE000"
  shows "unat (0x10000 + push_bit 10 (ucast u AND 0x3FF) + (ucast v AND 0x3FF) :: u32)
    = 0x10000 + (unat u - 0xD800) * 1024 + (unat v - 0xDC00)"
proof -
  have m: "unat ((ucast w :: u32) AND 0x3FF) = unat w mod 1024" for w :: u16
    using unat_and_mask [of "ucast w :: u32" 10]
    by (simp add: mask_eq_exp_minus_1 unsigned_ucast_eq take_bit_nat_eq_self order_less_trans [OF unsigned_less])
  have u: "unat u mod 1024 = unat u - 0xD800" "unat v mod 1024 = unat v - 0xDC00"
    using assms mod_eq_self_iff_div_eq_0 mod_nat_eqI [of "unat u - 0xD800" 1024 "unat u"] mod_nat_eqI [of "unat v - 0xDC00" 1024 "unat v"]
    by (auto simp: mod_nat_eqI)
  define lo hi where "lo = (ucast v :: u32) AND 0x3FF" and "hi = push_bit 10 ((ucast u :: u32) AND 0x3FF)"
  have hi: "unat hi = (unat u - 0xD800) * 1024"
    using unat_push_bit_small [of "(ucast u :: u32) AND 0x3FF" 10] assms by (simp add: m u hi_def)
  have lo: "unat lo = unat v - 0xDC00" by (simp add: lo_def m u)
  have "unat (0x10000 + hi) = 0x10000 + unat hi" using hi assms by (subst unat_plus_no_wrap) simp_all
  moreover have "unat (0x10000 + hi + lo) = unat (0x10000 + hi) + unat lo"
    using calculation hi lo assms by (intro unat_plus_no_wrap) simp
  ultimately show ?thesis using hi lo by (simp add: lo_def hi_def)
qed

declare unat_ucast_16_32 [simp]

lemma utf16_pair_iff:
  "(ucast u :: u32) \<ge> 0xD800 \<and> (ucast u :: u32) \<le> 0xDBFF \<and> (ucast v :: u32) \<ge> 0xDC00 \<and> (ucast v :: u32) \<le> 0xDFFF
    \<longleftrightarrow> 0xD800 \<le> unat u \<and> unat u < 0xDC00 \<and> 0xDC00 \<le> unat v \<and> unat v < 0xE000" for u v :: u16
  unfolding word_le_nat_alt unat_ucast_16_32 by auto

lemma utf8_decode_utf16: "utf8_decode (utf16_loop us) = Some (utf16_points us)"
proof (induction us rule: utf16_loop.induct)
  case (2 u)
  show ?case using utf8_decode_encode [of "ucast u" "[]"] u16_bound [of u] by simp
next
  case (3 u v us)
  show ?case
  proof (cases "0xD800 \<le> unat u \<and> unat u < 0xDC00 \<and> 0xDC00 \<le> unat v \<and> unat v < 0xE000")
    case True
    define c where "c = (0x10000 + push_bit 10 (ucast u AND 0x3FF) + (ucast v AND 0x3FF) :: u32)"
    have c: "unat c = 0x10000 + (unat u - 0xD800) * 1024 + (unat v - 0xDC00)"
      unfolding c_def using True by (intro unat_surrogate) simp_all
    have "utf16_loop (u # v # us) = utf8_encode c @ utf16_loop us"
      unfolding c_def using True utf16_pair_iff [of u v] by (simp only: utf16_loop.simps Let_def simp_thms if_True)
    moreover have "utf8_decode (utf16_loop us) = Some (utf16_points us)"
      using 3(1) [OF refl refl] True utf16_pair_iff [of u v] by blast
    moreover have "unat c < 0x200000" using c True by linarith
    ultimately show ?thesis
      using True c utf8_decode_encode [of c "utf16_loop us"] by (simp del: utf16_loop.simps)
  next
    case False
    have "utf16_loop (u # v # us) = utf8_encode (ucast u) @ utf16_loop (v # us)"
      using False utf16_pair_iff [of u v] by (simp only: utf16_loop.simps Let_def simp_thms if_False)
    moreover have "utf8_decode (utf16_loop (v # us)) = Some (utf16_points (v # us))"
      using 3(2) [OF refl refl] False utf16_pair_iff [of u v] by blast
    moreover have "utf16_points (u # v # us) = unat u # utf16_points (v # us)" using False by simp
    ultimately show ?thesis using utf8_decode_encode [of "ucast u"] u16_bound [of u] by (simp del: utf16_points.simps)
  qed
qed simp

lemma length_utf8_encode: "length (utf8_encode c) \<le> 4"
  by (simp add: utf8_encode_def)

lemma length_utf16_loop: "length (utf16_loop us) \<le> 4 * length us"
proof (induction us rule: utf16_loop.induct)
  case (2 u)
  show ?case using length_utf8_encode [of "ucast u"] by simp
next
  case (3 u v us)
  let ?P = "(ucast u :: u32) \<ge> 0xD800 \<and> (ucast u :: u32) \<le> 0xDBFF \<and> (ucast v :: u32) \<ge> 0xDC00 \<and> (ucast v :: u32) \<le> 0xDFFF"
  show ?case
  proof (cases ?P)
    case True
    have "length (utf16_loop us) \<le> 4 * length us" using 3(1) [OF refl refl] True by blast
    moreover have "length (utf16_loop (u # v # us)) \<le> 4 + length (utf16_loop us)"
      using True length_utf8_encode by (simp only: utf16_loop.simps Let_def length_append if_True simp_thms add_le_mono1)
    ultimately show ?thesis by simp
  next
    case False
    have "length (utf16_loop (v # us)) \<le> 4 * length (v # us)" using 3(2) [OF refl refl] False by blast
    moreover have "length (utf16_loop (u # v # us)) \<le> 4 + length (utf16_loop (v # us))"
      using False length_utf8_encode by (simp only: utf16_loop.simps Let_def length_append if_False add_le_mono1)
    ultimately show ?thesis by simp
  qed
qed simp

lemma utf16_len_spec: "0 \<notin> set us \<Longrightarrow> utf16_len (us @ 0 # rest) = Done (length us)"
  by (induction us) auto

section \<open>Properties\<close>

text \<open>C35: number printing. For every 64, 32 or 16-bit value whose result block can be allocated, the
  digit loop stays inside its local buffer, and the result is the terminated canonical decimal
  numeral: digits only, no leading zero, with the value printed.\<close>

theorem str_numbers_correct:
  "(\<exists>s. str_u64 (Some g # os) n64 = Done (Some (s @ [0]), os) \<and> decimal s (unat n64) \<and> length s \<le> 21) \<and>
   (\<exists>s. str_u32 (Some g # os) n32 = Done (Some (s @ [0]), os) \<and> decimal s (unat n32) \<and> length s \<le> 11) \<and>
   (\<exists>s. str_u16 (Some g # os) n16 = Done (Some (s @ [0]), os) \<and> decimal s (unat n16) \<and> length s \<le> 6)"
proof -
  have "unat n64 < 2 ^ LENGTH(64)" "unat n32 < 2 ^ LENGTH(32)" "unat n16 < 2 ^ LENGTH(16)"
    by (rule unsigned_less)+
  then have "unat n64 < 10 ^ 21" "unat n32 < 10 ^ 11" "unat n16 < 10 ^ 6" by simp_all
  then show ?thesis
    using str_unsigned_spec [of "unat n64" 21 g os] str_unsigned_spec [of "unat n32" 11 g os]
      str_unsigned_spec [of "unat n16" 6 g os]
    by (simp add: str_u64_def str_u32_def str_u16_def)
qed

text \<open>C34: tokens. Splitting a string by repeated calls of \<^verbatim>\<open>strtok\<close>, the first with the string and
  the others with \<^verbatim>\<open>nullptr\<close>, reads only inside the string and returns exactly its maximal runs of
  characters that are not delimiters, in order.\<close>

theorem strtok_all_correct:
  assumes "cstr mem s" and "cstr delim ds" and "length s < fuel"
  shows "strtok_all fuel mem next_token (Some 0) delim = Done (tokens (\<lambda>c. c \<in> set ds) s)"
proof -
  obtain rest where "0 \<notin> set s" "mem = [] @ s @ 0 # rest" using assms(1) by (auto elim: cstrE)
  then show ?thesis
    using strtok_all_spec [OF assms(2), of s fuel "Some 0" next_token "[]" rest] assms(3) by simp
qed

theorem strtok_all_correct_witness:
  "strtok_all 9 [47, 97, 47, 47, 98, 99, 47, 0] None (Some 0) [47, 0] = Done [[97], [98, 99]]"
proof -
  have "tokens (\<lambda>c. c \<in> set [47]) [47, 97, 47, 47, 98, 99, 47] = [[97], [98, 99]]"
    by (simp add: tokens.simps)
  then show ?thesis
    using strtok_all_correct [of "[47, 97, 47, 47, 98, 99, 47, 0]" "[47, 97, 47, 47, 98, 99, 47]" "[47, 0]" "[47]" 9 None]
    by simp
qed

text \<open>C33: text conversion. A terminated UTF-16 text always fits the block allocated for it, and the
  UTF-8 text produced decodes to exactly its code points, surrogate pairs combined.\<close>

theorem str_utf16_to_utf8_correct:
  assumes "0 \<notin> set us"
  shows "\<exists>out tail. str_utf16_to_utf8 (Some g # os) (us @ 0 # rest) = Done (Some (out @ 0 # tail), os) \<and>
    utf8_decode out = Some (utf16_points us)"
proof -
  define out where "out = utf16_loop us"
  define b where "b = map g [0..<length us * 4 + 1]"
  have le: "length out + 1 \<le> length b" using length_utf16_loop [of us] by (simp add: out_def b_def)
  have "str_utf16_to_utf8 (Some g # os) (us @ 0 # rest) = Done (Some (write_at 0 (out @ [0]) b), os)"
    using le utf16_len_spec [OF assms, of rest] by (simp add: str_utf16_to_utf8_def out_def b_def)
  also have "write_at 0 (out @ [0]) b = out @ 0 # drop (length out + 1) b" by (simp add: write_at_def)
  finally show ?thesis using utf8_decode_utf16 [of us] by (auto simp: out_def)
qed

theorem str_utf16_to_utf8_correct_witness:
  "\<exists>out tail. str_utf16_to_utf8 [Some (\<lambda>_. 0)] ([0x48, 0xD83D, 0xDE00] @ 0 # []) = Done (Some (out @ 0 # tail), []) \<and>
     utf8_decode out = Some [0x48, 0x1F600]"
  using str_utf16_to_utf8_correct [of "[0x48, 0xD83D, 0xDE00]" "\<lambda>_. 0" "[]" "[]"] by simp

end
