(* ===== verification/Format.thy ===== *)
theory Format
  imports C_Strings
begin

text \<open>
  Formatted output, \<^verbatim>\<open>src/kernel/utils/str/vsnprintf.c\<close>: a state machine over the format string that
  emits characters into a bounded buffer and counts all it would have emitted. The variable
  arguments are a list of 64-bit slots and strings; reading one that is missing or of the other
  kind is a \<open>Fault\<close>, as is reading the format past its end and overflowing a width.
\<close>

section \<open>The code\<close>

definition is_digit :: "u8 \<Rightarrow> bool" where
  "is_digit c \<longleftrightarrow> c \<ge> 48 \<and> c \<le> 57"

fun get_atoi_loop :: "int \<Rightarrow> bytes \<Rightarrow> (int \<times> bytes) run" where
  "get_atoi_loop n [] = Fault"
| "get_atoi_loop n (c # str) =
     (if is_digit c
      then let n = n * 10 + int (unat c) - 48 in if n < 2 ^ 31 then get_atoi_loop n str else Fault
      else Done (n, c # str))"

definition get_atoi :: "bytes \<Rightarrow> (int \<times> bytes) run" where
  "get_atoi str = get_atoi_loop 0 str"

text \<open>The buffer, the position and the bound.\<close>

definition bputc :: "nat \<Rightarrow> u8 \<Rightarrow> bytes \<times> nat \<Rightarrow> bytes \<times> nat" where
  "bputc max_pos c = (\<lambda>(buf, pos). (if pos < max_pos then buf[pos := c] else buf, pos + 1))"

abbreviation bputs :: "nat \<Rightarrow> bytes \<Rightarrow> bytes \<times> nat \<Rightarrow> bytes \<times> nat" where
  "bputs max_pos cs out \<equiv> fold (bputc max_pos) cs out"

definition F_ALTERNATE :: u32 where "F_ALTERNATE = 1"
definition F_ZEROPAD :: u32 where "F_ZEROPAD = 2"
definition F_LEFT :: u32 where "F_LEFT = 4"
definition F_SPACE :: u32 where "F_SPACE = 8"
definition F_PLUS :: u32 where "F_PLUS = 16"
definition F_SIGNED :: u32 where "F_SIGNED = 32"
definition F_SMALL :: u32 where "F_SMALL = 64"

definition flag :: "u32 \<Rightarrow> u32 \<Rightarrow> bool" where
  "flag flags f \<longleftrightarrow> flags AND f \<noteq> 0"

definition digit_char :: "bool \<Rightarrow> nat \<Rightarrow> u8" where
  "digit_char small d = (if d < 10 then word_of_nat (48 + d) else if small then word_of_nat (97 + d - 10) else word_of_nat (65 + d - 10))"

text \<open>The digits of \<open>n\<close>, least significant first (\<^verbatim>\<open>nbuf\<close>); \<^verbatim>\<open>fmt_int\<close> has checked the base.\<close>

function int_digits :: "bool \<Rightarrow> nat \<Rightarrow> nat \<Rightarrow> bytes" where
  "int_digits small base n =
     digit_char small (n mod base) # (if n div base > 0 \<and> base \<ge> 2 then int_digits small base (n div base) else [])"
  by pat_completeness auto
termination
  by (relation "measure (\<lambda>(small, base, n). n)") (auto intro!: div_less_dividend Nat.gr0I)

declare int_digits.simps [simp del]

text \<open>The second half of \<^verbatim>\<open>fmt_int\<close>, from the padding on: sign and prefix are in \<open>altb\<close>.\<close>

definition fmt_int_emit :: "nat \<Rightarrow> bytes \<Rightarrow> bytes \<Rightarrow> nat \<Rightarrow> u32 \<Rightarrow> bytes \<times> nat \<Rightarrow> bytes \<times> nat" where
  "fmt_int_emit max_pos altb nbuf padding flags out =
     (let (altb, out) =
            (if padding > 0 \<and> \<not> flag flags F_LEFT then
               let (altb, out) = (if flag flags F_ZEROPAD then ([], bputs max_pos altb out) else (altb, out))
               in (altb, bputs max_pos (replicate padding (if flag flags F_ZEROPAD then 48 else 32)) out)
             else (altb, out));
          out = bputs max_pos altb out;
          out = bputs max_pos (rev nbuf) out
      in if padding > 0 \<and> flag flags F_LEFT then bputs max_pos (replicate padding 32) out else out)"

definition int_alt :: "u32 \<Rightarrow> nat \<Rightarrow> bytes" where
  "int_alt flags base =
     (if flag flags F_ALTERNATE \<and> (base = 8 \<or> base = 16)
      then [48] @ (if base = 16 then [if flag flags F_SMALL then 120 else 88] else []) else [])"

definition fmt_int :: "nat \<Rightarrow> u64 \<Rightarrow> nat \<Rightarrow> int \<Rightarrow> u32 \<Rightarrow> bytes \<times> nat \<Rightarrow> bytes \<times> nat" where
  "fmt_int max_pos num base width flags out =
     (if base < 2 \<or> base > 16 then out
      else
        let flags = (if flag flags F_LEFT then flags AND NOT F_ZEROPAD else flags);
            neg = (flag flags F_SIGNED \<and> num <s 0);
            n = (if neg then - num else num);
            sign = (if neg then [45] else if flag flags F_PLUS then [43] else if flag flags F_SPACE then [32] else []);
            nbuf = int_digits (flag flags F_SMALL) base (unat n);
            altb = sign @ int_alt flags base;
            i = int (length nbuf); j = int (length altb);
            padding = (if width > i + j then nat (width - i - j) else 0)
        in fmt_int_emit max_pos altb nbuf padding flags out)"

definition fmt_chr :: "nat \<Rightarrow> u8 \<Rightarrow> int \<Rightarrow> u32 \<Rightarrow> bytes \<times> nat \<Rightarrow> bytes \<times> nat" where
  "fmt_chr max_pos c width flags out =
     (let npad = nat (if width > 0 then width - 1 else 0);
          out = (if npad \<noteq> 0 \<and> \<not> flag flags F_LEFT then bputs max_pos (replicate npad 32) out else out);
          out = bputc max_pos c out
      in if npad \<noteq> 0 \<and> flag flags F_LEFT then bputs max_pos (replicate npad 32) out else out)"

definition fmt_str :: "nat \<Rightarrow> bytes \<Rightarrow> int \<Rightarrow> u32 \<Rightarrow> bytes \<times> nat \<Rightarrow> bytes \<times> nat" where
  "fmt_str max_pos s width flags out =
     (let npad = nat (if width > 0 then width - int (length s) else 0);
          out = (if npad \<noteq> 0 \<and> \<not> flag flags F_LEFT then bputs max_pos (replicate npad 32) out else out);
          out = bputs max_pos s out
      in if npad \<noteq> 0 \<and> flag flags F_LEFT then bputs max_pos (replicate npad 32) out else out)"

datatype fmt_state = S_DEFAULT | S_FLAGS | S_WIDTH | S_PRECIS | S_LENGTH | S_CONV

definition L_CHAR :: u32 where "L_CHAR = 1"
definition L_SHORT :: u32 where "L_SHORT = 2"
definition L_LONG :: u32 where "L_LONG = 3"
definition L_LLONG :: u32 where "L_LLONG = 4"
definition L_DOUBLE :: u32 where "L_DOUBLE = 5"

text \<open>An argument: a 64-bit slot (an \<^verbatim>\<open>int\<close> argument defines only its low half), or the characters of a
  string, \<open>None\<close> for a null pointer.\<close>

datatype va_value = VaInt u64 | VaStr "bytes option"

fun va_int :: "va_value list \<Rightarrow> (u64 \<times> va_value list) run" where
  "va_int (VaInt v # ap) = Done (v, ap)"
| "va_int _ = Fault"

fun va_str :: "va_value list \<Rightarrow> (bytes option \<times> va_value list) run" where
  "va_str (VaStr s # ap) = Done (s, ap)"
| "va_str _ = Fault"

definition as_int :: "u64 \<Rightarrow> int" where
  "as_int v = sint (ucast v :: u32)"

record fmt_vars =
  fv_state :: fmt_state
  fv_flags :: u32
  fv_width :: int
  fv_lflags :: u32
  fv_ap :: "va_value list"

definition set_flag :: "u32 \<Rightarrow> fmt_vars \<Rightarrow> fmt_vars" where
  "set_flag f v = v\<lparr>fv_flags := fv_flags v OR f\<rparr>"

text \<open>The character classes of the conversion state.\<close>

definition is_int_conv :: "u8 \<Rightarrow> bool" where
  "is_int_conv c \<longleftrightarrow> c \<in> set [100, 105, 111, 98, 117, 120, 88]"

definition signed_conv :: "u8 \<Rightarrow> bool" where
  "signed_conv c \<longleftrightarrow> c = 100 \<or> c = 105"

definition conv_num :: "u8 \<Rightarrow> u32 \<Rightarrow> u64 \<Rightarrow> u64" where
  "conv_num c lflags v =
     (if lflags = L_LONG then v
      else if lflags AND (L_LLONG OR L_DOUBLE) \<noteq> 0 then v
      else if signed_conv c then scast (ucast v :: u32)
      else ucast (ucast v :: u32))"

definition conv_base :: "u8 \<Rightarrow> nat" where
  "conv_base c = (if c = 120 \<or> c = 88 then 16 else if c = 111 then 8 else if c = 98 then 2 else 10)"

definition conv_flags :: "u8 \<Rightarrow> u32" where
  "conv_flags c = (if signed_conv c then F_SIGNED else if c = 120 then F_SMALL else 0)"

text \<open>The conversion state: the last character handled (\<^verbatim>\<open>c\<close>, which \<open>%c\<close> overwrites), the arguments
  left and the output.\<close>

definition fmt_conv :: "nat \<Rightarrow> u8 \<Rightarrow> fmt_vars \<Rightarrow> bytes \<times> nat \<Rightarrow> ((u8 \<times> va_value list) \<times> (bytes \<times> nat)) run" where
  "fmt_conv max_pos c v out =
     (if is_int_conv c then
        bind_run (va_int (fv_ap v)) (\<lambda>(x, ap).
          Done ((c, ap), fmt_int max_pos (conv_num c (fv_lflags v) x) (conv_base c) (fv_width v) (fv_flags v OR conv_flags c) out))
      else if c = 112 then
        bind_run (va_int (fv_ap v)) (\<lambda>(x, ap).
          Done ((c, ap), fmt_int max_pos x 16 (fv_width v) (fv_flags v OR (F_SMALL OR F_ALTERNATE)) out))
      else if c = 115 then
        bind_run (va_str (fv_ap v)) (\<lambda>(s, ap).
          Done ((c, ap), fmt_str max_pos (case s of None \<Rightarrow> [40, 110, 117, 108, 108, 41] | Some s \<Rightarrow> s) (fv_width v) (fv_flags v) out))
      else if c = 99 then
        bind_run (va_int (fv_ap v)) (\<lambda>(x, ap).
          let c = ucast x in Done ((c, ap), fmt_chr max_pos c (fv_width v) (fv_flags v) out))
      else if c = 37 then Done ((c, fv_ap v), bputc max_pos c out)
      else Done ((c, fv_ap v), bputc max_pos c (bputc max_pos 37 out)))"

text \<open>One round of the loop on the format \<open>c # fmt\<close>: the character tested at the end, the remaining
  format, the variables and the output.\<close>

definition fmt_round ::
  "nat \<Rightarrow> u8 \<Rightarrow> bytes \<Rightarrow> fmt_vars \<Rightarrow> bytes \<times> nat \<Rightarrow> ((u8 \<times> bytes \<times> fmt_vars) \<times> (bytes \<times> nat)) run" where
  "fmt_round max_pos c fmt v out =
     (case fv_state v of
        S_DEFAULT \<Rightarrow>
          if c = 37 then Done ((c, fmt, v\<lparr>fv_state := S_FLAGS, fv_flags := 0\<rparr>), out)
          else Done ((c, fmt, v), bputc max_pos c out)
      | S_FLAGS \<Rightarrow>
          if c = 35 then Done ((c, fmt, set_flag F_ALTERNATE v), out)
          else if c = 48 then Done ((c, fmt, set_flag F_ZEROPAD v), out)
          else if c = 45 then Done ((c, fmt, set_flag F_LEFT v), out)
          else if c = 32 then Done ((c, fmt, set_flag F_SPACE v), out)
          else if c = 43 then Done ((c, fmt, set_flag F_PLUS v), out)
          else if c = 39 \<or> c = 73 then Done ((c, fmt, v), out)
          else Done ((c, c # fmt, v\<lparr>fv_width := 0, fv_state := S_WIDTH\<rparr>), out)
      | S_WIDTH \<Rightarrow>
          if c = 42 then
            bind_run (va_int (fv_ap v)) (\<lambda>(x, ap).
              let v = v\<lparr>fv_ap := ap\<rparr>; w = as_int x
              in if w = - (2 ^ 31) then Fault else Done ((c, fmt, if w < 0 then set_flag F_LEFT (v\<lparr>fv_width := - w\<rparr>) else v\<lparr>fv_width := w\<rparr>), out))
          else if is_digit c \<and> c > 48 then
            bind_run (get_atoi (c # fmt)) (\<lambda>(w, fmt). Done ((c, fmt, v\<lparr>fv_width := w\<rparr>), out))
          else Done ((c, c # fmt, v\<lparr>fv_state := S_PRECIS\<rparr>), out)
      | S_PRECIS \<Rightarrow>
          if c = 46 then
            (case fmt of
               [] \<Rightarrow> Fault
             | d # _ \<Rightarrow>
                 if is_digit d then
                   bind_run (get_atoi fmt) (\<lambda>(_, fmt). Done ((c, fmt, v\<lparr>fv_lflags := 0, fv_state := S_LENGTH\<rparr>), out))
                 else if d = 42 then
                   bind_run (va_int (fv_ap v)) (\<lambda>(x, ap). Done ((c, fmt, v\<lparr>fv_ap := ap, fv_lflags := 0, fv_state := S_LENGTH\<rparr>), out))
                 else Done ((c, fmt, v\<lparr>fv_lflags := 0, fv_state := S_LENGTH\<rparr>), out))
          else Done ((c, c # fmt, v\<lparr>fv_lflags := 0, fv_state := S_LENGTH\<rparr>), out)
      | S_LENGTH \<Rightarrow>
          if c = 104 then Done ((c, fmt, v\<lparr>fv_lflags := (if fv_lflags v = L_CHAR then L_SHORT else L_CHAR)\<rparr>), out)
          else if c = 108 then Done ((c, fmt, v\<lparr>fv_lflags := (if fv_lflags v = L_LONG then L_LLONG else L_LONG)\<rparr>), out)
          else if c = 76 then Done ((c, fmt, v\<lparr>fv_lflags := L_DOUBLE\<rparr>), out)
          else Done ((c, c # fmt, v\<lparr>fv_state := S_CONV\<rparr>), out)
      | S_CONV \<Rightarrow>
          bind_run (fmt_conv max_pos c v out) (\<lambda>((c, ap), out). Done ((c, fmt, v\<lparr>fv_ap := ap, fv_state := S_DEFAULT\<rparr>), out)))"

fun state_rank :: "fmt_state \<Rightarrow> nat" where
  "state_rank S_DEFAULT = 5"
| "state_rank S_FLAGS = 4"
| "state_rank S_WIDTH = 3"
| "state_rank S_PRECIS = 2"
| "state_rank S_LENGTH = 1"
| "state_rank S_CONV = 0"

lemma get_atoi_shorter: "get_atoi_loop n s = Done (m, s') \<Longrightarrow> length s' \<le> length s"
  by (induction n s rule: get_atoi_loop.induct) (auto simp: Let_def split: if_splits)

lemma get_atoi_consumes:
  "get_atoi (c # s) = Done (m, s') \<Longrightarrow> is_digit c \<Longrightarrow> length s' \<le> length s"
  by (auto simp: get_atoi_def Let_def dest: get_atoi_shorter split: if_splits)

lemma fmt_round_measure:
  assumes "fmt_round max_pos c fmt v out = Done ((c', fmt', v'), out')"
  shows "length fmt' < Suc (length fmt) \<or> length fmt' = Suc (length fmt) \<and> state_rank (fv_state v') < state_rank (fv_state v)"
proof (cases "fv_state v")
  case S_PRECIS
  then show ?thesis using assms get_atoi_consumes
    by (auto simp: fmt_round_def bind_run_Done Let_def split: if_splits list.splits; fastforce)
qed (use assms in \<open>auto simp: fmt_round_def bind_run_Done Let_def set_flag_def less_Suc_eq_le dest: get_atoi_consumes split: if_splits\<close>)

function vsnprintf_loop :: "nat \<Rightarrow> bytes \<Rightarrow> fmt_vars \<Rightarrow> bytes \<times> nat \<Rightarrow> (bytes \<times> nat) run" where
  "vsnprintf_loop max_pos fmt v out =
     (case fmt of
        [] \<Rightarrow> Fault
      | c # fmt \<Rightarrow>
          (case fmt_round max_pos c fmt v out of
             Fault \<Rightarrow> Fault
           | Done ((c, fmt, v), out) \<Rightarrow> if c = 0 then Done out else vsnprintf_loop max_pos fmt v out))"
  by pat_completeness auto
termination
proof (relation "measures [\<lambda>(m, fmt, v, out). length fmt, \<lambda>(m, fmt, v, out). state_rank (fv_state v)]")
qed (auto dest!: fmt_round_measure)

declare vsnprintf_loop.simps [simp del]

text \<open>\<^verbatim>\<open>vsnprintf\<close>: the value returned and the buffer; \<open>None\<close> is a null buffer, of which nothing is written.\<close>

definition vsnprintf :: "bytes option \<Rightarrow> nat \<Rightarrow> bytes \<Rightarrow> va_value list \<Rightarrow> (int \<times> bytes) run" where
  "vsnprintf buf sz fmt ap =
     (let sz = (case buf of None \<Rightarrow> 0 | Some _ \<Rightarrow> sz);
          mem = (case buf of None \<Rightarrow> [] | Some b \<Rightarrow> b);
          v = \<lparr>fv_state = S_DEFAULT, fv_flags = 0, fv_width = 0, fv_lflags = 0, fv_ap = ap\<rparr>
      in case vsnprintf_loop sz fmt v (mem, 0) of
           Fault \<Rightarrow> Fault
         | Done (mem, pos) \<Rightarrow>
             let n = word_of_nat pos - 1 :: u64;
                 mem = (if n < word_of_nat sz then mem[unat n := 0]
                        else if sz > 0 then mem[sz - 1 := 0] else mem)
             in Done (sint (ucast n :: u32), mem))"

section \<open>The emitted text\<close>

text \<open>Writing a text from a position on: what fits is stored, all of it is counted. The loop's text
  does not depend on the buffer.\<close>

definition emits :: "(nat \<Rightarrow> bytes \<times> nat \<Rightarrow> (bytes \<times> nat)) \<Rightarrow> bool" where
  "emits f \<longleftrightarrow> (\<exists>t. \<forall>m out. f m out = bputs m t out)"

lemma emitsI: "(\<And>m out. f m out = bputs m t out) \<Longrightarrow> emits f"
  by (auto simp: emits_def)

lemma emits_bputs: "emits (\<lambda>m. bputs m t)"
  by (rule emitsI [of _ t]) simp

lemma emits_bputc: "emits (\<lambda>m. bputc m c)"
  by (rule emitsI [of _ "[c]"]) simp

lemma emits_id: "emits (\<lambda>m out. out)"
  by (rule emitsI [of _ "[]"]) simp

text \<open>The text \<^verbatim>\<open>fmt_int\<close> emits.\<close>

definition int_text :: "u64 \<Rightarrow> nat \<Rightarrow> int \<Rightarrow> u32 \<Rightarrow> bytes" where
  "int_text num base width flags =
     (let neg = (flag flags F_SIGNED \<and> num <s 0);
          alt = (if neg then [45] else if flag flags F_PLUS then [43] else if flag flags F_SPACE then [32] else [])
                  @ int_alt flags base;
          ds = rev (int_digits (flag flags F_SMALL) base (unat (if neg then - num else num)));
          pad = nat (width - int (length ds) - int (length alt))
      in if flag flags F_LEFT then alt @ ds @ replicate pad 32
         else if flag flags F_ZEROPAD then alt @ replicate pad 48 @ ds
         else replicate pad 32 @ alt @ ds)"

lemma flag_clear_zeropad:
  "flag (flags AND NOT F_ZEROPAD) F_ALTERNATE = flag flags F_ALTERNATE"
  "flag (flags AND NOT F_ZEROPAD) F_LEFT = flag flags F_LEFT"
  "flag (flags AND NOT F_ZEROPAD) F_SPACE = flag flags F_SPACE"
  "flag (flags AND NOT F_ZEROPAD) F_PLUS = flag flags F_PLUS"
  "flag (flags AND NOT F_ZEROPAD) F_SIGNED = flag flags F_SIGNED"
  "flag (flags AND NOT F_ZEROPAD) F_SMALL = flag flags F_SMALL"
  "flag (flags AND NOT F_ZEROPAD) F_ZEROPAD = False"
  by (simp_all add: flag_def F_ALTERNATE_def F_LEFT_def F_SPACE_def F_PLUS_def F_SIGNED_def F_SMALL_def F_ZEROPAD_def and.assoc)

lemma fmt_int_emit_text:
  "fmt_int_emit m altb nbuf pad fl out = bputs m
    (if flag fl F_LEFT then altb @ rev nbuf @ replicate pad 32
     else if flag fl F_ZEROPAD then altb @ replicate pad 48 @ rev nbuf
     else replicate pad 32 @ altb @ rev nbuf) out"
  by (cases "pad = 0"; cases "flag fl F_LEFT"; cases "flag fl F_ZEROPAD") (simp_all add: fmt_int_emit_def)

lemma fmt_int_text:
  assumes "2 \<le> base" "base \<le> 16"
  shows "fmt_int m num base width flags out = bputs m (int_text num base width flags) out"
proof -
  define fl where "fl = (if flag flags F_LEFT then flags AND NOT F_ZEROPAD else flags)"
  have fl: "flag fl F_SIGNED = flag flags F_SIGNED" "flag fl F_PLUS = flag flags F_PLUS" "flag fl F_SPACE = flag flags F_SPACE"
    "flag fl F_ALTERNATE = flag flags F_ALTERNATE" "flag fl F_SMALL = flag flags F_SMALL" "flag fl F_LEFT = flag flags F_LEFT"
    "flag fl F_ZEROPAD = (flag flags F_ZEROPAD \<and> \<not> flag flags F_LEFT)"
    by (auto simp: fl_def flag_clear_zeropad)
  have alt: "int_alt fl base = int_alt flags base" by (simp add: int_alt_def fl)
  have nat_if: "(if width > i + j then nat (width - i - j) else 0) = nat (width - i - j)" for i j :: int by auto
  show ?thesis
    using assms
    by (simp add: fmt_int_def Let_def fl_def [symmetric] fmt_int_emit_text fl alt nat_if int_text_def)
qed

text \<open>A step whose control does not depend on the buffer and that emits a text.\<close>

definition uniform :: "(nat \<Rightarrow> bytes \<times> nat \<Rightarrow> ('x \<times> (bytes \<times> nat)) run) \<Rightarrow> bool" where
  "uniform f \<longleftrightarrow> (\<exists>res. \<forall>m out. f m out = (case res of Fault \<Rightarrow> Fault | Done (x, t) \<Rightarrow> Done (x, bputs m t out)))"

lemma uniform_Done: "emits g \<Longrightarrow> uniform (\<lambda>m out. Done (x, g m out))"
proof -
  assume "emits g"
  then obtain t where "\<And>m out. g m out = bputs m t out" by (auto simp: emits_def)
  then show ?thesis unfolding uniform_def by (intro exI [of _ "Done (x, t)"]) simp
qed

lemma uniform_Fault: "uniform (\<lambda>m out. Fault)"
  unfolding uniform_def by (intro exI [of _ Fault]) simp

lemma uniform_if: "uniform f \<Longrightarrow> uniform g \<Longrightarrow> uniform (\<lambda>m out. if b then f m out else g m out)"
  by (cases b) simp_all

lemma uniform_bind: "(\<And>x y. uniform (\<lambda>m out. G x y m out)) \<Longrightarrow> uniform (\<lambda>m out. bind_run r (\<lambda>(x, y). G x y m out))"
  by (cases r) (auto simp: uniform_Fault split: prod.splits)

lemma emits_int: "emits (\<lambda>m. fmt_int m num base width flags)"
proof (cases "2 \<le> base \<and> base \<le> 16")
  case True
  then show ?thesis by (intro emitsI [of _ "int_text num base width flags"]) (simp add: fmt_int_text)
next
  case False
  then show ?thesis by (intro emitsI [of _ "[]"]) (auto simp: fmt_int_def)
qed

definition padded :: "nat \<Rightarrow> u32 \<Rightarrow> bytes \<Rightarrow> bytes" where
  "padded npad flags s = (if flag flags F_LEFT then s @ replicate npad 32 else replicate npad 32 @ s)"

lemma emits_chr: "emits (\<lambda>m. fmt_chr m c width flags)"
  by (rule emitsI [of _ "padded (nat (width - 1)) flags [c]"]) (simp add: fmt_chr_def padded_def Let_def)

lemma emits_str: "emits (\<lambda>m. fmt_str m s width flags)"
  by (rule emitsI [of _ "padded (if width > 0 then nat (width - int (length s)) else 0) flags s"])
    (simp add: fmt_str_def padded_def Let_def)

lemma emits_two: "emits (\<lambda>m out. bputc m d (bputc m c out))"
  by (rule emitsI [of _ "[c, d]"]) simp

lemmas uniform_intros = uniform_Done uniform_Fault uniform_if uniform_bind emits_int emits_chr emits_str emits_two

lemma uniform_conv: "uniform (\<lambda>m. fmt_conv m c v)"
  unfolding fmt_conv_def Let_def by (intro uniform_intros emits_bputc)

lemma uniform_bind2:
  assumes "uniform f"
  shows "uniform (\<lambda>m out. bind_run (f m out) (\<lambda>((x, y), out). Done (g x y, out)))"
proof -
  obtain res where r: "\<And>m out. f m out = (case res of Fault \<Rightarrow> Fault | Done (x, t) \<Rightarrow> Done (x, bputs m t out))"
    using assms by (auto simp: uniform_def)
  show ?thesis
  proof (cases res)
    case Fault
    then show ?thesis by (simp add: r uniform_Fault)
  next
    case (Done a)
    then obtain x y t where "res = Done ((x, y), t)" by (cases a) auto
    then show ?thesis unfolding uniform_def by (intro exI [of _ "Done (g x y, t)"]) (simp add: r)
  qed
qed

lemma uniform_list: "(\<And>d ds. uniform (F d ds)) \<Longrightarrow> uniform (\<lambda>m out. case xs of [] \<Rightarrow> Fault | d # ds \<Rightarrow> F d ds m out)"
  by (cases xs) (simp_all add: uniform_Fault)

lemma uniform_round: "uniform (\<lambda>m. fmt_round m c fmt v)"
proof (cases "fv_state v")
  case S_CONV
  show ?thesis
    unfolding fmt_round_def S_CONV fmt_state.case by (rule uniform_bind2 [OF uniform_conv])
next
  case S_PRECIS
  show ?thesis
    unfolding fmt_round_def S_PRECIS fmt_state.case by (intro uniform_intros uniform_list emits_id)
qed (unfold fmt_round_def fmt_state.case Let_def; simp only: fmt_state.case; intro uniform_intros emits_id emits_bputc)+

lemma vsnprintf_loop_text:
  "\<exists>res. \<forall>m out. vsnprintf_loop m fmt v out = (case res of Fault \<Rightarrow> Fault | Done t \<Rightarrow> Done (bputs m t out))"
proof (induction "6 * length fmt + state_rank (fv_state v)" arbitrary: fmt v rule: less_induct)
  case less
  show ?case
  proof (cases fmt)
    case Nil
    then show ?thesis by (intro exI [of _ Fault]) (simp add: vsnprintf_loop.simps)
  next
    case (Cons c fs)
    obtain res where r: "\<And>m out. fmt_round m c fs v out = (case res of Fault \<Rightarrow> Fault | Done (x, t) \<Rightarrow> Done (x, bputs m t out))"
      using uniform_round [of c fs v] by (auto simp: uniform_def)
    show ?thesis
    proof (cases res)
      case Fault
      then show ?thesis using r Cons by (intro exI [of _ Fault]) (simp add: vsnprintf_loop.simps)
    next
      case (Done a)
      then obtain c' fs' v' t where res: "res = Done ((c', fs', v'), t)" by (cases a) auto
      show ?thesis
      proof (cases "c' = 0")
        case True
        then show ?thesis using r res Cons by (intro exI [of _ "Done t"]) (simp add: vsnprintf_loop.simps)
      next
        case False
        have "fmt_round 0 c fs v ([], 0) = Done ((c', fs', v'), bputs 0 t ([], 0))" using r res by simp
        from fmt_round_measure [OF this]
        have "6 * length fs' + state_rank (fv_state v') < 6 * length fmt + state_rank (fv_state v)"
          using Cons by (cases "fv_state v'") auto
        from less [OF this] obtain res' where
          r': "\<And>m out. vsnprintf_loop m fs' v' out = (case res' of Fault \<Rightarrow> Fault | Done t \<Rightarrow> Done (bputs m t out))" by blast
        have st: "vsnprintf_loop m fmt v out = vsnprintf_loop m fs' v' (bputs m t out)" for m out
          using False by (subst vsnprintf_loop.simps) (simp add: Cons r res)
        show ?thesis
          by (intro exI [of _ "case res' of Fault \<Rightarrow> Fault | Done t' \<Rightarrow> Done (t @ t')"] allI)
            (cases res'; simp add: st r')
      qed
    qed
  qed
qed

lemma bputc_step: "bputc m c (buf, pos) = (if pos < m then buf[pos := c] else buf, Suc pos)"
  by (simp add: bputc_def)

lemma bputs_spec:
  "m \<le> length buf \<Longrightarrow> bputs m t (buf, pos) = (if pos \<le> m then write_at pos (take (m - pos) t) buf else buf, pos + length t)"
proof (induction t arbitrary: buf pos)
  case Nil
  then show ?case by (auto simp: write_at_def)
next
  case (Cons c t)
  have IH: "bputs m t (b, Suc pos) = (if Suc pos \<le> m then write_at (Suc pos) (take (m - Suc pos) t) b else b, Suc pos + length t)"
    if "m \<le> length b" for b using Cons.IH [OF that, of "Suc pos"] .
  show ?case
  proof (cases "pos < m")
    case True
    then have lt: "pos < length buf" using Cons.prems by simp
    have "write_at (Suc pos) (take (m - Suc pos) t) (buf[pos := c]) = write_at pos (c # take (m - Suc pos) t) buf"
      using lt by (simp add: write_at_def take_Suc_conv_app_nth)
    then show ?thesis
      using True Cons.prems IH [of "buf[pos := c]"] by (simp add: bputc_step take_Cons' Suc_diff_Suc)
  next
    case False
    then show ?thesis using Cons.prems IH [of buf] by (auto simp: bputc_step write_at_def)
  qed
qed

definition start_vars :: "va_value list \<Rightarrow> fmt_vars" where
  "start_vars ap = \<lparr>fv_state = S_DEFAULT, fv_flags = 0, fv_width = 0, fv_lflags = 0, fv_ap = ap\<rparr>"

text \<open>The text of a format, when it has at most \<open>N\<close> characters (the terminator included).\<close>

definition format_text :: "nat \<Rightarrow> bytes \<Rightarrow> va_value list \<Rightarrow> bytes option" where
  "format_text N fmt ap =
     (case vsnprintf_loop N fmt (start_vars ap) (replicate N 0, 0) of
        Fault \<Rightarrow> None
      | Done (mem, pos) \<Rightarrow> if pos \<le> N then Some (take pos mem) else None)"

lemma format_text_loop:
  assumes "format_text N fmt ap = Some t"
  shows "vsnprintf_loop m fmt (start_vars ap) out = Done (bputs m t out)" and "length t \<le> N"
proof -
  obtain res where r: "\<And>m out. vsnprintf_loop m fmt (start_vars ap) out = (case res of Fault \<Rightarrow> Fault | Done t \<Rightarrow> Done (bputs m t out))"
    using vsnprintf_loop_text [of fmt "start_vars ap"] by blast
  then obtain u where u: "res = Done u" using assms by (cases res) (auto simp: format_text_def)
  have "length u \<le> N" "t = u"
    using assms bputs_spec [of N "replicate N 0" u 0] by (auto simp: format_text_def r u write_at_def split: if_splits)
  then show "vsnprintf_loop m fmt (start_vars ap) out = Done (bputs m t out)" "length t \<le> N" by (simp_all add: r u)
qed

lemma format_textI:
  assumes "vsnprintf_loop N fmt (start_vars ap) (replicate N 0, 0) = Done (bputs N t (replicate N 0, 0))" and "length t \<le> N"
  shows "format_text N fmt ap = Some t"
  using assms bputs_spec [of N "replicate N 0" t 0] by (simp add: format_text_def write_at_def)

lemma sint_small:
  assumes "n < 2 ^ 31"
  shows "sint (ucast (word_of_nat n :: u64) :: u32) = int n"
proof -
  have "unat (word_of_nat n :: u64) = n" using assms by (intro unat_word_of_nat_id) simp
  then have "unat (ucast (word_of_nat n :: u64) :: u32) = n"
    using assms by (simp add: unsigned_ucast_eq take_bit_nat_eq_self)
  then have "uint (ucast (word_of_nat n :: u64) :: u32) = int n" by (simp add: uint_nat)
  then show ?thesis using assms by (simp add: sint_uint signed_take_bit_int_eq_self)
qed

section \<open>Numerals\<close>

definition digit_val :: "u8 \<Rightarrow> nat" where
  "digit_val c = (if c \<ge> 97 then unat c - 87 else if c \<ge> 65 then unat c - 55 else unat c - 48)"

definition num_value :: "nat \<Rightarrow> bytes \<Rightarrow> nat" where
  "num_value base s = foldl (\<lambda>v c. v * base + digit_val c) 0 s"

lemma digit_val_char:
  assumes "d < 16"
  shows "digit_val (digit_char small d) = d"
proof -
  have u: "unat (word_of_nat k :: u8) = k" if "k < 256" for k using that by (simp add: unat_word_of_nat_id)
  show ?thesis
    using assms u [of "48 + d"] u [of "97 + d - 10"] u [of "65 + d - 10"]
    unfolding digit_val_def digit_char_def word_le_nat_alt by auto
qed

lemma int_digits_value:
  assumes "2 \<le> base" "base \<le> 16"
  shows "num_value base (rev (int_digits small base n)) = n"
proof (induction n rule: less_induct)
  case (less n)
  have d: "digit_val (digit_char small (n mod base)) = n mod base" by (rule digit_val_char) (use assms mod_less_divisor [of base n] in linarith)
  show ?case
  proof (cases "n div base > 0")
    case True
    then have "n div base < n" using assms by (intro div_less_dividend) (auto intro: Nat.gr0I)
    from less [OF this] show ?thesis
      using True assms d by (subst int_digits.simps) (simp add: num_value_def)
  next
    case False
    then have "n mod base = n" by (metis mod_eq_self_iff_div_eq_0 not_gr_zero)
    with False d show ?thesis by (subst int_digits.simps) (simp add: num_value_def)
  qed
qed

lemma int_digits_length: "2 \<le> base \<Longrightarrow> 0 < k \<Longrightarrow> n < base ^ k \<Longrightarrow> length (int_digits small base n) \<le> k"
proof (induction k arbitrary: n)
  case (Suc k)
  show ?case
  proof (cases "n div base > 0 \<and> base \<ge> 2")
    case True
    have "n div base < base ^ k" using Suc.prems by (simp add: div_less_iff_less_mult mult.commute)
    moreover have "0 < k" using True calculation by (cases k) auto
    ultimately show ?thesis using Suc.IH [of "n div base"] Suc.prems(1) True by (subst int_digits.simps) simp
  next
    case False
    then show ?thesis by (subst int_digits.simps) auto
  qed
qed simp

section \<open>Properties\<close>





end
