(* ===== verification/Memory_Ops.thy ===== *)
theory Memory_Ops
  imports Kernel_Prelude
begin

text \<open>
  The memory functions of \<^verbatim>\<open>src/kernel/hardware/memory/alloc.c\<close> over a byte-addressed memory: \<open>memcpy\<close>
  and \<open>memset\<close> with their overlapping word stores, \<open>memmove\<close> with its two directions, \<open>memcmp\<close>, and the
  string functions of that file. Words are stored with the least significant byte first. The two
  string instructions of the processor are their byte loops.
\<close>

section \<open>The code\<close>

type_synonym memory = "nat \<Rightarrow> u8"

definition MEMCPY_REP_THRESHOLD :: nat where "MEMCPY_REP_THRESHOLD = 512"
definition MEMSET_REP_THRESHOLD :: nat where "MEMSET_REP_THRESHOLD = 512"

text \<open>\<^verbatim>\<open>rep movsb\<close> and \<^verbatim>\<open>rep stosb\<close> with the direction flag clear, and \<^verbatim>\<open>rep movsb\<close> with it set, where \<open>d\<close>
  and \<open>s\<close> are one past the first byte moved.\<close>

fun rep_movsb :: "nat \<Rightarrow> nat \<Rightarrow> nat \<Rightarrow> memory \<Rightarrow> memory" where
  "rep_movsb d s 0 m = m"
| "rep_movsb d s (Suc n) m = rep_movsb (d + 1) (s + 1) n (m(d := m s))"

fun rep_stosb :: "nat \<Rightarrow> u8 \<Rightarrow> nat \<Rightarrow> memory \<Rightarrow> memory" where
  "rep_stosb d v 0 m = m"
| "rep_stosb d v (Suc n) m = rep_stosb (d + 1) v n (m(d := v))"

fun rep_movsb_down :: "nat \<Rightarrow> nat \<Rightarrow> nat \<Rightarrow> memory \<Rightarrow> memory" where
  "rep_movsb_down d s 0 m = m"
| "rep_movsb_down d s (Suc n) m = rep_movsb_down (d - 1) (s - 1) n (m(d - 1 := m (s - 1)))"

text \<open>Unaligned loads and stores of a word of \<open>k\<close> bytes.\<close>

fun bytes_word :: "bytes \<Rightarrow> 'a::len word" where
  "bytes_word [] = 0"
| "bytes_word (b # bs) = ucast b OR push_bit 8 (bytes_word bs)"

definition load_word :: "nat \<Rightarrow> memory \<Rightarrow> nat \<Rightarrow> 'a::len word" where
  "load_word k m a = bytes_word (map (\<lambda>i. m (a + i)) [0..<k])"

definition store_word :: "nat \<Rightarrow> nat \<Rightarrow> 'a::len word \<Rightarrow> memory \<Rightarrow> memory" where
  "store_word k a w m = (\<lambda>x. if a \<le> x \<and> x < a + k then ucast (drop_bit (8 * (x - a)) w) else m x)"

function memcpy_words :: "nat \<Rightarrow> nat \<Rightarrow> nat \<Rightarrow> memory \<Rightarrow> memory" where
  "memcpy_words d s last_d m =
     (if d < last_d then memcpy_words (d + 8) (s + 8) last_d (store_word 8 d (load_word 8 m s :: u64) m) else m)"
  by pat_completeness auto
termination by (relation "measure (\<lambda>(d, s, last_d, m). last_d - d)") auto

declare memcpy_words.simps [simp del]

definition memcpy :: "nat \<Rightarrow> nat \<Rightarrow> nat \<Rightarrow> memory \<Rightarrow> memory" where
  "memcpy d s n m =
     (if n > MEMCPY_REP_THRESHOLD then rep_movsb d s n m
      else if n > 16 then
        let tail = (load_word 8 m (s + n - 8) :: u64); last_d = d + n - 8
        in store_word 8 last_d tail (memcpy_words d s last_d m)
      else if n \<ge> 8 then
        let head = (load_word 8 m s :: u64); tail = (load_word 8 m (s + n - 8) :: u64)
        in store_word 8 (d + n - 8) tail (store_word 8 d head m)
      else if n \<ge> 4 then
        let head = (load_word 4 m s :: u32); tail = (load_word 4 m (s + n - 4) :: u32)
        in store_word 4 (d + n - 4) tail (store_word 4 d head m)
      else if n \<ge> 2 then
        let head = (load_word 2 m s :: u16); tail = (load_word 2 m (s + n - 2) :: u16)
        in store_word 2 (d + n - 2) tail (store_word 2 d head m)
      else if n \<noteq> 0 then m(d := m s)
      else m)"

fun memcmp_loop :: "memory \<Rightarrow> nat \<Rightarrow> nat \<Rightarrow> nat \<Rightarrow> int" where
  "memcmp_loop m a b 0 = 0"
| "memcmp_loop m a b (Suc n) =
     (if m a \<noteq> m b then if m a < m b then - 1 else 1 else memcmp_loop m (a + 1) (b + 1) n)"

definition memcmp :: "nat \<Rightarrow> nat \<Rightarrow> nat \<Rightarrow> memory \<Rightarrow> int" where
  "memcmp v1 v2 n m = memcmp_loop m v1 v2 n"

function memset_words :: "nat \<Rightarrow> nat \<Rightarrow> u64 \<Rightarrow> memory \<Rightarrow> memory" where
  "memset_words d last_d pattern m =
     (if d < last_d then memset_words (d + 8) last_d pattern (store_word 8 d pattern m) else m)"
  by pat_completeness auto
termination by (relation "measure (\<lambda>(d, last_d, p, m). last_d - d)") auto

declare memset_words.simps [simp del]

definition memset :: "nat \<Rightarrow> int \<Rightarrow> nat \<Rightarrow> memory \<Rightarrow> memory" where
  "memset d value n m =
     (let v = word_of_int value :: u8;
          pattern = ucast v * 0x0101010101010101 :: u64
      in if n > MEMSET_REP_THRESHOLD then rep_stosb d v n m
         else if n > 16 then
           let last_d = d + n - 8 in store_word 8 last_d pattern (memset_words d last_d pattern m)
         else if n \<ge> 8 then store_word 8 (d + n - 8) pattern (store_word 8 d pattern m)
         else if n \<ge> 4 then
           store_word 4 (d + n - 4) (ucast pattern :: u32) (store_word 4 d (ucast pattern :: u32) m)
         else if n \<ge> 2 then
           store_word 2 (d + n - 2) (ucast pattern :: u16) (store_word 2 d (ucast pattern :: u16) m)
         else if n \<noteq> 0 then m(d := ucast pattern)
         else m)"

definition memmove :: "nat \<Rightarrow> nat \<Rightarrow> nat \<Rightarrow> memory \<Rightarrow> memory" where
  "memmove d s n m =
     (if d \<le> s \<or> s + n \<le> d then rep_movsb d s n m
      else if n \<noteq> 0 then rep_movsb_down (d + n) (s + n) n m
      else m)"

text \<open>The string functions: \<open>strncpy\<close> always writes \<open>n\<close> bytes, \<open>strncmp\<close> always compares up to \<open>n\<close>.\<close>

fun strncpy_copy :: "nat \<Rightarrow> nat \<Rightarrow> nat \<Rightarrow> memory \<Rightarrow> nat \<times> nat \<times> memory" where
  "strncpy_copy d s 0 m = (d, 0, m)"
| "strncpy_copy d s (Suc n) m =
     (if m s \<noteq> 0 then strncpy_copy (d + 1) (s + 1) n (m(d := m s)) else (d, Suc n, m))"

definition alloc_strncpy :: "nat \<Rightarrow> nat \<Rightarrow> nat \<Rightarrow> memory \<Rightarrow> memory" where
  "alloc_strncpy d s n m = (let (d, n, m) = strncpy_copy d s n m in rep_stosb d 0 n m)"

fun alloc_strncmp :: "nat \<Rightarrow> nat \<Rightarrow> nat \<Rightarrow> memory \<Rightarrow> int" where
  "alloc_strncmp d s 0 m = 0"
| "alloc_strncmp d s (Suc n) m =
     (if m d \<noteq> m s then int (unat (m d)) - int (unat (m s)) else alloc_strncmp (d + 1) (s + 1) n m)"

section \<open>Bytewise effects\<close>

text \<open>What a copy and a fill do to the memory, byte by byte.\<close>

definition copied :: "nat \<Rightarrow> nat \<Rightarrow> nat \<Rightarrow> memory \<Rightarrow> memory" where
  "copied d s n m = (\<lambda>x. if d \<le> x \<and> x < d + n then m (s + (x - d)) else m x)"

definition filled :: "nat \<Rightarrow> u8 \<Rightarrow> nat \<Rightarrow> memory \<Rightarrow> memory" where
  "filled d v n m = (\<lambda>x. if d \<le> x \<and> x < d + n then v else m x)"

lemma copied_0 [simp]: "copied d s 0 m = m"
  and filled_0 [simp]: "filled d v 0 m = m"
  by (auto simp: copied_def filled_def fun_eq_iff)

definition apart :: "nat \<Rightarrow> nat \<Rightarrow> nat \<Rightarrow> bool" where
  "apart d s n \<longleftrightarrow> d + n \<le> s \<or> s + n \<le> d"

lemma bit_bytes_word:
  "bit (bytes_word bs :: 'a::len word) i \<longleftrightarrow> i < LENGTH('a) \<and> i < 8 * length bs \<and> bit (bs ! (i div 8)) (i mod 8)"
proof (induction bs arbitrary: i)
  case Nil
  then show ?case by simp
next
  case (Cons b bs)
  show ?case
  proof (cases "i < 8")
    case True
    then show ?thesis
      by (auto simp: bit_or_iff bit_push_bit_iff bit_ucast_iff)
  next
    case False
    then have "i div 8 = Suc ((i - 8) div 8)" "i mod 8 = (i - 8) mod 8"
      by (auto simp: le_div_geq le_mod_geq not_less)
    moreover have "\<not> bit b i" using False by (auto dest: bit_imp_le_length)
    ultimately show ?thesis using False Cons.IH [of "i - 8"]
      by (auto simp: bit_or_iff bit_push_bit_iff bit_ucast_iff)
  qed
qed

lemma byte_of_load:
  assumes "i < k" and "8 * k \<le> LENGTH('a::len)"
  shows "(ucast (drop_bit (8 * i) (load_word k m a :: 'a word)) :: u8) = m (a + i)"
proof (rule bit_word_eqI)
  fix j assume "j < LENGTH(8)"
  then have j: "j < 8" by simp
  then have "(8 * i + j) div 8 = i" "(8 * i + j) mod 8 = j" "8 * i + j < 8 * k" using assms(1) by auto
  then show "bit (ucast (drop_bit (8 * i) (load_word k m a :: 'a word)) :: u8) j = bit (m (a + i)) j"
    using j assms by (simp add: load_word_def bit_ucast_iff bit_drop_bit_eq bit_bytes_word)
qed

lemma store_load_other:
  assumes "8 * k \<le> LENGTH('a::len)"
  shows "store_word k d (load_word k m s :: 'a word) m' = (\<lambda>x. if d \<le> x \<and> x < d + k then m (s + (x - d)) else m' x)"
  unfolding store_word_def by (rule ext) (auto simp: byte_of_load [OF _ assms])

lemma store_load:
  assumes "8 * k \<le> LENGTH('a::len)"
  shows "store_word k d (load_word k m s :: 'a word) m = copied d s k m"
  by (simp add: store_load_other [OF assms] copied_def)

lemma rep_movsb_up:
  assumes "d \<le> s \<or> s + n \<le> d"
  shows "rep_movsb d s n m = copied d s n m"
  using assms
proof (induction n arbitrary: d s m)
  case 0
  then show ?case by simp
next
  case (Suc n)
  have "rep_movsb d s (Suc n) m = copied (d + 1) (s + 1) n (m(d := m s))"
    unfolding rep_movsb.simps by (rule Suc.IH) (use Suc.prems in linarith)
  also have "\<dots> = copied d s (Suc n) m"
  proof
    fix x
    have "Suc d \<le> x \<Longrightarrow> s + 1 + (x - (d + 1)) = s + (x - d)" by simp
    then show "copied (d + 1) (s + 1) n (m(d := m s)) x = copied d s (Suc n) m x"
      using Suc.prems by (cases "x = d"; cases "Suc d \<le> x") (auto simp only: copied_def, auto)
  qed
  finally show ?case .
qed

lemma rep_movsb_down:
  assumes "s \<le> d"
  shows "rep_movsb_down (d + n) (s + n) n m = copied d s n m"
proof (induction n arbitrary: m)
  case 0
  then show ?case by simp
next
  case (Suc n)
  have "rep_movsb_down (d + Suc n) (s + Suc n) (Suc n) m = copied d s n (m(d + n := m (s + n)))"
    unfolding rep_movsb_down.simps using Suc [of "m(d + n := m (s + n))"] by (simp del: fun_upd_apply)
  also have "\<dots> = copied d s (Suc n) m"
    using assms by (auto simp: copied_def fun_eq_iff less_Suc_eq)
  finally show ?case .
qed

lemma rep_stosb_filled: "rep_stosb d v n m = filled d v n m"
  by (induction n arbitrary: d m) (auto simp: filled_def fun_eq_iff)

lemma memcpy_words_bytes:
  assumes "apart d s (last_d + 8 - d)" and "d \<le> last_d"
  shows "\<exists>k. memcpy_words d s last_d m = copied d s k m \<and> last_d - d \<le> k \<and> k \<le> last_d + 8 - d"
  using assms
proof (induction d s last_d m rule: memcpy_words.induct)
  case (1 d s last_d m)
  show ?case
  proof (cases "d < last_d")
    case False
    then show ?thesis using 1(3) by (intro exI [of _ 0]) (auto simp: memcpy_words.simps)
  next
    case True
    let ?m = "store_word 8 d (load_word 8 m s :: u64) m"
    have m: "?m = copied d s 8 m" by (rule store_load) simp
    have step: "memcpy_words d s last_d m = memcpy_words (d + 8) (s + 8) last_d ?m" using True by (simp add: memcpy_words.simps)
    show ?thesis
    proof (cases "d + 8 \<le> last_d")
      case le: True
      have "apart (d + 8) (s + 8) (last_d + 8 - (d + 8))" using 1(2) le unfolding apart_def by linarith
      then obtain k where k: "memcpy_words (d + 8) (s + 8) last_d ?m = copied (d + 8) (s + 8) k ?m"
          "last_d - (d + 8) \<le> k" "k \<le> last_d + 8 - (d + 8)"
        using 1(1) [OF True _ le] by blast
      have "copied (d + 8) (s + 8) k ?m = copied d s (8 + k) m"
        using 1(2) k(3) le True unfolding m by (auto simp: copied_def fun_eq_iff apart_def)
      then show ?thesis using step k le by (intro exI [of _ "8 + k"]) auto
    next
      case False
      then have "memcpy_words (d + 8) (s + 8) last_d ?m = ?m" by (simp add: memcpy_words.simps)
      then show ?thesis using step m True False by (intro exI [of _ 8]) auto
    qed
  qed
qed

text \<open>Two overlapping word copies cover the range.\<close>

lemma copied_ends:
  assumes "k \<le> n" and "n \<le> 2 * k"
  shows "(\<lambda>x. if d + n - k \<le> x \<and> x < d + n - k + k then m (s + n - k + (x - (d + n - k))) else copied d s k m x) = copied d s n m"
  using assms by (auto simp: copied_def fun_eq_iff)

lemma memcpy_ends:
  assumes "8 * k \<le> LENGTH('b::len)" and "k \<le> n" and "n \<le> 2 * k"
  shows "store_word k (d + n - k) (load_word k m (s + n - k) :: 'b word) (store_word k d (load_word k m s :: 'b word) m) = copied d s n m"
  unfolding store_load_other [OF assms(1), of "d + n - k"] store_load [OF assms(1)] by (rule copied_ends [OF assms(2,3)])

lemma memcpy_copied:
  assumes "apart d s n"
  shows "memcpy d s n m = copied d s n m"
proof -
  have e8: "8 \<le> n \<Longrightarrow> n \<le> 16 \<Longrightarrow> store_word 8 (d + n - 8) (load_word 8 m (s + n - 8) :: u64) (store_word 8 d (load_word 8 m s :: u64) m) = copied d s n m"
    by (rule memcpy_ends) simp_all
  have e4: "4 \<le> n \<Longrightarrow> n \<le> 8 \<Longrightarrow> store_word 4 (d + n - 4) (load_word 4 m (s + n - 4) :: u32) (store_word 4 d (load_word 4 m s :: u32) m) = copied d s n m"
    by (rule memcpy_ends) simp_all
  have e2: "2 \<le> n \<Longrightarrow> n \<le> 4 \<Longrightarrow> store_word 2 (d + n - 2) (load_word 2 m (s + n - 2) :: u16) (store_word 2 d (load_word 2 m s :: u16) m) = copied d s n m"
    by (rule memcpy_ends) simp_all
  have e1: "n = 1 \<Longrightarrow> m(d := m s) = copied d s n m" by (auto simp: copied_def fun_eq_iff)
  have long: "store_word 8 (d + n - 8) (load_word 8 m (s + n - 8) :: u64) (memcpy_words d s (d + n - 8) m) = copied d s n m"
    if n: "16 < n"
  proof -
    obtain k where k: "memcpy_words d s (d + n - 8) m = copied d s k m" "n - 8 \<le> k" "k \<le> n"
    proof -
      have "d + n - 8 + 8 - d = n" "d \<le> d + n - 8" "d + n - 8 - d = n - 8" using n by linarith+
      then show ?thesis using memcpy_words_bytes [of d s "d + n - 8" m] assms that by metis
    qed
    show ?thesis
      unfolding k(1) using k n by (subst store_load_other) (auto simp: copied_def fun_eq_iff)
  qed
  show ?thesis
    using assms e8 e4 e2 e1 long rep_movsb_up [of d s n m]
    unfolding memcpy_def Let_def apart_def by (auto simp: copied_def)
qed

lemma memmove_copied: "memmove d s n m = copied d s n m"
proof (cases "d \<le> s \<or> s + n \<le> d")
  case True
  then show ?thesis using rep_movsb_up by (simp add: memmove_def)
next
  case False
  then show ?thesis using rep_movsb_down [of s d n m] by (auto simp: memmove_def copied_def)
qed

text \<open>Every byte of the pattern is the fill byte.\<close>

lemma pattern_digit:
  assumes "v < 256" "B * 255 + 1 = P" "C = A * (256 * P) + P + B"
  shows "v * C div P mod 256 = (v :: nat)"
proof -
  have "v * B \<le> 255 * B" using assms(1) by (intro mult_le_mono1) simp
  then have "v * B < P" using assms(2) by linarith
  moreover have "v * C = v * B + (v * A * 256 + v) * P" using assms(3) by (simp add: algebra_simps)
  moreover have "0 < P" using assms(2) by simp
  ultimately have "v * C div P = v * A * 256 + v" by (metis add.commute div_less div_mult_self1 add_0_right less_numeral_extra(3))
  then show ?thesis using assms(1) by simp
qed

lemma byte_cases: "i < 8 \<Longrightarrow> i = 0 \<or> i = 1 \<or> i = 2 \<or> i = 3 \<or> i = 4 \<or> i = 5 \<or> i = 6 \<or> i = (7 :: nat)"
  by auto

lemma pattern_byte_nat:
  assumes "v < 256" and "i < 8"
  shows "v * 0x0101010101010101 div 2 ^ (8 * i) mod 256 = (v :: nat)"
  using byte_cases [OF assms(2)]
  by (intro pattern_digit [OF assms(1), of "(2 ^ (8 * i) - 1) div 255" _ _ "0x0101010101010101 div (256 * 2 ^ (8 * i))"]; elim disjE; simp)

lemma pattern_byte:
  assumes "i < 8"
  shows "(ucast (drop_bit (8 * i) (ucast v * 0x0101010101010101 :: u64)) :: u8) = v"
proof -
  have v: "unat v < 256" using unsigned_less [of v] by simp
  have p: "unat (ucast v * 0x0101010101010101 :: u64) = unat v * 0x0101010101010101"
    using v by (simp add: unat_mult_lem [THEN iffD1] unsigned_ucast_eq take_bit_nat_eq_self)
  have "unat (ucast (drop_bit (8 * i) (ucast v * 0x0101010101010101 :: u64)) :: u8) = unat v"
    unfolding unsigned_ucast_eq unat_drop_bit p
    using pattern_byte_nat [OF v assms] by (simp add: take_bit_eq_mod)
  then show ?thesis by (simp add: word_unat_eq_iff)
qed

lemma store_pattern: "k \<le> 8 \<Longrightarrow> store_word k d (ucast v * 0x0101010101010101 :: u64) m = filled d v k m"
  by (auto simp: store_word_def filled_def fun_eq_iff pattern_byte)

lemma store_truncated:
  assumes "8 * k \<le> LENGTH('a::len)"
  shows "store_word k d (ucast (w :: u64) :: 'a word) m = store_word k d w m"
proof -
  have "(ucast (drop_bit (8 * i) (ucast w :: 'a word)) :: u8) = ucast (drop_bit (8 * i) w)" if "i < k" for i
    using that assms by (intro bit_word_eqI) (auto simp: bit_ucast_iff bit_drop_bit_eq)
  then show ?thesis by (auto simp: store_word_def fun_eq_iff)
qed

lemma memset_words_bytes:
  assumes "d \<le> last_d"
  shows "\<exists>k. memset_words d last_d (ucast v * 0x0101010101010101) m = filled d v k m \<and> last_d - d \<le> k \<and> k \<le> last_d + 8 - d"
  using assms
proof (induction d last_d "ucast v * 0x0101010101010101 :: u64" m rule: memset_words.induct)
  case (1 d last_d m)
  show ?case
  proof (cases "d < last_d")
    case False
    then show ?thesis using 1(2) by (intro exI [of _ 0]) (auto simp: memset_words.simps)
  next
    case True
    let ?p = "ucast v * 0x0101010101010101 :: u64"
    have step: "memset_words d last_d ?p m = memset_words (d + 8) last_d ?p (filled d v 8 m)"
      using True by (subst memset_words.simps) (simp add: store_pattern)
    show ?thesis
    proof (cases "d + 8 \<le> last_d")
      case le: True
      then obtain k where k: "memset_words (d + 8) last_d ?p (filled d v 8 m) = filled (d + 8) v k (filled d v 8 m)"
          "last_d - (d + 8) \<le> k" "k \<le> last_d + 8 - (d + 8)"
        using 1(1) [OF True le] by (auto simp: store_pattern)
      have "filled (d + 8) v k (filled d v 8 m) = filled d v (8 + k) m" by (auto simp: filled_def fun_eq_iff)
      then show ?thesis using step k le by (intro exI [of _ "8 + k"]) auto
    next
      case False
      then have "memset_words (d + 8) last_d ?p (filled d v 8 m) = filled d v 8 m" by (simp add: memset_words.simps)
      then show ?thesis using step True False by (intro exI [of _ 8]) auto
    qed
  qed
qed

lemma filled_ends:
  assumes "k \<le> n" and "n \<le> k + j" and "j \<le> n"
  shows "filled (d + n - k) v k (filled d v j m) = filled d v n m"
  using assms by (auto simp: filled_def fun_eq_iff)

lemma memset_filled: "memset d value n m = filled d (word_of_int value) n m"
proof -
  define v where "v = (word_of_int value :: u8)"
  let ?p = "ucast v * 0x0101010101010101 :: u64"
  have long: "store_word 8 (d + n - 8) ?p (memset_words d (d + n - 8) ?p m) = filled d v n m" if n: "16 < n"
  proof -
    have "d + n - 8 + 8 - d = n" "d \<le> d + n - 8" "d + n - 8 - d = n - 8" using n by linarith+
    then obtain k where "memset_words d (d + n - 8) ?p m = filled d v k m" "n - 8 \<le> k" "k \<le> n"
      using memset_words_bytes [of d "d + n - 8" v m] by metis
    then show ?thesis using n by (simp add: store_pattern filled_ends)
  qed
  have ends: "k \<le> 8 \<Longrightarrow> k \<le> n \<Longrightarrow> n \<le> 2 * k \<Longrightarrow> store_word k (d + n - k) ?p (store_word k d ?p m) = filled d v n m" for k
    by (simp add: store_pattern filled_ends)
  have "ucast ?p = v" using pattern_byte [of 0 v] by simp
  then have one: "n = 1 \<Longrightarrow> m(d := ucast ?p) = filled d v n m" by (auto simp: filled_def fun_eq_iff)
  consider "n > 512" | "n \<le> 512" "n > 16" | "n \<le> 16" "n \<ge> 8" | "n < 8" "n \<ge> 4" | "n < 4" "n \<ge> 2" | "n = 1" | "n = 0" by linarith
  then show ?thesis
    unfolding memset_def Let_def v_def [symmetric] MEMSET_REP_THRESHOLD_def
    by cases (simp_all add: rep_stosb_filled long ends store_truncated one)
qed

lemma memcmp_loop_spec:
  "(memcmp_loop m a b n = 0 \<longleftrightarrow> (\<forall>i<n. m (a + i) = m (b + i))) \<and>
   (memcmp_loop m a b n < 0 \<longleftrightarrow> (\<exists>i<n. m (a + i) < m (b + i) \<and> (\<forall>j<i. m (a + j) = m (b + j))))"
proof (induction n arbitrary: a b)
  case 0
  then show ?case by simp
next
  case (Suc n)
  have all: "(\<forall>i<Suc n. P i) \<longleftrightarrow> P 0 \<and> (\<forall>i<n. P (Suc i))" for P by (rule All_less_Suc2)
  have ex: "(\<exists>i<Suc n. P i) \<longleftrightarrow> P 0 \<or> (\<exists>i<n. P (Suc i))" for P by (rule Ex_less_Suc2)
  have al: "(\<forall>j<Suc i. P j) \<longleftrightarrow> P 0 \<and> (\<forall>j<i. P (Suc j))" for P i by (rule All_less_Suc2)
  show ?case using Suc [of "a + 1" "b + 1"] by (auto simp: all ex al)
qed

lemma strncpy_copy_spec:
  assumes "apart d s n"
  shows "\<exists>k\<le>n. strncpy_copy d s n m = (d + k, n - k, copied d s k m) \<and> (\<forall>i<k. m (s + i) \<noteq> 0) \<and> (k < n \<longrightarrow> m (s + k) = 0)"
  using assms
proof (induction n arbitrary: d s m)
  case 0
  then show ?case by simp
next
  case (Suc n)
  show ?case
  proof (cases "m s = 0")
    case True
    then show ?thesis by (intro exI [of _ 0]) simp
  next
    case False
    have ap: "apart (d + 1) (s + 1) n" using Suc.prems by (auto simp: apart_def)
    obtain k where k: "k \<le> n" "strncpy_copy (d + 1) (s + 1) n (m(d := m s)) = (d + 1 + k, n - k, copied (d + 1) (s + 1) k (m(d := m s)))"
      "\<forall>i<k. (m(d := m s)) (s + 1 + i) \<noteq> 0" "k < n \<longrightarrow> (m(d := m s)) (s + 1 + k) = 0"
      using Suc.IH [OF ap] by blast
    have c: "copied (d + 1) (s + 1) k (m(d := m s)) = copied d s (Suc k) m"
      using rep_movsb_up [of d s "Suc k" m] rep_movsb_up [of "d + 1" "s + 1" k "m(d := m s)"] Suc.prems k(1)
      by (auto simp: apart_def)
    have same: "(m(d := m s)) (s + 1 + i) = m (s + Suc i)" if "i < n" for i using Suc.prems that by (auto simp: apart_def)
    show ?thesis
      using False k c same Suc.prems
      by (intro exI [of _ "Suc k"]) (auto simp: All_less_Suc2)
  qed
qed

text \<open>\<open>strncpy\<close>: the string up to its terminator or \<open>n\<close> bytes, padded with zeros to \<open>n\<close> bytes.\<close>

lemma alloc_strncpy_spec:
  assumes "apart d s n"
  obtains k where "k \<le> n" "alloc_strncpy d s n m = filled (d + k) 0 (n - k) (copied d s k m)"
    "\<forall>i<k. m (s + i) \<noteq> 0" "k < n \<longrightarrow> m (s + k) = 0"
  using strncpy_copy_spec [OF assms, of m] by (auto simp: alloc_strncpy_def rep_stosb_filled)

section \<open>Properties\<close>



end
