(* ===== verification/Kernel_Heap.thy ===== *)
theory Kernel_Heap
  imports Page_Frames Memory_Ops "HOL-Library.Multiset"
begin

text \<open>
  The kernel heap of \<^verbatim>\<open>src/kernel/hardware/memory/alloc.c\<close>, on top of the page allocator: a sorted,
  coalescing list of free blocks, bins of small objects with a cache per processor, and large blocks
  that are runs of pages. A chain of headers is the list of their addresses; the headers themselves,
  with the size and what the \<^verbatim>\<open>next\<close> field says of the block, and the bytes of the blocks are memories.
  Every operation runs under \<^verbatim>\<open>heap_lock\<close> or with interrupts off on its own processor's cache, so each is
  one step. \<open>pcache_reclaim\<close> is the argument \<open>reclaim\<close> the page allocator has already.
\<close>

section \<open>The code\<close>

definition HEAP_INITIAL_SIZE :: nat where "HEAP_INITIAL_SIZE = 32 * 1024 * 1024"
definition HEAP_GROW_SIZE :: nat where "HEAP_GROW_SIZE = 4 * 1024 * 1024"
definition LARGE_ALLOC_THRESHOLD :: nat where "LARGE_ALLOC_THRESHOLD = 32 * 1024"
definition BIN_STEP :: nat where "BIN_STEP = 16"
definition BIN_COUNT :: nat where "BIN_COUNT = 64"
definition BIN_MAX :: nat where "BIN_MAX = BIN_STEP * BIN_COUNT"
definition CACHE_MAX :: nat where "CACHE_MAX = 32"
definition CACHE_BATCH :: nat where "CACHE_BATCH = 16"
definition BIN_SLAB_PAGES :: nat where "BIN_SLAB_PAGES = 16"
definition MAX_CPUS :: nat where "MAX_CPUS = 16"
definition HEADER :: nat where "HEADER = 16"

text \<open>The \<^verbatim>\<open>next\<close> field of a header: a link of a chain (or null), or one of the two marks of a block
  that is handed out.\<close>

datatype block_next = Linked | BLOCK_USED | BLOCK_LARGE

record memory_block =
  mb_size :: nat
  mb_next :: block_next

record cpu_bin =
  cb_head :: "nat list"
  cb_count :: nat

record heap =
  hp_mem :: "nat \<Rightarrow> memory_block"
  first_free_block :: "nat list"
  bins :: "nat list list"
  caches :: "cpu_bin list list"
  hp_pmm :: pmm
  hp_bytes :: memory

type_synonym reclaim = "nat \<Rightarrow> pmm \<Rightarrow> nat \<times> pmm"

definition set_next :: "nat \<Rightarrow> block_next \<Rightarrow> heap \<Rightarrow> heap" where
  "set_next a n h = h\<lparr>hp_mem := (hp_mem h)(a := hp_mem h a\<lparr>mb_next := n\<rparr>)\<rparr>"

definition set_size :: "nat \<Rightarrow> nat \<Rightarrow> heap \<Rightarrow> heap" where
  "set_size a n h = h\<lparr>hp_mem := (hp_mem h)(a := hp_mem h a\<lparr>mb_size := n\<rparr>)\<rparr>"

abbreviation blk_size :: "heap \<Rightarrow> nat \<Rightarrow> nat" where
  "blk_size h a \<equiv> mb_size (hp_mem h a)"

definition insert_free_locked :: "nat \<Rightarrow> heap \<Rightarrow> heap" where
  "insert_free_locked block h =
     (let before = takeWhile (\<lambda>next. next < block) (first_free_block h);
          rest = dropWhile (\<lambda>next. next < block) (first_free_block h);
          h = set_next block Linked h;
          (rest, h) = (case rest of
             [] \<Rightarrow> (rest, h)
           | next # others \<Rightarrow>
               if block + HEADER + blk_size h block = next
               then (others, set_size block (blk_size h block + (HEADER + blk_size h next)) h)
               else (rest, h))
      in if before = [] then h\<lparr>first_free_block := block # rest\<rparr>
         else let previous = last before
              in if previous + HEADER + blk_size h previous = block
                 then (set_size previous (blk_size h previous + (HEADER + blk_size h block)) h)
                        \<lparr>first_free_block := before @ rest\<rparr>
                 else h\<lparr>first_free_block := before @ block # rest\<rparr>)"

definition kernel_pages :: "reclaim \<Rightarrow> nat \<Rightarrow> heap \<Rightarrow> nat \<times> heap" where
  "kernel_pages reclaim n h =
     (let (a, p) = alloc_kernel_pages reclaim DIRECT_MAP_BASE n (hp_pmm h) in (unat a, h\<lparr>hp_pmm := p\<rparr>))"

definition heap_add_chunk :: "reclaim \<Rightarrow> nat \<Rightarrow> heap \<Rightarrow> bool \<times> heap" where
  "heap_add_chunk reclaim bytes h =
     (let (chunk, h) = kernel_pages reclaim (bytes div PAGE_SIZE) h
      in if chunk = nullptr then (False, h)
         else (True, insert_free_locked chunk (set_size chunk (bytes - HEADER) h)))"

definition heap_grow :: "reclaim \<Rightarrow> nat \<Rightarrow> heap \<Rightarrow> bool \<times> heap" where
  "heap_grow reclaim aligned_size h =
     (let needed = PAGE_ALIGN_UP (aligned_size + HEADER);
          (ok, h) = (if needed < HEAP_GROW_SIZE then heap_add_chunk reclaim HEAP_GROW_SIZE h else (False, h))
      in if ok then (True, h) else heap_add_chunk reclaim needed h)"

text \<open>\<^verbatim>\<open>memory_initialize\<close> after \<^verbatim>\<open>mmu_initialize\<close> has set up the direct map; the headers and bytes of memory
  are arbitrary then. A panic is a \<open>Fault\<close>.\<close>

definition memory_initialize ::
  "reclaim \<Rightarrow> nat \<Rightarrow> memory_region list \<Rightarrow> (nat \<Rightarrow> memory_block) \<Rightarrow> memory \<Rightarrow> heap run" where
  "memory_initialize reclaim kernel_virtual_end regions mem0 bytes0 =
     bind_run (pmm_initialize kernel_virtual_end regions) (\<lambda>p.
       let h = \<lparr>hp_mem = mem0, first_free_block = [], bins = replicate BIN_COUNT [],
                caches = replicate MAX_CPUS (replicate BIN_COUNT \<lparr>cb_head = [], cb_count = 0\<rparr>),
                hp_pmm = p, hp_bytes = bytes0\<rparr>;
           (ok, h) = heap_add_chunk reclaim HEAP_INITIAL_SIZE h
       in if ok then Done h else Fault)"

definition get_amount_of_free_memory :: "heap \<Rightarrow> nat" where
  "get_amount_of_free_memory h = fold (\<lambda>current total_free. total_free + blk_size h current) (first_free_block h) 0"

text \<open>The first block of the chain that is large enough, with the blocks before and after it.\<close>

fun heap_find :: "heap \<Rightarrow> nat \<Rightarrow> nat list \<Rightarrow> nat list \<Rightarrow> (nat list \<times> nat \<times> nat list) option" where
  "heap_find h n before [] = None"
| "heap_find h n before (current # others) =
     (if blk_size h current \<ge> n then Some (before, current, others) else heap_find h n (before @ [current]) others)"

definition heap_take :: "nat \<Rightarrow> heap \<Rightarrow> nat \<times> heap" where
  "heap_take aligned_size h =
     (case heap_find h aligned_size [] (first_free_block h) of
        None \<Rightarrow> (nullptr, h)
      | Some (before, current, others) \<Rightarrow>
          let total_needed = aligned_size + HEADER;
              (rest, h) =
                (if blk_size h current \<ge> total_needed + BIN_STEP
                 then let split_block = current + total_needed
                      in (split_block # others,
                          set_size current aligned_size
                            (set_next split_block Linked (set_size split_block (blk_size h current - total_needed) h)))
                 else (others, h))
          in (current + HEADER, set_next current BLOCK_USED (h\<lparr>first_free_block := before @ rest\<rparr>)))"

definition large_alloc :: "reclaim \<Rightarrow> nat \<Rightarrow> heap \<Rightarrow> nat \<times> heap" where
  "large_alloc reclaim aligned_size h =
     (let bytes = PAGE_ALIGN_UP (aligned_size + HEADER);
          (block, h) = kernel_pages reclaim (bytes div PAGE_SIZE) h
      in if block = nullptr then (nullptr, h)
         else (block + HEADER, set_next block BLOCK_LARGE (set_size block (bytes - HEADER) h)))"

definition set_cache :: "nat \<Rightarrow> nat \<Rightarrow> cpu_bin \<Rightarrow> heap \<Rightarrow> heap" where
  "set_cache cpu bin c h = h\<lparr>caches := (caches h)[cpu := (caches h ! cpu)[bin := c]]\<rparr>"

definition set_bin :: "nat \<Rightarrow> nat list \<Rightarrow> heap \<Rightarrow> heap" where
  "set_bin bin objects h = h\<lparr>bins := (bins h)[bin := objects]\<rparr>"

text \<open>Up to \<open>CACHE_BATCH\<close> objects move from the bin to the empty cache; the first is returned.\<close>

definition bin_refill_locked :: "nat \<Rightarrow> nat \<Rightarrow> heap \<Rightarrow> nat \<times> heap" where
  "bin_refill_locked cpu bin h =
     (case bins h ! bin of
        [] \<Rightarrow> (nullptr, h)
      | head # others \<Rightarrow>
          let taken = take (CACHE_BATCH - 1) others
          in (head, set_cache cpu bin \<lparr>cb_head = taken, cb_count = length taken\<rparr>
                      (set_bin bin (drop (CACHE_BATCH - 1) others) h)))"

function slab_objects :: "nat \<Rightarrow> nat \<Rightarrow> nat \<Rightarrow> nat list \<Rightarrow> nat list" where
  "slab_objects slab stride at head =
     (if at \<ge> stride \<and> stride > 0 then slab_objects slab stride (at - stride) ((slab + at - stride) # head) else head)"
  by pat_completeness auto
termination by (relation "measure (\<lambda>(slab, stride, at, head). at)") auto

declare slab_objects.simps [simp del]

definition bin_add_slab :: "reclaim \<Rightarrow> nat \<Rightarrow> heap \<Rightarrow> bool \<times> heap" where
  "bin_add_slab reclaim bin h =
     (let object_size = (bin + 1) * BIN_STEP;
          stride = object_size + HEADER;
          (slab, h) = kernel_pages reclaim BIN_SLAB_PAGES h
      in if slab = nullptr then (False, h)
         else let objects = slab_objects slab stride (BIN_SLAB_PAGES * PAGE_SIZE div stride * stride) [];
                  h = h\<lparr>hp_mem := (\<lambda>a. if a \<in> set objects then \<lparr>mb_size = object_size, mb_next = Linked\<rparr> else hp_mem h a)\<rparr>
              in (True, set_bin bin (objects @ bins h ! bin) h))"

partial_function (option) bin_alloc_loop :: "reclaim \<Rightarrow> nat \<Rightarrow> nat \<Rightarrow> heap \<Rightarrow> (nat \<times> heap) option" where
  "bin_alloc_loop reclaim cpu bin h =
     (let cache = caches h ! cpu ! bin;
          (object, h) =
            (case cb_head cache of
               object # others \<Rightarrow> (object, set_cache cpu bin \<lparr>cb_head = others, cb_count = cb_count cache - 1\<rparr> h)
             | [] \<Rightarrow> bin_refill_locked cpu bin h)
      in if object \<noteq> nullptr then Some (object + HEADER, set_next object BLOCK_USED h)
         else let (ok, h) = bin_add_slab reclaim bin h
              in if ok then bin_alloc_loop reclaim cpu bin h else Some (nullptr, h))"

definition bin_alloc :: "reclaim \<Rightarrow> nat \<Rightarrow> nat \<Rightarrow> heap \<Rightarrow> (nat \<times> heap) option" where
  "bin_alloc reclaim cpu sz h = bin_alloc_loop reclaim cpu (sz div BIN_STEP - 1) h"

definition bin_free :: "nat \<Rightarrow> nat \<Rightarrow> heap \<Rightarrow> heap" where
  "bin_free cpu object h =
     (let bin = blk_size h object div BIN_STEP - 1;
          cache = caches h ! cpu ! bin;
          h = set_next object Linked h;
          chain = object # cb_head cache;
          count = cb_count cache + 1
      in if count \<ge> CACHE_MAX
         then set_bin bin (take CACHE_BATCH chain @ bins h ! bin)
                (set_cache cpu bin \<lparr>cb_head = drop CACHE_BATCH chain, cb_count = count - CACHE_BATCH\<rparr> h)
         else set_cache cpu bin \<lparr>cb_head = chain, cb_count = count\<rparr> h)"

partial_function (option) malloc_loop :: "reclaim \<Rightarrow> nat \<Rightarrow> nat \<Rightarrow> heap \<Rightarrow> (nat \<times> heap) option" where
  "malloc_loop reclaim aligned_size ptr h =
     (if ptr \<noteq> nullptr then Some (ptr, h)
      else let (ptr, h) = heap_take aligned_size h
           in if ptr = nullptr
              then let (ok, h) = heap_grow reclaim aligned_size h
                   in if ok then malloc_loop reclaim aligned_size ptr h else Some (nullptr, h)
              else malloc_loop reclaim aligned_size ptr h)"

definition malloc :: "reclaim \<Rightarrow> nat \<Rightarrow> nat \<Rightarrow> heap \<Rightarrow> (nat \<times> heap) option" where
  "malloc reclaim cpu sz h =
     (if sz = 0 \<or> sz > 2 ^ 40 then Some (nullptr, h)
      else let aligned_size = (sz + BIN_STEP - 1) div BIN_STEP * BIN_STEP
           in case (if aligned_size \<le> BIN_MAX then bin_alloc reclaim cpu aligned_size h
                    else if aligned_size \<ge> LARGE_ALLOC_THRESHOLD then Some (large_alloc reclaim aligned_size h)
                    else Some (nullptr, h)) of
                None \<Rightarrow> None
              | Some (ptr, h) \<Rightarrow> malloc_loop reclaim aligned_size ptr h)"

definition malloc_safe :: "reclaim \<Rightarrow> nat \<Rightarrow> nat \<Rightarrow> heap \<Rightarrow> (nat \<times> heap) option" where
  "malloc_safe reclaim cpu sz h =
     (case malloc reclaim cpu sz h of
        None \<Rightarrow> None
      | Some (ptr, h) \<Rightarrow>
          Some (ptr, if ptr \<noteq> nullptr then h\<lparr>hp_bytes := memset ptr 0 (blk_size h (ptr - HEADER)) (hp_bytes h)\<rparr> else h))"

definition free :: "nat \<Rightarrow> nat \<Rightarrow> heap \<Rightarrow> heap" where
  "free cpu ptr h =
     (if ptr = nullptr then h
      else let block = ptr - HEADER
           in if mb_next (hp_mem h block) = BLOCK_LARGE
              then let h = set_next block Linked h
                   in h\<lparr>hp_pmm := free_kernel_pages (word_of_nat block) ((blk_size h block + HEADER) div PAGE_SIZE) (hp_pmm h)\<rparr>
              else if mb_next (hp_mem h block) \<noteq> BLOCK_USED then h
              else if blk_size h block \<le> BIN_MAX then bin_free cpu block h
              else insert_free_locked block h)"

definition calloc :: "reclaim \<Rightarrow> nat \<Rightarrow> nat \<Rightarrow> nat \<Rightarrow> heap \<Rightarrow> (nat \<times> heap) option" where
  "calloc reclaim cpu num sz h =
     (if num \<noteq> 0 \<and> sz > (2 ^ 64 - 1) div num then Some (nullptr, h) else malloc_safe reclaim cpu (num * sz) h)"

definition realloc :: "reclaim \<Rightarrow> nat \<Rightarrow> nat \<Rightarrow> nat \<Rightarrow> heap \<Rightarrow> (nat \<times> heap) option" where
  "realloc reclaim cpu ptr sz h =
     (if ptr = nullptr then malloc reclaim cpu sz h
      else if sz = 0 then Some (nullptr, free cpu ptr h)
      else let block = hp_mem h (ptr - HEADER)
           in if mb_next block \<noteq> BLOCK_USED \<and> mb_next block \<noteq> BLOCK_LARGE then Some (nullptr, h)
              else if sz \<le> mb_size block then Some (ptr, h)
              else case malloc reclaim cpu sz h of
                     None \<Rightarrow> None
                   | Some (new_ptr, h) \<Rightarrow>
                       Some (new_ptr,
                         if new_ptr \<noteq> nullptr
                         then free cpu ptr (h\<lparr>hp_bytes := memcpy new_ptr ptr (mb_size block) (hp_bytes h)\<rparr>)
                         else h))"

section \<open>Coverage\<close>

text \<open>The number of blocks of a multiset that cover a byte, headers included: blocks are disjoint when
  it is at most 1 everywhere. Splitting and merging blocks, and moving them between lists, keep it.\<close>

definition piece :: "nat \<Rightarrow> nat \<Rightarrow> nat \<Rightarrow> nat" where
  "piece a n x = of_bool (a \<le> x \<and> x < a + HEADER + n)"

definition cov :: "(nat \<Rightarrow> memory_block) \<Rightarrow> nat multiset \<Rightarrow> nat \<Rightarrow> nat" where
  "cov m M x = (\<Sum>a\<in>#M. piece a (mb_size (m a)) x)"

lemma HEADER_pos [simp]: "0 < HEADER" "HEADER \<noteq> 0" by (simp_all add: HEADER_def)

lemma piece_split: "piece a (n + (HEADER + k)) x = piece a n x + piece (a + HEADER + n) k x"
  by (auto simp: piece_def HEADER_def)

lemma piece_self [simp]: "piece a n a = 1" by (simp add: piece_def)

lemma cov_simps [simp]:
  "cov m {#} x = 0" "cov m (add_mset a M) x = piece a (mb_size (m a)) x + cov m M x"
  "cov m (M + N) x = cov m M x + cov m N x"
  by (simp_all add: cov_def)

lemma cov_cong: "(\<And>a. a \<in># M \<Longrightarrow> mb_size (m a) = mb_size (m' a)) \<Longrightarrow> cov m M x = cov m' M x"
  unfolding cov_def by (metis (mono_tags, lifting) image_mset_cong)

lemma cov_member: "a \<in># M \<Longrightarrow> piece a (mb_size (m a)) x \<le> cov m M x"
  by (auto dest!: multi_member_split)

lemma cov_zero_notin: "cov m M a = 0 \<Longrightarrow> a \<notin># M"
  using cov_member [of a M m a] by auto

lemma cov_upd: "cov m M a = 0 \<Longrightarrow> cov (m(a := b)) M x = cov m M x"
  using cov_zero_notin [of m M a] by (intro cov_cong) auto

lemma cov_one_disjoint:
  assumes "cov m (add_mset a M) x \<le> 1" and "a \<le> x" and "x < a + HEADER + mb_size (m a)"
  shows "cov m M x = 0"
  using assms by (simp add: piece_def)

lemma cov_order:
  assumes "cov m (add_mset a (add_mset b M)) b \<le> 1" and "a < b"
  shows "a + HEADER + mb_size (m a) \<le> b"
  using assms by (auto simp: piece_def split: if_splits)

section \<open>The invariant\<close>

definition kbase :: nat where "kbase = unat DIRECT_MAP_BASE"

definition frame_of :: "nat \<Rightarrow> nat" where "frame_of x = (x - kbase) div PAGE_SIZE"

text \<open>The bytes of the taken frames, where the direct map has them.\<close>

definition area :: "pmm \<Rightarrow> nat set" where
  "area p = {x. kbase \<le> x \<and> frame_of x \<in> {0<..<total_pages p} - frames_free p}"

definition small_blocks :: "heap \<Rightarrow> nat multiset" where
  "small_blocks h = mset (concat (bins h)) + mset (concat (map cb_head (concat (caches h))))"

definition free_blocks :: "heap \<Rightarrow> nat multiset" where
  "free_blocks h = mset (first_free_block h) + small_blocks h"

definition chain_ok :: "(nat \<Rightarrow> memory_block) \<Rightarrow> nat list \<Rightarrow> bool" where
  "chain_ok m as \<longleftrightarrow> sorted_wrt (\<lambda>a b. a + HEADER + mb_size (m a) < b) as"

definition objects_ok :: "(nat \<Rightarrow> memory_block) \<Rightarrow> nat \<Rightarrow> nat list \<Rightarrow> bool" where
  "objects_ok m bin as \<longleftrightarrow> (\<forall>a\<in>set as. mb_size (m a) = (bin + 1) * BIN_STEP)"

definition cache_ok :: "(nat \<Rightarrow> memory_block) \<Rightarrow> nat \<Rightarrow> cpu_bin \<Rightarrow> bool" where
  "cache_ok m bin c \<longleftrightarrow> objects_ok m bin (cb_head c) \<and> cb_count c = length (cb_head c) \<and> cb_count c < CACHE_MAX"

definition small_ok :: "heap \<Rightarrow> bool" where
  "small_ok h \<longleftrightarrow> length (bins h) = BIN_COUNT \<and> length (caches h) = MAX_CPUS \<and> (\<forall>c\<in>set (caches h). length c = BIN_COUNT) \<and>
     (\<forall>i<BIN_COUNT. objects_ok (hp_mem h) i (bins h ! i)) \<and>
     (\<forall>cpu<MAX_CPUS. \<forall>i<BIN_COUNT. cache_ok (hp_mem h) i (caches h ! cpu ! i))"

definition block_ok :: "(nat \<Rightarrow> memory_block) \<Rightarrow> nat \<Rightarrow> bool" where
  "block_ok m a \<longleftrightarrow> BIN_STEP dvd a \<and> BIN_STEP dvd mb_size (m a) \<and> BIN_STEP \<le> mb_size (m a)"

definition pages_ok :: "pmm \<Rightarrow> bool" where
  "pages_ok p \<longleftrightarrow> pmm_inv p \<and> total_pages p \<le> 2 ^ 35"

text \<open>The state of the allocator while the blocks \<open>N\<close> are out of its lists: all blocks are disjoint and
  lie in taken frames, the free list is sorted and coalesced, the bins and caches hold objects of
  their size.\<close>

definition heap_core :: "heap \<Rightarrow> nat multiset \<Rightarrow> bool" where
  "heap_core h N \<longleftrightarrow> pages_ok (hp_pmm h) \<and> small_ok h \<and> chain_ok (hp_mem h) (first_free_block h) \<and>
     (\<forall>a\<in>#free_blocks h. mb_next (hp_mem h a) = Linked) \<and>
     (\<forall>a\<in>#free_blocks h + N. block_ok (hp_mem h) a) \<and>
     (\<forall>x. cov (hp_mem h) (free_blocks h + N) x \<le> of_bool (x \<in> area (hp_pmm h)))"

definition live_ok :: "(nat \<Rightarrow> memory_block) \<Rightarrow> nat \<Rightarrow> bool" where
  "live_ok m a \<longleftrightarrow> mb_next (m a) = BLOCK_USED \<or>
     mb_next (m a) = BLOCK_LARGE \<and> PAGE_SIZE dvd a \<and> PAGE_SIZE dvd mb_size (m a) + HEADER"

definition heap_inv :: "heap \<Rightarrow> nat list \<Rightarrow> bool" where
  "heap_inv h live \<longleftrightarrow> heap_core h (mset live) \<and> (\<forall>a\<in>set live. live_ok (hp_mem h) a)"

lemma kbase_eq: "kbase = 0xFFFF800000000000"
  by (simp add: kbase_def DIRECT_MAP_BASE_def)

lemma area_bounds: "pages_ok p \<Longrightarrow> x \<in> area p \<Longrightarrow> kbase \<le> x \<and> 0 < x \<and> x < 2 ^ 64"
proof -
  assume p: "pages_ok p" and x: "x \<in> area p"
  then have "frame_of x < 2 ^ 35" by (auto simp: pages_ok_def area_def)
  then have "x - kbase < 2 ^ 35 * PAGE_SIZE" by (simp add: frame_of_def div_less_iff_less_mult)
  then show ?thesis using x by (auto simp: area_def kbase_eq PAGE_SIZE_def)
qed

lemma core_covered:
  assumes "heap_core h N" and "a \<in># free_blocks h + N" and "a \<le> x" and "x < a + HEADER + blk_size h a"
  shows "x \<in> area (hp_pmm h)"
proof -
  have "1 \<le> cov (hp_mem h) (free_blocks h + N) x"
    using cov_member [OF assms(2), of "hp_mem h" x] assms(3,4) by (simp add: piece_def)
  moreover have "cov (hp_mem h) (free_blocks h + N) x \<le> of_bool (x \<in> area (hp_pmm h))"
    using assms(1) unfolding heap_core_def by blast
  ultimately show ?thesis by (cases "x \<in> area (hp_pmm h)") auto
qed

lemma core_pos:
  assumes "heap_core h N" and "a \<in># free_blocks h + N"
  shows "0 < a" "a < 2 ^ 64"
  using core_covered [OF assms, of a] area_bounds [of "hp_pmm h" a] assms(1) by (auto simp: heap_core_def)

text \<open>What changes one header and moves blocks between the lists and \<open>N\<close> keeps the rest.\<close>

lemma small_ok_frame:
  assumes "small_ok h" and "bins h' = bins h" and "caches h' = caches h"
    and "\<And>a. a \<in># small_blocks h \<Longrightarrow> hp_mem h' a = hp_mem h a"
  shows "small_ok h' \<and> small_blocks h' = small_blocks h"
proof -
  have b: "i < BIN_COUNT \<Longrightarrow> a \<in> set (bins h ! i) \<Longrightarrow> a \<in># small_blocks h" for i a
    using assms(1) nth_mem [of i "bins h"] by (auto simp: small_blocks_def small_ok_def)
  have c: "cpu < MAX_CPUS \<Longrightarrow> i < BIN_COUNT \<Longrightarrow> a \<in> set (cb_head (caches h ! cpu ! i)) \<Longrightarrow> a \<in># small_blocks h" for cpu i a
  proof -
    assume "cpu < MAX_CPUS" "i < BIN_COUNT" and a: "a \<in> set (cb_head (caches h ! cpu ! i))"
    then have "caches h ! cpu \<in> set (caches h)" "caches h ! cpu ! i \<in> set (caches h ! cpu)"
      using assms(1) by (auto simp: small_ok_def)
    with a show ?thesis by (auto simp: small_blocks_def)
  qed
  show ?thesis
    using assms b c unfolding small_ok_def objects_ok_def cache_ok_def small_blocks_def by (auto; metis)
qed

lemma core_le_one: "heap_core h N \<Longrightarrow> cov (hp_mem h) (free_blocks h + N) x \<le> 1"
proof -
  assume "heap_core h N"
  then have "cov (hp_mem h) (free_blocks h + N) x \<le> of_bool (x \<in> area (hp_pmm h))" unfolding heap_core_def by blast
  also have "of_bool (x \<in> area (hp_pmm h)) \<le> (1 :: nat)" by simp
  finally show ?thesis .
qed

text \<open>A step that replaces the blocks \<open>D\<close> of the free list and \<open>N\<close> by blocks \<open>D'\<close> of the same coverage,
  changing only headers inside them.\<close>

lemma core_step:
  assumes core: "heap_core h N"
    and lists: "bins h' = bins h" "caches h' = caches h" "hp_pmm h' = hp_pmm h"
    and old: "mset (first_free_block h) + N = R + D" and new: "mset (first_free_block h') + N' = R + D'"
    and touch: "\<And>a. hp_mem h' a \<noteq> hp_mem h a \<Longrightarrow> 0 < cov (hp_mem h) D a"
    and same: "\<And>x. cov (hp_mem h') D' x = cov (hp_mem h) D x"
    and chain: "chain_ok (hp_mem h') (first_free_block h')"
    and linked: "\<forall>a\<in>set (first_free_block h'). mb_next (hp_mem h' a) = Linked"
    and ok: "\<forall>a\<in>#D'. block_ok (hp_mem h') a"
  shows "heap_core h' N' \<and> (\<forall>a\<in>#R. hp_mem h' a = hp_mem h a)"
proof -
  have all: "free_blocks h + N = R + small_blocks h + D" using old by (simp add: free_blocks_def ac_simps)
  have rest: "hp_mem h' a = hp_mem h a" if "a \<in># R + small_blocks h" for a
  proof (rule ccontr)
    assume "hp_mem h' a \<noteq> hp_mem h a"
    then have "0 < cov (hp_mem h) D a" by (rule touch)
    moreover have "cov (hp_mem h) (R + small_blocks h + D) a \<le> 1" using core_le_one [OF core, of a] all by simp
    ultimately have "cov (hp_mem h) (R + small_blocks h) a = 0" by simp
    then show False using cov_zero_notin that by blast
  qed
  have small: "small_ok h' \<and> small_blocks h' = small_blocks h"
    using core rest by (intro small_ok_frame) (auto simp: heap_core_def lists)
  have all': "free_blocks h' + N' = R + small_blocks h + D'"
    using new small by (simp add: free_blocks_def ac_simps)
  have "cov (hp_mem h') (R + small_blocks h) x = cov (hp_mem h) (R + small_blocks h) x" for x
    by (rule cov_cong) (simp add: rest)
  then have cov': "cov (hp_mem h') (free_blocks h' + N') x = cov (hp_mem h) (free_blocks h + N) x" for x
    unfolding all all' using same [of x] by simp
  have "block_ok (hp_mem h) a" if "a \<in># R + small_blocks h" for a
  proof -
    have "a \<in># free_blocks h + N" unfolding all using that by simp
    then show ?thesis using core unfolding heap_core_def by blast
  qed
  then have bok: "\<forall>a\<in>#free_blocks h' + N'. block_ok (hp_mem h') a"
    unfolding all' using rest ok by (auto simp: block_ok_def)
  have "mb_next (hp_mem h' a) = Linked" if "a \<in># free_blocks h'" for a
  proof (cases "a \<in> set (first_free_block h')")
    case False
    then have "a \<in># small_blocks h" using that small by (simp add: free_blocks_def)
    then show ?thesis using core rest [of a] by (auto simp: heap_core_def free_blocks_def)
  qed (use linked in simp)
  then show ?thesis
    using core small chain bok cov' rest unfolding heap_core_def lists by simp
qed

lemma chain_split:
  assumes "chain_ok m fs"
  shows "chain_ok m (takeWhile P fs)" "chain_ok m (dropWhile P fs)"
    "\<forall>a\<in>set (takeWhile P fs). \<forall>b\<in>set (dropWhile P fs). a + HEADER + mb_size (m a) < b"
proof -
  have "chain_ok m (takeWhile P fs @ dropWhile P fs)" using assms by (simp only: takeWhile_dropWhile_id)
  then show "chain_ok m (takeWhile P fs)" "chain_ok m (dropWhile P fs)"
    "\<forall>a\<in>set (takeWhile P fs). \<forall>b\<in>set (dropWhile P fs). a + HEADER + mb_size (m a) < b"
    unfolding chain_ok_def sorted_wrt_append by blast+
qed

lemma chain_cong: "chain_ok m' fs \<Longrightarrow> (\<And>a. a \<in> set fs \<Longrightarrow> mb_size (m a) = mb_size (m' a)) \<Longrightarrow> chain_ok m fs"
  by (induction fs) (auto simp: chain_ok_def)

lemma chain_less: "chain_ok m fs \<Longrightarrow> i < j \<Longrightarrow> j < length fs \<Longrightarrow> fs ! i < fs ! j"
  using sorted_wrt_nth_less [of "\<lambda>a b. a + HEADER + mb_size (m a) < b" fs i j] by (simp add: chain_ok_def)

lemma chain_distinct: "chain_ok m fs \<Longrightarrow> distinct fs"
  by (induction fs) (auto simp: chain_ok_def)

lemma chain_append:
  "chain_ok m (xs @ ys) \<longleftrightarrow> chain_ok m xs \<and> chain_ok m ys \<and> (\<forall>a\<in>set xs. \<forall>b\<in>set ys. a + HEADER + mb_size (m a) < b)"
  by (simp add: chain_ok_def sorted_wrt_append)

lemma chain_upd: "chain_ok m fs \<Longrightarrow> a \<notin> set fs \<Longrightarrow> chain_ok (m(a := b)) fs"
  by (erule chain_cong) auto

lemma chain_replace_last:
  assumes "chain_ok m (xs @ [q])" and "chain_ok m rs" and "\<forall>c\<in>set rs. q + HEADER + mb_size b < c"
  shows "chain_ok (m(q := b)) ((xs @ [q]) @ rs)"
proof -
  have x: "a + HEADER + mb_size (m a) < q" if "a \<in> set xs" for a
    using assms(1) that by (auto simp: chain_ok_def sorted_wrt_append)
  have "q \<notin> set xs" "q \<notin> set rs" using x [of q] assms(3) by auto
  then have "chain_ok (m(q := b)) xs" "chain_ok (m(q := b)) rs"
    using assms(1,2) chain_upd by (auto simp: chain_append)
  moreover have "a + HEADER + mb_size (m a) < c" if "a \<in> set xs" "c \<in> set rs" for a c
    using x [OF that(1)] assms(3) that(2) by force
  ultimately show ?thesis
    using x assms(3) \<open>q \<notin> set xs\<close> by (auto simp: chain_ok_def sorted_wrt_append)
qed

lemma chain_before_last:
  assumes "chain_ok m fs" and "a \<in> set fs" and "a \<noteq> last fs"
  shows "a + HEADER + mb_size (m a) < last fs"
proof -
  from assms(2) have "fs \<noteq> []" by auto
  then have e: "fs = butlast fs @ [last fs]" by simp
  then have "a \<in> set (butlast fs)" using assms(2,3) by (metis Un_iff empty_iff insert_iff list.set(1,2) set_append)
  moreover have "sorted_wrt (\<lambda>a b. a + HEADER + mb_size (m a) < b) (butlast fs @ [last fs])"
    using assms(1) e by (simp add: chain_ok_def)
  ultimately show ?thesis by (simp add: sorted_wrt_append)
qed

lemma sorted_past:
  assumes "chain_ok m fs" and "b \<in> set (dropWhile (\<lambda>n. n < a) fs)"
  shows "a \<le> b"
proof (cases "dropWhile (\<lambda>n. n < a) fs")
  case Nil
  with assms(2) show ?thesis by (simp only: list.set empty_iff)
next
  case (Cons c cs)
  then have "a \<le> c" using hd_dropWhile [of "\<lambda>n. n < a" fs] by auto
  moreover have "chain_ok m (c # cs)" using chain_split(2) [OF assms(1), of "\<lambda>n. n < a"] Cons by simp
  ultimately show ?thesis using assms(2) Cons by (auto simp: chain_ok_def intro: less_imp_le order_trans)
qed

lemma core_two:
  assumes core: "heap_core h (add_mset a N)" and b: "b \<in># free_blocks h"
  shows "a \<noteq> b" "a < b \<Longrightarrow> a + HEADER + blk_size h a \<le> b" "b < a \<Longrightarrow> b + HEADER + blk_size h b \<le> a"
proof -
  obtain F where F: "free_blocks h = add_mset b F" using b by (metis mset_add)
  have le: "cov (hp_mem h) (add_mset a (add_mset b (F + N))) x \<le> 1" for x
    using core_le_one [OF core, of x] by (simp add: F)
  show "a \<noteq> b" using le [of b] by auto
  show "a < b \<Longrightarrow> a + HEADER + blk_size h a \<le> b" using cov_order le by blast
  show "b < a \<Longrightarrow> b + HEADER + blk_size h b \<le> a" using cov_order [of "hp_mem h" b a "F + N"] le [of a] by (simp add: add_mset_commute)
qed

text \<open>\<^verbatim>\<open>insert_free_locked\<close> as a function of the two merges it does.\<close>

lemma insert_free_eq:
  assumes split: "takeWhile (\<lambda>n. n < a) (first_free_block h) = bf" "dropWhile (\<lambda>n. n < a) (first_free_block h) = rs"
    and other: "a \<notin> set bf" "a \<notin> set rs"
    and mn: "mn \<longleftrightarrow> rs \<noteq> [] \<and> a + HEADER + blk_size h a = hd rs"
    and n': "n' = (if mn then blk_size h a + (HEADER + blk_size h (hd rs)) else blk_size h a)"
    and rs': "rs' = (if mn then tl rs else rs)"
    and m: "m = (hp_mem h)(a := \<lparr>mb_size = n', mb_next = Linked\<rparr>)"
    and mp: "mp \<longleftrightarrow> bf \<noteq> [] \<and> last bf + HEADER + blk_size h (last bf) = a"
  shows "insert_free_locked a h =
    (if mp then h\<lparr>hp_mem := m(last bf := hp_mem h (last bf)\<lparr>mb_size := blk_size h (last bf) + (HEADER + n')\<rparr>), first_free_block := bf @ rs'\<rparr>
     else h\<lparr>hp_mem := m, first_free_block := bf @ a # rs'\<rparr>)"
proof -
  have last: "bf \<noteq> [] \<Longrightarrow> last bf \<noteq> a" using other(1) by (metis last_in_set)
  define h1 where "h1 = h\<lparr>hp_mem := m\<rparr>"
  have upd: "r\<lparr>mb_next := Linked\<rparr> = \<lparr>mb_size = mb_size r, mb_next = Linked\<rparr>"
      "r\<lparr>mb_next := Linked, mb_size := k\<rparr> = \<lparr>mb_size = k, mb_next = Linked\<rparr>" for r :: memory_block and k
    by (cases r; simp)+
  have one: "(case rs of [] \<Rightarrow> (rs, set_next a Linked h)
      | next # others \<Rightarrow> if a + HEADER + blk_size (set_next a Linked h) a = next
          then (others, set_size a (blk_size (set_next a Linked h) a + (HEADER + blk_size (set_next a Linked h) next)) (set_next a Linked h))
          else (rs, set_next a Linked h)) = (rs', h1)"
    using other(2) by (cases rs) (auto simp: rs' mn n' m h1_def set_next_def set_size_def upd)
  have lb: "bf \<noteq> [] \<Longrightarrow> hp_mem h1 (last bf) = hp_mem h (last bf)" using last by (simp add: h1_def m)
  have na: "blk_size h1 a = n'" by (simp add: h1_def m)
  show ?thesis
    unfolding insert_free_locked_def Let_def split one prod.case
    using lb na by (auto simp: mp h1_def set_size_def)
qed

lemma insert_free_core:
  assumes core: "heap_core h (add_mset a N)"
  shows "heap_core (insert_free_locked a h) N \<and> (\<forall>b\<in>#N. hp_mem (insert_free_locked a h) b = hp_mem h b) \<and>
    mb_next (hp_mem (insert_free_locked a h) a) = Linked \<and>
    (\<exists>b\<in>set (first_free_block (insert_free_locked a h)). blk_size h a \<le> blk_size (insert_free_locked a h) b)"
proof -
  define fs where "fs = first_free_block h"
  define bf where "bf = takeWhile (\<lambda>n. n < a) fs"
  define rs where "rs = dropWhile (\<lambda>n. n < a) fs"
  let ?e = "\<lambda>b. b + HEADER + blk_size h b"
  have chain: "chain_ok (hp_mem h) fs" using core by (simp add: heap_core_def fs_def)
  have app: "fs = bf @ rs" by (simp add: bf_def rs_def)
  have free: "b \<in> set fs \<Longrightarrow> b \<in># free_blocks h" for b by (simp add: free_blocks_def fs_def)
  have bfe: "?e b \<le> a" if "b \<in> set bf" for b
  proof -
    have "b < a" using that by (auto simp: bf_def dest: set_takeWhileD)
    then show ?thesis using core_two(3) [OF core free] that app by auto
  qed
  have rse: "a < c" "?e a \<le> c" if "c \<in> set rs" for c
  proof -
    have "a \<le> c" using sorted_past [OF chain, of c a] that by (simp add: rs_def)
    then show "a < c" using core_two(1) [OF core free, of c] that app by auto
    then show "?e a \<le> c" using core_two(2) [OF core free, of c] that app by auto
  qed
  have chains: "chain_ok (hp_mem h) bf" "chain_ok (hp_mem h) rs" "\<And>b c. b \<in> set bf \<Longrightarrow> c \<in> set rs \<Longrightarrow> ?e b < c"
    using chain_split [OF chain, of "\<lambda>n. n < a"] by (auto simp: bf_def rs_def)
  define mn where "mn \<longleftrightarrow> rs \<noteq> [] \<and> ?e a = hd rs"
  define n' where "n' = (if mn then blk_size h a + (HEADER + blk_size h (hd rs)) else blk_size h a)"
  define rs' where "rs' = (if mn then tl rs else rs)"
  define m where "m = (hp_mem h)(a := \<lparr>mb_size = n', mb_next = Linked\<rparr>)"
  define mp where "mp \<longleftrightarrow> bf \<noteq> [] \<and> ?e (last bf) = a"
  have nota: "a \<notin> set bf" "a \<notin> set rs" using core_two(1) [OF core free] app by auto
  note eq = insert_free_eq [OF bf_def [unfolded fs_def, symmetric] rs_def [unfolded fs_def, symmetric] nota mn_def n'_def rs'_def m_def mp_def]
  have past: "a + HEADER + n' < c" if c: "c \<in> set rs'" for c
  proof (cases mn)
    case True
    then obtain d ds where ds: "rs = d # ds" by (cases rs) (auto simp: mn_def)
    then have "?e d < c" using chains(2) c True by (auto simp: chain_ok_def rs'_def)
    then show ?thesis using True ds by (simp add: n'_def mn_def)
  next
    case False
    then obtain d ds where ds: "rs = d # ds" using c by (cases rs) (auto simp: rs'_def)
    have "?e a < d" using False rse(2) [of d] ds by (auto simp: mn_def)
    moreover have "d \<le> c" using c False ds chains(2) by (auto simp: rs'_def chain_ok_def)
    ultimately show ?thesis using False by (simp add: n'_def)
  qed
  have crs: "chain_ok (hp_mem h) rs'" using chains(2) by (cases rs) (auto simp: rs'_def chain_ok_def)
  have sub: "set rs' \<subseteq> set rs" by (cases rs) (auto simp: rs'_def)
  have ok: "block_ok (hp_mem h) b" if "b \<in> set fs \<or> b = a" for b
    using core that free by (auto simp: heap_core_def)
  have linked: "mb_next (hp_mem h b) = Linked" if "b \<in> set fs" for b
    using core free [OF that] unfolding heap_core_def by blast
  define D where "D = {#a#} + (if mn then {#hd rs#} else {#})"
  have msrs: "mset rs + {#a#} = mset rs' + D" by (cases rs) (auto simp: rs'_def D_def mn_def)
  have hdrs: "mn \<Longrightarrow> hd rs \<in> set fs" by (cases rs) (auto simp: mn_def app)
  have cD: "cov (hp_mem h) D x = piece a n' x" for x
    by (simp add: D_def n'_def mn_def piece_split)
  have "BIN_STEP dvd n'" "BIN_STEP \<le> n'"
    using ok [of a] ok [of "hd rs"] hdrs by (auto simp: block_ok_def n'_def BIN_STEP_def HEADER_def)
  then have oka: "block_ok m a" using ok [of a] by (simp add: block_ok_def m_def)
  have mrs: "chain_ok m rs'" by (rule chain_cong [OF crs]) (use nota sub in \<open>auto simp: m_def\<close>)
  have mbf: "chain_ok m bf" by (rule chain_cong [OF chains(1)]) (use nota in \<open>auto simp: m_def\<close>)
  show ?thesis
  proof (cases mp)
    case False
    let ?h = "insert_free_locked a h"
    have h': "?h = h\<lparr>hp_mem := m, first_free_block := bf @ a # rs'\<rparr>" using eq False by simp
    have lt: "?e b < a" if "b \<in> set bf" for b
    proof (cases "b = last bf")
      case True
      then show ?thesis using False bfe [OF that] that by (auto simp: mp_def)
    next
      case nl: False
      have "last bf \<in> set bf" using that by (cases bf) auto
      then have "last bf < a" using bfe [of "last bf"] by (simp add: HEADER_def)
      then show ?thesis using chain_before_last [OF chains(1) that nl] by simp
    qed
    have "chain_ok m (bf @ a # rs')"
      using mbf mrs lt past chains(3) sub nota unfolding chain_ok_def by (auto simp: sorted_wrt_append m_def)
    then have "heap_core ?h N \<and> (\<forall>b\<in>#mset bf + mset rs' + N. hp_mem ?h b = hp_mem h b)"
    proof (intro core_step [OF core, where D = D and D' = "{#a#}"])
      show "mset (first_free_block h) + add_mset a N = mset bf + mset rs' + N + D"
        using msrs by (simp add: fs_def [symmetric] app ac_simps)
      show "\<forall>b\<in>set (first_free_block ?h). mb_next (hp_mem ?h b) = Linked"
        using linked sub app by (auto simp: h' m_def)
    qed (use oka in \<open>auto simp: h' m_def cD split: if_splits\<close>)
    then show ?thesis by (auto simp: h' m_def n'_def)
  next
    case True
    let ?h = "insert_free_locked a h"
    define q where "q = last bf"
    have bfq: "bf = butlast bf @ [q]" using True by (simp add: mp_def q_def)
    have qa: "?e q = a" using True by (simp add: mp_def q_def)
    define m' where "m' = m(q := hp_mem h q\<lparr>mb_size := blk_size h q + (HEADER + n')\<rparr>)"
    have h': "?h = h\<lparr>hp_mem := m', first_free_block := bf @ rs'\<rparr>" using eq True by (simp add: m'_def q_def)
    have q: "q \<in> set bf" using True by (simp add: mp_def q_def)
    have cD': "cov m' {#q#} x = cov (hp_mem h) (add_mset q D) x" for x
      using piece_split [of q "blk_size h q" n' x] qa by (simp add: m'_def cD)
    have "block_ok m' q"
      using ok [of q] oka q app by (auto simp: block_ok_def m'_def m_def BIN_STEP_def HEADER_def)
    moreover have "chain_ok m' (bf @ rs')"
    proof -
      have "q + HEADER + (blk_size h q + (HEADER + n')) < c" if "c \<in> set rs'" for c
        using past [OF that] qa by simp
      then show ?thesis
      using chain_replace_last [of m "butlast bf" q rs' "hp_mem h q\<lparr>mb_size := blk_size h q + (HEADER + n')\<rparr>"] mbf mrs bfq
        by (simp add: m'_def)
    qed
    ultimately have "heap_core ?h N \<and> (\<forall>b\<in>#mset (butlast bf) + mset rs' + N. hp_mem ?h b = hp_mem h b)"
    proof (intro core_step [OF core, where D = "add_mset q D" and D' = "{#q#}"])
      have "mset bf = add_mset q (mset (butlast bf))" using bfq by (metis mset_append add_mset_add_single mset.simps)
      then show "mset (first_free_block h) + add_mset a N = mset (butlast bf) + mset rs' + N + add_mset q D"
        "mset (first_free_block ?h) + N = mset (butlast bf) + mset rs' + N + {#q#}"
        using msrs by (simp_all add: fs_def [symmetric] app h' ac_simps)
      show "\<forall>b\<in>set (first_free_block ?h). mb_next (hp_mem ?h b) = Linked"
        using linked sub app q by (auto simp: h' m_def m'_def)
    qed (use cD' in \<open>auto simp: h' m_def m'_def cD split: if_splits\<close>)
    then show ?thesis using q nota by (auto simp: h' m'_def m_def n'_def)
  qed
qed

lemma heap_find_spec:
  "case heap_find h n bf fs of None \<Rightarrow> \<forall>a\<in>set fs. blk_size h a < n
   | Some (b, c, others) \<Rightarrow> bf @ fs = b @ c # others \<and> n \<le> blk_size h c"
  by (induction h n bf fs rule: heap_find.induct) (auto split: option.splits)

lemma heap_take_core:
  assumes core: "heap_core h N" and n: "BIN_STEP dvd n" "BIN_STEP \<le> n" and t: "heap_take n h = (p, h')"
  shows "p = 0 \<and> h' = h \<and> (\<forall>a\<in>set (first_free_block h). blk_size h a < n) \<or>
    (\<exists>a. p = a + HEADER \<and> heap_core h' (add_mset a N) \<and> n \<le> blk_size h' a \<and> mb_next (hp_mem h' a) = BLOCK_USED \<and>
      (\<forall>b\<in>#N. hp_mem h' b = hp_mem h b) \<and> hp_pmm h' = hp_pmm h \<and> hp_bytes h' = hp_bytes h)"
proof (cases "heap_find h n [] (first_free_block h)")
  case None
  then show ?thesis using t heap_find_spec [where h = h and n = n and bf = "[]" and fs = "first_free_block h"] by (auto simp: heap_take_def)
next
  case (Some r)
  then obtain bf c rs where r: "heap_find h n [] (first_free_block h) = Some (bf, c, rs)" by (cases r) auto
  have fs: "first_free_block h = bf @ c # rs" and nc: "n \<le> blk_size h c"
    using heap_find_spec [where h = h and n = n and bf = "[]" and fs = "first_free_block h"] r by auto
  have chain: "chain_ok (hp_mem h) (bf @ c # rs)" using core fs by (simp add: heap_core_def)
  then have c1: "chain_ok (hp_mem h) bf" "chain_ok (hp_mem h) rs" "\<forall>b\<in>set bf. b + HEADER + blk_size h b < c"
      "\<forall>d\<in>set rs. c + HEADER + blk_size h c < d" "\<forall>b\<in>set bf. \<forall>d\<in>set rs. b + HEADER + blk_size h b < d"
    using chain_append [of "hp_mem h" bf "c # rs"] by (auto simp: chain_ok_def)
  have nin: "c \<notin> set bf" "c \<notin> set rs" using chain_distinct [OF chain] by auto
  have linked: "b \<in> set bf \<union> set rs \<Longrightarrow> mb_next (hp_mem h b) = Linked" for b
    using core fs by (auto simp: heap_core_def free_blocks_def)
  have okc: "block_ok (hp_mem h) c" using core fs by (auto simp: heap_core_def free_blocks_def)
  show ?thesis
  proof (cases "n + HEADER + BIN_STEP \<le> blk_size h c")
    case False
    then have h': "h' = set_next c BLOCK_USED (h\<lparr>first_free_block := bf @ rs\<rparr>)" "p = c + HEADER"
      using t by (auto simp: heap_take_def r Let_def)
    have "heap_core h' (add_mset c N) \<and> (\<forall>b\<in>#mset bf + mset rs + N. hp_mem h' b = hp_mem h b)"
    proof (intro core_step [OF core, where D = "{#c#}" and D' = "{#c#}"])
      show "chain_ok (hp_mem h') (first_free_block h')"
        using c1 nin by (auto simp: h' set_next_def chain_append intro!: chain_upd)
    qed (use linked okc nin in \<open>auto simp: h' set_next_def fs block_ok_def split: if_splits\<close>)
    then show ?thesis using nc h' by (intro disjI2 exI [of _ c]) (auto simp: set_next_def)
  next
    case True
    define s where "s = c + (n + HEADER)"
    define k where "k = blk_size h c - (n + HEADER)"
    have k: "blk_size h c = n + (HEADER + k)" "BIN_STEP \<le> k" using True by (auto simp: k_def)
    define m where "m = (hp_mem h)(s := \<lparr>mb_size = k, mb_next = Linked\<rparr>, c := \<lparr>mb_size = n, mb_next = BLOCK_USED\<rparr>)"
    have sc: "s \<noteq> c" by (simp add: s_def HEADER_def)
    have upd: "r\<lparr>mb_size := x, mb_next := y\<rparr> = \<lparr>mb_size = x, mb_next = y\<rparr>" for r :: memory_block and x y by (cases r) simp
    have h': "h' = h\<lparr>hp_mem := m, first_free_block := bf @ s # rs\<rparr>" "p = c + HEADER"
      using t True sc by (auto simp: heap_take_def r Let_def s_def k_def m_def set_next_def set_size_def upd fun_upd_twist)
    have sin: "s \<notin> set bf" "s \<notin> set rs" using c1 k by (force simp: s_def)+
    have "BIN_STEP dvd k" "BIN_STEP dvd s"
      using okc n(1) k(1) by (auto simp: block_ok_def s_def BIN_STEP_def HEADER_def dvd_add_right_iff)
    then have ok: "block_ok m c" "block_ok m s"
      using okc n k(2) sc by (auto simp: block_ok_def m_def)
    have "heap_core h' (add_mset c N) \<and> (\<forall>b\<in>#mset bf + mset rs + N. hp_mem h' b = hp_mem h b)"
    proof (intro core_step [OF core, where D = "{#c#}" and D' = "{#c, s#}"])
      have "chain_ok m bf" "chain_ok m rs"
        using c1 sin nin by (auto simp: m_def intro!: chain_upd)
      moreover have "\<forall>d\<in>set rs. s + HEADER + mb_size (m s) < d"
      proof -
        have e: "s + HEADER + mb_size (m s) = c + HEADER + blk_size h c" using k(1) sc by (simp add: m_def) (simp add: s_def)
        show ?thesis unfolding e by (rule c1(4))
      qed
      moreover have "b + HEADER + mb_size (m b) < s" if "b \<in> set bf" for b
      proof -
        have "m b = hp_mem h b" using that sin nin by (auto simp: m_def)
        then show ?thesis using c1(3) that by (auto simp: s_def)
      qed
      moreover have "b + HEADER + mb_size (m b) < d" if "b \<in> set bf" "d \<in> set rs" for b d
      proof -
        have "m b = hp_mem h b" using that sin nin by (auto simp: m_def)
        then show ?thesis using c1(5) that by auto
      qed
      ultimately show "chain_ok (hp_mem h') (first_free_block h')"
        by (simp add: h' chain_ok_def sorted_wrt_append)
      show "cov (hp_mem h') {#c, s#} x = cov (hp_mem h) {#c#} x" for x
        using piece_split [of c n k x] sc by (simp add: h' m_def k(1)) (simp add: s_def ac_simps)
      show "0 < cov (hp_mem h) {#c#} a" if "hp_mem h' a \<noteq> hp_mem h a" for a
        using that k by (auto simp: h' m_def s_def piece_def BIN_STEP_def HEADER_def split: if_splits)
    qed (use linked ok sin nin sc in \<open>auto simp: h' fs m_def split: if_splits\<close>)
    then show ?thesis using h' by (intro disjI2 exI [of _ c]) (auto simp: m_def)
  qed
qed

section \<open>Pages\<close>

text \<open>What the heap relies on when the page allocator asks the page cache for memory: the cache frees
  no frame that the heap holds.\<close>

definition reclaim_keeps :: "reclaim \<Rightarrow> nat set \<Rightarrow> bool" where
  "reclaim_keeps reclaim F \<longleftrightarrow>
     (\<forall>n p k p'. pmm_inv p \<longrightarrow> F \<inter> frames_free p = {} \<longrightarrow> reclaim n p = (k, p') \<longrightarrow>
        pmm_inv p' \<and> total_pages p' = total_pages p \<and> F \<inter> frames_free p' = {})"

definition heap_frames :: "heap \<Rightarrow> nat multiset \<Rightarrow> nat set" where
  "heap_frames h N = frame_of ` {x. 0 < cov (hp_mem h) (free_blocks h + N) x}"

lemma take_pages_total: "take_pages dmo n p = (a, p') \<Longrightarrow> total_pages p' = total_pages p"
  by (auto simp: take_pages_def Let_def split: option.splits)

lemma take_pages_frames:
  assumes "pmm_inv p" and "0 < n" and "F \<inter> frames_free p = {}" and "take_pages dmo n p = (a, p')"
  shows "pmm_inv p' \<and> total_pages p' = total_pages p \<and> F \<inter> frames_free p' = {} \<and>
    (a \<noteq> 0 \<longrightarrow> (\<exists>f. a = f * PAGE_SIZE \<and> {f..<f + n} \<inter> F = {} \<and> {f..<f + n} \<inter> frames_free p' = {} \<and> {f..<f + n} \<subseteq> {0<..<total_pages p}))"
proof (cases "a = 0")
  case True
  then show ?thesis using take_pages_spec [OF assms(1,2,4)] assms(3) take_pages_total [OF assms(4)] by auto
next
  case False
  then obtain f where f: "a = f * PAGE_SIZE" "{f..<f + n} \<subseteq> frames_free p" "frames_free p' = frames_free p - {f..<f + n}"
    using take_pages_spec [OF assms(1,2,4)] by auto
  moreover have "frames_free p \<subseteq> {0<..<total_pages p}" using assms(1) by (simp add: pmm_inv_def)
  ultimately show ?thesis
    using take_pages_spec [OF assms(1,2,4)] take_pages_total [OF assms(4)] assms(3) by auto
qed

lemma alloc_physical_pages_frames:
  assumes inv: "pmm_inv p" and n: "0 < n" and F: "F \<inter> frames_free p = {}" and keeps: "reclaim_keeps reclaim F"
    and a: "alloc_physical_pages reclaim dmo n p = (a, p')"
  shows "pmm_inv p' \<and> total_pages p' = total_pages p \<and> F \<inter> frames_free p' = {} \<and>
    (a \<noteq> 0 \<longrightarrow> (\<exists>f. a = f * PAGE_SIZE \<and> {f..<f + n} \<inter> F = {} \<and> {f..<f + n} \<inter> frames_free p' = {} \<and> {f..<f + n} \<subseteq> {0<..<total_pages p}))"
proof -
  obtain a1 p1 where t1: "take_pages dmo n p = (a1, p1)" by (cases "take_pages dmo n p")
  note s1 = take_pages_frames [OF inv n F t1]
  show ?thesis
  proof (cases "a1 = 0")
    case False
    then show ?thesis using a n t1 s1 by (simp add: alloc_physical_pages_def)
  next
    case True
    obtain k p2 where r: "reclaim (RECLAIM_BATCH + n) p1 = (k, p2)" by (cases "reclaim (RECLAIM_BATCH + n) p1")
    have s2: "pmm_inv p2" "total_pages p2 = total_pages p" "F \<inter> frames_free p2 = {}"
      using keeps s1 r unfolding reclaim_keeps_def by metis+
    show ?thesis
    proof (cases "k = 0")
      case True
      then show ?thesis using a n t1 \<open>a1 = 0\<close> r s2 by (simp add: alloc_physical_pages_def)
    next
      case False
      then have "take_pages dmo n p2 = (a, p')" using a n t1 \<open>a1 = 0\<close> r by (simp add: alloc_physical_pages_def)
      from take_pages_frames [OF s2(1) n s2(3) this] show ?thesis using s2(2) by simp
    qed
  qed
qed

lemma frame_of_page: "frame_of (kbase + f * PAGE_SIZE + y) = f + y div PAGE_SIZE"
  by (simp add: frame_of_def)

lemma virt_page:
  assumes "f < 2 ^ 35"
  shows "unat (phys_to_virt DIRECT_MAP_BASE (word_of_nat (f * PAGE_SIZE))) = kbase + f * PAGE_SIZE"
proof -
  have "f * PAGE_SIZE < 2 ^ 47" using assms by (simp add: PAGE_SIZE_def)
  then have "unat (word_of_nat (f * PAGE_SIZE) :: u64) = f * PAGE_SIZE" by (intro unat_word_of_nat_id) simp
  then show ?thesis
    using \<open>f * PAGE_SIZE < 2 ^ 47\<close> unfolding phys_to_virt_def
    by (subst unat_plus_no_wrap) (simp_all add: kbase_def [symmetric] kbase_eq)
qed

lemma kernel_pages_core:
  assumes core: "heap_core h N" and keeps: "reclaim_keeps reclaim (heap_frames h N)" and n: "0 < n"
    and k: "kernel_pages reclaim n h = (a, h')"
  shows "\<exists>p'. h' = h\<lparr>hp_pmm := p'\<rparr> \<and> heap_core h' N \<and>
    (a \<noteq> 0 \<longrightarrow> PAGE_SIZE dvd a \<and>
      (\<forall>x. a \<le> x \<and> x < a + n * PAGE_SIZE \<longrightarrow> x \<in> area p' \<and> cov (hp_mem h) (free_blocks h + N) x = 0))"
proof -
  let ?c = "cov (hp_mem h) (free_blocks h + N)"
  have le: "?c x \<le> of_bool (x \<in> area (hp_pmm h))" for x using core unfolding heap_core_def by blast
  have po: "pages_ok (hp_pmm h)" using core by (simp add: heap_core_def)
  have F: "heap_frames h N \<inter> frames_free (hp_pmm h) = {}"
  proof -
    have "frame_of x \<notin> frames_free (hp_pmm h)" if "0 < ?c x" for x
      using le [of x] that by (cases "x \<in> area (hp_pmm h)") (auto simp: area_def)
    then show ?thesis by (auto simp: heap_frames_def)
  qed
  obtain b p' where b: "alloc_physical_pages reclaim DIRECT_MAP_BASE n (hp_pmm h) = (b, p')" by fastforce
  note s = alloc_physical_pages_frames [OF _ n F keeps b]
  have inv: "pmm_inv p'" "total_pages p' = total_pages (hp_pmm h)" "heap_frames h N \<inter> frames_free p' = {}"
    using s po by (auto simp: pages_ok_def)
  have h': "h' = h\<lparr>hp_pmm := p'\<rparr>" and a: "a = (if b \<noteq> 0 then unat (phys_to_virt DIRECT_MAP_BASE (word_of_nat b)) else 0)"
    using k b by (auto simp: kernel_pages_def alloc_kernel_pages_def)
  have le': "?c x \<le> of_bool (x \<in> area p')" for x
  proof (cases "0 < ?c x")
    case True
    then have "x \<in> area (hp_pmm h)" using le [of x] by (cases "x \<in> area (hp_pmm h)") auto
    moreover have "frame_of x \<in> heap_frames h N" using True by (auto simp: heap_frames_def)
    ultimately have "x \<in> area p'" using inv by (auto simp: area_def)
    then show ?thesis using core_le_one [OF core, of x] by simp
  qed simp
  have po': "pages_ok p'" using inv po by (simp add: pages_ok_def)
  have fb: "free_blocks h' = free_blocks h" by (simp add: h' free_blocks_def small_blocks_def)
  have "small_ok h'" using core by (simp add: heap_core_def small_ok_def h')
  then have core': "heap_core h' N"
    using core le' po' unfolding heap_core_def fb by (simp add: h')
  show ?thesis
  proof (cases "b = 0")
    case True
    then show ?thesis using h' core' a by auto
  next
    case False
    then obtain f where f: "b = f * PAGE_SIZE" "{f..<f + n} \<inter> heap_frames h N = {}" "{f..<f + n} \<inter> frames_free p' = {}"
        "{f..<f + n} \<subseteq> {0<..<total_pages p'}"
      using s po inv(2) by (auto simp: pages_ok_def)
    have "f \<in> {0<..<total_pages p'}" by (rule subsetD [OF f(4)]) (use n in simp)
    then have "f < 2 ^ 35" using po' by (auto simp: pages_ok_def)
    then have ak: "a = kbase + f * PAGE_SIZE" using a False f(1) virt_page by simp
    have "x \<in> area p' \<and> ?c x = 0" if "a \<le> x" "x < a + n * PAGE_SIZE" for x
    proof -
      define y where "y = x - a"
      have x: "x = kbase + f * PAGE_SIZE + y" and y: "y < n * PAGE_SIZE" using that ak by (auto simp: y_def)
      then have "frame_of x \<in> {f..<f + n}" using frame_of_page [of f y] by (simp add: div_less_iff_less_mult)
      then have "frame_of x \<notin> heap_frames h N" "x \<in> area p'" using f x by (auto simp: area_def)
      then show ?thesis by (auto simp: heap_frames_def)
    qed
    moreover have "PAGE_SIZE dvd a" by (simp add: ak kbase_eq PAGE_SIZE_def)
    ultimately show ?thesis using h' core' by auto
  qed
qed

lemma insert_free_fields [simp]:
  "hp_pmm (insert_free_locked a h) = hp_pmm h" "hp_bytes (insert_free_locked a h) = hp_bytes h"
  "bins (insert_free_locked a h) = bins h" "caches (insert_free_locked a h) = caches h"
  by (auto simp: insert_free_locked_def Let_def set_next_def set_size_def split: list.splits)

text \<open>A fresh range becomes a block.\<close>

lemma core_new:
  assumes core: "heap_core h N" and al: "BIN_STEP dvd a" "BIN_STEP dvd mb_size r" "BIN_STEP \<le> mb_size r"
    and fresh: "\<And>x. a \<le> x \<Longrightarrow> x < a + HEADER + mb_size r \<Longrightarrow> x \<in> area (hp_pmm h) \<and> cov (hp_mem h) (free_blocks h + N) x = 0"
  shows "heap_core (h\<lparr>hp_mem := (hp_mem h)(a := r)\<rparr>) (add_mset a N)" "a \<notin># free_blocks h + N"
proof -
  let ?h = "h\<lparr>hp_mem := (hp_mem h)(a := r)\<rparr>"
  show nin: "a \<notin># free_blocks h + N" using fresh [of a] cov_zero_notin by auto
  have small: "small_ok ?h \<and> small_blocks ?h = small_blocks h"
    using core nin by (intro small_ok_frame) (auto simp: heap_core_def free_blocks_def)
  have fb: "free_blocks ?h = free_blocks h" using small by (simp add: free_blocks_def)
  have "cov (hp_mem ?h) (free_blocks h + N) x = cov (hp_mem h) (free_blocks h + N) x" for x
    using nin by (intro cov_cong) auto
  then have "cov (hp_mem ?h) (free_blocks ?h + add_mset a N) x = piece a (mb_size r) x + cov (hp_mem h) (free_blocks h + N) x" for x
    by (simp add: fb)
  moreover have "piece a (mb_size r) x + cov (hp_mem h) (free_blocks h + N) x \<le> of_bool (x \<in> area (hp_pmm h))" for x
  proof (cases "a \<le> x \<and> x < a + HEADER + mb_size r")
    case True
    then show ?thesis using fresh [of x] by (simp add: piece_def)
  next
    case False
    moreover have "cov (hp_mem h) (free_blocks h + N) x \<le> of_bool (x \<in> area (hp_pmm h))" using core unfolding heap_core_def by blast
    ultimately show ?thesis by (auto simp: piece_def)
  qed
  moreover have "chain_ok (hp_mem ?h) (first_free_block ?h)"
    using core nin by (auto simp: heap_core_def free_blocks_def intro!: chain_upd)
  moreover have "\<forall>b\<in>#free_blocks ?h + add_mset a N. block_ok (hp_mem ?h) b"
    using core al nin unfolding fb heap_core_def by (auto simp: block_ok_def)
  moreover have "\<forall>b\<in>#free_blocks ?h. mb_next (hp_mem ?h b) = Linked"
    using core nin unfolding fb heap_core_def by auto
  ultimately show "heap_core ?h (add_mset a N)"
    using core small unfolding heap_core_def by simp
qed

text \<open>The marks of the blocks outside the lists do not matter, nor does the way the free blocks are
  spread over the bins and caches.\<close>

lemma core_move:
  assumes core: "heap_core h N" and small: "small_ok h'" and all: "free_blocks h' + N' = free_blocks h + N"
    and eqs: "first_free_block h' = first_free_block h" "hp_pmm h' = hp_pmm h" "\<And>a. blk_size h' a = blk_size h a"
    and linked: "\<forall>a\<in>#free_blocks h'. mb_next (hp_mem h' a) = Linked"
  shows "heap_core h' N'"
proof -
  have "chain_ok (hp_mem h') (first_free_block h')"
    unfolding eqs(1) by (rule chain_cong [of "hp_mem h"]) (use core eqs in \<open>auto simp: heap_core_def\<close>)
  moreover have "cov (hp_mem h') M x = cov (hp_mem h) M x" for M x by (rule cov_cong) (simp add: eqs)
  ultimately show ?thesis
    using core small linked eqs unfolding heap_core_def all by (auto simp: block_ok_def)
qed

section \<open>Growing and large blocks\<close>

lemma page_round:
  assumes "0 < n"
  shows "PAGE_SIZE dvd PAGE_ALIGN_UP n" "n \<le> PAGE_ALIGN_UP n" "0 < PAGE_ALIGN_UP n div PAGE_SIZE"
proof -
  show dvd: "PAGE_SIZE dvd PAGE_ALIGN_UP n" by (simp add: PAGE_ALIGN_UP_def)
  have "(n + PAGE_SIZE - 1) mod PAGE_SIZE < PAGE_SIZE" by simp
  then show le: "n \<le> PAGE_ALIGN_UP n"
    using div_mult_mod_eq [of "n + PAGE_SIZE - 1" PAGE_SIZE] assms unfolding PAGE_ALIGN_UP_def by linarith
  have "PAGE_SIZE \<le> PAGE_ALIGN_UP n" using dvd_imp_le [OF dvd] le assms by simp
  then show "0 < PAGE_ALIGN_UP n div PAGE_SIZE" by (simp add: div_greater_zero_iff)
qed

text \<open>Pages for a block with a header in front.\<close>

lemma pages_block:
  assumes core: "heap_core h N" and keeps: "reclaim_keeps reclaim (heap_frames h N)"
    and b: "PAGE_SIZE dvd bytes" "0 < bytes" and k: "kernel_pages reclaim (bytes div PAGE_SIZE) h = (a, h')"
  shows "\<exists>p'. h' = h\<lparr>hp_pmm := p'\<rparr> \<and> heap_core h' N \<and>
    (a \<noteq> 0 \<longrightarrow> PAGE_SIZE dvd a \<and> PAGE_SIZE dvd (bytes - HEADER) + HEADER \<and> a \<notin># N \<and>
      (\<forall>r. mb_size r = bytes - HEADER \<longrightarrow> heap_core (h'\<lparr>hp_mem := (hp_mem h)(a := r)\<rparr>) (add_mset a N)))"
proof -
  have "PAGE_SIZE \<le> bytes" using dvd_imp_le [OF b] .
  then have n: "0 < bytes div PAGE_SIZE" "bytes div PAGE_SIZE * PAGE_SIZE = bytes" "HEADER + BIN_STEP \<le> bytes"
    using b by (auto simp: div_greater_zero_iff PAGE_SIZE_def HEADER_def BIN_STEP_def)
  obtain p' where p': "h' = h\<lparr>hp_pmm := p'\<rparr>" "heap_core h' N"
    "a \<noteq> 0 \<longrightarrow> PAGE_SIZE dvd a \<and> (\<forall>x. a \<le> x \<and> x < a + bytes \<longrightarrow> x \<in> area p' \<and> cov (hp_mem h) (free_blocks h + N) x = 0)"
    using kernel_pages_core [OF core keeps n(1) k] n(2) by auto
  have fb: "free_blocks h' = free_blocks h" by (simp add: p'(1) free_blocks_def small_blocks_def)
  have new: "heap_core (h'\<lparr>hp_mem := (hp_mem h)(a := r)\<rparr>) (add_mset a N) \<and> a \<notin># N"
    if "a \<noteq> 0" "mb_size r = bytes - HEADER" for r
  proof -
    have pd: "BIN_STEP dvd PAGE_SIZE" "HEADER = BIN_STEP" by (simp_all add: BIN_STEP_def PAGE_SIZE_def HEADER_def)
    have "BIN_STEP dvd a" "BIN_STEP dvd bytes" using p'(3) that b(1) pd dvd_trans by blast+
    then have "BIN_STEP dvd mb_size r" "BIN_STEP \<le> mb_size r" using that(2) n(3) pd by auto
    then show ?thesis
      using core_new [OF p'(2) \<open>BIN_STEP dvd a\<close>, of r] p'(3) that n(3) fb by (simp add: p'(1))
  qed
  have "PAGE_SIZE dvd (bytes - HEADER) + HEADER" using b(1) n(3) by simp
  then show ?thesis
    using p' new new [of "\<lparr>mb_size = bytes - HEADER, mb_next = Linked\<rparr>"] by (intro exI [of _ p']) simp
qed

lemma heap_add_chunk_core:
  assumes core: "heap_core h N" and keeps: "reclaim_keeps reclaim (heap_frames h N)"
    and b: "PAGE_SIZE dvd bytes" "0 < bytes" and k: "heap_add_chunk reclaim bytes h = (ok, h')"
  shows "heap_core h' N \<and> (\<forall>b\<in>#N. hp_mem h' b = hp_mem h b) \<and> hp_bytes h' = hp_bytes h \<and>
    (if ok then \<exists>a\<in>set (first_free_block h'). bytes - HEADER \<le> blk_size h' a else \<exists>p'. h' = h\<lparr>hp_pmm := p'\<rparr>)"
proof -
  obtain a h1 where k1: "kernel_pages reclaim (bytes div PAGE_SIZE) h = (a, h1)" by fastforce
  obtain p' where p': "h1 = h\<lparr>hp_pmm := p'\<rparr>" "heap_core h1 N"
    "a \<noteq> 0 \<longrightarrow> a \<notin># N \<and> (\<forall>r. mb_size r = bytes - HEADER \<longrightarrow> heap_core (h1\<lparr>hp_mem := (hp_mem h)(a := r)\<rparr>) (add_mset a N))"
    using pages_block [OF core keeps b k1] by blast
  show ?thesis
  proof (cases "a = 0")
    case True
    then show ?thesis using k k1 p' by (auto simp: heap_add_chunk_def)
  next
    case False
    define h2 where "h2 = set_size a (bytes - HEADER) h1"
    have "heap_core h2 (add_mset a N)"
      using p'(3) False by (auto simp: h2_def set_size_def p'(1))
    note ins = insert_free_core [OF this]
    have h': "h' = insert_free_locked a h2" "ok" using k k1 False by (auto simp: heap_add_chunk_def h2_def)
    have "hp_mem h2 b = hp_mem h b" if "b \<in># N" for b using that p'(1,3) False by (auto simp: h2_def set_size_def)
    then show ?thesis using ins h' p'(1) by (auto simp: h2_def set_size_def)
  qed
qed

lemma pmm_frames [simp]: "heap_frames (h\<lparr>hp_pmm := p\<rparr>) N = heap_frames h N"
  by (simp add: heap_frames_def free_blocks_def small_blocks_def)

lemma heap_grow_core:
  assumes core: "heap_core h N" and keeps: "reclaim_keeps reclaim (heap_frames h N)" and k: "heap_grow reclaim n h = (ok, h')"
  shows "heap_core h' N \<and> (\<forall>b\<in>#N. hp_mem h' b = hp_mem h b) \<and> hp_bytes h' = hp_bytes h \<and>
    (if ok then \<exists>a\<in>set (first_free_block h'). n \<le> blk_size h' a else \<exists>p'. h' = h\<lparr>hp_pmm := p'\<rparr>)"
proof -
  define needed where "needed = PAGE_ALIGN_UP (n + HEADER)"
  have nd: "PAGE_SIZE dvd needed" "n + HEADER \<le> needed" "0 < needed"
    using page_round [of "n + HEADER"] by (auto simp: needed_def HEADER_def)
  define try1 where "try1 = (if needed < HEAP_GROW_SIZE then heap_add_chunk reclaim HEAP_GROW_SIZE h else (False, h))"
  obtain ok1 h1 where t1: "try1 = (ok1, h1)" by (cases try1)
  have gs: "PAGE_SIZE dvd HEAP_GROW_SIZE" "0 < HEAP_GROW_SIZE" by (simp_all add: PAGE_SIZE_def HEAP_GROW_SIZE_def)
  have s1: "heap_core h1 N \<and> (\<forall>b\<in>#N. hp_mem h1 b = hp_mem h b) \<and> hp_bytes h1 = hp_bytes h \<and>
    (if ok1 then \<exists>a\<in>set (first_free_block h1). n \<le> blk_size h1 a else \<exists>p'. h1 = h\<lparr>hp_pmm := p'\<rparr>)"
  proof (cases "needed < HEAP_GROW_SIZE")
    case True
    then have t: "heap_add_chunk reclaim HEAP_GROW_SIZE h = (ok1, h1)" using t1 by (simp add: try1_def)
    have "n \<le> HEAP_GROW_SIZE - HEADER" using True nd by simp
    then show ?thesis using heap_add_chunk_core [OF core keeps gs t] by (auto split: if_splits intro: order_trans)
  next
    case False
    then have "\<not> ok1" "h1 = h" using t1 by (auto simp: try1_def)
    then show ?thesis using core by (auto intro!: exI [of _ "hp_pmm h"])
  qed
  show ?thesis
  proof (cases ok1)
    case True
    then have "ok" "h' = h1" using k t1 by (auto simp: heap_grow_def needed_def [symmetric] try1_def [symmetric] Let_def)
    then show ?thesis using s1 True by auto
  next
    case False
    then obtain p1 where h1: "h1 = h\<lparr>hp_pmm := p1\<rparr>" using s1 by auto
    have t2: "heap_add_chunk reclaim needed h1 = (ok, h')"
      using k t1 False by (auto simp: heap_grow_def needed_def [symmetric] try1_def [symmetric] Let_def)
    have "reclaim_keeps reclaim (heap_frames h1 N)" using keeps by (simp add: h1)
    moreover have "n \<le> needed - HEADER" using nd(2) by simp
    ultimately show ?thesis using heap_add_chunk_core [OF _ _ nd(1,3) t2, of N] s1
      by (cases ok) (auto simp: h1 False intro: order_trans)
  qed
qed

lemma large_alloc_core:
  assumes core: "heap_core h N" and keeps: "reclaim_keeps reclaim (heap_frames h N)" and k: "large_alloc reclaim n h = (p, h')"
  shows "(\<forall>b\<in>#N. hp_mem h' b = hp_mem h b) \<and> hp_bytes h' = hp_bytes h \<and>
    (if p = 0 then heap_core h' N \<and> (\<exists>p'. h' = h\<lparr>hp_pmm := p'\<rparr>)
     else \<exists>a. p = a + HEADER \<and> heap_core h' (add_mset a N) \<and> n \<le> blk_size h' a \<and> live_ok (hp_mem h') a)"
proof -
  define bytes where "bytes = PAGE_ALIGN_UP (n + HEADER)"
  have nd: "PAGE_SIZE dvd bytes" "n + HEADER \<le> bytes" "0 < bytes"
    using page_round [of "n + HEADER"] by (auto simp: bytes_def HEADER_def)
  obtain a h1 where k1: "kernel_pages reclaim (bytes div PAGE_SIZE) h = (a, h1)" by fastforce
  obtain p' where p': "h1 = h\<lparr>hp_pmm := p'\<rparr>" "heap_core h1 N"
    "a \<noteq> 0 \<longrightarrow> PAGE_SIZE dvd a \<and> PAGE_SIZE dvd (bytes - HEADER) + HEADER \<and> a \<notin># N \<and>
      (\<forall>r. mb_size r = bytes - HEADER \<longrightarrow> heap_core (h1\<lparr>hp_mem := (hp_mem h)(a := r)\<rparr>) (add_mset a N))"
    using pages_block [OF core keeps nd(1,3) k1] by blast
  show ?thesis
  proof (cases "a = 0")
    case True
    then show ?thesis using k k1 p' by (auto simp: large_alloc_def bytes_def [symmetric] Let_def)
  next
    case False
    define r where "r = hp_mem h a\<lparr>mb_size := bytes - HEADER, mb_next := BLOCK_LARGE\<rparr>"
    have h': "h' = h1\<lparr>hp_mem := (hp_mem h)(a := r)\<rparr>" "p = a + HEADER"
      using k k1 False p'(1) by (auto simp: large_alloc_def bytes_def [symmetric] Let_def set_next_def set_size_def r_def)
    have "heap_core h' (add_mset a N)" using p'(3) False by (simp add: h' r_def)
    moreover have "live_ok (hp_mem h') a" using p'(3) False by (simp add: live_ok_def h' r_def)
    ultimately show ?thesis using h' p' False nd by (auto simp: r_def)
  qed
qed

section \<open>Bins and caches\<close>

lemma mset_concat_update:
  assumes "i < length xs"
  shows "mset (concat (xs[i := y])) + mset (xs ! i) = mset (concat xs) + mset y"
proof -
  have "xs = take i xs @ xs ! i # drop (Suc i) xs" using assms by (simp add: id_take_nth_drop)
  then have "concat xs = concat (take i xs) @ xs ! i @ concat (drop (Suc i) xs)"
    by (metis concat.simps(2) concat_append)
  moreover have "concat (xs[i := y]) = concat (take i xs) @ y @ concat (drop (Suc i) xs)"
    using assms by (simp add: upd_conv_take_nth_drop)
  ultimately show ?thesis by simp
qed

lemma small_set_bin:
  assumes "bin < length (bins h)"
  shows "small_blocks (set_bin bin os h) + mset (bins h ! bin) = small_blocks h + mset os"
  using mset_concat_update [OF assms, of os] by (simp add: small_blocks_def set_bin_def ac_simps)

lemma small_set_cache:
  assumes "cpu < length (caches h)" and "bin < length (caches h ! cpu)"
  shows "small_blocks (set_cache cpu bin c h) + mset (cb_head (caches h ! cpu ! bin)) = small_blocks h + mset (cb_head c)"
proof -
  let ?f = "\<lambda>row. concat (map cb_head row)"
  have e: "concat (map cb_head (concat C)) = concat (map ?f C)" for C by (induction C) auto
  have "mset (concat (map ?f ((caches h)[cpu := (caches h ! cpu)[bin := c]]))) + mset (?f (caches h ! cpu))
      = mset (concat (map ?f (caches h))) + mset (?f ((caches h ! cpu)[bin := c]))"
    using mset_concat_update [of cpu "map ?f (caches h)"] assms(1) by (simp add: map_update)
  moreover have "mset (?f ((caches h ! cpu)[bin := c])) + mset (cb_head (caches h ! cpu ! bin)) = mset (?f (caches h ! cpu)) + mset (cb_head c)"
    using mset_concat_update [of bin "map cb_head (caches h ! cpu)"] assms(2) by (simp add: map_update)
  ultimately show ?thesis
    unfolding small_blocks_def set_cache_def e by (simp add: e add_ac) (smt (verit) add.assoc add.commute add_right_cancel)
qed

lemma small_ok_set_bin:
  "small_ok h \<Longrightarrow> objects_ok (hp_mem h) bin os \<Longrightarrow> small_ok (set_bin bin os h)"
  by (auto simp: small_ok_def set_bin_def nth_update_range)

lemma small_ok_set_cache:
  assumes "small_ok h" and "cache_ok (hp_mem h) bin c" and "cpu < MAX_CPUS"
  shows "small_ok (set_cache cpu bin c h)"
proof -
  have "\<forall>row\<in>set ((caches h)[cpu := (caches h ! cpu)[bin := c]]). length row = BIN_COUNT"
    using assms(1,3) by (auto simp: small_ok_def dest!: set_update_subset_insert [THEN subsetD])
  then show ?thesis
    using assms by (auto simp: small_ok_def set_cache_def nth_update_range)
qed

lemma set_small_fields [simp]:
  "hp_mem (set_bin b os h) = hp_mem h" "first_free_block (set_bin b os h) = first_free_block h" "hp_pmm (set_bin b os h) = hp_pmm h"
  "hp_bytes (set_bin b os h) = hp_bytes h" "caches (set_bin b os h) = caches h" "bins (set_cache cpu b c h) = bins h"
  "hp_mem (set_cache cpu b c h) = hp_mem h" "first_free_block (set_cache cpu b c h) = first_free_block h"
  "hp_pmm (set_cache cpu b c h) = hp_pmm h" "hp_bytes (set_cache cpu b c h) = hp_bytes h"
  "first_free_block (set_next a n h) = first_free_block h" "hp_pmm (set_next a n h) = hp_pmm h" "hp_bytes (set_next a n h) = hp_bytes h"
  "bins (set_next a n h) = bins h" "caches (set_next a n h) = caches h" "small_blocks (set_next a n h) = small_blocks h"
  "blk_size (set_next a n h) b = blk_size h b"
  by (auto simp: set_bin_def set_cache_def set_next_def small_blocks_def)

lemma mem_set_next: "hp_mem (set_next a n h) b = (if b = a then hp_mem h a\<lparr>mb_next := n\<rparr> else hp_mem h b)"
  by (simp add: set_next_def)

lemma small_ok_set_next [simp]: "small_ok (set_next a n h) = small_ok h"
  by (simp add: small_ok_def cache_ok_def objects_ok_def)

text \<open>A free object leaves the bins and caches.\<close>

lemma take_object:
  assumes core: "heap_core h N" and small: "small_ok h1" and blocks: "small_blocks h = add_mset a (small_blocks h1)"
    and eqs: "hp_mem h1 = hp_mem h" "first_free_block h1 = first_free_block h" "hp_pmm h1 = hp_pmm h" "hp_bytes h1 = hp_bytes h"
    and h': "h' = set_next a BLOCK_USED h1"
  shows "heap_core h' (add_mset a N)" "\<forall>b\<in>#N. hp_mem h' b = hp_mem h b" "hp_bytes h' = hp_bytes h" "live_ok (hp_mem h') a"
    "blk_size h' a = blk_size h a" "0 < a"
proof -
  have fb: "free_blocks h = add_mset a (free_blocks h1)" using blocks by (simp add: free_blocks_def eqs)
  have le: "cov (hp_mem h) (add_mset a (free_blocks h1 + N)) a \<le> 1" using core_le_one [OF core, of a] by (simp add: fb)
  then have nin: "a \<notin># free_blocks h1 + N" using cov_zero_notin [of "hp_mem h" "free_blocks h1 + N" a] by simp
  have fb': "free_blocks h' = free_blocks h1" by (simp add: h' free_blocks_def)
  show "heap_core h' (add_mset a N)"
  proof (rule core_move [OF core])
    show "free_blocks h' + add_mset a N = free_blocks h + N" by (simp add: fb fb')
    show "\<forall>b\<in>#free_blocks h'. mb_next (hp_mem h' b) = Linked"
      using core nin unfolding fb' heap_core_def by (auto simp: fb h' set_next_def eqs)
  qed (use small eqs in \<open>auto simp: h'\<close>)
  show "\<forall>b\<in>#N. hp_mem h' b = hp_mem h b" "hp_bytes h' = hp_bytes h" "live_ok (hp_mem h') a" "blk_size h' a = blk_size h a"
    using nin by (auto simp: h' set_next_def eqs live_ok_def)
  show "0 < a" using core_pos(1) [OF core] fb by simp
qed

definition bin_take :: "nat \<Rightarrow> nat \<Rightarrow> heap \<Rightarrow> nat \<times> heap" where
  "bin_take cpu bin h =
     (case cb_head (caches h ! cpu ! bin) of
        object # others \<Rightarrow> (object, set_cache cpu bin \<lparr>cb_head = others, cb_count = cb_count (caches h ! cpu ! bin) - 1\<rparr> h)
      | [] \<Rightarrow> bin_refill_locked cpu bin h)"

lemma bin_alloc_loop_take:
  "bin_alloc_loop reclaim cpu bin h =
     (case bin_take cpu bin h of (object, h) \<Rightarrow>
        if object \<noteq> nullptr then Some (object + HEADER, set_next object BLOCK_USED h)
        else case bin_add_slab reclaim bin h of (ok, h) \<Rightarrow>
          if ok then bin_alloc_loop reclaim cpu bin h else Some (nullptr, h))"
  by (subst bin_alloc_loop.simps) (simp only: bin_take_def Let_def)

lemma bin_take_core:
  assumes core: "heap_core h N" and cpu: "cpu < MAX_CPUS" and bin: "bin < BIN_COUNT" and t: "bin_take cpu bin h = (a, h1)"
  shows "a = 0 \<and> h1 = h \<and> bins h ! bin = [] \<and> cb_head (caches h ! cpu ! bin) = [] \<or>
    0 < a \<and> small_ok h1 \<and> small_blocks h = add_mset a (small_blocks h1) \<and> hp_mem h1 = hp_mem h \<and>
    first_free_block h1 = first_free_block h \<and> hp_pmm h1 = hp_pmm h \<and> hp_bytes h1 = hp_bytes h \<and>
    blk_size h a = (bin + 1) * BIN_STEP"
proof -
  let ?c = "caches h ! cpu ! bin"
  have small: "small_ok h" using core by (simp add: heap_core_def)
  have len: "cpu < length (caches h)" "bin < length (caches h ! cpu)" "bin < length (bins h)"
    using small cpu bin by (auto simp: small_ok_def)
  have c: "cache_ok (hp_mem h) bin ?c" and b: "objects_ok (hp_mem h) bin (bins h ! bin)" using small cpu bin by (auto simp: small_ok_def)
  have pos: "0 < x" if "small_blocks h = add_mset x M" for x M
    using core_pos(1) [OF core, of x] that by (simp add: free_blocks_def)
  show ?thesis
  proof (cases "cb_head ?c")
    case (Cons x xs)
    define c' where "c' = \<lparr>cb_head = xs, cb_count = cb_count ?c - 1\<rparr>"
    have t': "a = x" "h1 = set_cache cpu bin c' h" using t Cons by (auto simp: bin_take_def c'_def)
    have "cache_ok (hp_mem h) bin c'" using c Cons by (auto simp: cache_ok_def c'_def objects_ok_def)
    then have "small_ok h1" using small_ok_set_cache [OF small _ cpu] by (simp add: t')
    moreover have "small_blocks h = add_mset a (small_blocks h1)"
      using small_set_cache [OF len(1,2), of c'] Cons by (simp add: t' c'_def)
    moreover have "blk_size h a = (bin + 1) * BIN_STEP" using c Cons t' by (simp add: cache_ok_def objects_ok_def)
    ultimately show ?thesis using pos t' by auto
  next
    case Nil
    show ?thesis
    proof (cases "bins h ! bin")
      case Nil' : Nil
      then show ?thesis using t Nil by (auto simp: bin_take_def bin_refill_locked_def)
    next
      case (Cons x xs)
      define os where "os = drop (CACHE_BATCH - 1) xs"
      define c' where "c' = \<lparr>cb_head = take (CACHE_BATCH - 1) xs, cb_count = length (take (CACHE_BATCH - 1) xs)\<rparr>"
      have t': "a = x" "h1 = set_cache cpu bin c' (set_bin bin os h)"
        using t Nil Cons by (auto simp: bin_take_def bin_refill_locked_def Let_def c'_def os_def)
      have ox: "objects_ok (hp_mem h) bin os" "objects_ok (hp_mem h) bin (cb_head c')"
        using b Cons by (auto simp: objects_ok_def os_def c'_def dest: in_set_takeD in_set_dropD)
      then have "cache_ok (hp_mem h) bin c'" by (simp add: cache_ok_def c'_def CACHE_MAX_def CACHE_BATCH_def)
      then have "small_ok h1" using small_ok_set_cache [OF small_ok_set_bin [OF small ox(1)] _ cpu] by (simp add: t')
      moreover have "small_blocks h = add_mset a (small_blocks h1)"
      proof -
        have "small_blocks h1 = small_blocks (set_bin bin os h) + mset (cb_head c')"
          using small_set_cache [of cpu "set_bin bin os h" bin c'] len Nil by (simp add: t')
        moreover have "mset xs = mset (cb_head c') + mset os"
          by (simp add: c'_def os_def flip: mset_append)
        ultimately show ?thesis using small_set_bin [OF len(3), of os] Cons by (simp add: t' ac_simps)
      qed
      moreover have "blk_size h a = (bin + 1) * BIN_STEP" using b Cons t' by (simp add: objects_ok_def)
      ultimately show ?thesis using pos t' by auto
    qed
  qed
qed

lemma slab_objects_eq:
  assumes "0 < stride"
  shows "slab_objects slab stride (k * stride) head = map (\<lambda>i. slab + i * stride) [0..<k] @ head"
proof (induction k arbitrary: head)
  case 0
  then show ?case using assms by (simp add: slab_objects.simps)
next
  case (Suc k)
  have "slab_objects slab stride (Suc k * stride) head = slab_objects slab stride (k * stride) ((slab + k * stride) # head)"
    using assms by (subst slab_objects.simps) simp
  then show ?case by (simp add: Suc)
qed

lemma cov_slab:
  assumes "\<And>i. i < k \<Longrightarrow> mb_size (m (slab + i * (HEADER + n))) = n"
  shows "cov m (mset (map (\<lambda>i. slab + i * (HEADER + n)) [0..<k])) x = of_bool (slab \<le> x \<and> x < slab + k * (HEADER + n))"
  using assms
proof (induction k)
  case (Suc k)
  have "piece (slab + k * (HEADER + n)) n x + of_bool (slab \<le> x \<and> x < slab + k * (HEADER + n))
      = of_bool (slab \<le> x \<and> x < slab + Suc k * (HEADER + n))"
    by (auto simp: piece_def)
  then show ?case using Suc by simp
qed simp

text \<open>Free objects enter a bin, covering a fresh range.\<close>

lemma add_objects:
  assumes core: "heap_core h N" and bin: "bin < BIN_COUNT" and n: "n = (bin + 1) * BIN_STEP"
    and slab: "BIN_STEP dvd slab" and os: "os = map (\<lambda>i. slab + i * (HEADER + n)) [0..<k]"
    and fresh: "\<And>x. slab \<le> x \<Longrightarrow> x < slab + k * (HEADER + n) \<Longrightarrow> x \<in> area (hp_pmm h) \<and> cov (hp_mem h) (free_blocks h + N) x = 0"
    and m: "m = (\<lambda>a. if a \<in> set os then \<lparr>mb_size = n, mb_next = Linked\<rparr> else hp_mem h a)"
    and h': "h' = set_bin bin (os @ bins h ! bin) (h\<lparr>hp_mem := m\<rparr>)"
  shows "heap_core h' N \<and> (\<forall>b\<in>#N. hp_mem h' b = hp_mem h b)"
proof -
  have nin: "a \<notin># free_blocks h + N" if a: "a \<in> set os" for a
  proof -
    obtain i where i: "i < k" "a = slab + i * (HEADER + n)" using a by (auto simp: os)
    have "i * (HEADER + n) < k * (HEADER + n)" using i(1) by (simp add: HEADER_def)
    then have "slab \<le> a" "a < slab + k * (HEADER + n)" using i(2) by simp_all
    then show ?thesis using fresh cov_zero_notin by blast
  qed
  have same: "m a = hp_mem h a" if "a \<in># free_blocks h + N" for a using nin that by (auto simp: m)
  let ?h = "h\<lparr>hp_mem := m\<rparr>"
  have s1: "small_ok ?h \<and> small_blocks ?h = small_blocks h"
    using core same by (intro small_ok_frame) (auto simp: heap_core_def free_blocks_def)
  have lb: "bin < length (bins ?h)" using s1 bin by (auto simp: small_ok_def)
  have "objects_ok m bin (bins h ! bin)" using s1 bin by (simp add: small_ok_def)
  moreover have "mb_size (m a) = (bin + 1) * BIN_STEP" if "a \<in> set os" for a using that n by (simp add: m)
  ultimately have "objects_ok m bin (os @ bins h ! bin)" unfolding objects_ok_def by auto
  then have so: "small_ok h'" using small_ok_set_bin [of ?h] s1 by (simp add: h')
  have "small_blocks h' + mset (bins h ! bin) = small_blocks h + (mset os + mset (bins h ! bin))"
    using small_set_bin [OF lb, of "os @ bins h ! bin"] s1 by (simp add: h')
  then have fb: "free_blocks h' = free_blocks h + mset os"
    by (simp add: free_blocks_def h' ac_simps)
  have cv: "cov m (free_blocks h + N) x = cov (hp_mem h) (free_blocks h + N) x" for x by (rule cov_cong) (simp add: same)
  have mo: "cov m (mset os) x = of_bool (slab \<le> x \<and> x < slab + k * (HEADER + n))" for x
    unfolding os by (rule cov_slab) (auto simp: m os)
  have "cov m (free_blocks h' + N) x \<le> of_bool (x \<in> area (hp_pmm h))" for x
  proof -
    have "cov m (free_blocks h' + N) x = cov (hp_mem h) (free_blocks h + N) x + of_bool (slab \<le> x \<and> x < slab + k * (HEADER + n))"
      using cv [of x] mo [of x] by (simp add: fb)
    moreover have "cov (hp_mem h) (free_blocks h + N) x \<le> of_bool (x \<in> area (hp_pmm h))" using core unfolding heap_core_def by blast
    ultimately show ?thesis using fresh [of x] by (cases "slab \<le> x \<and> x < slab + k * (HEADER + n)") auto
  qed
  moreover have "chain_ok m (first_free_block h)"
    by (rule chain_cong [of "hp_mem h"]) (use core same in \<open>auto simp: heap_core_def free_blocks_def\<close>)
  moreover have "block_ok m a" if "a \<in># free_blocks h' + N" for a
  proof (cases "a \<in> set os")
    case True
    then obtain i where "a = slab + i * (HEADER + n)" by (auto simp: os)
    then show ?thesis using slab True by (auto simp: block_ok_def m n HEADER_def BIN_STEP_def)
  next
    case False
    then have "a \<in># free_blocks h + N" using that fb by auto
    then show ?thesis using core same unfolding heap_core_def by (auto simp: block_ok_def)
  qed
  moreover have "mb_next (m a) = Linked" if "a \<in># free_blocks h'" for a
    using that core same by (cases "a \<in> set os") (auto simp: fb heap_core_def m)
  ultimately show ?thesis
    using core so same unfolding heap_core_def by (auto simp: h')
qed

text \<open>What every allocating operation achieves: a block of at least \<open>n\<close> bytes out of the lists, or
  nothing but page allocator activity.\<close>

definition alloc_result :: "heap \<Rightarrow> nat multiset \<Rightarrow> nat \<Rightarrow> nat \<Rightarrow> heap \<Rightarrow> bool" where
  "alloc_result h N n p h' \<longleftrightarrow> (\<forall>b\<in>#N. hp_mem h' b = hp_mem h b) \<and> hp_bytes h' = hp_bytes h \<and>
     (if p = 0 then heap_core h' N \<and> (\<exists>p'. h' = h\<lparr>hp_pmm := p'\<rparr>)
      else \<exists>a. p = a + HEADER \<and> heap_core h' (add_mset a N) \<and> n \<le> blk_size h' a \<and> live_ok (hp_mem h') a)"

lemma bin_add_slab_core:
  assumes core: "heap_core h N" and keeps: "reclaim_keeps reclaim (heap_frames h N)" and bin: "bin < BIN_COUNT"
    and k: "bin_add_slab reclaim bin h = (ok, h')"
  shows "heap_core h' N \<and> (\<forall>b\<in>#N. hp_mem h' b = hp_mem h b) \<and> hp_bytes h' = hp_bytes h \<and>
    (if ok then bins h' ! bin \<noteq> [] else \<exists>p'. h' = h\<lparr>hp_pmm := p'\<rparr>)"
proof -
  obtain a h1 where k1: "kernel_pages reclaim BIN_SLAB_PAGES h = (a, h1)" by fastforce
  have "0 < BIN_SLAB_PAGES" by (simp add: BIN_SLAB_PAGES_def)
  from kernel_pages_core [OF core keeps this k1] obtain p' where p': "h1 = h\<lparr>hp_pmm := p'\<rparr>" "heap_core h1 N"
    "a \<noteq> 0 \<longrightarrow> PAGE_SIZE dvd a \<and>
      (\<forall>x. a \<le> x \<and> x < a + BIN_SLAB_PAGES * PAGE_SIZE \<longrightarrow> x \<in> area p' \<and> cov (hp_mem h) (free_blocks h + N) x = 0)" by blast
  show ?thesis
  proof (cases "a = 0")
    case True
    then have "\<not> ok" "h' = h1" using k k1 by (auto simp: bin_add_slab_def Let_def)
    then show ?thesis using p' by auto
  next
    case False
    define n where "n = (bin + 1) * BIN_STEP"
    define q where "q = BIN_SLAB_PAGES * PAGE_SIZE div (n + HEADER)"
    define os where "os = map (\<lambda>i. a + i * (HEADER + n)) [0..<q]"
    have so: "slab_objects a (n + HEADER) (q * (n + HEADER)) [] = os"
      using slab_objects_eq [of "n + HEADER" a q "[]"] by (simp add: os_def HEADER_def add.commute)
    have "bin_add_slab reclaim bin h =
        (True, set_bin bin (os @ bins h1 ! bin) (h1\<lparr>hp_mem := (\<lambda>b. if b \<in> set os then \<lparr>mb_size = n, mb_next = Linked\<rparr> else hp_mem h1 b)\<rparr>))"
      unfolding bin_add_slab_def Let_def n_def [symmetric] q_def [symmetric] k1 prod.case so using False by simp
    then have h': "ok" "h' = set_bin bin (os @ bins h1 ! bin) (h1\<lparr>hp_mem := (\<lambda>b. if b \<in> set os then \<lparr>mb_size = n, mb_next = Linked\<rparr> else hp_mem h1 b)\<rparr>)"
      using k by simp_all
    have fb: "free_blocks h1 = free_blocks h" by (simp add: p'(1) free_blocks_def small_blocks_def)
    have le: "q * (HEADER + n) \<le> BIN_SLAB_PAGES * PAGE_SIZE" by (simp add: q_def add.commute)
    have nle: "n + HEADER \<le> BIN_SLAB_PAGES * PAGE_SIZE"
      using bin by (simp add: n_def HEADER_def BIN_STEP_def BIN_COUNT_def BIN_SLAB_PAGES_def PAGE_SIZE_def)
    then have "0 < q" by (simp add: q_def div_greater_zero_iff HEADER_def)
    then have ne: "os \<noteq> []" by (simp add: os_def)
    have "BIN_STEP dvd a" using p'(3) False dvd_trans [of BIN_STEP PAGE_SIZE a] by (simp add: BIN_STEP_def PAGE_SIZE_def)
    from add_objects [OF p'(2) bin n_def this os_def _ refl h'(2)] p'(3) False le
    have "heap_core h' N \<and> (\<forall>b\<in>#N. hp_mem h' b = hp_mem h1 b)" by (simp add: fb) (simp add: p'(1))
    moreover have "bin < length (bins h1)" using p'(2) bin by (simp add: heap_core_def small_ok_def)
    ultimately show ?thesis using h' ne p'(1) by (auto simp: set_bin_def)
  qed
qed

lemma bin_take_result:
  assumes core: "heap_core h N" and cpu: "cpu < MAX_CPUS" and bin: "bin < BIN_COUNT"
    and t: "bin_take cpu bin h = (a, h1)" and a: "a \<noteq> 0"
  shows "alloc_result h N ((bin + 1) * BIN_STEP) (a + HEADER) (set_next a BLOCK_USED h1)"
proof -
  note s = bin_take_core [OF core cpu bin t]
  note r = take_object [OF core _ _ _ _ _ _ refl, of h1 a]
  show ?thesis using s r a unfolding alloc_result_def by auto
qed

lemma alloc_result_trans:
  assumes "alloc_result h1 N n p h'" and "p \<noteq> 0" and "\<forall>b\<in>#N. hp_mem h1 b = hp_mem h b" and "hp_bytes h1 = hp_bytes h"
  shows "alloc_result h N n p h'"
  using assms by (auto simp: alloc_result_def)

lemma bin_alloc_core:
  assumes core: "heap_core h N" and keeps: "reclaim_keeps reclaim (heap_frames h N)"
    and cpu: "cpu < MAX_CPUS" and bin: "bin < BIN_COUNT"
  shows "\<exists>p h'. bin_alloc_loop reclaim cpu bin h = Some (p, h') \<and> alloc_result h N ((bin + 1) * BIN_STEP) p h'"
proof -
  obtain a h1 where t: "bin_take cpu bin h = (a, h1)" by fastforce
  show ?thesis
  proof (cases "a = 0")
    case False
    then have "bin_alloc_loop reclaim cpu bin h = Some (a + HEADER, set_next a BLOCK_USED h1)"
      by (subst bin_alloc_loop_take) (simp add: t)
    then show ?thesis using bin_take_result [OF core cpu bin t False] by blast
  next
    case True
    then have h1: "h1 = h" using bin_take_core [OF core cpu bin t] by auto
    obtain ok h2 where k: "bin_add_slab reclaim bin h = (ok, h2)" by fastforce
    note s = bin_add_slab_core [OF core keeps bin k]
    have step: "bin_alloc_loop reclaim cpu bin h = (if ok then bin_alloc_loop reclaim cpu bin h2 else Some (0, h2))"
      by (subst bin_alloc_loop_take) (simp add: t True h1 k)
    show ?thesis
    proof (cases ok)
      case False
      then show ?thesis using step s by (auto simp: alloc_result_def)
    next
      case ok: True
      obtain b h3 where t2: "bin_take cpu bin h2 = (b, h3)" by fastforce
      have core2: "heap_core h2 N" using s by simp
      have b: "b \<noteq> 0" using bin_take_core [OF core2 cpu bin t2] s ok by auto
      then have "bin_alloc_loop reclaim cpu bin h2 = Some (b + HEADER, set_next b BLOCK_USED h3)"
        by (subst bin_alloc_loop_take) (simp add: t2)
      moreover have "alloc_result h N ((bin + 1) * BIN_STEP) (b + HEADER) (set_next b BLOCK_USED h3)"
        by (rule alloc_result_trans [OF bin_take_result [OF core2 cpu bin t2 b]]) (use s in auto)
      ultimately show ?thesis using step ok by auto
    qed
  qed
qed

lemma malloc_loop_core:
  assumes core: "heap_core h N" and keeps: "reclaim_keeps reclaim (heap_frames h N)" and n: "BIN_STEP dvd n" "BIN_STEP \<le> n"
  shows "\<exists>p h'. malloc_loop reclaim n 0 h = Some (p, h') \<and> alloc_result h N n p h'"
proof -
  have take: "alloc_result h N n p h'" if "heap_core h N" "heap_take n h = (p, h')" "p \<noteq> 0" for h p h'
    using heap_take_core [OF that(1) n that(2)] that(3) unfolding alloc_result_def live_ok_def by auto
  obtain p h1 where t: "heap_take n h = (p, h1)" by fastforce
  show ?thesis
  proof (cases "p = 0")
    case False
    then have "malloc_loop reclaim n 0 h = Some (p, h1)"
      by (subst malloc_loop.simps) (simp add: t malloc_loop.simps [of reclaim n p])
    then show ?thesis using take [OF core t False] by blast
  next
    case True
    then have h1: "h1 = h" using heap_take_core [OF core n t] by (auto simp: HEADER_def)
    obtain ok h2 where g: "heap_grow reclaim n h = (ok, h2)" by fastforce
    note s = heap_grow_core [OF core keeps g]
    have step: "malloc_loop reclaim n 0 h = (if ok then malloc_loop reclaim n 0 h2 else Some (0, h2))"
      by (subst malloc_loop.simps) (simp add: t True h1 g)
    show ?thesis
    proof (cases ok)
      case False
      then show ?thesis using step s by (auto simp: alloc_result_def)
    next
      case ok: True
      obtain q h3 where t2: "heap_take n h2 = (q, h3)" by fastforce
      have core2: "heap_core h2 N" using s by simp
      have q: "q \<noteq> 0" using heap_take_core [OF core2 n t2] s ok by (auto simp: HEADER_def not_less)
      have "malloc_loop reclaim n 0 h2 = Some (q, h3)"
        by (subst malloc_loop.simps) (simp add: t2 q malloc_loop.simps [of reclaim n q])
      moreover have "alloc_result h N n q h3" by (rule alloc_result_trans [OF take [OF core2 t2 q] q]) (use s in auto)
      ultimately show ?thesis using step ok by auto
    qed
  qed
qed

section \<open>Freeing\<close>

lemma mset_exchange:
  assumes "add_mset a H = T + C" and "S + H = B + C"
  shows "S + T = add_mset a B"
proof -
  have "(S + T) + C = S + add_mset a H" by (simp add: assms(1) ac_simps)
  also have "\<dots> = add_mset a B + C" using assms(2) by (simp add: ac_simps)
  finally show ?thesis by simp
qed

lemma bin_free_core:
  assumes core: "heap_core h (add_mset a N)" and cpu: "cpu < MAX_CPUS" and sz: "blk_size h a \<le> BIN_MAX"
  shows "heap_core (bin_free cpu a h) N \<and> (\<forall>b\<in>#N. hp_mem (bin_free cpu a h) b = hp_mem h b) \<and>
    hp_bytes (bin_free cpu a h) = hp_bytes h \<and> mb_next (hp_mem (bin_free cpu a h) a) = Linked"
proof -
  define bin where "bin = blk_size h a div BIN_STEP - 1"
  define c where "c = caches h ! cpu ! bin"
  define h1 where "h1 = set_next a Linked h"
  define chain where "chain = a # cb_head c"
  have ok: "block_ok (hp_mem h) a" using core by (auto simp: heap_core_def)
  then have sa: "blk_size h a = (bin + 1) * BIN_STEP" and bin: "bin < BIN_COUNT"
    using sz by (auto simp: bin_def block_ok_def BIN_STEP_def BIN_MAX_def BIN_COUNT_def)
  have small: "small_ok h" using core by (simp add: heap_core_def)
  have small1: "small_ok h1" using small by (simp add: h1_def)
  have len: "cpu < length (caches h1)" "bin < length (caches h1 ! cpu)" "bin < length (bins h1)"
    using small cpu bin by (auto simp: small_ok_def h1_def)
  have co: "cache_ok (hp_mem h1) bin c" and bo: "objects_ok (hp_mem h1) bin (bins h1 ! bin)"
    using small1 cpu bin by (auto simp: small_ok_def c_def h1_def)
  then have ch: "objects_ok (hp_mem h1) bin chain"
    using sa by (auto simp: chain_def objects_ok_def cache_ok_def h1_def)
  have lc: "cb_count c = length (cb_head c)" "length (cb_head c) < CACHE_MAX" using co by (auto simp: cache_ok_def)
  have nin: "a \<notin># free_blocks h + N"
  proof -
    have "cov (hp_mem h) (add_mset a (free_blocks h + N)) a \<le> 1" using core_le_one [OF core, of a] by simp
    then show ?thesis using cov_zero_notin [of "hp_mem h" "free_blocks h + N" a] by simp
  qed
  let ?h = "bin_free cpu a h"
  have main: "small_ok ?h \<and> small_blocks ?h = add_mset a (small_blocks h) \<and> hp_mem ?h = hp_mem h1 \<and>
    first_free_block ?h = first_free_block h \<and> hp_pmm ?h = hp_pmm h \<and> hp_bytes ?h = hp_bytes h"
  proof (cases "cb_count c + 1 \<ge> CACHE_MAX")
    case False
    define c' where "c' = \<lparr>cb_head = chain, cb_count = cb_count c + 1\<rparr>"
    have h': "?h = set_cache cpu bin c' h1"
      unfolding bin_free_def Let_def bin_def [symmetric] c_def [symmetric] h1_def [symmetric] chain_def [symmetric] c'_def using False by simp
    have "cache_ok (hp_mem h1) bin c'" using ch lc False by (simp add: cache_ok_def c'_def chain_def)
    then have "small_ok ?h" using small_ok_set_cache [OF small1 _ cpu] by (simp add: h')
    moreover have "small_blocks ?h = add_mset a (small_blocks h)"
      using small_set_cache [OF len(1,2), of c'] by (simp add: h' c'_def chain_def h1_def c_def)
    ultimately show ?thesis by (simp add: h' h1_def)
  next
    case True
    define c' where "c' = \<lparr>cb_head = drop CACHE_BATCH chain, cb_count = cb_count c + 1 - CACHE_BATCH\<rparr>"
    define os where "os = take CACHE_BATCH chain @ bins h1 ! bin"
    have h': "?h = set_bin bin os (set_cache cpu bin c' h1)"
      unfolding bin_free_def Let_def bin_def [symmetric] c_def [symmetric] h1_def [symmetric] chain_def [symmetric] c'_def os_def using True by simp
    have "cache_ok (hp_mem h1) bin c'" "objects_ok (hp_mem h1) bin os"
      using ch lc True bo
      by (auto simp: cache_ok_def c'_def chain_def objects_ok_def os_def CACHE_MAX_def CACHE_BATCH_def dest: in_set_takeD in_set_dropD)
    then have "small_ok ?h" using small_ok_set_bin [OF small_ok_set_cache [OF small1 _ cpu]] by (simp add: h')
    moreover have "small_blocks ?h = add_mset a (small_blocks h)"
    proof -
      have b: "bins (set_cache cpu bin c' h1) ! bin = bins h1 ! bin" "bin < length (bins (set_cache cpu bin c' h1))" using len by auto
      have "mset chain = mset (take CACHE_BATCH chain) + mset (cb_head c')" by (simp add: c'_def flip: mset_append)
      then have "small_blocks (set_cache cpu bin c' h1) + mset (take CACHE_BATCH chain) = add_mset a (small_blocks h)"
        using small_set_cache [OF len(1,2), of c'] by (intro mset_exchange) (simp_all add: chain_def h1_def c_def)
      then show ?thesis
        using small_set_bin [OF b(2), of os] by (simp add: h' b(1) os_def ac_simps)
    qed
    ultimately show ?thesis by (simp add: h' h1_def)
  qed
  have "heap_core ?h N"
  proof (rule core_move [OF core])
    show "free_blocks ?h + N = free_blocks h + add_mset a N" using main by (simp add: free_blocks_def)
    have "free_blocks ?h = add_mset a (free_blocks h)" using main by (simp add: free_blocks_def)
    then show "\<forall>b\<in>#free_blocks ?h. mb_next (hp_mem ?h b) = Linked"
      using core main by (auto simp: heap_core_def h1_def set_next_def)
  qed (use main in \<open>auto simp: h1_def\<close>)
  then show ?thesis using main nin by (auto simp: h1_def set_next_def)
qed

lemma free_pages_frames:
  assumes "pmm_inv p" and "0 < f" and "f + n \<le> total_pages p"
  shows "pmm_inv (free_physical_pages (f * PAGE_SIZE) n p) \<and>
    total_pages (free_physical_pages (f * PAGE_SIZE) n p) = total_pages p \<and>
    frames_free (free_physical_pages (f * PAGE_SIZE) n p) \<subseteq> frames_free p \<union> {f..<f + n}"
  using assms
proof (induction n)
  case 0
  then show ?case by (simp add: free_physical_pages_def)
next
  case (Suc n)
  define q where "q = free_physical_pages (f * PAGE_SIZE) n p"
  have e: "free_physical_pages (f * PAGE_SIZE) (Suc n) p = free_page_locked (f * PAGE_SIZE + n * PAGE_SIZE) q"
    by (simp add: free_physical_pages_def q_def)
  have q: "pmm_inv q" "total_pages q = total_pages p" "frames_free q \<subseteq> frames_free p \<union> {f..<f + n}"
    using Suc by (auto simp: q_def)
  have pg: "f + n = (f * PAGE_SIZE + n * PAGE_SIZE) div PAGE_SIZE"
    by (metis PAGE_SIZE_pos(2) add_mult_distrib nonzero_mult_div_cancel_right)
  have lt: "0 < f + n" "f + n < total_pages q" using Suc.prems q by auto
  show ?case
  proof (cases "sharers q (f + n) = 0")
    case True
    then show ?thesis using free_page_last [OF q(1) pg lt True refl] q by (auto simp: e)
  next
    case False
    then show ?thesis using free_page_shared [OF q(1) pg lt _ refl] q by (auto simp: e)
  qed
qed

lemma large_free_core:
  assumes core: "heap_core h (add_mset a N)" and al: "PAGE_SIZE dvd a" "PAGE_SIZE dvd blk_size h a + HEADER"
    and h': "h' = (set_next a Linked h)\<lparr>hp_pmm := free_kernel_pages (word_of_nat a) ((blk_size h a + HEADER) div PAGE_SIZE) (hp_pmm h)\<rparr>"
  shows "heap_core h' N \<and> (\<forall>b\<in>#N. hp_mem h' b = hp_mem h b)"
proof -
  define n where "n = (blk_size h a + HEADER) div PAGE_SIZE"
  define f where "f = frame_of a"
  have sz: "HEADER + blk_size h a = n * PAGE_SIZE" using al(2) by (simp add: n_def add.commute)
  have po: "pages_ok (hp_pmm h)" using core by (simp add: heap_core_def)
  have ar: "x \<in> area (hp_pmm h)" if "a \<le> x" "x < a + n * PAGE_SIZE" for x
    using core_covered [OF core, of a x] that sz by simp
  have "0 < n" using sz by (cases n) (auto simp: HEADER_def)
  then have aa: "a \<in> area (hp_pmm h)" using ar [of a] by simp
  then have kb: "kbase \<le> a" "a < 2 ^ 64" using area_bounds [OF po] by auto
  have "PAGE_SIZE dvd a - kbase" using al(1) kb(1) by (intro dvd_diff_nat) (simp_all add: kbase_eq PAGE_SIZE_def)
  then have a: "a = kbase + f * PAGE_SIZE" using kb(1) by (simp add: f_def frame_of_def)
  have frames: "f + i \<in> {0<..<total_pages (hp_pmm h)}" if "i < n" for i
  proof -
    have "i * PAGE_SIZE < n * PAGE_SIZE" using that by simp
    then have "a + i * PAGE_SIZE \<in> area (hp_pmm h)" by (intro ar) auto
    moreover have "frame_of (a + i * PAGE_SIZE) = f + i" using frame_of_page [of f "i * PAGE_SIZE"] a by simp
    ultimately show ?thesis by (auto simp: area_def)
  qed
  have f: "0 < f" "f + n \<le> total_pages (hp_pmm h)" using frames [of 0] frames [of "n - 1"] \<open>0 < n\<close> by auto
  have "unat (virt_to_phys (word_of_nat a)) = f * PAGE_SIZE"
  proof -
    have u: "unat (word_of_nat a :: u64) = a" using kb(2) by (intro unat_word_of_nat_id) simp
    then have "DIRECT_MAP_BASE \<le> word_of_nat a" using kb(1) by (simp add: word_le_nat_alt kbase_def)
    then have "unat (virt_to_phys (word_of_nat a)) = unat (word_of_nat a :: u64) - kbase"
      using kb(1) u by (simp add: virt_to_phys_def unat_minus_le kbase_def)
    also have "\<dots> = f * PAGE_SIZE" unfolding u by (simp add: a)
    finally show ?thesis .
  qed
  then have p': "hp_pmm h' = free_physical_pages (f * PAGE_SIZE) n (hp_pmm h)"
    by (simp add: h' free_kernel_pages_def n_def)
  note s = free_pages_frames [OF _ f, folded p']
  have nin: "a \<notin># free_blocks h + N"
  proof -
    have "cov (hp_mem h) (add_mset a (free_blocks h + N)) a \<le> 1" using core_le_one [OF core, of a] by simp
    then show ?thesis using cov_zero_notin [of "hp_mem h" "free_blocks h + N" a] by simp
  qed
  let ?h = "set_next a Linked h"
  have fb: "free_blocks h' = free_blocks h" by (simp add: h' free_blocks_def small_blocks_def)
  have c1: "heap_core ?h (add_mset a N)"
    by (rule core_move [OF core]) (use core nin in \<open>auto simp: heap_core_def free_blocks_def mem_set_next\<close>)
  have "cov (hp_mem h') (free_blocks h' + N) x \<le> of_bool (x \<in> area (hp_pmm h'))" for x
  proof -
    have t: "cov (hp_mem ?h) (free_blocks ?h + add_mset a N) x \<le> of_bool (x \<in> area (hp_pmm ?h))"
      using c1 unfolding heap_core_def by blast
    have fb1: "free_blocks ?h = free_blocks h" by (simp add: free_blocks_def)
    show ?thesis
    proof (cases "a \<le> x \<and> x < a + n * PAGE_SIZE")
      case True
      then have "piece a (blk_size h a) x = 1" using sz by (simp add: piece_def add.assoc)
      then have "cov (hp_mem ?h) (free_blocks h + N) x = 0"
        using core_le_one [OF c1, of x] by (simp add: fb1)
      then show ?thesis unfolding fb by (simp add: h')
    next
      case False
      have "cov (hp_mem ?h) (free_blocks h + N) x \<le> of_bool (x \<in> area (hp_pmm h))" using t by (simp add: fb1)
      moreover have "x \<in> area (hp_pmm h')" if x: "x \<in> area (hp_pmm h)"
      proof -
        have "frame_of x \<notin> {f..<f + n}"
        proof
          assume fx: "frame_of x \<in> {f..<f + n}"
          have "kbase \<le> x" using x by (simp add: area_def)
          then have "frame_of x * PAGE_SIZE \<le> x - kbase" "x - kbase < (frame_of x + 1) * PAGE_SIZE"
            by (simp_all add: frame_of_def dividend_less_div_times)
          moreover have "f * PAGE_SIZE \<le> frame_of x * PAGE_SIZE" "(frame_of x + 1) * PAGE_SIZE \<le> (f + n) * PAGE_SIZE"
            using fx by (simp_all add: mult_le_mono1 del: mult_Suc add_mult_distrib)
          ultimately have "kbase + f * PAGE_SIZE \<le> x" "x < kbase + (f + n) * PAGE_SIZE" using \<open>kbase \<le> x\<close> by linarith+
          then show False using False a by (simp add: add_mult_distrib)
        qed
        then show ?thesis using x s po by (auto simp: area_def pages_ok_def)
      qed
      ultimately have "cov (hp_mem ?h) (free_blocks h + N) x \<le> of_bool (x \<in> area (hp_pmm h'))"
        by (cases "x \<in> area (hp_pmm h)") auto
      then show ?thesis unfolding fb by (simp add: h')
    qed
  qed
  moreover have "small_ok h'" using c1 by (simp add: heap_core_def h' small_ok_def)
  moreover have "pages_ok (hp_pmm h')" using s po by (simp add: pages_ok_def)
  ultimately have "heap_core h' N"
    using c1 unfolding heap_core_def fb by (auto simp: h' free_blocks_def)
  then show ?thesis using nin by (auto simp: h' set_next_def)
qed

section \<open>The operations\<close>

lemma malloc_core:
  assumes core: "heap_core h N" and keeps: "reclaim_keeps reclaim (heap_frames h N)" and cpu: "cpu < MAX_CPUS"
  shows "\<exists>p h'. malloc reclaim cpu n h = Some (p, h') \<and> alloc_result h N n p h'"
proof (cases "n = 0 \<or> n > 2 ^ 40")
  case True
  then have "malloc reclaim cpu n h = Some (0, h\<lparr>hp_pmm := hp_pmm h\<rparr>)" by (auto simp: malloc_def)
  then show ?thesis using core by (auto simp: alloc_result_def intro!: exI [of _ "hp_pmm h"])
next
  case False
  define m where "m = (n + BIN_STEP - 1) div BIN_STEP * BIN_STEP"
  have m: "BIN_STEP dvd m" "BIN_STEP \<le> m" "n \<le> m" using False by (auto simp: m_def BIN_STEP_def)
  define first where "first = (if m \<le> BIN_MAX then bin_alloc reclaim cpu m h
      else if m \<ge> LARGE_ALLOC_THRESHOLD then Some (large_alloc reclaim m h) else Some (0, h))"
  have "\<exists>p h1. first = Some (p, h1) \<and> alloc_result h N m p h1"
  proof -
    consider "m \<le> BIN_MAX" | "\<not> m \<le> BIN_MAX" "m \<ge> LARGE_ALLOC_THRESHOLD" | "\<not> m \<le> BIN_MAX" "\<not> m \<ge> LARGE_ALLOC_THRESHOLD" by blast
    then show ?thesis
    proof cases
      case 1
      have b: "m div BIN_STEP - 1 < BIN_COUNT" "(m div BIN_STEP - 1 + 1) * BIN_STEP = m"
        using 1 m(1,2) by (auto simp: BIN_MAX_def BIN_STEP_def BIN_COUNT_def)
      from bin_alloc_core [OF core keeps cpu b(1)] show ?thesis
        using 1 by (simp only: first_def bin_alloc_def b(2) if_True)
    next
      case 2
      obtain p h1 where l: "large_alloc reclaim m h = (p, h1)" by fastforce
      then show ?thesis using large_alloc_core [OF core keeps l] 2 by (simp add: first_def alloc_result_def)
    next
      case 3
      then show ?thesis using core by (auto simp: first_def alloc_result_def intro!: exI [of _ "hp_pmm h"])
    qed
  qed
  then obtain p h1 where f: "first = Some (p, h1)" "alloc_result h N m p h1" by blast
  have loop: "malloc reclaim cpu n h = malloc_loop reclaim m p h1"
    unfolding malloc_def Let_def m_def [symmetric] first_def [symmetric] f(1) using False by simp
  have weaken: "alloc_result h N m q h2 \<Longrightarrow> alloc_result h N n q h2" for q h2
    using m(3) unfolding alloc_result_def by (auto intro: order_trans)
  show ?thesis
  proof (cases "p = 0")
    case False
    then have "malloc reclaim cpu n h = Some (p, h1)" by (simp add: loop malloc_loop.simps)
    then show ?thesis using weaken [OF f(2)] by blast
  next
    case True
    then obtain p' where h1: "h1 = h\<lparr>hp_pmm := p'\<rparr>" "heap_core h1 N" using f(2) by (auto simp: alloc_result_def)
    have "reclaim_keeps reclaim (heap_frames h1 N)" using keeps by (simp add: h1(1))
    from malloc_loop_core [OF h1(2) this m(1,2)] obtain q h2 where q: "malloc_loop reclaim m 0 h1 = Some (q, h2)" "alloc_result h1 N m q h2" by blast
    have "alloc_result h N m q h2" using q(2) h1(1) by (auto simp: alloc_result_def split: if_splits)
    then show ?thesis using weaken q(1) loop True by auto
  qed
qed

lemma live_ok_same: "hp_mem h' a = hp_mem h a \<Longrightarrow> live_ok (hp_mem h') a = live_ok (hp_mem h) a"
  by (simp add: live_ok_def)

lemma heap_inv_live:
  assumes inv: "heap_inv h live" and a: "a \<in> set live"
  shows "heap_core h (add_mset a (mset (remove1 a live)))" "a \<notin> set (remove1 a live)" "live_ok (hp_mem h) a"
proof -
  have m: "mset live = add_mset a (mset (remove1 a live))" using a by simp
  then show core: "heap_core h (add_mset a (mset (remove1 a live)))" using inv by (simp add: heap_inv_def)
  have "cov (hp_mem h) (add_mset a (free_blocks h + mset (remove1 a live))) a \<le> 1" using core_le_one [OF core, of a] by simp
  then have "cov (hp_mem h) (free_blocks h + mset (remove1 a live)) a = 0" by simp
  then have "a \<notin># free_blocks h + mset (remove1 a live)" by (rule cov_zero_notin)
  then show "a \<notin> set (remove1 a live)" by (metis UnCI set_mset_mset set_mset_union)
  show "live_ok (hp_mem h) a" using inv a by (simp add: heap_inv_def)
qed

lemma free_live:
  assumes inv: "heap_inv h live" and a: "a \<in> set live" and cpu: "cpu < MAX_CPUS"
  shows "heap_inv (free cpu (a + HEADER) h) (remove1 a live)" "mb_next (hp_mem (free cpu (a + HEADER) h) a) = Linked"
    "hp_bytes (free cpu (a + HEADER) h) = hp_bytes h" "\<forall>b\<in>set (remove1 a live). hp_mem (free cpu (a + HEADER) h) b = hp_mem h b"
proof -
  let ?h = "free cpu (a + HEADER) h" and ?N = "mset (remove1 a live)"
  note l = heap_inv_live [OF inv a]
  have "heap_core ?h ?N \<and> (\<forall>b\<in>#?N. hp_mem ?h b = hp_mem h b) \<and> hp_bytes ?h = hp_bytes h \<and> mb_next (hp_mem ?h a) = Linked"
  proof (cases "mb_next (hp_mem h a)")
    case Linked
    then show ?thesis using l(3) by (simp add: live_ok_def)
  next
    case BLOCK_LARGE
    then have h': "?h = (set_next a Linked h)\<lparr>hp_pmm := free_kernel_pages (word_of_nat a) ((blk_size h a + HEADER) div PAGE_SIZE) (hp_pmm h)\<rparr>"
      by (simp add: free_def Let_def HEADER_def)
    from l(3) BLOCK_LARGE have "PAGE_SIZE dvd a" "PAGE_SIZE dvd blk_size h a + HEADER" by (auto simp: live_ok_def)
    from large_free_core [OF l(1) this h'] show ?thesis unfolding h' by (simp add: mem_set_next)
  next
    case BLOCK_USED
    show ?thesis
    proof (cases "blk_size h a \<le> BIN_MAX")
      case True
      then have "?h = bin_free cpu a h" using BLOCK_USED by (simp add: free_def HEADER_def)
      then show ?thesis using bin_free_core [OF l(1) cpu True] by simp
    next
      case False
      then have "?h = insert_free_locked a h" using BLOCK_USED by (simp add: free_def HEADER_def)
      then show ?thesis using insert_free_core [OF l(1)] by simp
    qed
  qed
  then have core: "heap_core ?h ?N" and same: "\<And>b. b \<in> set (remove1 a live) \<Longrightarrow> hp_mem ?h b = hp_mem h b"
    and rest: "hp_bytes ?h = hp_bytes h" "mb_next (hp_mem ?h a) = Linked" by (auto simp del: mset_remove1)
  have "live_ok (hp_mem ?h) b" if "b \<in> set (remove1 a live)" for b
    using inv that live_ok_same [OF same [OF that]] set_remove1_subset [of a live] by (auto simp: heap_inv_def)
  then show "heap_inv ?h (remove1 a live)" using core by (simp add: heap_inv_def)
  show "mb_next (hp_mem ?h a) = Linked" "hp_bytes ?h = hp_bytes h" "\<forall>b\<in>set (remove1 a live). hp_mem ?h b = hp_mem h b"
    using rest same by auto
qed

lemma live_disjoint:
  assumes "heap_core h (add_mset a N)" and "b \<in># N"
  shows "a + HEADER + blk_size h a \<le> b \<or> b + HEADER + blk_size h b \<le> a"
proof -
  obtain M where M: "N = add_mset b M" using assms(2) by (metis mset_add)
  have le: "cov (hp_mem h) (add_mset a (add_mset b (free_blocks h + M))) x \<le> 1" for x
    using core_le_one [OF assms(1), of x] by (simp add: M)
  have "a \<noteq> b" using le [of a] by auto
  moreover have "b < a \<Longrightarrow> b + HEADER + blk_size h b \<le> a" using cov_order [of "hp_mem h" b a "free_blocks h + M"] le [of a] by (simp add: add_mset_commute)
  moreover have "a < b \<Longrightarrow> a + HEADER + blk_size h a \<le> b" using cov_order le by blast
  ultimately show ?thesis by force
qed

lemma malloc_live:
  assumes inv: "heap_inv h live" and keeps: "reclaim_keeps reclaim (heap_frames h (mset live))" and cpu: "cpu < MAX_CPUS"
  shows "\<exists>p h'. malloc reclaim cpu n h = Some (p, h') \<and> hp_bytes h' = hp_bytes h \<and> (\<forall>b\<in>set live. hp_mem h' b = hp_mem h b) \<and>
    (if p = 0 then heap_inv h' live
     else \<exists>a. p = a + HEADER \<and> heap_inv h' (a # live) \<and> n \<le> blk_size h' a)"
proof -
  have core: "heap_core h (mset live)" using inv by (simp add: heap_inv_def)
  obtain p h' where m: "malloc reclaim cpu n h = Some (p, h')" and r: "alloc_result h (mset live) n p h'"
    using malloc_core [OF core keeps cpu] by blast
  have same: "\<And>b. b \<in> set live \<Longrightarrow> hp_mem h' b = hp_mem h b" using r by (simp add: alloc_result_def)
  then have "\<forall>b\<in>set live. live_ok (hp_mem h') b" using inv by (simp add: heap_inv_def live_ok_def)
  then show ?thesis
    using m r same unfolding alloc_result_def heap_inv_def by (intro exI [of _ p] exI [of _ h']) auto
qed

text \<open>Writing bytes does not concern the allocator.\<close>

lemma core_bytes [simp]: "heap_core (h\<lparr>hp_bytes := b\<rparr>) N = heap_core h N"
  by (simp add: heap_core_def small_ok_def free_blocks_def small_blocks_def)

lemma inv_bytes [simp]: "heap_inv (h\<lparr>hp_bytes := b\<rparr>) live = heap_inv h live"
  by (simp add: heap_inv_def)

lemma realloc_live:
  assumes inv: "heap_inv h live" and keeps: "reclaim_keeps reclaim (heap_frames h (mset live))" and cpu: "cpu < MAX_CPUS"
    and a: "a \<in> set live" and n: "0 < n"
  shows "\<exists>q h'. realloc reclaim cpu (a + HEADER) n h = Some (q, h') \<and>
    (\<forall>c\<in>set (remove1 a live). hp_mem h' c = hp_mem h c \<and> (\<forall>i<blk_size h c. hp_bytes h' (c + HEADER + i) = hp_bytes h (c + HEADER + i))) \<and>
    (if q = 0 then heap_inv h' live \<and> hp_bytes h' = hp_bytes h
     else \<exists>b. q = b + HEADER \<and> heap_inv h' (b # remove1 a live) \<and> n \<le> blk_size h' b \<and>
       (\<forall>i<blk_size h a. hp_bytes h' (q + i) = hp_bytes h (a + HEADER + i)))"
proof -
  note l = heap_inv_live [OF inv a]
  have nl: "\<not> (mb_next (hp_mem h a) \<noteq> BLOCK_USED \<and> mb_next (hp_mem h a) \<noteq> BLOCK_LARGE)" using l(3) by (auto simp: live_ok_def)
  show ?thesis
  proof (cases "n \<le> blk_size h a")
    case True
    then have r: "realloc reclaim cpu (a + HEADER) n h = Some (a + HEADER, h)"
      using nl n by (auto simp: realloc_def Let_def HEADER_def)
    have "heap_inv h (a # remove1 a live)" using inv a set_remove1_subset [of a live] by (auto simp: heap_inv_def)
    then show ?thesis using r True by (auto simp: HEADER_def)
  next
    case False
    obtain p h1 where m: "malloc reclaim cpu n h = Some (p, h1)" "hp_bytes h1 = hp_bytes h" "\<forall>b\<in>set live. hp_mem h1 b = hp_mem h b"
        and p: "if p = 0 then heap_inv h1 live else \<exists>b. p = b + HEADER \<and> heap_inv h1 (b # live) \<and> n \<le> blk_size h1 b"
      using malloc_live [OF inv keeps cpu, of n] by blast
    define h2 where "h2 = h1\<lparr>hp_bytes := memcpy p (a + HEADER) (blk_size h a) (hp_bytes h1)\<rparr>"
    have r: "realloc reclaim cpu (a + HEADER) n h = Some (p, if p \<noteq> 0 then free cpu (a + HEADER) h2 else h1)"
      using nl n False m(1) by (auto simp: realloc_def Let_def HEADER_def h2_def)
    have sub: "set (remove1 a live) \<subseteq> set live" by (rule set_remove1_subset)
    show ?thesis
    proof (cases "p = 0")
      case True
      then show ?thesis using r m p sub by auto
    next
      case p0: False
      then obtain b where b: "p = b + HEADER" "heap_inv h1 (b # live)" "n \<le> blk_size h1 b" using p by auto
      have core1: "heap_core h1 (add_mset b (mset live))" using b(2) by (simp add: heap_inv_def)
      have dis: "b + HEADER + blk_size h1 b \<le> c \<or> c + HEADER + blk_size h c \<le> b" if "c \<in> set live" for c
        using live_disjoint [OF core1, of c] m(3) that by auto
      have "apart p (a + HEADER) (blk_size h a)" using dis [OF a] False b(1,3) by (auto simp: apart_def)
      then have by2: "hp_bytes h2 = copied p (a + HEADER) (blk_size h a) (hp_bytes h)"
        by (simp add: h2_def m(2) memcpy_copied)
      have inv2: "heap_inv h2 (b # live)" using b(2) by (simp add: h2_def)
      have ab: "a \<noteq> b" using dis [OF a] by (auto simp: HEADER_def)
      note f = free_live [OF inv2 _ cpu, of a]
      let ?h = "free cpu (a + HEADER) h2"
      have f': "heap_inv ?h (b # remove1 a live)" "hp_bytes ?h = hp_bytes h2" "\<forall>c\<in>set (b # remove1 a live). hp_mem ?h c = hp_mem h2 c"
        using f a ab by auto
      have "\<forall>c\<in>set (remove1 a live). hp_mem ?h c = hp_mem h c" using f'(3) m(3) sub by (auto simp: h2_def)
      moreover have "hp_bytes ?h (c + HEADER + i) = hp_bytes h (c + HEADER + i)" if "c \<in> set live" "i < blk_size h c" for c i
        using dis [OF that(1)] that(2) False b(1,3) by (auto simp: f'(2) by2 copied_def)
      moreover have "n \<le> blk_size ?h b" using f'(3) b(3) by (simp add: h2_def)
      moreover have "\<forall>i<blk_size h a. hp_bytes ?h (p + i) = hp_bytes h (a + HEADER + i)" by (simp add: f'(2) by2 copied_def)
      ultimately show ?thesis using r f'(1) p0 b(1) sub by auto
    qed
  qed
qed

section \<open>Initialisation\<close>

lemma empty_core:
  assumes "pages_ok p"
  shows "heap_core \<lparr>hp_mem = m, first_free_block = [], bins = replicate BIN_COUNT [],
    caches = replicate MAX_CPUS (replicate BIN_COUNT \<lparr>cb_head = [], cb_count = 0\<rparr>), hp_pmm = p, hp_bytes = b\<rparr> {#}"
proof -
  let ?h = "\<lparr>hp_mem = m, first_free_block = [], bins = replicate BIN_COUNT [],
    caches = replicate MAX_CPUS (replicate BIN_COUNT \<lparr>cb_head = [], cb_count = 0\<rparr>), hp_pmm = p, hp_bytes = b\<rparr>"
  have "small_blocks ?h = {#}" by (auto simp: small_blocks_def)
  then have "free_blocks ?h = {#}" by (simp add: free_blocks_def)
  then show ?thesis using assms
    by (auto simp: heap_core_def small_ok_def objects_ok_def cache_ok_def chain_ok_def CACHE_MAX_def)
qed

text \<open>After \<^verbatim>\<open>memory_initialize\<close> the heap has one free block of the initial size and nothing is allocated.\<close>

lemma memory_initialize_heap:
  assumes "memory_initialize reclaim kernel_end regions m0 b0 = Done h" and "total_pages (hp_pmm h) \<le> 2 ^ 35"
    and "reclaim_keeps reclaim {}"
  shows "heap_inv h []" "\<exists>a\<in>set (first_free_block h). HEAP_INITIAL_SIZE - HEADER \<le> blk_size h a"
proof -
  obtain p where p: "pmm_initialize kernel_end regions = Done p" using assms(1) by (auto simp: memory_initialize_def bind_run_Done)
  have pi: "pmm_inv p" using pmm_initialize_spec [OF p] by blast
  define h0 where "h0 = \<lparr>hp_mem = m0, first_free_block = [], bins = replicate BIN_COUNT [],
    caches = replicate MAX_CPUS (replicate BIN_COUNT \<lparr>cb_head = [], cb_count = 0\<rparr>), hp_pmm = p, hp_bytes = b0\<rparr>"
  have a: "heap_add_chunk reclaim HEAP_INITIAL_SIZE h0 = (True, h)"
    using assms(1) p by (auto simp: memory_initialize_def h0_def Let_def split: prod.splits if_splits)
  obtain a h1 where k: "kernel_pages reclaim (HEAP_INITIAL_SIZE div PAGE_SIZE) h0 = (a, h1)" by fastforce
  have pages: "0 < HEAP_INITIAL_SIZE div PAGE_SIZE" by (simp add: HEAP_INITIAL_SIZE_def PAGE_SIZE_def)
  have "total_pages (hp_pmm h) = total_pages (hp_pmm h1)"
    using a k by (auto simp: heap_add_chunk_def set_size_def split: if_splits)
  moreover have "total_pages (hp_pmm h1) = total_pages p"
  proof -
    obtain b q where b: "alloc_physical_pages reclaim DIRECT_MAP_BASE (HEAP_INITIAL_SIZE div PAGE_SIZE) p = (b, q)" by fastforce
    have "total_pages q = total_pages p" using alloc_physical_pages_frames [OF pi pages _ assms(3) b] by simp
    moreover have "hp_pmm h1 = q" using k b by (auto simp: kernel_pages_def alloc_kernel_pages_def h0_def)
    ultimately show ?thesis by simp
  qed
  ultimately have "pages_ok p" using assms(2) pi by (simp add: pages_ok_def)
  then have core: "heap_core h0 {#}" unfolding h0_def by (rule empty_core)
  have fb: "free_blocks h0 = {#}" by (simp add: free_blocks_def small_blocks_def h0_def)
  have "reclaim_keeps reclaim (heap_frames h0 {#})" using assms(3) by (simp add: heap_frames_def fb)
  from heap_add_chunk_core [OF core this _ _ a]
  have "heap_core h {#} \<and> (\<exists>a\<in>set (first_free_block h). HEAP_INITIAL_SIZE - HEADER \<le> blk_size h a)"
    by (simp add: HEAP_INITIAL_SIZE_def PAGE_SIZE_def)
  then show "heap_inv h []" "\<exists>a\<in>set (first_free_block h). HEAP_INITIAL_SIZE - HEADER \<le> blk_size h a"
    by (auto simp: heap_inv_def)
qed

section \<open>The heap as a state machine\<close>

text \<open>One step of the system, seen from the heap: an allocation or release by some processor, a write
  by the owner of a block, or page allocator activity of another component, which leaves the frames
  of the heap alone. The second component lists the blocks handed out.\<close>

inductive heap_step :: "heap \<times> nat list \<Rightarrow> heap \<times> nat list \<Rightarrow> bool" where
  step_malloc: "cpu < MAX_CPUS \<Longrightarrow> reclaim_keeps reclaim (heap_frames h (mset live)) \<Longrightarrow>
    malloc reclaim cpu n h = Some (p, h') \<Longrightarrow> heap_step (h, live) (h', if p = 0 then live else (p - HEADER) # live)"
| step_free: "cpu < MAX_CPUS \<Longrightarrow> a \<in> set live \<Longrightarrow> heap_step (h, live) (free cpu (a + HEADER) h, remove1 a live)"
| step_realloc: "cpu < MAX_CPUS \<Longrightarrow> reclaim_keeps reclaim (heap_frames h (mset live)) \<Longrightarrow> a \<in> set live \<Longrightarrow> 0 < n \<Longrightarrow>
    realloc reclaim cpu (a + HEADER) n h = Some (p, h') \<Longrightarrow>
    heap_step (h, live) (h', if p = 0 then live else (p - HEADER) # remove1 a live)"
| step_write: "heap_step (h, live) (h\<lparr>hp_bytes := b\<rparr>, live)"
| step_pages: "pmm_inv p \<Longrightarrow> total_pages p = total_pages (hp_pmm h) \<Longrightarrow> heap_frames h (mset live) \<inter> frames_free p = {} \<Longrightarrow>
    heap_step (h, live) (h\<lparr>hp_pmm := p\<rparr>, live)"

lemma other_pages:
  assumes inv: "heap_inv h live" and p: "pmm_inv p" "total_pages p = total_pages (hp_pmm h)" "heap_frames h (mset live) \<inter> frames_free p = {}"
  shows "heap_inv (h\<lparr>hp_pmm := p\<rparr>) live"
proof -
  have core: "heap_core h (mset live)" using inv by (simp add: heap_inv_def)
  let ?h = "h\<lparr>hp_pmm := p\<rparr>"
  have fb: "free_blocks ?h = free_blocks h" by (simp add: free_blocks_def small_blocks_def)
  have "cov (hp_mem h) (free_blocks h + mset live) x \<le> of_bool (x \<in> area p)" for x
  proof (cases "0 < cov (hp_mem h) (free_blocks h + mset live) x")
    case True
    then have "frame_of x \<notin> frames_free p" using p(3) by (auto simp: heap_frames_def)
    moreover have "cov (hp_mem h) (free_blocks h + mset live) x \<le> of_bool (x \<in> area (hp_pmm h))" using core unfolding heap_core_def by blast
    then have "x \<in> area (hp_pmm h)" using True by (cases "x \<in> area (hp_pmm h)") auto
    ultimately have "x \<in> area p" using p(2) by (auto simp: area_def)
    then show ?thesis using core_le_one [OF core, of x] by simp
  qed simp
  then have "heap_core ?h (mset live)"
    using core p unfolding heap_core_def fb by (auto simp: pages_ok_def small_ok_def)
  then show ?thesis using inv by (simp add: heap_inv_def)
qed

lemma heap_step_inv:
  assumes "heap_step (h, live) (h', live')" and inv: "heap_inv h live"
  shows "heap_inv h' live'"
  using assms(1)
proof (cases rule: heap_step.cases)
  case (step_malloc cpu reclaim n p)
  then show ?thesis using malloc_live [OF inv step_malloc(3) step_malloc(2), of n] by (auto split: if_splits)
next
  case (step_free cpu a)
  then show ?thesis using free_live [OF inv] by blast
next
  case (step_realloc cpu reclaim a n p)
  then show ?thesis using realloc_live [OF inv step_realloc(3) step_realloc(2) step_realloc(4,5)] by (auto split: if_splits)
next
  case (step_write b)
  then show ?thesis using inv by simp
next
  case (step_pages p)
  then show ?thesis using other_pages [OF inv] by blast
qed

lemma heap_reachable_inv:
  "heap_step\<^sup>*\<^sup>* s t \<Longrightarrow> heap_inv (fst s) (snd s) \<Longrightarrow> heap_inv (fst t) (snd t)"
proof (induction rule: rtranclp_induct)
  case (step t u)
  then show ?case using heap_step_inv [of "fst t" "snd t" "fst u" "snd u"] by simp
qed simp

section \<open>An example heap\<close>

text \<open>One free block of a page in frame 1 of a machine with 64 frames, all taken.\<close>

definition example_frames :: pmm where
  "example_frames = \<lparr>physical_pages = [- 1], shared_refs = replicate 64 0, total_pages = 64, total_words = 1,
     low_words = 1, boot_words = 1, usable_pages = 0, low_hint = 0, high_hint = 1, usable = []\<rparr>"

definition example_heap :: heap where
  "example_heap = \<lparr>hp_mem = (\<lambda>a. \<lparr>mb_size = PAGE_SIZE - HEADER, mb_next = Linked\<rparr>), first_free_block = [kbase + PAGE_SIZE],
     bins = replicate BIN_COUNT [], caches = replicate MAX_CPUS (replicate BIN_COUNT \<lparr>cb_head = [], cb_count = 0\<rparr>),
     hp_pmm = example_frames, hp_bytes = (\<lambda>a. 0)\<rparr>"

definition no_reclaim :: reclaim where
  "no_reclaim n p = (0, p)"

lemma example_frames_ok: "pages_ok example_frames" "frames_free example_frames = {}"
proof -
  have "TEST_BIT [- 1] pg" if "pg < 64" for pg using that by (intro full_word) simp
  then show f: "frames_free example_frames = {}" by (auto simp: frames_free_def example_frames_def)
  show "pages_ok example_frames" unfolding pages_ok_def pmm_inv_def f by (simp add: example_frames_def)
qed

lemma example_heap_inv: "heap_inv example_heap []"
proof -
  have "small_blocks example_heap = {#}" by (auto simp: small_blocks_def example_heap_def)
  then have fb: "free_blocks example_heap = {#kbase + PAGE_SIZE#}" by (simp add: free_blocks_def example_heap_def)
  have "piece (kbase + PAGE_SIZE) (PAGE_SIZE - HEADER) x \<le> of_bool (x \<in> area example_frames)" for x
  proof (cases "kbase + PAGE_SIZE \<le> x \<and> x < kbase + PAGE_SIZE + PAGE_SIZE")
    case True
    then have "(x - kbase) div PAGE_SIZE = 1" by (intro div_nat_eqI) auto
    then have "x \<in> area example_frames" using True by (auto simp: area_def frame_of_def example_frames_ok(2)) (simp add: example_frames_def)
    then show ?thesis by (simp add: piece_def)
  next
    case False
    then show ?thesis by (auto simp: piece_def PAGE_SIZE_def HEADER_def)
  qed
  then show ?thesis
    unfolding heap_inv_def heap_core_def fb using example_frames_ok(1)
    by (auto simp: example_heap_def small_ok_def objects_ok_def cache_ok_def chain_ok_def CACHE_MAX_def block_ok_def
        BIN_STEP_def PAGE_SIZE_def HEADER_def kbase_eq)
qed

lemma no_reclaim_keeps: "reclaim_keeps no_reclaim F"
  by (simp add: reclaim_keeps_def no_reclaim_def)

lemma example_malloc: "\<exists>h. malloc no_reclaim 0 2000 example_heap = Some (kbase + PAGE_SIZE + HEADER, h)"
proof -
  have "heap_find example_heap 2000 [] (first_free_block example_heap) = Some ([], kbase + PAGE_SIZE, [])"
    by (simp add: example_heap_def PAGE_SIZE_def HEADER_def)
  then have "fst (heap_take 2000 example_heap) = kbase + PAGE_SIZE + HEADER"
    by (simp add: heap_take_def Let_def case_prod_unfold)
  then obtain h where h: "heap_take 2000 example_heap = (kbase + PAGE_SIZE + HEADER, h)"
    by (metis prod.collapse)
  have "(2000 + BIN_STEP - 1) div BIN_STEP * BIN_STEP = 2000" "\<not> 2000 \<le> BIN_MAX" "\<not> LARGE_ALLOC_THRESHOLD \<le> 2000"
    by (simp_all add: BIN_STEP_def BIN_MAX_def BIN_COUNT_def LARGE_ALLOC_THRESHOLD_def)
  then have "malloc no_reclaim 0 2000 example_heap = malloc_loop no_reclaim 2000 0 example_heap"
    unfolding malloc_def Let_def by simp
  also have "\<dots> = Some (kbase + PAGE_SIZE + HEADER, h)"
    by (subst malloc_loop.simps) (simp add: h malloc_loop.simps [of no_reclaim 2000 "kbase + PAGE_SIZE + HEADER"])
  finally show ?thesis by blast
qed

lemma distinct_by_remove1: "(\<And>a. a \<in> set xs \<Longrightarrow> a \<notin> set (remove1 a xs)) \<Longrightarrow> distinct xs"
proof (induction xs)
  case (Cons x xs)
  have "x \<notin> set xs" using Cons.prems [of x] by simp
  moreover have "a \<notin> set (remove1 a xs)" if "a \<in> set xs" for a using Cons.prems [of a] that calculation by (auto split: if_splits)
  ultimately show ?case using Cons.IH by simp
qed simp

section \<open>Properties\<close>

text \<open>C6: allocation. From every consistent heap and on every processor \<^verbatim>\<open>malloc\<close> returns (its loops end).
  It either fails, changing no block, or returns a 16-byte aligned block of at least the size asked
  for that overlaps no block handed out and lies in taken frames; the blocks handed out before keep
  their headers and their bytes, and the heap stays consistent: all blocks disjoint, the free list
  sorted and coalesced, bins and caches holding objects of their size. The page cache, which the page
  allocator may ask for memory, must not free frames of the heap.\<close>

theorem malloc_correct:
  assumes "heap_inv h live" and "reclaim_keeps reclaim (heap_frames h (mset live))" and "cpu < MAX_CPUS"
  shows "\<exists>p h'. malloc reclaim cpu n h = Some (p, h') \<and> hp_bytes h' = hp_bytes h \<and> (\<forall>b\<in>set live. hp_mem h' b = hp_mem h b) \<and>
    (if p = 0 then heap_inv h' live
     else HEADER \<le> p \<and> BIN_STEP dvd p \<and> n \<le> blk_size h' (p - HEADER) \<and> heap_inv h' ((p - HEADER) # live) \<and>
       (\<forall>b\<in>set live. p + blk_size h' (p - HEADER) \<le> b \<or> b + HEADER + blk_size h' b \<le> p - HEADER) \<and>
       {p - HEADER..<p + blk_size h' (p - HEADER)} \<subseteq> area (hp_pmm h'))"
proof -
  obtain p h' where m: "malloc reclaim cpu n h = Some (p, h')" "hp_bytes h' = hp_bytes h" "\<forall>b\<in>set live. hp_mem h' b = hp_mem h b"
      and p: "if p = 0 then heap_inv h' live else \<exists>a. p = a + HEADER \<and> heap_inv h' (a # live) \<and> n \<le> blk_size h' a"
    using malloc_live [OF assms] by blast
  show ?thesis
  proof (cases "p = 0")
    case True
    then show ?thesis using m p by auto
  next
    case False
    then obtain a where a: "p = a + HEADER" "heap_inv h' (a # live)" "n \<le> blk_size h' a" using p by auto
    have core: "heap_core h' (add_mset a (mset live))" using a(2) by (simp add: heap_inv_def)
    have "block_ok (hp_mem h') a" using core by (auto simp: heap_core_def)
    then have "BIN_STEP dvd p" by (simp add: a(1) block_ok_def BIN_STEP_def HEADER_def)
    moreover have "{a..<a + HEADER + blk_size h' a} \<subseteq> area (hp_pmm h')" using core_covered [OF core, of a] by auto
    ultimately show ?thesis using m a live_disjoint [OF core] False by (intro exI [of _ p] exI [of _ h']) auto
  qed
qed

theorem malloc_correct_witness:
  "\<exists>p h'. malloc no_reclaim 0 2000 example_heap = Some (p, h') \<and> p = kbase + PAGE_SIZE + HEADER \<and>
    2000 \<le> blk_size h' (p - HEADER) \<and> heap_inv h' [p - HEADER]"
proof -
  have "0 < MAX_CPUS" by (simp add: MAX_CPUS_def)
  from malloc_correct [OF example_heap_inv no_reclaim_keeps this, of 2000] example_malloc show ?thesis
    by (auto split: if_splits)
qed

text \<open>C15: release. Freeing a block that is handed out keeps the heap consistent without it, whichever
  way the block was allocated, and changes no other block; freeing it a second time, or freeing any
  block the allocator holds in its lists, does nothing.\<close>

theorem free_correct:
  assumes "heap_inv h live" and "a \<in> set live" and "cpu < MAX_CPUS"
  shows "heap_inv (free cpu (a + HEADER) h) (remove1 a live) \<and> hp_bytes (free cpu (a + HEADER) h) = hp_bytes h \<and>
    (\<forall>b\<in>set (remove1 a live). hp_mem (free cpu (a + HEADER) h) b = hp_mem h b) \<and>
    free cpu' (a + HEADER) (free cpu (a + HEADER) h) = free cpu (a + HEADER) h \<and>
    (\<forall>b\<in>#free_blocks h. free cpu (b + HEADER) h = h)"
proof -
  have "free cpu' (a + HEADER) (free cpu (a + HEADER) h) = free cpu (a + HEADER) h"
    using free_live(2) [OF assms] by (simp add: free_def Let_def)
  moreover have "free cpu (b + HEADER) h = h" if "b \<in># free_blocks h" for b
    using assms(1) that by (simp add: heap_inv_def heap_core_def free_def Let_def)
  ultimately show ?thesis using free_live [OF assms] by auto
qed

theorem free_correct_witness:
  "\<exists>h'. malloc no_reclaim 0 2000 example_heap = Some (kbase + PAGE_SIZE + HEADER, h') \<and>
    heap_inv (free 3 (kbase + PAGE_SIZE + HEADER) h') []"
proof -
  have cpu: "0 < MAX_CPUS" "3 < MAX_CPUS" by (simp_all add: MAX_CPUS_def)
  obtain h where h: "malloc no_reclaim 0 2000 example_heap = Some (kbase + PAGE_SIZE + HEADER, h)" using example_malloc by blast
  then have inv: "heap_inv h [kbase + PAGE_SIZE]"
    using malloc_live [OF example_heap_inv no_reclaim_keeps cpu(1), of 2000] by (auto split: if_splits)
  show ?thesis using free_correct [OF inv _ cpu(2), of "kbase + PAGE_SIZE"] h by auto
qed

text \<open>C14: \<^verbatim>\<open>realloc\<close> of a block that is handed out, to a size other than 0. It returns; on failure nothing
  changes; otherwise the block returned replaces the old one, is large enough, holds the old bytes,
  and no other block changes.\<close>

theorem realloc_correct:
  assumes "heap_inv h live" and "reclaim_keeps reclaim (heap_frames h (mset live))" and "cpu < MAX_CPUS"
    and "a \<in> set live" and "0 < n"
  shows "\<exists>q h'. realloc reclaim cpu (a + HEADER) n h = Some (q, h') \<and>
    (\<forall>c\<in>set (remove1 a live). hp_mem h' c = hp_mem h c \<and> (\<forall>i<blk_size h c. hp_bytes h' (c + HEADER + i) = hp_bytes h (c + HEADER + i))) \<and>
    (if q = 0 then heap_inv h' live \<and> hp_bytes h' = hp_bytes h
     else \<exists>b. q = b + HEADER \<and> heap_inv h' (b # remove1 a live) \<and> n \<le> blk_size h' b \<and>
       (\<forall>i<blk_size h a. hp_bytes h' (q + i) = hp_bytes h (a + HEADER + i)))"
  using realloc_live [OF assms] .

theorem realloc_correct_witness:
  "\<exists>h q h'. heap_inv h [kbase + PAGE_SIZE] \<and> realloc no_reclaim 1 (kbase + PAGE_SIZE + HEADER) 100 h = Some (q, h') \<and>
    (q \<noteq> 0 \<longrightarrow> (\<exists>b. q = b + HEADER \<and> heap_inv h' [b] \<and> 100 \<le> blk_size h' b))"
proof -
  have cpu: "0 < MAX_CPUS" "1 < MAX_CPUS" by (simp_all add: MAX_CPUS_def)
  obtain h where h: "malloc no_reclaim 0 2000 example_heap = Some (kbase + PAGE_SIZE + HEADER, h)" using example_malloc by blast
  then have inv: "heap_inv h [kbase + PAGE_SIZE]"
    using malloc_live [OF example_heap_inv no_reclaim_keeps cpu(1), of 2000] by (auto split: if_splits)
  show ?thesis
    using realloc_correct [OF inv no_reclaim_keeps cpu(2), of "kbase + PAGE_SIZE" 100] inv by (auto split: if_splits)
qed

text \<open>C3: the heap over time. From a consistent heap, after any number of allocations, releases,
  reallocations and writes by any processors, interleaved with page allocator activity of other
  components, the heap is consistent: any two different blocks handed out are disjoint, and every
  byte of every block lies in a frame the page allocator has given out.\<close>

theorem heap_safety:
  assumes "heap_step\<^sup>*\<^sup>* (h0, live0) (h, live)" and "heap_inv h0 live0"
  shows "heap_inv h live \<and> distinct live \<and>
    (\<forall>a\<in>set live. \<forall>b\<in>set live. a < b \<longrightarrow> a + HEADER + blk_size h a \<le> b) \<and>
    (\<forall>a\<in>set live. {a..<a + HEADER + blk_size h a} \<subseteq> area (hp_pmm h))"
proof -
  have inv: "heap_inv h live" using heap_reachable_inv [OF assms(1)] assms(2) by simp
  have core: "heap_core h (mset live)" using inv by (simp add: heap_inv_def)
  have "distinct live" by (rule distinct_by_remove1) (use heap_inv_live(2) [OF inv] in blast)
  moreover have "a + HEADER + blk_size h a \<le> b" if "a \<in> set live" "b \<in> set live" "a < b" for a b
  proof -
    have "b \<in># mset (remove1 a live)" using that by (simp del: mset_remove1)
    from live_disjoint [OF heap_inv_live(1) [OF inv that(1)] this] show ?thesis using that(3) by auto
  qed
  moreover have "{a..<a + HEADER + blk_size h a} \<subseteq> area (hp_pmm h)" if "a \<in> set live" for a
    using core_covered [OF core, of a] that by auto
  ultimately show ?thesis using inv by blast
qed

theorem heap_safety_witness:
  "\<exists>h live. heap_step\<^sup>*\<^sup>* (example_heap, []) (h, live) \<and> live = [kbase + PAGE_SIZE] \<and> heap_inv h live"
proof -
  have cpu: "0 < MAX_CPUS" by (simp add: MAX_CPUS_def)
  obtain h where h: "malloc no_reclaim 0 2000 example_heap = Some (kbase + PAGE_SIZE + HEADER, h)" using example_malloc by blast
  have "heap_step (example_heap, []) (h, [kbase + PAGE_SIZE])"
    using step_malloc [OF cpu no_reclaim_keeps h] by simp
  then have r: "heap_step\<^sup>*\<^sup>* (example_heap, []) (h, [kbase + PAGE_SIZE])" by (rule r_into_rtranclp)
  show ?thesis using heap_safety [OF r example_heap_inv] r by blast
qed

end
