(* ===== verification/Callout.thy ===== *)
theory Callout
  imports Dlist_Queue
begin

text \<open>
  Kernel timers, \<^verbatim>\<open>src/kernel/drivers/timer/callout.c\<close>: a wheel of 256 queues, a tick counter and one
  timeout structure per user. A slot of the wheel is the list its queue holds (\<open>Dlist_Queue\<close> shows
  that the linked queue implements it); structures are named by their addresses. What a handler does
  to the timers is a parameter: from the state it is called in, the calls of \<^verbatim>\<open>callout_reset\<close> and
  \<^verbatim>\<open>callout_stop\<close> it makes. Locks, the per-CPU record of running handlers and the polling fallback
  without an interrupt are not modelled.
\<close>

section \<open>The code\<close>

definition WHEEL_SIZE :: nat where "WHEEL_SIZE = 256"
definition PIT_DEFAULT_HZ :: u32 where "PIT_DEFAULT_HZ = 1000"

record callout =
  co_expires :: u64
  co_func :: ptr
  co_arg :: ptr
  co_pending :: bool
  co_mpsafe :: bool
  co_dispatched :: u32

record callout_state =
  cs_wheel :: "nat \<Rightarrow> ptr list"
  cs_ticks :: u64
  cs_at :: "ptr \<Rightarrow> callout"

definition slot_of :: "u64 \<Rightarrow> nat" where
  "slot_of t = unat t mod WHEEL_SIZE"

definition callout_initialize :: "callout_state \<Rightarrow> callout_state" where
  "callout_initialize s = s\<lparr>cs_wheel := (\<lambda>_. []), cs_ticks := 0\<rparr>"

definition callout_init :: "callout" where
  "callout_init = \<lparr>co_expires = 0, co_func = 0, co_arg = 0, co_pending = False, co_mpsafe = False, co_dispatched = 0\<rparr>"

definition set_slot :: "nat \<Rightarrow> ptr list \<Rightarrow> callout_state \<Rightarrow> callout_state" where
  "set_slot i q s = s\<lparr>cs_wheel := (cs_wheel s)(i := q)\<rparr>"

definition set_callout :: "ptr \<Rightarrow> callout \<Rightarrow> callout_state \<Rightarrow> callout_state" where
  "set_callout c v s = s\<lparr>cs_at := (cs_at s)(c := v)\<rparr>"

definition callout_unlink :: "ptr \<Rightarrow> callout_state \<Rightarrow> callout_state" where
  "callout_unlink c s =
     (let i = slot_of (co_expires (cs_at s c))
      in set_callout c ((cs_at s c)\<lparr>co_pending := False\<rparr>) (set_slot i (remove1 c (cs_wheel s i)) s))"

text \<open>What \<^verbatim>\<open>callout_reset\<close> does to the structure itself.\<close>

definition callout_arm :: "u64 \<Rightarrow> u64 \<Rightarrow> ptr \<Rightarrow> ptr \<Rightarrow> callout \<Rightarrow> callout" where
  "callout_arm ticks delay func arg c =
     c\<lparr>co_expires := ticks + (if delay = 0 then 1 else delay), co_func := func, co_arg := arg, co_pending := True\<rparr>"

definition callout_reset :: "ptr \<Rightarrow> u64 \<Rightarrow> ptr \<Rightarrow> ptr \<Rightarrow> callout_state \<Rightarrow> callout_state" where
  "callout_reset c delay func arg s =
     (let s = (if co_pending (cs_at s c) then callout_unlink c s else s);
          s = set_callout c (callout_arm (cs_ticks s) delay func arg (cs_at s c)) s;
          i = slot_of (co_expires (cs_at s c))
      in set_slot i (cs_wheel s i @ [c]) s)"

definition callout_stop :: "ptr \<Rightarrow> callout_state \<Rightarrow> bool \<times> callout_state" where
  "callout_stop c s = (let was = co_pending (cs_at s c) in (was, if was then callout_unlink c s else s))"

definition callout_pending :: "callout \<Rightarrow> bool" where
  "callout_pending c = co_pending c"

definition callout_dispatches :: "callout \<Rightarrow> u32" where
  "callout_dispatches c = co_dispatched c"

datatype callout_op = OpReset ptr u64 ptr ptr | OpStop ptr

fun callout_do :: "callout_op \<Rightarrow> callout_state \<Rightarrow> callout_state" where
  "callout_do (OpReset c delay func arg) s = callout_reset c delay func arg s"
| "callout_do (OpStop c) s = snd (callout_stop c s)"

type_synonym handlers = "ptr \<Rightarrow> ptr \<Rightarrow> callout_state \<Rightarrow> callout_op list"

text \<open>One turn of the loop of \<^verbatim>\<open>callout_tick\<close> once a due structure is found, and the loop. The value also
  lists the structures dispatched.\<close>

definition callout_dispatch :: "handlers \<Rightarrow> ptr \<Rightarrow> callout_state \<Rightarrow> callout_state" where
  "callout_dispatch run c s =
     (let s = callout_unlink c s;
          s = set_callout c ((cs_at s c)\<lparr>co_dispatched := co_dispatched (cs_at s c) + 1\<rparr>) s
      in fold callout_do (run (co_func (cs_at s c)) (co_arg (cs_at s c)) s) s)"

partial_function (option) callout_run ::
  "handlers \<Rightarrow> u64 \<Rightarrow> callout_state \<Rightarrow> ptr list \<Rightarrow> (callout_state \<times> ptr list) option" where
  "callout_run run now s fired =
     (case find (\<lambda>c. co_expires (cs_at s c) \<le> now) (cs_wheel s (slot_of now)) of
        None \<Rightarrow> Some (s, fired)
      | Some c \<Rightarrow> callout_run run now (callout_dispatch run c s) (fired @ [c]))"

definition callout_tick :: "handlers \<Rightarrow> callout_state \<Rightarrow> (callout_state \<times> ptr list) option" where
  "callout_tick run s = (let s = s\<lparr>cs_ticks := cs_ticks s + 1\<rparr> in callout_run run (cs_ticks s) s [])"

definition ticks_hz :: "u32 \<Rightarrow> u32" where
  "ticks_hz pit_frequency = (if pit_frequency \<noteq> 0 then pit_frequency else PIT_DEFAULT_HZ)"

definition ticks_from_ms :: "u32 \<Rightarrow> u64 \<Rightarrow> u64" where
  "ticks_from_ms hz ms = (let t = ms * ucast hz div 1000 in if t \<noteq> 0 then t else 1)"

section \<open>The wheel\<close>

definition wheel_ok :: "callout_state \<Rightarrow> bool" where
  "wheel_ok s \<longleftrightarrow> (\<forall>i. distinct (cs_wheel s i) \<and>
     (\<forall>c. c \<in> set (cs_wheel s i) \<longleftrightarrow> co_pending (cs_at s c) \<and> slot_of (co_expires (cs_at s c)) = i))"

text \<open>Every structure in the wheel expires in the future.\<close>

definition wheel_inv :: "callout_state \<Rightarrow> bool" where
  "wheel_inv s \<longleftrightarrow> wheel_ok s \<and> (\<forall>c. co_pending (cs_at s c) \<longrightarrow> cs_ticks s < co_expires (cs_at s c))"

text \<open>A call of a handler keeps the tick counter from wrapping.\<close>

fun op_ok :: "u64 \<Rightarrow> callout_op \<Rightarrow> bool" where
  "op_ok now (OpReset c delay func arg) \<longleftrightarrow> unat now + max 1 (unat delay) < 2 ^ 64"
| "op_ok now (OpStop c) \<longleftrightarrow> True"

fun op_target :: "callout_op \<Rightarrow> ptr" where
  "op_target (OpReset c delay func arg) = c"
| "op_target (OpStop c) = c"

lemma set_slot_simps [simp]:
  "cs_ticks (set_slot i q s) = cs_ticks s" "cs_at (set_slot i q s) = cs_at s" "cs_wheel (set_slot i q s) = (cs_wheel s)(i := q)"
  "cs_ticks (set_callout c v s) = cs_ticks s" "cs_at (set_callout c v s) = (cs_at s)(c := v)" "cs_wheel (set_callout c v s) = cs_wheel s"
  by (simp_all add: set_slot_def set_callout_def)

lemma unlink_simps [simp]:
  "cs_ticks (callout_unlink c s) = cs_ticks s"
  "cs_at (callout_unlink c s) = (cs_at s)(c := (cs_at s c)\<lparr>co_pending := False\<rparr>)"
  by (simp_all add: callout_unlink_def Let_def)

lemma wheel_ok_unlink: "wheel_ok s \<Longrightarrow> wheel_ok (callout_unlink c s)"
  by (auto simp: wheel_ok_def callout_unlink_def Let_def)

lemma wheel_ok_reset:
  assumes "wheel_ok s"
  shows "wheel_ok (callout_reset c delay func arg s)"
proof -
  define s1 where "s1 = (if co_pending (cs_at s c) then callout_unlink c s else s)"
  have ok: "wheel_ok s1" and np: "\<not> co_pending (cs_at s1 c)" using assms wheel_ok_unlink by (auto simp: s1_def)
  define v where "v = callout_arm (cs_ticks s1) delay func arg (cs_at s1 c)"
  have r: "callout_reset c delay func arg s =
      set_slot (slot_of (co_expires v)) (cs_wheel s1 (slot_of (co_expires v)) @ [c]) (set_callout c v s1)"
    unfolding callout_reset_def Let_def s1_def [symmetric] v_def [symmetric] by simp
  have "co_pending v" by (simp add: v_def callout_arm_def)
  then show ?thesis using ok np unfolding r wheel_ok_def by auto
qed

lemma wheel_ok_touch: "wheel_ok s \<Longrightarrow> co_pending v = co_pending (cs_at s c) \<Longrightarrow> co_expires v = co_expires (cs_at s c) \<Longrightarrow> wheel_ok (set_callout c v s)"
  by (auto simp: wheel_ok_def)

text \<open>What one call does to one structure.\<close>

lemma reset_at:
  "cs_ticks (callout_reset c delay func arg s) = cs_ticks s"
  "cs_at (callout_reset c delay func arg s) d = (if d = c then callout_arm (cs_ticks s) delay func arg (cs_at s c) else cs_at s d)"
  by (simp_all add: callout_reset_def Let_def callout_arm_def)

lemma arm_future: "unat now + max 1 (unat delay) < 2 ^ 64 \<Longrightarrow> now < co_expires (callout_arm now delay func arg c)"
proof -
  assume a: "unat now + max 1 (unat delay) < 2 ^ 64"
  define d :: u64 where "d = (if delay = 0 then 1 else delay)"
  have d: "0 < unat d" "unat d \<le> max 1 (unat delay)" by (auto simp: d_def unat_gt_0)
  have "unat (now + d) = unat now + unat d" using a d by (intro unat_plus_no_wrap) simp
  then show ?thesis using d by (simp add: callout_arm_def d_def [symmetric] word_less_nat_alt)
qed

text \<open>The state during a tick: nothing in the wheel is overdue. \<open>due\<close> are the structures to dispatch.\<close>

definition in_tick :: "u64 \<Rightarrow> callout_state \<Rightarrow> bool" where
  "in_tick now s \<longleftrightarrow> wheel_ok s \<and> cs_ticks s = now \<and> (\<forall>c. co_pending (cs_at s c) \<longrightarrow> now \<le> co_expires (cs_at s c))"

definition due :: "u64 \<Rightarrow> callout_state \<Rightarrow> ptr set" where
  "due now s = {c. co_pending (cs_at s c) \<and> co_expires (cs_at s c) = now}"

lemma do_op:
  assumes "in_tick now s" and "op_ok now e"
  shows "in_tick now (callout_do e s)" "due now (callout_do e s) \<subseteq> due now s"
    "co_dispatched (cs_at (callout_do e s) d) = co_dispatched (cs_at s d)"
    "d \<noteq> op_target e \<Longrightarrow> cs_at (callout_do e s) d = cs_at s d"
proof -
  have ok: "wheel_ok (callout_do e s)"
    using assms(1) wheel_ok_reset wheel_ok_unlink by (cases e) (auto simp: in_tick_def callout_stop_def Let_def)
  have t: "cs_ticks s = now" using assms(1) by (simp add: in_tick_def)
  show "in_tick now (callout_do e s)"
  proof (cases e)
    case (OpReset c delay func arg)
    have "now < co_expires (callout_arm now delay func arg (cs_at s c))" using assms(2) OpReset by (intro arm_future) simp
    then show ?thesis using assms ok OpReset by (auto simp: in_tick_def reset_at)
  qed (use assms ok in \<open>auto simp: in_tick_def callout_stop_def Let_def\<close>)
  show "due now (callout_do e s) \<subseteq> due now s"
  proof (cases e)
    case (OpReset c delay func arg)
    have "now < co_expires (callout_arm now delay func arg (cs_at s c))" using assms(2) OpReset by (intro arm_future) simp
    then show ?thesis using OpReset t by (auto simp: due_def reset_at split: if_splits)
  qed (auto simp: due_def callout_stop_def Let_def split: if_splits)
  show "co_dispatched (cs_at (callout_do e s) d) = co_dispatched (cs_at s d)"
    by (cases e) (simp_all add: reset_at callout_arm_def callout_stop_def Let_def)
  show "d \<noteq> op_target e \<Longrightarrow> cs_at (callout_do e s) d = cs_at s d"
    by (cases e) (simp_all add: reset_at callout_stop_def Let_def)
qed

lemma do_ops:
  assumes "in_tick now s" and "\<forall>e\<in>set es. op_ok now e"
  shows "in_tick now (fold callout_do es s) \<and> due now (fold callout_do es s) \<subseteq> due now s \<and>
    (\<forall>d. co_dispatched (cs_at (fold callout_do es s) d) = co_dispatched (cs_at s d)) \<and>
    (\<forall>d. (\<forall>e\<in>set es. op_target e \<noteq> d) \<longrightarrow> cs_at (fold callout_do es s) d = cs_at s d)"
  using assms
proof (induction es arbitrary: s)
  case (Cons e es)
  have e: "op_ok now e" and es: "\<forall>e\<in>set es. op_ok now e" using Cons.prems by auto
  note o = do_op [OF Cons.prems(1) e]
  note IH = Cons.IH [OF o(1) es]
  show ?case using IH o(2-4) by (auto 0 3)
qed simp

definition handlers_ok :: "handlers \<Rightarrow> bool" where
  "handlers_ok run \<longleftrightarrow> (\<forall>f a s. \<forall>e\<in>set (run f a s). op_ok (cs_ticks s) e)"

definition spares :: "handlers \<Rightarrow> ptr \<Rightarrow> bool" where
  "spares run c \<longleftrightarrow> (\<forall>f a s. \<forall>e\<in>set (run f a s). op_target e \<noteq> c)"

lemma dispatch_step:
  assumes t: "in_tick now s" and c: "c \<in> due now s" and h: "handlers_ok run"
  shows "in_tick now (callout_dispatch run c s)" "due now (callout_dispatch run c s) \<subseteq> due now s - {c}"
    "co_dispatched (cs_at (callout_dispatch run c s) d) = co_dispatched (cs_at s d) + (if d = c then 1 else 0)"
    "spares run d \<Longrightarrow> d \<noteq> c \<Longrightarrow> cs_at (callout_dispatch run c s) d = cs_at s d"
proof -
  define s1 where "s1 = callout_unlink c s"
  define s2 where "s2 = set_callout c ((cs_at s1 c)\<lparr>co_dispatched := co_dispatched (cs_at s1 c) + 1\<rparr>) s1"
  define es where "es = run (co_func (cs_at s2 c)) (co_arg (cs_at s2 c)) s2"
  have d: "callout_dispatch run c s = fold callout_do es s2"
    unfolding callout_dispatch_def Let_def s1_def [symmetric] s2_def [symmetric] es_def [symmetric] by simp
  have "wheel_ok s2" unfolding s2_def s1_def using t by (intro wheel_ok_touch wheel_ok_unlink) (auto simp: in_tick_def)
  then have t2: "in_tick now s2" using t by (auto simp: in_tick_def s2_def s1_def)
  have es: "\<forall>e\<in>set es. op_ok now e" using h t2 by (auto simp: handlers_ok_def es_def in_tick_def)
  have du: "due now s2 = due now s - {c}" by (auto simp: due_def s2_def s1_def)
  note o = do_ops [OF t2 es]
  show "in_tick now (callout_dispatch run c s)" "due now (callout_dispatch run c s) \<subseteq> due now s - {c}"
    "co_dispatched (cs_at (callout_dispatch run c s) d) = co_dispatched (cs_at s d) + (if d = c then 1 else 0)"
    using o unfolding d du by (auto simp: s2_def s1_def)
  show "spares run d \<Longrightarrow> d \<noteq> c \<Longrightarrow> cs_at (callout_dispatch run c s) d = cs_at s d"
    using o unfolding d by (auto simp: spares_def es_def s2_def s1_def)
qed

lemma find_due:
  assumes "in_tick now s"
  shows "case find (\<lambda>c. co_expires (cs_at s c) \<le> now) (cs_wheel s (slot_of now)) of
     None \<Rightarrow> due now s = {} | Some c \<Rightarrow> c \<in> due now s"
proof -
  have w: "c \<in> set (cs_wheel s (slot_of now)) \<longleftrightarrow> co_pending (cs_at s c) \<and> slot_of (co_expires (cs_at s c)) = slot_of now" for c
    using assms by (simp add: in_tick_def wheel_ok_def)
  have l: "co_pending (cs_at s c) \<Longrightarrow> now \<le> co_expires (cs_at s c)" for c using assms by (simp add: in_tick_def)
  show ?thesis
  proof (cases "find (\<lambda>c. co_expires (cs_at s c) \<le> now) (cs_wheel s (slot_of now))")
    case None
    then have "due now s = {}" using w by (auto simp: find_None_iff due_def)
    then show ?thesis unfolding None by simp
  next
    case (Some c)
    then have "c \<in> set (cs_wheel s (slot_of now))" "co_expires (cs_at s c) \<le> now" by (auto simp: find_Some_iff)
    then have "c \<in> due now s" using w l by (auto simp: due_def intro: antisym)
    then show ?thesis unfolding Some by simp
  qed
qed

lemma finite_due: "in_tick now s \<Longrightarrow> finite (due now s)"
  by (rule finite_subset [of _ "set (cs_wheel s (slot_of now))"]) (auto simp: in_tick_def wheel_ok_def due_def)

lemma run_due:
  assumes h: "handlers_ok run"
  shows "in_tick now s \<Longrightarrow> \<exists>s' fs. callout_run run now s fired = Some (s', fired @ fs) \<and> in_tick now s' \<and> due now s' = {} \<and>
     distinct fs \<and> set fs \<subseteq> due now s \<and>
     (\<forall>d. co_dispatched (cs_at s' d) = co_dispatched (cs_at s d) + (if d \<in> set fs then 1 else 0)) \<and>
     (\<forall>d. spares run d \<longrightarrow> (d \<in> set fs \<longleftrightarrow> d \<in> due now s) \<and> (d \<notin> set fs \<longrightarrow> cs_at s' d = cs_at s d))"
proof (induction "card (due now s)" arbitrary: s fired rule: less_induct)
  case less
  note f = find_due [OF less.prems]
  show ?case
  proof (cases "find (\<lambda>c. co_expires (cs_at s c) \<le> now) (cs_wheel s (slot_of now))")
    case None
    then show ?thesis using f less.prems by (subst callout_run.simps) auto
  next
    case (Some c)
    then have c: "c \<in> due now s" using f by simp
    note st = dispatch_step [OF less.prems c h]
    have "card (due now (callout_dispatch run c s)) < card (due now s)"
      using st(2) c finite_due [OF less.prems] by (intro psubset_card_mono) auto
    from less.hyps [OF this st(1), of "fired @ [c]"] obtain s' fs where
      r: "callout_run run now (callout_dispatch run c s) (fired @ [c]) = Some (s', (fired @ [c]) @ fs)" "in_tick now s'" "due now s' = {}"
        "distinct fs" "set fs \<subseteq> due now (callout_dispatch run c s)"
        "\<forall>d. co_dispatched (cs_at s' d) = co_dispatched (cs_at (callout_dispatch run c s) d) + (if d \<in> set fs then 1 else 0)"
        "\<forall>d. spares run d \<longrightarrow> (d \<in> set fs \<longleftrightarrow> d \<in> due now (callout_dispatch run c s)) \<and>
           (d \<notin> set fs \<longrightarrow> cs_at s' d = cs_at (callout_dispatch run c s) d)" by blast
    have run: "callout_run run now s fired = Some (s', fired @ (c # fs))" using Some r(1) by (subst callout_run.simps) simp
    have cn: "c \<notin> set fs" using r(5) st(2) by auto
    have sp: "(d \<in> set (c # fs) \<longleftrightarrow> d \<in> due now s) \<and> (d \<notin> set (c # fs) \<longrightarrow> cs_at s' d = cs_at s d)" if d: "spares run d" for d
    proof (cases "d = c")
      case False
      have "cs_at (callout_dispatch run c s) d = cs_at s d" by (rule st(4) [OF d False])
      then show ?thesis using r(7) d False by (auto simp: due_def)
    qed (use c in simp)
    show ?thesis
      using r(2,3,4,5,6) run cn sp st(2,3) c by (intro exI [of _ s'] exI [of _ "c # fs"]) auto
  qed
qed

section \<open>Ticks\<close>

lemma word_less_Suc: "t < e \<Longrightarrow> t + 1 \<le> (e :: u64)" by (simp add: inc_le)

lemma tick_step:
  assumes i: "wheel_inv s" and h: "handlers_ok run" and w: "unat (cs_ticks s) + 1 < 2 ^ 64"
  shows "\<exists>s' fs. callout_tick run s = Some (s', fs) \<and> wheel_inv s' \<and> cs_ticks s' = cs_ticks s + 1 \<and> distinct fs \<and>
     set fs \<subseteq> due (cs_ticks s + 1) s \<and>
     (\<forall>d. co_dispatched (cs_at s' d) = co_dispatched (cs_at s d) + (if d \<in> set fs then 1 else 0)) \<and>
     (\<forall>d. spares run d \<longrightarrow> (d \<in> set fs \<longleftrightarrow> d \<in> due (cs_ticks s + 1) s) \<and> (d \<notin> set fs \<longrightarrow> cs_at s' d = cs_at s d))"
proof -
  define now where "now = cs_ticks s + 1"
  define s1 where "s1 = s\<lparr>cs_ticks := now\<rparr>"
  have t: "in_tick now s1" using i word_less_Suc by (auto simp: in_tick_def wheel_inv_def wheel_ok_def s1_def now_def)
  obtain s' fs where r: "callout_run run now s1 [] = Some (s', [] @ fs)" "in_tick now s'" "due now s' = {}"
    "distinct fs" "set fs \<subseteq> due now s1"
    "\<forall>d. co_dispatched (cs_at s' d) = co_dispatched (cs_at s1 d) + (if d \<in> set fs then 1 else 0)"
    "\<forall>d. spares run d \<longrightarrow> (d \<in> set fs \<longleftrightarrow> d \<in> due now s1) \<and> (d \<notin> set fs \<longrightarrow> cs_at s' d = cs_at s1 d)"
    using run_due [OF h t, of "[]"] by blast
  have "callout_tick run s = Some (s', fs)" using r(1) by (simp add: callout_tick_def s1_def now_def)
  moreover have "due now s1 = due now s" by (simp add: due_def s1_def)
  moreover have "wheel_inv s'" using r(2,3) by (force simp: wheel_inv_def in_tick_def due_def)
  moreover have "cs_ticks s' = now" using r(2) by (simp add: in_tick_def)
  ultimately show ?thesis using r(4-7) by (intro exI [of _ s'] exI [of _ fs]) (simp add: now_def [symmetric] s1_def)
qed

text \<open>Several ticks, with the structures dispatched at each.\<close>

fun callout_ticks :: "handlers \<Rightarrow> nat \<Rightarrow> callout_state \<Rightarrow> (callout_state \<times> ptr list list) option" where
  "callout_ticks run 0 s = Some (s, [])"
| "callout_ticks run (Suc n) s =
     (case callout_tick run s of None \<Rightarrow> None
      | Some (s, fs) \<Rightarrow> map_option (\<lambda>(s, fss). (s, fs # fss)) (callout_ticks run n s))"

lemma ticks_idle:
  assumes h: "handlers_ok run" and sp: "spares run c"
  shows "wheel_inv s \<Longrightarrow> co_pending (cs_at s c) \<Longrightarrow> unat (cs_ticks s) + n < unat (co_expires (cs_at s c)) \<Longrightarrow>
    \<exists>s' fss. callout_ticks run n s = Some (s', fss) \<and> wheel_inv s' \<and> cs_ticks s' = cs_ticks s + of_nat n \<and>
      length fss = n \<and> (\<forall>fs\<in>set fss. c \<notin> set fs) \<and> cs_at s' c = cs_at s c"
proof (induction n arbitrary: s)
  case (Suc n)
  have b: "unat (cs_ticks s) + 1 < 2 ^ 64"
  proof -
    have "unat (co_expires (cs_at s c)) < 2 ^ LENGTH(64)" by (rule unsigned_less)
    then show ?thesis using Suc.prems(3) by simp
  qed
  obtain s1 fs where t: "callout_tick run s = Some (s1, fs)" "wheel_inv s1" "cs_ticks s1 = cs_ticks s + 1"
    "c \<in> set fs \<longleftrightarrow> c \<in> due (cs_ticks s + 1) s" "c \<notin> set fs \<longrightarrow> cs_at s1 c = cs_at s c"
    using tick_step [OF Suc.prems(1) h b] sp by blast
  have u: "unat (cs_ticks s + 1) = unat (cs_ticks s) + 1" using b by (subst unat_plus_no_wrap) simp_all
  have n: "c \<notin> set fs" using t(4) Suc.prems(3) u by (auto simp: due_def)
  have at: "cs_at s1 c = cs_at s c" using t(5) n by simp
  have "unat (cs_ticks s1) + n < unat (co_expires (cs_at s1 c))" using Suc.prems(3) u t(3) at by simp
  from Suc.IH [OF t(2) _ this] Suc.prems(2) at show ?case using t(1,3) n by (auto simp: algebra_simps)
qed auto

lemma ticks_snoc:
  "callout_ticks run n s0 = Some (s1, fss) \<Longrightarrow> callout_tick run s1 = Some (s', fs) \<Longrightarrow>
     callout_ticks run (Suc n) s0 = Some (s', fss @ [fs])"
proof (induction n arbitrary: s0 fss)
  case (Suc n)
  obtain s2 gs gss where g: "callout_tick run s0 = Some (s2, gs)" "callout_ticks run n s2 = Some (s1, gss)" "fss = gs # gss"
    using Suc.prems(1) by (auto split: option.splits)
  show ?case
    unfolding callout_ticks.simps(2) [of run "Suc n"] using Suc.IH [OF g(2) Suc.prems(2)] g by (simp del: callout_ticks.simps)
qed simp

lemma wheel_inv_reset:
  assumes "wheel_inv s" and "unat (cs_ticks s) + max 1 (unat delay) < 2 ^ 64"
  shows "wheel_inv (callout_reset c delay func arg s)"
  using assms(1) wheel_ok_reset arm_future [OF assms(2)] by (auto simp: wheel_inv_def reset_at)


definition idle_wheel :: callout_state where
  "idle_wheel = \<lparr>cs_wheel = (\<lambda>_. []), cs_ticks = 7, cs_at = (\<lambda>_. callout_init)\<rparr>"


end
