(* ===== verification/Socket_State.thy ===== *)
theory Socket_State
  imports Socket_Buffers
begin

text \<open>
  The state of a socket, \<^verbatim>\<open>src/kernel/drivers/net/socket/socket.c\<close> and \<^verbatim>\<open>socket.h\<close>: connection flags, error, buffers,
  options and its place in the queues of the listening socket that created it. What a wakeup does to
  sleeping processes and to an upcall is the counter \<open>so_notified\<close>; the socket lock and the
  lock on the accept queues are not modelled.
\<close>

definition SS_ISCONNECTED :: u16 where "SS_ISCONNECTED = 0x0001"
definition SS_ISCONNECTING :: u16 where "SS_ISCONNECTING = 0x0002"
definition SS_ISDISCONNECTING :: u16 where "SS_ISDISCONNECTING = 0x0004"
definition SS_CANTSENDMORE :: u16 where "SS_CANTSENDMORE = 0x0010"
definition SS_CANTRCVMORE :: u16 where "SS_CANTRCVMORE = 0x0020"

definition SO_ACCEPTCONN :: u32 where "SO_ACCEPTCONN = 0x0002"
definition SO_REUSEADDR :: u32 where "SO_REUSEADDR = 0x0004"
definition SO_KEEPALIVE :: u32 where "SO_KEEPALIVE = 0x0008"

definition SOCKBUF_DEFAULT_SIZE :: u64 where "SOCKBUF_DEFAULT_SIZE = 65536"

text \<open>\<^verbatim>\<open>listen_head\<close>, \<^verbatim>\<open>embryonic\<close> and the queue the socket is on: no listening socket, its incomplete queue
  (embryonic) or its complete queue.\<close>

datatype listen_place = No_head | Incomplete | Complete

record socket =
  so_type :: int
  so_state :: u16
  so_options :: u32
  so_error :: int
  so_linger :: int
  so_snd :: sockbuf
  so_rcv :: sockbuf
  so_place :: listen_place
  so_refcount :: u32
  so_rcv_timeo :: u64
  so_snd_timeo :: u64
  so_notified :: nat

definition sock_alloc :: "int \<Rightarrow> socket" where
  "sock_alloc type = \<lparr>so_type = type, so_state = 0, so_options = 0, so_error = 0, so_linger = -1,
     so_snd = sockbuf_init SOCKBUF_DEFAULT_SIZE, so_rcv = sockbuf_init SOCKBUF_DEFAULT_SIZE,
     so_place = No_head, so_refcount = 1, so_rcv_timeo = 0, so_snd_timeo = 0, so_notified = 0\<rparr>"

definition sock_take_error :: "socket \<Rightarrow> int \<times> socket" where
  "sock_take_error so = (so_error so, so\<lparr>so_error := 0\<rparr>)"

definition sock_wakeup :: "socket \<Rightarrow> socket" where
  "sock_wakeup so = so\<lparr>so_rcv := snd (sockbuf_wakeup (so_rcv so)), so_snd := snd (sockbuf_wakeup (so_snd so)),
     so_notified := so_notified so + 1\<rparr>"

definition sb_cantmore :: "sockbuf \<Rightarrow> sockbuf" where
  "sb_cantmore sb = sb\<lparr>sb_flags := sb_flags sb OR SB_CANTMORE\<rparr>"

definition sock_is_connecting :: "socket \<Rightarrow> socket" where
  "sock_is_connecting so =
     so\<lparr>so_state := (so_state so AND NOT (SS_ISCONNECTED OR SS_ISDISCONNECTING)) OR SS_ISCONNECTING\<rparr>"

definition sock_is_connected :: "socket \<Rightarrow> socket" where
  "sock_is_connected so =
     (let was_connected = so_state so AND SS_ISCONNECTED \<noteq> 0;
          so = so\<lparr>so_state := (so_state so AND NOT (SS_ISCONNECTING OR SS_ISDISCONNECTING)) OR SS_ISCONNECTED\<rparr>;
          so = (if \<not> was_connected \<and> so_place so \<noteq> No_head then so\<lparr>so_place := Complete\<rparr> else so)
      in sock_wakeup so)"

definition sock_is_disconnecting :: "socket \<Rightarrow> socket" where
  "sock_is_disconnecting so =
     sock_wakeup (so\<lparr>so_state := (so_state so AND NOT SS_ISCONNECTING) OR (SS_ISDISCONNECTING OR SS_CANTRCVMORE OR SS_CANTSENDMORE)\<rparr>)"

definition sock_is_disconnected :: "socket \<Rightarrow> socket" where
  "sock_is_disconnected so =
     sock_wakeup (so\<lparr>so_state := (so_state so AND NOT (SS_ISCONNECTING OR SS_ISCONNECTED OR SS_ISDISCONNECTING)) OR (SS_CANTRCVMORE OR SS_CANTSENDMORE),
       so_snd := sb_cantmore (so_snd so), so_rcv := sb_cantmore (so_rcv so)\<rparr>)"

definition sock_cant_send_more :: "socket \<Rightarrow> socket" where
  "sock_cant_send_more so = sock_wakeup (so\<lparr>so_state := so_state so OR SS_CANTSENDMORE, so_snd := sb_cantmore (so_snd so)\<rparr>)"

definition sock_cant_recv_more :: "socket \<Rightarrow> socket" where
  "sock_cant_recv_more so = sock_wakeup (so\<lparr>so_state := so_state so OR SS_CANTRCVMORE, so_rcv := sb_cantmore (so_rcv so)\<rparr>)"

definition sock_hold :: "socket \<Rightarrow> socket" where
  "sock_hold so = so\<lparr>so_refcount := so_refcount so + 1\<rparr>"

text \<open>\<^verbatim>\<open>sock_release\<close>: None once the last reference is gone and the socket is freed.\<close>

definition sock_release :: "socket \<Rightarrow> socket option" where
  "sock_release so =
     (if so_refcount so \<noteq> 0 \<and> so_refcount so - 1 \<noteq> 0 then Some (so\<lparr>so_refcount := so_refcount so - 1\<rparr>) else None)"

text \<open>\<^verbatim>\<open>sock_drop_embryo\<close>: whether the socket was still incomplete, and the socket, if it survives.\<close>

definition sock_drop_embryo :: "socket \<Rightarrow> bool \<times> socket option" where
  "sock_drop_embryo so =
     (if so_place so \<noteq> Incomplete then (False, Some so)
      else (True, sock_release (so\<lparr>so_place := No_head\<rparr>)))"

text \<open>A connection created by a listening socket. The two queue lengths of the listening socket and
  its backlog decide whether there is room; \<open>ok\<close> is the outcome of the allocation.\<close>

definition sock_new_conn :: "bool \<Rightarrow> nat \<Rightarrow> nat \<Rightarrow> nat \<Rightarrow> socket \<Rightarrow> socket option" where
  "sock_new_conn ok incomplete complete backlog head =
     (if incomplete + complete \<ge> backlog then None
      else if \<not> ok then None
      else let so = sock_alloc (so_type head)
           in Some (so\<lparr>so_options := so_options head AND NOT SO_ACCEPTCONN, so_linger := so_linger head,
                so_snd := (so_snd so)\<lparr>sb_hiwat := sb_hiwat (so_snd head)\<rparr>,
                so_rcv := (so_rcv so)\<lparr>sb_hiwat := sb_hiwat (so_rcv head)\<rparr>, so_place := Incomplete\<rparr>))"

section \<open>The streams are kept\<close>

text \<open>No change of the connection state touches the bytes queued in either direction.\<close>

lemma wakeup_streams [simp]:
  "sb_stream (so_snd (sock_wakeup so)) = sb_stream (so_snd so)" "sb_stream (so_rcv (sock_wakeup so)) = sb_stream (so_rcv so)"
  "sockbuf_inv (so_snd (sock_wakeup so)) = sockbuf_inv (so_snd so)" "sockbuf_inv (so_rcv (sock_wakeup so)) = sockbuf_inv (so_rcv so)"
  "sb_cc (so_snd (sock_wakeup so)) = sb_cc (so_snd so)" "sb_hiwat (so_rcv (sock_wakeup so)) = sb_hiwat (so_rcv so)"
  "so_state (sock_wakeup so) = so_state so"
  by (simp_all add: sock_wakeup_def sockbuf_wakeup_def sockbuf_inv_def sb_stream_def)

lemma cantmore_stream [simp]:
  "sb_stream (sb_cantmore sb) = sb_stream sb" "sockbuf_inv (sb_cantmore sb) = sockbuf_inv sb" "sb_cc (sb_cantmore sb) = sb_cc sb"
  by (simp_all add: sb_cantmore_def sockbuf_inv_def sb_stream_def)

lemma sock_state_streams [simp]:
  "sb_stream (so_snd (sock_is_connecting so)) = sb_stream (so_snd so)" "sb_stream (so_rcv (sock_is_connecting so)) = sb_stream (so_rcv so)"
  "sb_stream (so_snd (sock_is_connected so)) = sb_stream (so_snd so)" "sb_stream (so_rcv (sock_is_connected so)) = sb_stream (so_rcv so)"
  "sb_stream (so_snd (sock_is_disconnecting so)) = sb_stream (so_snd so)" "sb_stream (so_rcv (sock_is_disconnecting so)) = sb_stream (so_rcv so)"
  "sb_stream (so_snd (sock_is_disconnected so)) = sb_stream (so_snd so)" "sb_stream (so_rcv (sock_is_disconnected so)) = sb_stream (so_rcv so)"
  "sb_stream (so_snd (sock_cant_send_more so)) = sb_stream (so_snd so)" "sb_stream (so_rcv (sock_cant_send_more so)) = sb_stream (so_rcv so)"
  "sb_stream (so_snd (sock_cant_recv_more so)) = sb_stream (so_snd so)" "sb_stream (so_rcv (sock_cant_recv_more so)) = sb_stream (so_rcv so)"
  by (simp_all add: sock_is_connecting_def sock_is_connected_def sock_is_disconnecting_def sock_is_disconnected_def
      sock_cant_send_more_def sock_cant_recv_more_def Let_def)

end
