(* ===== verification/TCP_Base.thy ===== *)
theory TCP_Base
  imports Socket_State Callout
begin

text \<open>
  The data of the TCP implementation, \<^verbatim>\<open>src/kernel/drivers/net/tcp/tcp.h\<close>, \<^verbatim>\<open>tcp_var.h\<close>, \<^verbatim>\<open>tcp_timer.h\<close> and
  \<^verbatim>\<open>tcp_input.h\<close>: constants, connection states, the control block, segment options, and sequence
  number comparison, which is done on the sign of a 32-bit difference. Sequence numbers within a
  window of half the sequence space compare like their distances from the start of that window.
\<close>

section \<open>Constants and types\<close>

definition TCP_HEADER_LEN :: nat where "TCP_HEADER_LEN = 20"
definition TCP_MAX_HEADER_LEN :: nat where "TCP_MAX_HEADER_LEN = 60"
definition TCP_DEFAULT_MSS :: u16 where "TCP_DEFAULT_MSS = 536"
definition TCP_DEFAULT_MSS6 :: u16 where "TCP_DEFAULT_MSS6 = 1220"
definition TCP_MAX_WINSHIFT :: u8 where "TCP_MAX_WINSHIFT = 14"
definition TCP_MAX_SACK :: nat where "TCP_MAX_SACK = 4"
definition TCP_SACK_SCOREBOARD :: nat where "TCP_SACK_SCOREBOARD = 8"

definition TH_FIN :: u8 where "TH_FIN = 0x01"
definition TH_SYN :: u8 where "TH_SYN = 0x02"
definition TH_RST :: u8 where "TH_RST = 0x04"
definition TH_PUSH :: u8 where "TH_PUSH = 0x08"
definition TH_ACK :: u8 where "TH_ACK = 0x10"

definition TCPOPT_EOL :: u8 where "TCPOPT_EOL = 0"
definition TCPOPT_NOP :: u8 where "TCPOPT_NOP = 1"
definition TCPOPT_MAXSEG :: u8 where "TCPOPT_MAXSEG = 2"
definition TCPOPT_WINDOW :: u8 where "TCPOPT_WINDOW = 3"
definition TCPOPT_SACK_PERMITTED :: u8 where "TCPOPT_SACK_PERMITTED = 4"
definition TCPOPT_SACK :: u8 where "TCPOPT_SACK = 5"
definition TCPOPT_TIMESTAMP :: u8 where "TCPOPT_TIMESTAMP = 8"

definition TOF_MSS :: u32 where "TOF_MSS = 0x01"
definition TOF_SCALE :: u32 where "TOF_SCALE = 0x02"
definition TOF_SACKPERM :: u32 where "TOF_SACKPERM = 0x04"
definition TOF_TS :: u32 where "TOF_TS = 0x08"
definition TOF_SACK :: u32 where "TOF_SACK = 0x10"

definition TF_ACKNOW :: u32 where "TF_ACKNOW = 0x0001"
definition TF_DELACK :: u32 where "TF_DELACK = 0x0002"
definition TF_NODELAY :: u32 where "TF_NODELAY = 0x0004"
definition TF_NOOPT :: u32 where "TF_NOOPT = 0x0008"
definition TF_SENTFIN :: u32 where "TF_SENTFIN = 0x0010"
definition TF_RCVD_SCALE :: u32 where "TF_RCVD_SCALE = 0x0020"
definition TF_RCVD_TSTMP :: u32 where "TF_RCVD_TSTMP = 0x0040"
definition TF_SACK_PERMIT :: u32 where "TF_SACK_PERMIT = 0x0080"
definition TF_FASTRECOVERY :: u32 where "TF_FASTRECOVERY = 0x0100"
definition TF_NEEDFIN :: u32 where "TF_NEEDFIN = 0x0200"
definition TF_FORCEDATA :: u32 where "TF_FORCEDATA = 0x0400"

lemmas TOF_defs = TOF_MSS_def TOF_SCALE_def TOF_SACKPERM_def TOF_TS_def TOF_SACK_def
lemmas TCPOPT_defs = TCPOPT_EOL_def TCPOPT_NOP_def TCPOPT_MAXSEG_def TCPOPT_WINDOW_def TCPOPT_SACK_PERMITTED_def
  TCPOPT_SACK_def TCPOPT_TIMESTAMP_def

datatype tcp_state = TCPS_CLOSED | TCPS_LISTEN | TCPS_SYN_SENT | TCPS_SYN_RECEIVED | TCPS_ESTABLISHED | TCPS_CLOSE_WAIT
  | TCPS_FIN_WAIT_1 | TCPS_CLOSING | TCPS_LAST_ACK | TCPS_FIN_WAIT_2 | TCPS_TIME_WAIT

text \<open>States are compared by their position in the enumeration.\<close>

fun state_index :: "tcp_state \<Rightarrow> nat" where
  "state_index TCPS_CLOSED = 0"
| "state_index TCPS_LISTEN = 1"
| "state_index TCPS_SYN_SENT = 2"
| "state_index TCPS_SYN_RECEIVED = 3"
| "state_index TCPS_ESTABLISHED = 4"
| "state_index TCPS_CLOSE_WAIT = 5"
| "state_index TCPS_FIN_WAIT_1 = 6"
| "state_index TCPS_CLOSING = 7"
| "state_index TCPS_LAST_ACK = 8"
| "state_index TCPS_FIN_WAIT_2 = 9"
| "state_index TCPS_TIME_WAIT = 10"

lemma state_index_inj: "state_index s = state_index t \<longleftrightarrow> s = t"
  by (cases s; cases t) simp_all

instantiation tcp_state :: linorder
begin

definition less_eq_tcp_state :: "tcp_state \<Rightarrow> tcp_state \<Rightarrow> bool" where
  "less_eq_tcp_state s t \<longleftrightarrow> state_index s \<le> state_index t"

definition less_tcp_state :: "tcp_state \<Rightarrow> tcp_state \<Rightarrow> bool" where
  "less_tcp_state s t \<longleftrightarrow> state_index s < state_index t"

instance
  by standard (auto simp: less_eq_tcp_state_def less_tcp_state_def state_index_inj)

end

definition TCPS_HAVERCVDSYN :: "tcp_state \<Rightarrow> bool" where
  "TCPS_HAVERCVDSYN s \<longleftrightarrow> s \<ge> TCPS_SYN_RECEIVED"

definition TCPS_HAVEESTABLISHED :: "tcp_state \<Rightarrow> bool" where
  "TCPS_HAVEESTABLISHED s \<longleftrightarrow> s \<ge> TCPS_ESTABLISHED"

definition TCPS_HAVERCVDFIN :: "tcp_state \<Rightarrow> bool" where
  "TCPS_HAVERCVDFIN s \<longleftrightarrow> s = TCPS_CLOSE_WAIT \<or> s = TCPS_CLOSING \<or> s = TCPS_LAST_ACK \<or> s = TCPS_TIME_WAIT"

type_synonym tcp_seq = u32

definition SEQ_LT :: "tcp_seq \<Rightarrow> tcp_seq \<Rightarrow> bool" where "SEQ_LT a b \<longleftrightarrow> sint (a - b) < 0"
definition SEQ_LEQ :: "tcp_seq \<Rightarrow> tcp_seq \<Rightarrow> bool" where "SEQ_LEQ a b \<longleftrightarrow> sint (a - b) \<le> 0"
definition SEQ_GT :: "tcp_seq \<Rightarrow> tcp_seq \<Rightarrow> bool" where "SEQ_GT a b \<longleftrightarrow> sint (a - b) > 0"
definition SEQ_GEQ :: "tcp_seq \<Rightarrow> tcp_seq \<Rightarrow> bool" where "SEQ_GEQ a b \<longleftrightarrow> sint (a - b) \<ge> 0"

record tcp_sack_block =
  sb_start :: tcp_seq
  sb_end :: tcp_seq

record tcp_opts =
  to_flags :: u32
  to_mss :: u16
  to_wscale :: u8
  to_ts_val :: u32
  to_ts_ecr :: u32
  to_sacks :: "tcp_sack_block list"

record tcp_reassemble_entry =
  re_seq :: tcp_seq
  re_len :: u32
  re_flags :: u8
  re_data :: chain

datatype tcp_timer_type = TCPT_REXMT | TCPT_PERSIST | TCPT_KEEP | TCPT_2MSL | TCPT_DELACK

text \<open>The control block, in the order of the struct, without the pointers to the protocol control
  block and to the congestion control algorithm. The reassembly queue is the list of its entries;
  \<open>srtt\<close> and \<open>rttvar\<close> hold two's complement values.\<close>

record tcpcb =
  tp_state :: tcp_state
  t_flags :: u32
  timers :: "tcp_timer_type \<Rightarrow> callout"
  t_timer_entered :: "tcp_timer_type \<Rightarrow> u32"
  t_closed :: bool
  t_draining :: u32
  rexmt_shift :: u8
  snd_una :: tcp_seq
  snd_nxt :: tcp_seq
  snd_max :: tcp_seq
  snd_wl1 :: tcp_seq
  snd_wl2 :: tcp_seq
  iss :: tcp_seq
  snd_wnd :: u32
  snd_scale :: u8
  rcv_nxt :: tcp_seq
  irs :: tcp_seq
  rcv_wnd :: u32
  rcv_adv :: tcp_seq
  rcv_scale :: u8
  req_rcv_scale :: u8
  last_ack_sent :: tcp_seq
  snd_cwnd :: u32
  snd_ssthresh :: u32
  snd_recover :: tcp_seq
  dupacks :: u32
  srtt :: u32
  rttvar :: u32
  rto :: u32
  rtt_start :: u64
  rtt_seq :: tcp_seq
  ts_recent :: u32
  ts_recent_age :: u64
  mss :: u16
  peer_mss :: u16
  reassemble_queue :: "tcp_reassemble_entry list"
  reassemble_len :: u32
  sack_blocks :: "tcp_sack_block list"
  sack_count :: nat
  sack_rxmit :: tcp_seq
  sack_rexmit_bytes :: u32
  t_rcvtime :: u64
  keep_probes :: u8
  t_softerror :: int

text \<open>A control block as \<^verbatim>\<open>calloc\<close> returns it.\<close>

definition tcpcb_zero :: tcpcb where
  "tcpcb_zero = \<lparr>tp_state = TCPS_CLOSED, t_flags = 0, timers = (\<lambda>_. callout_init), t_timer_entered = (\<lambda>_. 0),
     t_closed = False, t_draining = 0, rexmt_shift = 0, snd_una = 0, snd_nxt = 0, snd_max = 0, snd_wl1 = 0, snd_wl2 = 0,
     iss = 0, snd_wnd = 0, snd_scale = 0, rcv_nxt = 0, irs = 0, rcv_wnd = 0, rcv_adv = 0, rcv_scale = 0, req_rcv_scale = 0,
     last_ack_sent = 0, snd_cwnd = 0, snd_ssthresh = 0, snd_recover = 0, dupacks = 0, srtt = 0, rttvar = 0, rto = 0,
     rtt_start = 0, rtt_seq = 0, ts_recent = 0, ts_recent_age = 0, mss = 0, peer_mss = 0, reassemble_queue = [],
     reassemble_len = 0, sack_blocks = replicate TCP_SACK_SCOREBOARD \<lparr>sb_start = 0, sb_end = 0\<rparr>, sack_count = 0,
     sack_rxmit = 0, sack_rexmit_bytes = 0, t_rcvtime = 0, keep_probes = 0, t_softerror = 0\<rparr>"

record tcp_stats =
  st_connattempt :: u64
  st_accepts :: u64
  st_connects :: u64
  st_drops :: u64
  st_closed :: u64
  st_sndtotal :: u64
  st_sndpack :: u64
  st_sndbyte :: u64
  st_sndrexmitpack :: u64
  st_sndacks :: u64
  st_rcvtotal :: u64
  st_rcvpack :: u64
  st_rcvbyte :: u64
  st_rcvbadsum :: u64
  st_rcvduppack :: u64
  st_rcvoopack :: u64
  st_rexmttimeo :: u64
  st_persisttimeo :: u64
  st_keeptimeo :: u64

text \<open>The statistics are a global, zero at first.\<close>

definition tcpstat_zero :: tcp_stats where
  "tcpstat_zero = \<lparr>st_connattempt = 0, st_accepts = 0, st_connects = 0, st_drops = 0, st_closed = 0, st_sndtotal = 0, st_sndpack = 0,
     st_sndbyte = 0, st_sndrexmitpack = 0, st_sndacks = 0, st_rcvtotal = 0, st_rcvpack = 0, st_rcvbyte = 0, st_rcvbadsum = 0,
     st_rcvduppack = 0, st_rcvoopack = 0, st_rexmttimeo = 0, st_persisttimeo = 0, st_keeptimeo = 0\<rparr>"

section \<open>Sequence numbers\<close>

text \<open>The distance of a sequence number from the start \<open>w\<close> of a window.\<close>

definition rel :: "tcp_seq \<Rightarrow> tcp_seq \<Rightarrow> nat" where
  "rel w x = unat (x - w)"

definition half :: nat where "half = 2 ^ 31"

lemma rel_self [simp]: "rel w w = 0" by (simp add: rel_def)

lemma rel_inj: "rel w x = rel w y \<longleftrightarrow> x = y" by (simp add: rel_def flip: word_unat_eq_iff)

lemma rel_less: "rel w x < 2 ^ 32"
proof -
  have "unat (x - w) < 2 ^ LENGTH(32)" by (rule unsigned_less)
  then show ?thesis by (simp add: rel_def)
qed

lemma rel_add:
  assumes "rel w x + unat n < 2 ^ 32"
  shows "rel w (x + n) = rel w x + unat n"
proof -
  have e: "x + n - w = (x - w) + n" by simp
  show ?thesis unfolding rel_def e using assms by (intro unat_plus_no_wrap) (simp add: rel_def)
qed

lemma sint_diff:
  assumes "rel w x < half" and "rel w y < half"
  shows "sint (x - y) = int (rel w x) - int (rel w y)"
proof -
  have e: "x - y = (x - w) - (y - w)" by simp
  have s: "sint (z - w) = int (rel w z)" if "rel w z < half" for z
  proof -
    have u: "uint (z - w) = int (rel w z)" by (simp add: rel_def)
    show ?thesis unfolding sint_uint u by (rule signed_take_bit_int_eq_self) (use that in \<open>simp_all add: half_def\<close>)
  qed
  have "sint (x - y) = signed_take_bit 31 (sint (x - w) - sint (y - w))"
    by (simp only: e sint_word_ariths) simp
  also have "\<dots> = signed_take_bit 31 (int (rel w x) - int (rel w y))" by (simp only: s assms)
  also have "\<dots> = int (rel w x) - int (rel w y)"
    by (rule signed_take_bit_int_eq_self) (use assms in \<open>simp_all add: half_def\<close>)
  finally show ?thesis .
qed

lemma seq_cmp:
  assumes "rel w x < half" and "rel w y < half"
  shows "SEQ_LT x y \<longleftrightarrow> rel w x < rel w y" "SEQ_LEQ x y \<longleftrightarrow> rel w x \<le> rel w y"
    "SEQ_GT x y \<longleftrightarrow> rel w x > rel w y" "SEQ_GEQ x y \<longleftrightarrow> rel w x \<ge> rel w y"
  by (auto simp: SEQ_LT_def SEQ_LEQ_def SEQ_GT_def SEQ_GEQ_def sint_diff [OF assms])

lemma rel_diff:
  assumes "rel w y \<le> rel w x"
  shows "unat (x - y) = rel w x - rel w y"
proof -
  have "x - y = (x - w) - (y - w)" by simp
  then show ?thesis using unat_minus_le assms by (metis rel_def)
qed

end
