(* ===== verification/TCP_Options.thy ===== *)
theory TCP_Options
  imports TCP_Base
begin

text \<open>
  TCP options: \<^verbatim>\<open>tcp_addoptions\<close> of \<^verbatim>\<open>src/kernel/drivers/net/tcp/tcp_output.c\<close> writes them, \<^verbatim>\<open>tcp_dooptions\<close> of
  \<^verbatim>\<open>tcp_input.c\<close> parses whatever the peer sent. A read outside the option bytes is a \<open>Fault\<close>.
\<close>

section \<open>The code\<close>

definition get_byte :: "bytes \<Rightarrow> nat \<Rightarrow> u8 run" where
  "get_byte p i = (if i < length p then Done (p ! i) else Fault)"

definition tcp_get16 :: "bytes \<Rightarrow> nat \<Rightarrow> u16 run" where
  "tcp_get16 p i = bind_run (get_byte p i) (\<lambda>a. bind_run (get_byte p (i + 1)) (\<lambda>b. Done (push_bit 8 (ucast a) OR ucast b)))"

definition tcp_get32 :: "bytes \<Rightarrow> nat \<Rightarrow> u32 run" where
  "tcp_get32 p i = bind_run (tcp_get16 p i) (\<lambda>a. bind_run (tcp_get16 p (i + 2)) (\<lambda>b. Done (push_bit 16 (ucast a) OR ucast b)))"

fun get_sacks :: "bytes \<Rightarrow> nat \<Rightarrow> nat \<Rightarrow> tcp_sack_block list run" where
  "get_sacks cp i 0 = Done []"
| "get_sacks cp i (Suc n) =
     bind_run (tcp_get32 cp (2 + 8 * i)) (\<lambda>s.
     bind_run (tcp_get32 cp (6 + 8 * i)) (\<lambda>e.
     bind_run (get_sacks cp (i + 1) n) (\<lambda>bs. Done (\<lparr>sb_start = s, sb_end = e\<rparr> # bs))))"

text \<open>One option, \<open>optlen\<close> bytes at the front of \<open>cp\<close>.\<close>

definition do_option :: "tcp_opts \<Rightarrow> bytes \<Rightarrow> u8 \<Rightarrow> nat \<Rightarrow> bool \<Rightarrow> tcp_opts run" where
  "do_option to cp kind optlen is_syn =
     (if kind = TCPOPT_MAXSEG \<and> optlen = 4 \<and> is_syn then
        bind_run (tcp_get16 cp 2) (\<lambda>m. Done (to\<lparr>to_flags := to_flags to OR TOF_MSS, to_mss := m\<rparr>))
      else if kind = TCPOPT_WINDOW \<and> optlen = 3 \<and> is_syn then
        bind_run (get_byte cp 2) (\<lambda>w. Done (to\<lparr>to_flags := to_flags to OR TOF_SCALE,
          to_wscale := (if w < TCP_MAX_WINSHIFT then w else TCP_MAX_WINSHIFT)\<rparr>))
      else if kind = TCPOPT_SACK_PERMITTED \<and> optlen = 2 \<and> is_syn then
        Done (to\<lparr>to_flags := to_flags to OR TOF_SACKPERM\<rparr>)
      else if kind = TCPOPT_TIMESTAMP \<and> optlen = 10 then
        bind_run (tcp_get32 cp 2) (\<lambda>v. bind_run (tcp_get32 cp 6) (\<lambda>e.
          Done (to\<lparr>to_flags := to_flags to OR TOF_TS, to_ts_val := v, to_ts_ecr := e\<rparr>)))
      else if kind = TCPOPT_SACK \<and> optlen \<ge> 10 \<and> (optlen - 2) mod 8 = 0 \<and> \<not> is_syn then
        bind_run (get_sacks cp 0 (min ((optlen - 2) div 8) TCP_MAX_SACK)) (\<lambda>bs.
          Done (to\<lparr>to_flags := to_flags to OR TOF_SACK, to_sacks := bs\<rparr>))
      else Done to)"

function dooptions_loop :: "tcp_opts \<Rightarrow> bytes \<Rightarrow> bool \<Rightarrow> tcp_opts run" where
  "dooptions_loop to cp is_syn =
     (case cp of
        [] \<Rightarrow> Done to
      | kind # rest \<Rightarrow>
          if kind = TCPOPT_EOL then Done to
          else if kind = TCPOPT_NOP then dooptions_loop to rest is_syn
          else if length cp < 2 \<or> unat (cp ! 1) < 2 \<or> unat (cp ! 1) > length cp then Done to
          else let optlen = unat (cp ! 1)
               in case do_option to cp kind optlen is_syn of
                    Fault \<Rightarrow> Fault
                  | Done to \<Rightarrow> dooptions_loop to (drop optlen cp) is_syn)"
  by pat_completeness auto
termination by (relation "measure (\<lambda>(to, cp, is_syn). length cp)") auto

declare dooptions_loop.simps [simp del]

definition no_opts :: tcp_opts where
  "no_opts = \<lparr>to_flags = 0, to_mss = 0, to_wscale = 0, to_ts_val = 0, to_ts_ecr = 0, to_sacks = []\<rparr>"

definition tcp_dooptions :: "bytes \<Rightarrow> bool \<Rightarrow> tcp_opts run" where
  "tcp_dooptions cp is_syn = dooptions_loop no_opts cp is_syn"

definition tcp_put16 :: "u16 \<Rightarrow> bytes" where
  "tcp_put16 v = [ucast (drop_bit 8 v), ucast v]"

definition tcp_put32 :: "u32 \<Rightarrow> bytes" where
  "tcp_put32 v = tcp_put16 (ucast (drop_bit 16 v)) @ tcp_put16 (ucast v)"

definition tcp_put_opt_header :: "u8 \<Rightarrow> u8 \<Rightarrow> bytes" where
  "tcp_put_opt_header kind len = [TCPOPT_NOP, TCPOPT_NOP, kind, len]"

definition put_sack :: "tcp_sack_block \<Rightarrow> bytes" where
  "put_sack b = tcp_put32 (sb_start b) @ tcp_put32 (sb_end b)"

definition has_opt :: "tcp_opts \<Rightarrow> u32 \<Rightarrow> bool" where
  "has_opt to f \<longleftrightarrow> to_flags to AND f \<noteq> 0"

definition tcp_addoptions :: "tcp_opts \<Rightarrow> bytes" where
  "tcp_addoptions to =
     (let p = (if has_opt to TOF_MSS then [TCPOPT_MAXSEG, 4] @ tcp_put16 (to_mss to) else []);
          p = p @ (if has_opt to TOF_SCALE then [TCPOPT_NOP, TCPOPT_WINDOW, 3, to_wscale to] else []);
          p = p @ (if has_opt to TOF_SACKPERM then tcp_put_opt_header TCPOPT_SACK_PERMITTED 2 else []);
          p = p @ (if has_opt to TOF_TS
                   then tcp_put_opt_header TCPOPT_TIMESTAMP 10 @ tcp_put32 (to_ts_val to) @ tcp_put32 (to_ts_ecr to) else [])
      in if has_opt to TOF_SACK then
           let room = (TCP_MAX_HEADER_LEN - TCP_HEADER_LEN - length p - 4) div 8;
               n = min (length (to_sacks to)) room
           in if n \<noteq> 0 then p @ tcp_put_opt_header TCPOPT_SACK (word_of_nat (2 + 8 * n)) @ concat (map put_sack (take n (to_sacks to)))
              else p
         else p)"

section \<open>Parsing stays inside the options\<close>

lemma get16_ok: "i + 2 \<le> length p \<Longrightarrow> \<exists>v. tcp_get16 p i = Done v"
  by (simp add: tcp_get16_def get_byte_def)

lemma get32_ok: "i + 4 \<le> length p \<Longrightarrow> \<exists>v. tcp_get32 p i = Done v"
  using get16_ok [of i p] get16_ok [of "i + 2" p] by (auto simp: tcp_get32_def)

lemma get_sacks_ok: "2 + 8 * (i + n) \<le> length cp \<Longrightarrow> \<exists>bs. get_sacks cp i n = Done bs \<and> length bs = n"
proof (induction n arbitrary: i)
  case (Suc n)
  obtain bs where "get_sacks cp (i + 1) n = Done bs" "length bs = n" using Suc.IH [of "i + 1"] Suc.prems by auto
  moreover obtain s where "tcp_get32 cp (2 + 8 * i) = Done s" using get32_ok [of "2 + 8 * i" cp] Suc.prems by auto
  moreover obtain e where "tcp_get32 cp (6 + 8 * i) = Done e" using get32_ok [of "6 + 8 * i" cp] Suc.prems by auto
  ultimately show ?case by simp
qed simp

lemma do_option_ok:
  assumes "optlen \<le> length cp"
  shows "\<exists>to'. do_option to cp kind optlen is_syn = Done to' \<and>
    (length (to_sacks to) \<le> TCP_MAX_SACK \<longrightarrow> length (to_sacks to') \<le> TCP_MAX_SACK) \<and>
    (to_wscale to \<le> TCP_MAX_WINSHIFT \<longrightarrow> to_wscale to' \<le> TCP_MAX_WINSHIFT)"
proof -
  have a: "optlen = 4 \<Longrightarrow> \<exists>v. tcp_get16 cp 2 = Done v" using get16_ok [of 2 cp] assms by auto
  have b: "optlen = 3 \<Longrightarrow> \<exists>v. get_byte cp 2 = Done v" using assms by (simp add: get_byte_def)
  have c: "optlen = 10 \<Longrightarrow> (\<exists>v. tcp_get32 cp 2 = Done v) \<and> (\<exists>v. tcp_get32 cp 6 = Done v)"
    using get32_ok [of 2 cp] get32_ok [of 6 cp] assms by auto
  define k where "k = min ((optlen - 2) div 8) TCP_MAX_SACK"
  have d: "\<exists>bs. get_sacks cp 0 k = Done bs \<and> length bs \<le> TCP_MAX_SACK" if "10 \<le> optlen"
  proof -
    have "8 * k \<le> 8 * ((optlen - 2) div 8)" by (simp add: k_def)
    also have "\<dots> \<le> optlen - 2" by simp
    finally have "2 + 8 * (0 + k) \<le> length cp" using assms that by simp
    from get_sacks_ok [OF this] show ?thesis by (auto simp: k_def)
  qed
  show ?thesis using a b c d unfolding do_option_def k_def [symmetric] by (fastforce split: if_splits)
qed

lemma dooptions_ok:
  assumes "length (to_sacks to) \<le> TCP_MAX_SACK" and "to_wscale to \<le> TCP_MAX_WINSHIFT"
  shows "\<exists>to'. dooptions_loop to cp is_syn = Done to' \<and> length (to_sacks to') \<le> TCP_MAX_SACK \<and> to_wscale to' \<le> TCP_MAX_WINSHIFT"
  using assms
proof (induction "length cp" arbitrary: to cp rule: less_induct)
  case less
  show ?case
  proof (cases cp)
    case Nil
    then show ?thesis using less.prems by (simp add: dooptions_loop.simps)
  next
    case (Cons kind rest)
    let ?n = "unat (cp ! 1)"
    consider "kind = TCPOPT_EOL \<or> kind \<noteq> TCPOPT_NOP \<and> (length cp < 2 \<or> ?n < 2 \<or> length cp < ?n)"
      | "kind \<noteq> TCPOPT_EOL" "kind = TCPOPT_NOP"
      | "kind \<noteq> TCPOPT_EOL" "kind \<noteq> TCPOPT_NOP" "2 \<le> length cp" "2 \<le> ?n" "?n \<le> length cp" by fastforce
    then show ?thesis
    proof cases
      case 1
      then show ?thesis using less.prems Cons by (subst dooptions_loop.simps) auto
    next
      case 2
      then have "dooptions_loop to cp is_syn = dooptions_loop to rest is_syn" using Cons by (subst dooptions_loop.simps) simp
      then show ?thesis using less.hyps [of rest to] less.prems Cons by simp
    next
      case 3
      obtain to' where to': "do_option to cp kind ?n is_syn = Done to'" "length (to_sacks to') \<le> TCP_MAX_SACK" "to_wscale to' \<le> TCP_MAX_WINSHIFT"
        using do_option_ok [OF 3(5), of to kind is_syn] less.prems by blast
      moreover have "rest \<noteq> []" using 3(3) Cons by auto
      ultimately have "dooptions_loop to cp is_syn = dooptions_loop to' (drop ?n cp) is_syn"
        using 3 Cons by (subst dooptions_loop.simps) (simp add: Let_def)
      then show ?thesis using less.hyps [of "drop ?n cp" to'] to' 3 by simp
    qed
  qed
qed

section \<open>Encoding and decoding\<close>

lemma get16_put16: "tcp_get16 (as @ tcp_put16 v @ bs) (length as) = Done v"
proof -
  have "push_bit 8 (ucast (ucast (drop_bit 8 v) :: u8)) OR ucast (ucast v :: u8) = v"
    by (rule bit_word_eqI) (auto simp: bit_or_iff bit_push_bit_iff bit_ucast_iff bit_drop_bit_eq)
  then show ?thesis by (simp add: tcp_get16_def get_byte_def tcp_put16_def nth_append)
qed

lemma get32_put32: "tcp_get32 (as @ tcp_put32 v @ bs) (length as) = Done v"
proof -
  have e: "push_bit 16 (ucast (ucast (drop_bit 16 v) :: u16)) OR ucast (ucast v :: u16) = v"
    by (rule bit_word_eqI) (auto simp: bit_or_iff bit_push_bit_iff bit_ucast_iff bit_drop_bit_eq)
  have "tcp_get16 (as @ tcp_put32 v @ bs) (length as) = Done (ucast (drop_bit 16 v))"
    using get16_put16 [of as "ucast (drop_bit 16 v)" "tcp_put16 (ucast v) @ bs"] by (simp add: tcp_put32_def)
  moreover have "tcp_get16 (as @ tcp_put32 v @ bs) (length as + 2) = Done (ucast v)"
    using get16_put16 [of "as @ tcp_put16 (ucast (drop_bit 16 v))" "ucast v" bs] by (simp add: tcp_put32_def tcp_put16_def)
  ultimately show ?thesis using e by (simp add: tcp_get32_def)
qed

lemma length_put [simp]: "length (tcp_put16 v) = 2" "length (tcp_put32 w) = 4" "length (put_sack b) = 8" "length (tcp_put_opt_header k l) = 4"
  by (simp_all add: tcp_put16_def tcp_put32_def put_sack_def tcp_put_opt_header_def)

lemma length_put_sacks [simp]: "length (concat (map put_sack bs)) = 8 * length bs"
  by (induction bs) simp_all

lemma get_sacks_put:
  "length as = 2 + 8 * i \<Longrightarrow> get_sacks (as @ concat (map put_sack bs) @ cs) i (length bs) = Done bs"
proof (induction bs arbitrary: as i)
  case (Cons b bs)
  have 1: "tcp_get32 (as @ concat (map put_sack (b # bs)) @ cs) (2 + 8 * i) = Done (sb_start b)"
    using get32_put32 [of as "sb_start b" "tcp_put32 (sb_end b) @ concat (map put_sack bs) @ cs"] Cons.prems by (simp add: put_sack_def)
  have 2: "tcp_get32 (as @ concat (map put_sack (b # bs)) @ cs) (6 + 8 * i) = Done (sb_end b)"
    using get32_put32 [of "as @ tcp_put32 (sb_start b)" "sb_end b" "concat (map put_sack bs) @ cs"] Cons.prems by (simp add: put_sack_def)
  have 3: "get_sacks (as @ concat (map put_sack (b # bs)) @ cs) (i + 1) (length bs) = Done bs"
    using Cons.IH [of "as @ put_sack b" "i + 1"] Cons.prems by simp
  show ?case using 1 2 3 by simp
qed simp

text \<open>Each option the writer emits, in front of any further bytes.\<close>

lemma parse_nop: "dooptions_loop to (TCPOPT_NOP # cp) s = dooptions_loop to cp s"
  by (subst dooptions_loop.simps) (simp add: TCPOPT_defs)

lemma parse_option:
  assumes "kind \<noteq> TCPOPT_EOL" and "kind \<noteq> TCPOPT_NOP" and "unat len = 2 + length body" and "do_option to (kind # len # body @ cp) kind (unat len) s = Done to'"
  shows "dooptions_loop to (kind # len # body @ cp) s = dooptions_loop to' cp s"
  using assms by (subst dooptions_loop.simps) (simp add: Let_def)

lemma get16_at: "length as = i \<Longrightarrow> tcp_get16 (as @ tcp_put16 v @ bs) i = Done v"
  using get16_put16 by blast

lemma get32_at: "length as = i \<Longrightarrow> tcp_get32 (as @ tcp_put32 v @ bs) i = Done v"
  using get32_put32 by blast

lemma parse_mss: "dooptions_loop to ([TCPOPT_MAXSEG, 4] @ tcp_put16 v @ cp) True
    = dooptions_loop (to\<lparr>to_flags := to_flags to OR TOF_MSS, to_mss := v\<rparr>) cp True"
proof -
  have "tcp_get16 ([TCPOPT_MAXSEG, 4] @ tcp_put16 v @ cp) 2 = Done v" by (rule get16_at) simp
  then show ?thesis
    using parse_option [of TCPOPT_MAXSEG 4 "tcp_put16 v" to cp True] by (simp add: do_option_def TCPOPT_defs)
qed

lemma parse_scale: "v \<le> TCP_MAX_WINSHIFT \<Longrightarrow> dooptions_loop to ([TCPOPT_NOP, TCPOPT_WINDOW, 3, v] @ cp) True
    = dooptions_loop (to\<lparr>to_flags := to_flags to OR TOF_SCALE, to_wscale := v\<rparr>) cp True"
  using parse_option [of TCPOPT_WINDOW 3 "[v]" to cp True]
  by (auto simp: do_option_def TCPOPT_defs parse_nop [unfolded TCPOPT_defs] get_byte_def less_le)

lemma parse_sackperm: "dooptions_loop to (tcp_put_opt_header TCPOPT_SACK_PERMITTED 2 @ cp) True
    = dooptions_loop (to\<lparr>to_flags := to_flags to OR TOF_SACKPERM\<rparr>) cp True"
  using parse_option [of TCPOPT_SACK_PERMITTED 2 "[]" to cp True]
  by (simp add: tcp_put_opt_header_def do_option_def parse_nop) (simp add: TCPOPT_defs)

lemma parse_ts: "dooptions_loop to (tcp_put_opt_header TCPOPT_TIMESTAMP 10 @ tcp_put32 v @ tcp_put32 e @ cp) s
    = dooptions_loop (to\<lparr>to_flags := to_flags to OR TOF_TS, to_ts_val := v, to_ts_ecr := e\<rparr>) cp s"
proof -
  have 1: "tcp_get32 ([TCPOPT_TIMESTAMP, 10] @ tcp_put32 v @ tcp_put32 e @ cp) 2 = Done v" by (rule get32_at) simp
  have "tcp_get32 (([TCPOPT_TIMESTAMP, 10] @ tcp_put32 v) @ tcp_put32 e @ cp) 6 = Done e" by (rule get32_at) simp
  then have "do_option to (TCPOPT_TIMESTAMP # 10 # (tcp_put32 v @ tcp_put32 e) @ cp) TCPOPT_TIMESTAMP (unat (10 :: u8)) s
      = Done (to\<lparr>to_flags := to_flags to OR TOF_TS, to_ts_val := v, to_ts_ecr := e\<rparr>)"
    using 1 by (simp add: do_option_def TCPOPT_defs)
  from parse_option [OF _ _ _ this] show ?thesis
    by (simp add: tcp_put_opt_header_def parse_nop) (simp add: TCPOPT_defs)
qed

lemma parse_sack:
  assumes "bs \<noteq> []" and "length bs \<le> TCP_MAX_SACK"
  shows "dooptions_loop to (tcp_put_opt_header TCPOPT_SACK (word_of_nat (2 + 8 * length bs)) @ concat (map put_sack bs) @ cp) False
    = dooptions_loop (to\<lparr>to_flags := to_flags to OR TOF_SACK, to_sacks := bs\<rparr>) cp False"
proof -
  let ?n = "word_of_nat (2 + 8 * length bs) :: u8"
  have u: "unat ?n = 2 + 8 * length bs" using assms(2) by (intro unat_word_of_nat_id) (simp add: TCP_MAX_SACK_def)
  have "get_sacks ([TCPOPT_SACK, ?n] @ concat (map put_sack bs) @ cp) 0 (length bs) = Done bs" by (rule get_sacks_put) simp
  moreover have "min (length bs) TCP_MAX_SACK = length bs" using assms(2) by simp
  moreover have "1 \<le> length bs" using assms(1) by (cases bs) auto
  ultimately have "do_option to (TCPOPT_SACK # ?n # concat (map put_sack bs) @ cp) TCPOPT_SACK (unat ?n) False
      = Done (to\<lparr>to_flags := to_flags to OR TOF_SACK, to_sacks := bs\<rparr>)"
    unfolding u by (simp add: do_option_def) (simp add: TCPOPT_defs)
  from parse_option [OF _ _ _ this] u show ?thesis
    by (simp add: tcp_put_opt_header_def parse_nop del: of_nat_add of_nat_mult) (simp add: TCPOPT_defs)
qed

text \<open>The options a segment carries: those of a SYN, or time stamps and acknowledged blocks that fit the
  forty option bytes.\<close>

definition syn_flags :: "u32 \<Rightarrow> bool" where
  "syn_flags f \<longleftrightarrow> f AND NOT (TOF_MSS OR TOF_SCALE OR TOF_SACKPERM OR TOF_TS) = 0"

definition segment_flags :: "u32 \<Rightarrow> bool" where
  "segment_flags f \<longleftrightarrow> f AND NOT (TOF_TS OR TOF_SACK) = 0"

definition sendable :: "tcp_opts \<Rightarrow> bool \<Rightarrow> bool" where
  "sendable to is_syn \<longleftrightarrow>
     (if is_syn then syn_flags (to_flags to) \<and> to_wscale to \<le> TCP_MAX_WINSHIFT
      else segment_flags (to_flags to) \<and>
        (has_opt to TOF_SACK \<longrightarrow> to_sacks to \<noteq> [] \<and> length (to_sacks to) \<le> (if has_opt to TOF_TS then 3 else TCP_MAX_SACK)))"

definition opts_normal :: "tcp_opts \<Rightarrow> tcp_opts" where
  "opts_normal to = \<lparr>to_flags = to_flags to, to_mss = (if has_opt to TOF_MSS then to_mss to else 0),
     to_wscale = (if has_opt to TOF_SCALE then to_wscale to else 0),
     to_ts_val = (if has_opt to TOF_TS then to_ts_val to else 0), to_ts_ecr = (if has_opt to TOF_TS then to_ts_ecr to else 0),
     to_sacks = (if has_opt to TOF_SACK then to_sacks to else [])\<rparr>"

lemma small_word: "unat w \<le> n \<Longrightarrow> w \<in> set (map word_of_nat [0..<Suc n])"
  unfolding set_map set_upt by (rule image_eqI [of _ _ "unat w"]) auto

lemma syn_flags_sum:
  assumes "syn_flags f"
  shows "f = (((0 OR (if f AND TOF_MSS \<noteq> 0 then TOF_MSS else 0)) OR (if f AND TOF_SCALE \<noteq> 0 then TOF_SCALE else 0))
      OR (if f AND TOF_SACKPERM \<noteq> 0 then TOF_SACKPERM else 0)) OR (if f AND TOF_TS \<noteq> 0 then TOF_TS else 0)"
    "f AND TOF_SACK = 0"
proof -
  have "f = f AND 15 OR f AND NOT 15" by (simp flip: bit.conj_disj_distrib)
  then have "f = f AND 15" using assms by (simp add: syn_flags_def TOF_defs)
  then have "f \<le> 15" using word_and_le1 [of f 15] by metis
  then have "unat f \<le> 15" by (simp add: word_le_nat_alt)
  then have "f \<in> {0, 1, 2, 3, 4, 5, 6, 7, 8, 9, 10, 11, 12, 13, 14, 15}" using small_word [of f 15] by (simp add: upt_rec)
  then show "f = (((0 OR (if f AND TOF_MSS \<noteq> 0 then TOF_MSS else 0)) OR (if f AND TOF_SCALE \<noteq> 0 then TOF_SCALE else 0))
      OR (if f AND TOF_SACKPERM \<noteq> 0 then TOF_SACKPERM else 0)) OR (if f AND TOF_TS \<noteq> 0 then TOF_TS else 0)"
    "f AND TOF_SACK = 0"
    by (auto simp: TOF_defs)
qed

lemma segment_flags_sum:
  assumes "segment_flags f"
  shows "f = (0 OR (if f AND TOF_TS \<noteq> 0 then TOF_TS else 0)) OR (if f AND TOF_SACK \<noteq> 0 then TOF_SACK else 0)"
    "f AND TOF_MSS = 0" "f AND TOF_SCALE = 0" "f AND TOF_SACKPERM = 0"
proof -
  have e: "f = f AND 24 OR f AND NOT 24" by (simp flip: bit.conj_disj_distrib)
  then have f: "f = f AND 24" using assms by (simp add: segment_flags_def TOF_defs)
  then have "f \<le> 24" using word_and_le1 [of f 24] by metis
  then have "unat f \<le> 24" by (simp add: word_le_nat_alt)
  then have "f \<in> {0, 1, 2, 3, 4, 5, 6, 7, 8, 9, 10, 11, 12, 13, 14, 15, 16, 17, 18, 19, 20, 21, 22, 23, 24}"
    using small_word [of f 24] by (simp add: upt_rec)
  then have "f \<in> {0, 8, 16, 24}" using f by auto
  then show "f = (0 OR (if f AND TOF_TS \<noteq> 0 then TOF_TS else 0)) OR (if f AND TOF_SACK \<noteq> 0 then TOF_SACK else 0)"
    "f AND TOF_MSS = 0" "f AND TOF_SCALE = 0" "f AND TOF_SACKPERM = 0"
    by (auto simp: TOF_defs)
qed

lemma dooptions_nil: "dooptions_loop to [] s = Done to"
  by (simp add: dooptions_loop.simps)

lemma syn_roundtrip:
  assumes "syn_flags (to_flags to)" and "to_wscale to \<le> TCP_MAX_WINSHIFT"
  shows "tcp_dooptions (tcp_addoptions to) True = Done (opts_normal to)"
proof -
  note f = syn_flags_sum [OF assms(1), folded has_opt_def]
  have ns: "\<not> has_opt to TOF_SACK" using f(2) by (simp add: has_opt_def)
  define m w q t where "m = has_opt to TOF_MSS" and "w = has_opt to TOF_SCALE" and "q = has_opt to TOF_SACKPERM" and "t = has_opt to TOF_TS"
  have fl: "to_flags to = (((0 OR (if m then TOF_MSS else 0)) OR (if w then TOF_SCALE else 0)) OR (if q then TOF_SACKPERM else 0)) OR (if t then TOF_TS else 0)"
    using f(1) unfolding m_def w_def q_def t_def .
  have add: "tcp_addoptions to = (if m then [TCPOPT_MAXSEG, 4] @ tcp_put16 (to_mss to) else []) @
      (if w then [TCPOPT_NOP, TCPOPT_WINDOW, 3, to_wscale to] else []) @ (if q then tcp_put_opt_header TCPOPT_SACK_PERMITTED 2 else []) @
      (if t then tcp_put_opt_header TCPOPT_TIMESTAMP 10 @ tcp_put32 (to_ts_val to) @ tcp_put32 (to_ts_ecr to) else [])"
    using ns by (simp add: tcp_addoptions_def Let_def m_def w_def q_def t_def)
  have no: "opts_normal to = \<lparr>to_flags = to_flags to, to_mss = (if m then to_mss to else 0), to_wscale = (if w then to_wscale to else 0),
     to_ts_val = (if t then to_ts_val to else 0), to_ts_ecr = (if t then to_ts_ecr to else 0), to_sacks = []\<rparr>"
    using ns by (simp add: opts_normal_def m_def w_def q_def t_def)
  note p1 = parse_mss and p2 = parse_scale [OF assms(2)] and p3 = parse_sackperm and p4 = parse_ts [where cp = "[]", simplified]
  show ?thesis
    unfolding tcp_dooptions_def add no fl
    by (cases m; cases w; cases q; cases t)
      (simp_all only: if_True if_False append_Nil append_Nil2 append_assoc p1 p2 p3 p4 dooptions_nil parse_mss [where cp = "[]", simplified append_Nil2]
        parse_scale [OF assms(2), where cp = "[]", simplified append_Nil2] parse_sackperm [where cp = "[]", simplified append_Nil2],
       simp_all add: no_opts_def)
qed

lemma segment_roundtrip:
  assumes "segment_flags (to_flags to)"
    and "has_opt to TOF_SACK \<Longrightarrow> to_sacks to \<noteq> [] \<and> length (to_sacks to) \<le> (if has_opt to TOF_TS then 3 else TCP_MAX_SACK)"
  shows "tcp_dooptions (tcp_addoptions to) False = Done (opts_normal to)"
proof -
  note f = segment_flags_sum [OF assms(1), folded has_opt_def]
  have ns: "\<not> has_opt to TOF_MSS" "\<not> has_opt to TOF_SCALE" "\<not> has_opt to TOF_SACKPERM" using f(2-4) by (simp_all add: has_opt_def)
  define t k bs where "t = has_opt to TOF_TS" and "k = has_opt to TOF_SACK" and "bs = to_sacks to"
  have fl: "to_flags to = (0 OR (if t then TOF_TS else 0)) OR (if k then TOF_SACK else 0)" using f(1) unfolding t_def k_def .
  have k: "bs \<noteq> []" "length bs \<le> (if t then 3 else 4)" if k using assms(2) that by (auto simp: k_def t_def bs_def TCP_MAX_SACK_def)
  have add: "tcp_addoptions to = (if t then tcp_put_opt_header TCPOPT_TIMESTAMP 10 @ tcp_put32 (to_ts_val to) @ tcp_put32 (to_ts_ecr to) else []) @
      (if k then tcp_put_opt_header TCPOPT_SACK (word_of_nat (2 + 8 * length bs)) @ concat (map put_sack bs) @ [] else [])"
  proof -
    have "min (length bs) (if t then 3 else 4) = length bs" if k using k that by auto
    then show ?thesis
      using ns k unfolding tcp_addoptions_def Let_def t_def [symmetric] k_def [symmetric] bs_def [symmetric]
      by (cases t; cases k) (simp_all add: TCP_MAX_HEADER_LEN_def TCP_HEADER_LEN_def del: of_nat_add of_nat_mult)
  qed
  have no: "opts_normal to = \<lparr>to_flags = to_flags to, to_mss = 0, to_wscale = 0, to_ts_val = (if t then to_ts_val to else 0),
     to_ts_ecr = (if t then to_ts_ecr to else 0), to_sacks = (if k then bs else [])\<rparr>"
    using ns by (simp add: opts_normal_def t_def k_def bs_def)
  have sk: "dooptions_loop to' (tcp_put_opt_header TCPOPT_SACK (word_of_nat (2 + 8 * length bs)) @ concat (map put_sack bs) @ []) False
      = Done (to'\<lparr>to_flags := to_flags to' OR TOF_SACK, to_sacks := bs\<rparr>)" if k for to'
    using parse_sack [of bs to' "[]"] k [OF that] by (cases t) (simp_all only: dooptions_nil TCP_MAX_SACK_def, simp_all)
  have ts: "dooptions_loop to' (tcp_put_opt_header TCPOPT_TIMESTAMP 10 @ tcp_put32 v @ tcp_put32 e) False
      = Done (to'\<lparr>to_flags := to_flags to' OR TOF_TS, to_ts_val := v, to_ts_ecr := e\<rparr>)" for to' v e
    using parse_ts [of to' v e "[]" False] by (simp add: dooptions_nil)
  show ?thesis
    unfolding tcp_dooptions_def add no fl
    by (cases t; cases k)
      (simp_all only: if_True if_False append_Nil append_Nil2 append_assoc parse_ts ts sk [simplified append_Nil2] dooptions_nil, simp_all add: no_opts_def)
qed

lemma options_fit:
  "length (tcp_addoptions to) \<le> TCP_MAX_HEADER_LEN - TCP_HEADER_LEN" "4 dvd length (tcp_addoptions to)"
proof -
  define p where "p = (if has_opt to TOF_MSS then [TCPOPT_MAXSEG, 4] @ tcp_put16 (to_mss to) else []) @
    (if has_opt to TOF_SCALE then [TCPOPT_NOP, TCPOPT_WINDOW, 3, to_wscale to] else []) @
    (if has_opt to TOF_SACKPERM then tcp_put_opt_header TCPOPT_SACK_PERMITTED 2 else []) @
    (if has_opt to TOF_TS then tcp_put_opt_header TCPOPT_TIMESTAMP 10 @ tcp_put32 (to_ts_val to) @ tcp_put32 (to_ts_ecr to) else [])"
  define n where "n = min (length (to_sacks to)) ((40 - length p - 4) div 8)"
  have four: "4 dvd Suc (Suc (Suc (Suc k))) \<longleftrightarrow> 4 dvd k" for k :: nat by presburger
  have p: "length p \<le> 24" "4 dvd length p" by (auto simp: p_def four)
  have a: "tcp_addoptions to = (if has_opt to TOF_SACK \<and> n \<noteq> 0
      then p @ tcp_put_opt_header TCPOPT_SACK (word_of_nat (2 + 8 * n)) @ concat (map put_sack (take n (to_sacks to))) else p)"
    by (simp add: tcp_addoptions_def Let_def p_def n_def TCP_MAX_HEADER_LEN_def TCP_HEADER_LEN_def)
  have "8 * n \<le> 8 * ((40 - length p - 4) div 8)" by (simp add: n_def)
  also have "\<dots> \<le> 36 - length p" by simp
  finally have n: "8 * n \<le> 36 - length p" .
  have "length (take n (to_sacks to)) = n" by (simp add: n_def)
  then have l: "length (tcp_addoptions to) = (if has_opt to TOF_SACK \<and> n \<noteq> 0 then length p + 4 + 8 * n else length p)"
    by (simp add: a del: length_take)
  show "length (tcp_addoptions to) \<le> TCP_MAX_HEADER_LEN - TCP_HEADER_LEN" "4 dvd length (tcp_addoptions to)"
    unfolding l using n p by (auto simp: TCP_MAX_HEADER_LEN_def TCP_HEADER_LEN_def)
qed

section \<open>Properties\<close>

text \<open>C20: parsing options is safe. For any option bytes a peer may send, truncated or malformed,
  \<^verbatim>\<open>tcp_dooptions\<close> ends without reading outside them, keeps at most \<open>TCP_MAX_SACK\<close> blocks, the size of
  its array, and a window shift of at most \<open>TCP_MAX_WINSHIFT\<close>.\<close>

theorem tcp_dooptions_safe:
  "\<exists>to. tcp_dooptions cp is_syn = Done to \<and> length (to_sacks to) \<le> TCP_MAX_SACK \<and> to_wscale to \<le> TCP_MAX_WINSHIFT"
  unfolding tcp_dooptions_def by (rule dooptions_ok) (simp_all add: no_opts_def TCP_MAX_WINSHIFT_def)

text \<open>C21: option round trip. What \<^verbatim>\<open>tcp_addoptions\<close> writes fits the header, is a whole number of words, and
  is read back by \<^verbatim>\<open>tcp_dooptions\<close> exactly, for the options of a SYN and for those of a later segment.\<close>

theorem tcp_options_roundtrip:
  assumes "sendable to is_syn"
  shows "tcp_dooptions (tcp_addoptions to) is_syn = Done (opts_normal to) \<and>
    length (tcp_addoptions to) \<le> TCP_MAX_HEADER_LEN - TCP_HEADER_LEN \<and> 4 dvd length (tcp_addoptions to)"
  using assms options_fit syn_roundtrip segment_roundtrip by (cases is_syn) (auto simp: sendable_def)

theorem tcp_options_roundtrip_witness:
  "\<exists>to. to_flags to = TOF_TS OR TOF_SACK \<and> length (to_sacks to) = 2 \<and> sendable to False \<and>
    tcp_dooptions (tcp_addoptions to) False = Done (opts_normal to)"
proof -
  define to where "to = \<lparr>to_flags = TOF_TS OR TOF_SACK, to_mss = 0, to_wscale = 0, to_ts_val = 7, to_ts_ecr = 5,
    to_sacks = [\<lparr>sb_start = 100, sb_end = 200\<rparr>, \<lparr>sb_start = 300, sb_end = 400\<rparr>]\<rparr>"
  have s: "sendable to False" by (simp add: sendable_def segment_flags_def has_opt_def to_def TOF_defs)
  show ?thesis using tcp_options_roundtrip [OF s] s by (intro exI [of _ to]) (simp add: to_def)
qed

end
