(* ===== verification/TCP_Sack.thy ===== *)
theory TCP_Sack
  imports TCP_Base
begin

text \<open>
  Selective acknowledgement, \<^verbatim>\<open>src/kernel/drivers/net/tcp/tcp_sack.c\<close>: the sender's scoreboard of blocks the
  peer has reported, an array of eight with a count, and the blocks a receiver reports from its
  reassembly queue. The scoreboard is related to the set of distances from \<open>snd_una\<close> it covers.
\<close>

section \<open>The code\<close>

function shift_down :: "'a list \<Rightarrow> nat \<Rightarrow> nat \<Rightarrow> 'a list" where
  "shift_down bs j n = (if j + 1 < n then shift_down (bs[j := bs ! (j + 1)]) (j + 1) n else bs)"
  by pat_completeness auto
termination by (relation "measure (\<lambda>(bs, j, n). n - j)") auto

fun shift_up :: "'a list \<Rightarrow> nat \<Rightarrow> nat \<Rightarrow> 'a list" where
  "shift_up bs 0 i = bs"
| "shift_up bs (Suc j) i = (if Suc j > i then shift_up (bs[Suc j := bs ! j]) j i else bs)"

declare shift_down.simps [simp del]

definition tcp_sack_remove :: "tcpcb \<Rightarrow> nat \<Rightarrow> tcpcb" where
  "tcp_sack_remove tp i = tp\<lparr>sack_blocks := shift_down (sack_blocks tp) i (sack_count tp), sack_count := sack_count tp - 1\<rparr>"

definition tcp_sack_insert_at :: "tcpcb \<Rightarrow> nat \<Rightarrow> tcp_sack_block \<Rightarrow> tcpcb" where
  "tcp_sack_insert_at tp i b =
     (if sack_count tp = TCP_SACK_SCOREBOARD \<and> i = TCP_SACK_SCOREBOARD then tp
      else
        let n = (if sack_count tp = TCP_SACK_SCOREBOARD then sack_count tp - 1 else sack_count tp)
        in tp\<lparr>sack_blocks := (shift_up (sack_blocks tp) n i)[i := b], sack_count := n + 1\<rparr>)"

definition join_block :: "tcp_sack_block \<Rightarrow> tcp_sack_block \<Rightarrow> tcp_sack_block" where
  "join_block b cur =
     (let b = (if SEQ_LT (sb_start cur) (sb_start b) then b\<lparr>sb_start := sb_start cur\<rparr> else b)
      in if SEQ_GT (sb_end cur) (sb_end b) then b\<lparr>sb_end := sb_end cur\<rparr> else b)"

function sack_merge_loop :: "tcpcb \<Rightarrow> tcp_sack_block \<Rightarrow> nat \<Rightarrow> tcpcb \<times> tcp_sack_block \<times> nat" where
  "sack_merge_loop tp b i =
     (if i < sack_count tp then
        let cur = sack_blocks tp ! i
        in if SEQ_LT (sb_end cur) (sb_start b) then sack_merge_loop tp b (i + 1)
           else if SEQ_GT (sb_start cur) (sb_end b) then (tp, b, i)
           else sack_merge_loop (tcp_sack_remove tp i) (join_block b cur) i
      else (tp, b, i))"
  by pat_completeness auto
termination by (relation "measure (\<lambda>(tp, b, i). sack_count tp - i)") (auto simp: tcp_sack_remove_def)

declare sack_merge_loop.simps [simp del]

definition tcp_sack_merge :: "tcpcb \<Rightarrow> tcp_sack_block \<Rightarrow> tcpcb" where
  "tcp_sack_merge tp b = (let (tp, b, i) = sack_merge_loop tp b 0 in tcp_sack_insert_at tp i b)"

fun tcp_sack_update :: "tcpcb \<Rightarrow> tcp_sack_block list \<Rightarrow> tcpcb" where
  "tcp_sack_update tp [] = tp"
| "tcp_sack_update tp (b # bs) =
     (if SEQ_LEQ (sb_end b) (sb_start b) \<or> SEQ_LEQ (sb_end b) (snd_una tp) \<or> SEQ_GT (sb_end b) (snd_max tp)
      then tcp_sack_update tp bs
      else tcp_sack_update
             (tcp_sack_merge tp (if SEQ_LT (sb_start b) (snd_una tp) then b\<lparr>sb_start := snd_una tp\<rparr> else b)) bs)"

function sack_ack_loop :: "tcpcb \<Rightarrow> tcp_seq \<Rightarrow> tcpcb" where
  "sack_ack_loop tp ack =
     (if sack_count tp \<noteq> 0 \<and> SEQ_LEQ (sb_end (sack_blocks tp ! 0)) ack
      then sack_ack_loop (tcp_sack_remove tp 0) ack else tp)"
  by pat_completeness auto
termination by (relation "measure (\<lambda>(tp, ack). sack_count tp)") (auto simp: tcp_sack_remove_def)

declare sack_ack_loop.simps [simp del]

definition tcp_sack_ack :: "tcpcb \<Rightarrow> tcp_seq \<Rightarrow> tcpcb" where
  "tcp_sack_ack tp ack =
     (let tp = sack_ack_loop tp ack;
          tp = (if sack_count tp \<noteq> 0 \<and> SEQ_LT (sb_start (sack_blocks tp ! 0)) ack
                then tp\<lparr>sack_blocks := (sack_blocks tp)[0 := (sack_blocks tp ! 0)\<lparr>sb_start := ack\<rparr>]\<rparr> else tp)
      in if SEQ_LT (sack_rxmit tp) ack then tp\<lparr>sack_rxmit := ack\<rparr> else tp)"

definition tcp_sack_clear :: "tcpcb \<Rightarrow> tcpcb" where
  "tcp_sack_clear tp = tp\<lparr>sack_count := 0, sack_rxmit := snd_una tp, sack_rexmit_bytes := 0\<rparr>"

definition tcp_sack_bytes :: "tcpcb \<Rightarrow> u32" where
  "tcp_sack_bytes tp = fold (\<lambda>b bytes. bytes + (sb_end b - sb_start b)) (take (sack_count tp) (sack_blocks tp)) 0"

definition tcp_sack_pipe :: "tcpcb \<Rightarrow> u32" where
  "tcp_sack_pipe tp = snd_max tp - snd_una tp - tcp_sack_bytes tp + sack_rexmit_bytes tp"

fun next_hole_loop :: "tcp_seq \<Rightarrow> tcp_sack_block list \<Rightarrow> (tcp_seq \<times> u32) option" where
  "next_hole_loop start [] = None"
| "next_hole_loop start (b # bs) =
     (if SEQ_LT start (sb_start b) then Some (start, sb_start b - start)
      else next_hole_loop (if SEQ_LT start (sb_end b) then sb_end b else start) bs)"

definition tcp_sack_next_hole :: "tcpcb \<Rightarrow> (tcp_seq \<times> u32) option" where
  "tcp_sack_next_hole tp =
     next_hole_loop (if SEQ_GT (sack_rxmit tp) (snd_una tp) then sack_rxmit tp else snd_una tp)
       (take (sack_count tp) (sack_blocks tp))"

text \<open>The blocks of the reassembly queue, adjacent entries joined, at most \<open>n\<close>; \<open>out\<close> is the array
  filled so far.\<close>

fun build_blocks_loop :: "tcp_reassemble_entry list \<Rightarrow> tcp_sack_block list \<Rightarrow> nat \<Rightarrow> tcp_sack_block list" where
  "build_blocks_loop [] out n = out"
| "build_blocks_loop (e # es) out n =
     (let end_seq = re_seq e + re_len e
      in if re_len e = 0 then build_blocks_loop es out n
         else if out \<noteq> [] \<and> sb_end (last out) = re_seq e
         then build_blocks_loop es (butlast out @ [last out\<lparr>sb_end := end_seq\<rparr>]) n
         else if length out = n then out
         else build_blocks_loop es (out @ [\<lparr>sb_start = re_seq e, sb_end = end_seq\<rparr>]) n)"

definition tcp_sack_build_blocks :: "tcpcb \<Rightarrow> nat \<Rightarrow> tcp_sack_block list" where
  "tcp_sack_build_blocks tp n = build_blocks_loop (reassemble_queue tp) [] n"

section \<open>The scoreboard as a list\<close>

definition sack_view :: "tcpcb \<Rightarrow> tcp_sack_block list" where
  "sack_view tp = take (sack_count tp) (sack_blocks tp)"

definition sack_shape :: "tcpcb \<Rightarrow> bool" where
  "sack_shape tp \<longleftrightarrow> length (sack_blocks tp) = TCP_SACK_SCOREBOARD \<and> sack_count tp \<le> TCP_SACK_SCOREBOARD"

lemma length_shift [simp]: "length (shift_down bs j n) = length bs" "length (shift_up bs m i) = length bs"
proof -
  show "length (shift_down bs j n) = length bs"
    by (induction bs j n rule: shift_down.induct) (subst shift_down.simps, auto)
  show "length (shift_up bs m i) = length bs" by (induction bs m i rule: shift_up.induct) auto
qed

lemma nth_shift_down:
  "n \<le> length bs \<Longrightarrow> k < length bs \<Longrightarrow> shift_down bs j n ! k = (if j \<le> k \<and> k + 1 < n then bs ! (k + 1) else bs ! k)"
proof (induction bs j n rule: shift_down.induct)
  case (1 bs j n)
  show ?case
  proof (cases "j + 1 < n")
    case True
    then have "shift_down bs j n ! k = (if j + 1 \<le> k \<and> k + 1 < n then bs[j := bs ! (j + 1)] ! (k + 1) else bs[j := bs ! (j + 1)] ! k)"
      using 1 by (subst shift_down.simps) simp
    then show ?thesis using True 1(2,3) by (auto simp: nth_list_update)
  next
    case False
    then show ?thesis by (subst shift_down.simps) auto
  qed
qed

lemma nth_shift_up:
  "n < length bs \<Longrightarrow> k < length bs \<Longrightarrow> shift_up bs n i ! k = (if i < k \<and> k \<le> n then bs ! (k - 1) else bs ! k)"
proof (induction bs n i rule: shift_up.induct)
  case (2 bs j i)
  show ?case
  proof (cases "i < Suc j")
    case True
    then have "shift_up bs (Suc j) i ! k = (if i < k \<and> k \<le> j then bs[Suc j := bs ! j] ! (k - 1) else bs[Suc j := bs ! j] ! k)"
      using 2 by simp
    then show ?thesis using True 2(2,3) by (auto simp: nth_list_update)
  qed (use 2 in auto)
qed auto

lemma view_remove:
  assumes "sack_shape tp" and "i < sack_count tp"
  shows "sack_view (tcp_sack_remove tp i) = take i (sack_view tp) @ drop (Suc i) (sack_view tp)" "sack_shape (tcp_sack_remove tp i)"
proof -
  have l: "sack_count tp \<le> length (sack_blocks tp)" using assms(1) by (simp add: sack_shape_def)
  show "sack_view (tcp_sack_remove tp i) = take i (sack_view tp) @ drop (Suc i) (sack_view tp)"
    using assms(2) l by (intro nth_equalityI) (auto simp: sack_view_def tcp_sack_remove_def nth_append nth_shift_down)
  show "sack_shape (tcp_sack_remove tp i)" using assms by (auto simp: sack_shape_def tcp_sack_remove_def)
qed

lemma view_insert:
  assumes "sack_shape tp" and "i \<le> sack_count tp"
  shows "sack_view (tcp_sack_insert_at tp i b) = take TCP_SACK_SCOREBOARD (take i (sack_view tp) @ b # drop i (sack_view tp))"
    "sack_shape (tcp_sack_insert_at tp i b)"
proof -
  have l: "length (sack_blocks tp) = TCP_SACK_SCOREBOARD" "sack_count tp \<le> TCP_SACK_SCOREBOARD" "0 < TCP_SACK_SCOREBOARD"
    using assms(1) by (simp_all add: sack_shape_def TCP_SACK_SCOREBOARD_def)
  show "sack_view (tcp_sack_insert_at tp i b) = take TCP_SACK_SCOREBOARD (take i (sack_view tp) @ b # drop i (sack_view tp))"
  proof (cases "sack_count tp = TCP_SACK_SCOREBOARD \<and> i = TCP_SACK_SCOREBOARD")
    case True
    then show ?thesis using l by (simp add: tcp_sack_insert_at_def sack_view_def)
  next
    case False
    define n where "n = (if sack_count tp = TCP_SACK_SCOREBOARD then sack_count tp - 1 else sack_count tp)"
    have n: "n < TCP_SACK_SCOREBOARD" "i \<le> n" using False assms(2) l by (auto simp: n_def)
    have v: "sack_view (tcp_sack_insert_at tp i b) = take (n + 1) ((shift_up (sack_blocks tp) n i)[i := b])"
      unfolding tcp_sack_insert_at_def if_not_P [OF False] Let_def n_def [symmetric] by (simp add: sack_view_def)
    have len: "min TCP_SACK_SCOREBOARD (Suc (sack_count tp)) = n + 1" using l by (auto simp: n_def)
    show ?thesis
      unfolding v using n l assms(2) len
      by (intro nth_equalityI) (auto simp: sack_view_def nth_append nth_list_update nth_shift_up nth_Cons split: nat.splits
          intro!: arg_cong [where f = "(!) (sack_blocks tp)"])
  qed
  show "sack_shape (tcp_sack_insert_at tp i b)" using l by (auto simp: sack_shape_def tcp_sack_insert_at_def Let_def)
qed

text \<open>Everything but the scoreboard is as it was.\<close>

definition sack_frame :: "tcpcb \<Rightarrow> tcpcb \<Rightarrow> bool" where
  "sack_frame tp tp' \<longleftrightarrow> tp'\<lparr>sack_blocks := sack_blocks tp, sack_count := sack_count tp\<rparr> = tp"

lemma sack_frame_intros [intro]:
  "sack_frame tp tp" "sack_frame tp (tcp_sack_remove tp i)" "sack_frame tp (tcp_sack_insert_at tp i b)"
  by (simp_all add: sack_frame_def tcp_sack_remove_def tcp_sack_insert_at_def Let_def)

lemma sack_frame_trans: "sack_frame tp tp' \<Longrightarrow> sack_frame tp' tp'' \<Longrightarrow> sack_frame tp tp''"
  by (cases tp, cases tp', cases tp'') (simp add: sack_frame_def)

lemma sack_frame_fields:
  "sack_frame tp tp' \<Longrightarrow> snd_una tp' = snd_una tp \<and> snd_max tp' = snd_max tp \<and> sack_rxmit tp' = sack_rxmit tp"
  by (cases tp, cases tp') (simp add: sack_frame_def)

text \<open>Merging a block into a sorted list, the function the array code computes.\<close>

fun merge_blocks :: "tcp_sack_block \<Rightarrow> tcp_sack_block list \<Rightarrow> tcp_sack_block list" where
  "merge_blocks b [] = [b]"
| "merge_blocks b (c # cs) =
     (if SEQ_LT (sb_end c) (sb_start b) then c # merge_blocks b cs
      else if SEQ_GT (sb_start c) (sb_end b) then b # c # cs
      else merge_blocks (join_block b c) cs)"

lemma sack_merge_loop_list:
  "sack_shape tp \<Longrightarrow> i \<le> sack_count tp \<Longrightarrow> sack_merge_loop tp b i = (tp', b', i') \<Longrightarrow>
     sack_shape tp' \<and> i' \<le> sack_count tp' \<and> sack_frame tp tp' \<and>
     take i' (sack_view tp') @ b' # drop i' (sack_view tp') = take i (sack_view tp) @ merge_blocks b (drop i (sack_view tp))"
proof (induction tp b i rule: sack_merge_loop.induct)
  case (1 tp b i)
  define cur where "cur = sack_blocks tp ! i"
  have len: "length (sack_view tp) = sack_count tp" using 1(3) by (simp add: sack_view_def sack_shape_def)
  show ?case
  proof (cases "i < sack_count tp")
    case False
    then have "tp' = tp" "b' = b" "i' = i" using 1(5) by (simp_all add: sack_merge_loop.simps [of tp b i])
    then show ?thesis using False 1(3,4) len by auto
  next
    case True
    have hd: "drop i (sack_view tp) = cur # drop (Suc i) (sack_view tp)"
      using True 1(3) by (simp add: Cons_nth_drop_Suc [symmetric] cur_def sack_view_def sack_shape_def)
    have tk: "take (Suc i) (sack_view tp) = take i (sack_view tp) @ [cur]"
      using True len by (simp add: take_Suc_conv_app_nth cur_def) (simp add: sack_view_def)
    consider "SEQ_LT (sb_end cur) (sb_start b)" | "\<not> SEQ_LT (sb_end cur) (sb_start b)" "SEQ_GT (sb_start cur) (sb_end b)"
      | "\<not> SEQ_LT (sb_end cur) (sb_start b)" "\<not> SEQ_GT (sb_start cur) (sb_end b)" by blast
    then show ?thesis
    proof cases
      case 1
      then show ?thesis
        using "1.IH"(1) [OF True cur_def] "1.prems" True hd tk by (simp add: sack_merge_loop.simps [of tp b i] cur_def [symmetric])
    next
      case 2
      then show ?thesis using "1.prems" True hd by (auto simp: sack_merge_loop.simps [of tp b i] cur_def [symmetric])
    next
      case 3
      note v = view_remove [OF "1.prems"(1) True]
      have le: "i \<le> sack_count (tcp_sack_remove tp i)" using True by (simp add: tcp_sack_remove_def)
      have lp: "sack_merge_loop (tcp_sack_remove tp i) (join_block b cur) i = (tp', b', i')"
        using 3 "1.prems"(3) True by (simp add: sack_merge_loop.simps [of tp b i] cur_def [symmetric])
      have "take i (sack_view (tcp_sack_remove tp i)) = take i (sack_view tp)"
        "drop i (sack_view (tcp_sack_remove tp i)) = drop (Suc i) (sack_view tp)"
        using True len by (simp_all add: v(1))
      then show ?thesis
        using "1.IH"(2) [OF True cur_def 3 v(2) le lp] 3 sack_frame_trans [OF sack_frame_intros(2) [of tp i], of tp'] by (simp add: hd)
    qed
  qed
qed

lemma tcp_sack_merge_list:
  assumes "sack_shape tp"
  shows "sack_view (tcp_sack_merge tp b) = take TCP_SACK_SCOREBOARD (merge_blocks b (sack_view tp))"
    "sack_shape (tcp_sack_merge tp b)" "sack_frame tp (tcp_sack_merge tp b)"
proof -
  obtain tp' b' i' where l: "sack_merge_loop tp b 0 = (tp', b', i')" by (cases "sack_merge_loop tp b 0") auto
  have p: "sack_shape tp'" "i' \<le> sack_count tp'" "sack_frame tp tp'"
    "take i' (sack_view tp') @ b' # drop i' (sack_view tp') = merge_blocks b (sack_view tp)"
    using sack_merge_loop_list [OF assms _ l] by simp_all
  have m: "tcp_sack_merge tp b = tcp_sack_insert_at tp' i' b'" by (simp add: tcp_sack_merge_def l)
  show "sack_view (tcp_sack_merge tp b) = take TCP_SACK_SCOREBOARD (merge_blocks b (sack_view tp))"
    "sack_shape (tcp_sack_merge tp b)" unfolding m p(4) [symmetric] by (rule view_insert [OF p(1,2)])+
  show "sack_frame tp (tcp_sack_merge tp b)" unfolding m by (rule sack_frame_trans [OF p(3)]) blast
qed

section \<open>The set of bytes covered\<close>

definition block_set :: "tcp_seq \<Rightarrow> tcp_sack_block \<Rightarrow> nat set" where
  "block_set w b = {rel w (sb_start b) ..< rel w (sb_end b)}"

definition cover :: "tcp_seq \<Rightarrow> tcp_sack_block list \<Rightarrow> nat set" where
  "cover w bs = (\<Union>b\<in>set bs. block_set w b)"

lemma cover_simps [simp]: "cover w [] = {}" "cover w (b # bs) = block_set w b \<union> cover w bs" "cover w (as @ bs) = cover w as \<union> cover w bs"
  by (auto simp: cover_def)

definition block_ok :: "tcp_seq \<Rightarrow> nat \<Rightarrow> tcp_sack_block \<Rightarrow> bool" where
  "block_ok w m b \<longleftrightarrow> rel w (sb_start b) < rel w (sb_end b) \<and> rel w (sb_end b) \<le> m"

definition blocks_ok :: "tcp_seq \<Rightarrow> nat \<Rightarrow> tcp_sack_block list \<Rightarrow> bool" where
  "blocks_ok w m bs \<longleftrightarrow> (\<forall>b\<in>set bs. block_ok w m b) \<and> sorted_wrt (\<lambda>a b. rel w (sb_end a) < rel w (sb_start b)) bs"

lemma blocks_ok_simps [simp]:
  "blocks_ok w m []"
  "blocks_ok w m (b # bs) \<longleftrightarrow> block_ok w m b \<and> (\<forall>c\<in>set bs. rel w (sb_end b) < rel w (sb_start c)) \<and> blocks_ok w m bs"
  by (auto simp: blocks_ok_def)

lemma blocks_ok_take: "blocks_ok w m bs \<Longrightarrow> blocks_ok w m (take n bs)"
  by (auto simp: blocks_ok_def sorted_wrt_take dest: in_set_takeD)

lemma join_block_rel:
  assumes "block_ok w m b" and "block_ok w m c" and "m < half"
  shows "rel w (sb_start (join_block b c)) = min (rel w (sb_start b)) (rel w (sb_start c))"
    "rel w (sb_end (join_block b c)) = max (rel w (sb_end b)) (rel w (sb_end c))"
  using assms by (auto simp: join_block_def block_ok_def Let_def seq_cmp [of w])

lemma merge_blocks_cover:
  assumes "m < half"
  shows "blocks_ok w m bs \<Longrightarrow> block_ok w m b \<Longrightarrow>
     cover w (merge_blocks b bs) = block_set w b \<union> cover w bs \<and> blocks_ok w m (merge_blocks b bs) \<and>
     (\<forall>c\<in>set (merge_blocks b bs). rel w (sb_start c) \<ge> rel w (sb_start b) \<or> (\<exists>a\<in>set bs. rel w (sb_start c) \<ge> rel w (sb_start a)))"
proof (induction bs arbitrary: b)
  case (Cons c cs)
  have c: "block_ok w m c" "blocks_ok w m cs" "\<And>d. d \<in> set cs \<Longrightarrow> rel w (sb_end c) < rel w (sb_start d)" using Cons.prems by auto
  have cmp: "SEQ_LT (sb_end c) (sb_start b) \<longleftrightarrow> rel w (sb_end c) < rel w (sb_start b)"
    "SEQ_GT (sb_start c) (sb_end b) \<longleftrightarrow> rel w (sb_start c) > rel w (sb_end b)"
    using Cons.prems assms by (auto simp: block_ok_def seq_cmp [of w])
  consider "rel w (sb_end c) < rel w (sb_start b)" | "rel w (sb_start b) \<le> rel w (sb_end c)" "rel w (sb_end b) < rel w (sb_start c)"
    | "rel w (sb_start b) \<le> rel w (sb_end c)" "rel w (sb_start c) \<le> rel w (sb_end b)" by linarith
  then show ?case
  proof cases
    case 1
    have s: "rel w (sb_end c) < rel w (sb_start d)" if d: "d \<in> set (merge_blocks b cs)" for d
      using Cons.IH [OF c(2) Cons.prems(2)] d 1 c(3) by (meson less_le_trans)
    show ?thesis using Cons.IH [OF c(2) Cons.prems(2)] 1 c s by (auto simp: cmp)
  next
    case 2
    then show ?thesis using Cons.prems c by (fastforce simp: cmp block_ok_def)
  next
    case 3
    note j = join_block_rel [OF Cons.prems(2) c(1) assms]
    have ok: "block_ok w m (join_block b c)" using Cons.prems(2) c(1) by (auto simp: block_ok_def j)
    have u: "block_set w (join_block b c) = block_set w b \<union> block_set w c"
      using 3 Cons.prems(2) c(1) by (auto simp: block_set_def j block_ok_def)
    show ?thesis using Cons.IH [OF c(2) ok] 3 by (auto simp: cmp u j min_def split: if_splits)
  qed
qed auto

section \<open>The scoreboard invariant\<close>

text \<open>Blocks sorted, disjoint, not adjacent, non-empty, inside \<open>snd_una .. snd_max\<close>, and less than half the
  sequence space in flight.\<close>

definition sack_ok :: "tcpcb \<Rightarrow> bool" where
  "sack_ok tp \<longleftrightarrow> sack_shape tp \<and> rel (snd_una tp) (snd_max tp) < half \<and>
     blocks_ok (snd_una tp) (rel (snd_una tp) (snd_max tp)) (sack_view tp)"

definition sack_cover :: "tcpcb \<Rightarrow> nat set" where
  "sack_cover tp = cover (snd_una tp) (sack_view tp)"

text \<open>The bytes in flight that a block of the peer's reports, whatever sequence numbers it holds.\<close>

definition reported :: "tcpcb \<Rightarrow> tcp_sack_block \<Rightarrow> nat set" where
  "reported tp b =
     (if SEQ_LEQ (sb_end b) (sb_start b) \<or> SEQ_LEQ (sb_end b) (snd_una tp) \<or> SEQ_GT (sb_end b) (snd_max tp) then {}
      else {(if SEQ_LT (sb_start b) (snd_una tp) then 0 else rel (snd_una tp) (sb_start b)) ..< rel (snd_una tp) (sb_end b)})"

lemma sint_geq_rel: "0 \<le> sint (x - w) \<longleftrightarrow> rel w x < half"
proof -
  have u: "uint (x - w) = int (rel w x)" by (simp add: rel_def)
  show ?thesis
  proof (cases "rel w x < half")
    case True
    then show ?thesis using sint_diff [OF True, of w] by (simp add: half_def)
  next
    case False
    have r: "rel w x \<ge> 2 ^ 31" "rel w x < 2 ^ 32" using False rel_less [of w x] by (simp_all add: half_def)
    then have d: "int (rel w x) div 2 ^ 31 = 1" by (intro int_div_pos_eq [where r = "int (rel w x) - 2 ^ 31"]) simp_all
    have "bit (int (rel w x)) 31" unfolding bit_iff_odd d by simp
    moreover have "take_bit 32 (int (rel w x)) = int (rel w x)" using r by (simp add: take_bit_int_eq_self)
    ultimately have "sint (x - w) = int (rel w x) - 2 ^ 32"
      using signed_take_bit_eq_take_bit_minus [of 31 "int (rel w x)"] by (simp add: sint_uint u)
    then show ?thesis using False rel_less [of w x] by (simp add: u)
  qed
qed

lemma accepted_block:
  assumes "rel w m < half" and "\<not> SEQ_LEQ (sb_end b) (sb_start b)" "\<not> SEQ_LEQ (sb_end b) w" "\<not> SEQ_GT (sb_end b) m"
  defines "c \<equiv> if SEQ_LT (sb_start b) w then b\<lparr>sb_start := w\<rparr> else b"
  shows "block_ok w (rel w m) c"
    "block_set w c = {(if SEQ_LT (sb_start b) w then 0 else rel w (sb_start b)) ..< rel w (sb_end b)}"
proof -
  have e: "rel w (sb_end b) < half" using assms(3) sint_geq_rel [of "sb_end b" w] by (simp add: SEQ_LEQ_def)
  have le: "rel w (sb_end b) \<le> rel w m" using seq_cmp [OF e assms(1)] assms(4) by simp
  have pos: "0 < rel w (sb_end b)" using seq_cmp [OF e, of w] assms(3) by (simp add: half_def)
  have s: "rel w (sb_start b) < rel w (sb_end b)" if c: "\<not> SEQ_LT (sb_start b) w"
  proof -
    have "rel w (sb_start b) < half" using c sint_geq_rel [of "sb_start b" w] by (simp add: SEQ_LT_def)
    from seq_cmp [OF e this] assms(2) show ?thesis by simp
  qed
  show "block_ok w (rel w m) c" using le pos s by (auto simp: c_def block_ok_def)
  show "block_set w c = {(if SEQ_LT (sb_start b) w then 0 else rel w (sb_start b)) ..< rel w (sb_end b)}"
    by (simp add: c_def block_set_def)
qed

lemma cover_take_subset: "cover w (take n bs) \<subseteq> cover w bs"
  by (auto simp: cover_def dest: in_set_takeD)

lemma length_merge_blocks: "length (merge_blocks b bs) \<le> Suc (length bs)"
  by (induction bs arbitrary: b) (auto intro: le_SucI)

lemma length_sack_view: "sack_shape tp \<Longrightarrow> length (sack_view tp) = sack_count tp"
  by (simp add: sack_view_def sack_shape_def)

lemma tcp_sack_merge_ok:
  assumes ok: "sack_ok tp" and b: "block_ok (snd_una tp) (rel (snd_una tp) (snd_max tp)) b"
  shows "sack_ok (tcp_sack_merge tp b)" "sack_frame tp (tcp_sack_merge tp b)"
    "sack_cover (tcp_sack_merge tp b) \<subseteq> sack_cover tp \<union> block_set (snd_una tp) b"
    "sack_count tp < TCP_SACK_SCOREBOARD \<Longrightarrow> sack_cover (tcp_sack_merge tp b) = sack_cover tp \<union> block_set (snd_una tp) b \<and>
       sack_count (tcp_sack_merge tp b) \<le> Suc (sack_count tp)"
proof -
  define m where "m = rel (snd_una tp) (snd_max tp)"
  have sh: "sack_shape tp" and m: "m < half" and bl: "blocks_ok (snd_una tp) m (sack_view tp)" using ok by (auto simp: sack_ok_def m_def)
  note l = tcp_sack_merge_list [OF sh, of b]
  note f = sack_frame_fields [OF l(3)]
  have c: "cover (snd_una tp) (merge_blocks b (sack_view tp)) = block_set (snd_una tp) b \<union> cover (snd_una tp) (sack_view tp)"
    "blocks_ok (snd_una tp) m (merge_blocks b (sack_view tp))"
    using merge_blocks_cover [OF m bl b [folded m_def]] by auto
  show "sack_ok (tcp_sack_merge tp b)"
    using l(2) m c(2) f unfolding sack_ok_def l(1) by (simp add: m_def [symmetric] blocks_ok_take)
  show "sack_frame tp (tcp_sack_merge tp b)" by (rule l(3))
  show "sack_cover (tcp_sack_merge tp b) \<subseteq> sack_cover tp \<union> block_set (snd_una tp) b"
    using cover_take_subset c(1) f unfolding sack_cover_def l(1) by (simp add: Un_commute) blast
  assume lt: "sack_count tp < TCP_SACK_SCOREBOARD"
  have len: "length (merge_blocks b (sack_view tp)) \<le> Suc (sack_count tp)"
    using length_merge_blocks [of b "sack_view tp"] length_sack_view [OF sh] by simp
  then have v: "sack_view (tcp_sack_merge tp b) = merge_blocks b (sack_view tp)" using lt l(1) by simp
  then show "sack_cover (tcp_sack_merge tp b) = sack_cover tp \<union> block_set (snd_una tp) b \<and>
       sack_count (tcp_sack_merge tp b) \<le> Suc (sack_count tp)"
    using c(1) f len length_sack_view [OF l(2)] by (auto simp: sack_cover_def)
qed

lemma sack_update_spec:
  assumes "sack_ok tp"
  shows "sack_ok (tcp_sack_update tp bs) \<and> sack_frame tp (tcp_sack_update tp bs) \<and>
    sack_cover (tcp_sack_update tp bs) \<subseteq> sack_cover tp \<union> (\<Union>b\<in>set bs. reported tp b) \<and>
    (sack_count tp + length bs \<le> TCP_SACK_SCOREBOARD \<longrightarrow>
       sack_cover (tcp_sack_update tp bs) = sack_cover tp \<union> (\<Union>b\<in>set bs. reported tp b))"
  using assms
proof (induction bs arbitrary: tp)
  case (Cons b bs)
  show ?case
  proof (cases "SEQ_LEQ (sb_end b) (sb_start b) \<or> SEQ_LEQ (sb_end b) (snd_una tp) \<or> SEQ_GT (sb_end b) (snd_max tp)")
    case True
    then show ?thesis using Cons by (auto simp: reported_def)
  next
    case False
    define c where "c = (if SEQ_LT (sb_start b) (snd_una tp) then b\<lparr>sb_start := snd_una tp\<rparr> else b)"
    have a: "block_ok (snd_una tp) (rel (snd_una tp) (snd_max tp)) c" "block_set (snd_una tp) c = reported tp b"
      using accepted_block [of "snd_una tp" "snd_max tp" b] False Cons.prems by (auto simp: sack_ok_def reported_def c_def)
    note m = tcp_sack_merge_ok [OF Cons.prems a(1), unfolded a(2)]
    have r: "reported (tcp_sack_merge tp c) = reported tp" using sack_frame_fields [OF m(2)] by (simp add: reported_def fun_eq_iff)
    have u: "tcp_sack_update tp (b # bs) = tcp_sack_update (tcp_sack_merge tp c) bs" using False by (simp add: c_def)
    show ?thesis
      unfolding u using Cons.IH [OF m(1), unfolded r] m(2-4) sack_frame_trans [OF m(2)] by auto
  qed
qed auto


text \<open>A window across the wrap of the sequence space with one block.\<close>

definition ex_sack :: tcpcb where
  "ex_sack = tcpcb_zero\<lparr>snd_una := 0xFFFFFFF0, snd_max := 0x100, sack_count := 1, sack_rxmit := 0xFFFFFFF0,
     sack_blocks := (sack_blocks tcpcb_zero)[0 := \<lparr>sb_start = 0, sb_end = 8\<rparr>]\<rparr>"

lemma ex_sack_simps:
  "snd_una ex_sack = 0xFFFFFFF0" "snd_max ex_sack = 0x100" "sack_count ex_sack = 1"
  "sack_view ex_sack = [\<lparr>sb_start = 0, sb_end = 8\<rparr>]" "sack_rxmit ex_sack = 0xFFFFFFF0" "sack_rexmit_bytes ex_sack = 0"
  by (simp_all add: ex_sack_def tcpcb_zero_def sack_view_def TCP_SACK_SCOREBOARD_def numeral_nat)

lemma ex_sack_ok: "sack_ok ex_sack"
  by (simp add: sack_ok_def ex_sack_simps sack_shape_def block_ok_def rel_def half_def)
    (simp add: ex_sack_def tcpcb_zero_def TCP_SACK_SCOREBOARD_def)

lemma ex_sack_cover: "sack_cover ex_sack = {16..<24}"
  by (simp add: sack_cover_def ex_sack_simps block_set_def rel_def)


section \<open>What is left to send again\<close>

lemma sum_blocks:
  assumes "m < half"
  shows "blocks_ok w m bs \<Longrightarrow> finite (cover w bs) \<and> cover w bs \<subseteq> {0..<m} \<and>
    unat (sum_list (map (\<lambda>b. sb_end b - sb_start b) bs)) = card (cover w bs)"
proof (induction bs)
  case (Cons b bs)
  have b: "block_ok w m b" "blocks_ok w m bs" "\<And>c. c \<in> set bs \<Longrightarrow> rel w (sb_end b) < rel w (sb_start c)" using Cons.prems by auto
  have IH: "finite (cover w bs)" "cover w bs \<subseteq> {0..<m}"
    "unat (sum_list (map (\<lambda>b. sb_end b - sb_start b) bs)) = card (cover w bs)" using Cons.IH [OF b(2)] by auto
  have sub: "cover w (b # bs) \<subseteq> {0..<m}" using IH(2) b(1) by (auto simp: block_set_def block_ok_def)
  have disj: "block_set w b \<inter> cover w bs = {}" using b(3) by (force simp: block_set_def cover_def)
  have len: "unat (sb_end b - sb_start b) = card (block_set w b)"
    using rel_diff [of w "sb_start b" "sb_end b"] b(1) by (simp add: block_set_def block_ok_def)
  have fin: "finite (block_set w b)" by (simp add: block_set_def)
  have card: "card (cover w (b # bs)) = card (block_set w b) + card (cover w bs)"
    using card_Un_disjoint [OF fin IH(1) disj] by simp
  have "card (cover w (b # bs)) \<le> m" using card_mono [OF _ sub] by simp
  then have "unat (sb_end b - sb_start b) + unat (sum_list (map (\<lambda>b. sb_end b - sb_start b) bs)) < 2 ^ 32"
    using assms IH(3) len card by (simp add: half_def)
  then show ?case using IH fin sub len card by (simp add: unat_word_ariths)
qed auto

lemma fold_blocks: "fold (\<lambda>b bytes. bytes + (sb_end b - sb_start b)) bs a = a + sum_list (map (\<lambda>b. sb_end b - sb_start b) bs)"
  for a :: u32 by (induction bs arbitrary: a) (simp_all add: algebra_simps)

lemma tcp_sack_bytes_card: "sack_ok tp \<Longrightarrow> unat (tcp_sack_bytes tp) = card (sack_cover tp)"
  using sum_blocks [of "rel (snd_una tp) (snd_max tp)" "snd_una tp" "sack_view tp"]
  by (simp add: tcp_sack_bytes_def sack_ok_def sack_cover_def sack_view_def fold_blocks)

lemma next_hole_loop_correct:
  assumes "m < half"
  shows "blocks_ok w m bs \<Longrightarrow> rel w start < half \<Longrightarrow>
     (case next_hole_loop start bs of
        None \<Rightarrow> \<forall>k. rel w start \<le> k \<longrightarrow> k \<notin> cover w bs \<longrightarrow> (\<forall>j\<in>cover w bs. j < k)
      | Some (seq, len) \<Rightarrow> rel w start \<le> rel w seq \<and> {rel w start ..< rel w seq} \<subseteq> cover w bs \<and> len \<noteq> 0 \<and>
          {rel w seq ..< rel w seq + unat len} \<inter> cover w bs = {} \<and> rel w seq + unat len \<in> cover w bs)"
proof (induction bs arbitrary: start)
  case (Cons b bs)
  have b: "block_ok w m b" "blocks_ok w m bs" "\<And>c. c \<in> set bs \<Longrightarrow> rel w (sb_end b) < rel w (sb_start c)" using Cons.prems by auto
  have after: "rel w (sb_end b) < k" if "k \<in> cover w bs" for k using that b(3) by (force simp: block_set_def cover_def)
  have cmp: "SEQ_LT start (sb_start b) \<longleftrightarrow> rel w start < rel w (sb_start b)"
    "SEQ_LT start (sb_end b) \<longleftrightarrow> rel w start < rel w (sb_end b)"
    using b(1) Cons.prems(2) assms by (auto simp: block_ok_def seq_cmp [of w])
  show ?case
  proof (cases "rel w start < rel w (sb_start b)")
    case True
    have "unat (sb_start b - start) = rel w (sb_start b) - rel w start" using True by (intro rel_diff) simp
    then show ?thesis using True b(1) after by (fastforce simp: cmp block_set_def block_ok_def)
  next
    case False
    define s where "s = (if SEQ_LT start (sb_end b) then sb_end b else start)"
    have r: "rel w s = max (rel w start) (rel w (sb_end b))" "rel w s < half"
      using b(1) assms Cons.prems(2) by (auto simp: s_def cmp block_ok_def)
    have n: "next_hole_loop start (b # bs) = next_hole_loop s bs" using False by (simp add: cmp s_def)
    have blk: "block_set w b = {rel w (sb_start b) ..< rel w (sb_end b)}" by (simp add: block_set_def)
    show ?thesis
    proof (cases "next_hole_loop s bs")
      case None
      then have IH: "\<forall>k. rel w s \<le> k \<longrightarrow> k \<notin> cover w bs \<longrightarrow> (\<forall>j\<in>cover w bs. j < k)" using Cons.IH [OF b(2) r(2)] by simp
      show ?thesis unfolding n None using IH False by (auto simp: r(1) blk not_less)
    next
      case (Some p)
      obtain seq len where p: "p = (seq, len)" by (cases p)
      have IH: "rel w s \<le> rel w seq" "{rel w s ..< rel w seq} \<subseteq> cover w bs" "len \<noteq> 0"
        "{rel w seq ..< rel w seq + unat len} \<inter> cover w bs = {}" "rel w seq + unat len \<in> cover w bs"
        using Cons.IH [OF b(2) r(2)] by (simp_all add: Some p)
      have "{rel w start ..< rel w seq} \<subseteq> block_set w b \<union> cover w bs"
        using IH(2) False by (auto simp: blk r(1)) (metis atLeastLessThan_iff max.bounded_iff not_le subsetD)
      then show ?thesis unfolding n Some p using IH by (auto simp: blk r(1))
    qed
  qed
qed auto

text \<open>Where the search for a gap starts.\<close>

definition hole_start :: "tcpcb \<Rightarrow> nat" where
  "hole_start tp = (if SEQ_GT (sack_rxmit tp) (snd_una tp) then rel (snd_una tp) (sack_rxmit tp) else 0)"

lemma next_hole_spec:
  assumes "sack_ok tp"
  defines "w \<equiv> snd_una tp" and "start \<equiv> hole_start tp"
  shows "case tcp_sack_next_hole tp of
       None \<Rightarrow> \<forall>k. start \<le> k \<longrightarrow> k \<notin> sack_cover tp \<longrightarrow> (\<forall>j\<in>sack_cover tp. j < k)
     | Some (seq, len) \<Rightarrow> start \<le> rel w seq \<and> {start ..< rel w seq} \<subseteq> sack_cover tp \<and> len \<noteq> 0 \<and>
         {rel w seq ..< rel w seq + unat len} \<inter> sack_cover tp = {} \<and> rel w seq + unat len \<in> sack_cover tp"
proof -
  have ok: "rel w (snd_max tp) < half" "blocks_ok w (rel w (snd_max tp)) (sack_view tp)"
    using assms(1) by (auto simp: sack_ok_def w_def)
  define s where "s = (if SEQ_GT (sack_rxmit tp) (snd_una tp) then sack_rxmit tp else snd_una tp)"
  have "rel w (sack_rxmit tp) < half" if c: "SEQ_GT (sack_rxmit tp) w"
    using c sint_geq_rel [of "sack_rxmit tp" w] by (simp add: SEQ_GT_def)
  then have s: "rel w s < half" "rel w s = start" by (simp_all add: s_def w_def start_def hole_start_def half_def)
  have "tcp_sack_next_hole tp = next_hole_loop s (sack_view tp)" by (simp add: tcp_sack_next_hole_def s_def sack_view_def)
  then show ?thesis
    using next_hole_loop_correct [OF ok s(1)] unfolding s(2) unfolding sack_cover_def w_def by simp
qed

text \<open>C22: The sender's view of the scoreboard is exact. \<open>tcp_sack_pipe\<close> counts the bytes in flight no block
  covers plus the bytes sent again. \<open>tcp_sack_next_hole\<close> returns the first gap at or after the last
  retransmission: everything before it (from there) is covered, nothing of it is, and a covered byte
  follows it; it returns nothing only if no uncovered byte precedes a covered one.\<close>

theorem tcp_sack_next_hole_correct:
  assumes "sack_ok tp"
  defines "w \<equiv> snd_una tp" and "start \<equiv> (if SEQ_GT (sack_rxmit tp) (snd_una tp) then rel (snd_una tp) (sack_rxmit tp) else 0)"
  shows "tcp_sack_pipe tp = of_nat (card ({0..<rel w (snd_max tp)} - sack_cover tp)) + sack_rexmit_bytes tp \<and>
    (case tcp_sack_next_hole tp of
       None \<Rightarrow> \<forall>k. start \<le> k \<longrightarrow> k \<notin> sack_cover tp \<longrightarrow> (\<forall>j\<in>sack_cover tp. j < k)
     | Some (seq, len) \<Rightarrow> start \<le> rel w seq \<and> {start ..< rel w seq} \<subseteq> sack_cover tp \<and> len \<noteq> 0 \<and>
         {rel w seq ..< rel w seq + unat len} \<inter> sack_cover tp = {} \<and> rel w seq + unat len \<in> sack_cover tp)"
proof
  define m where "m = rel w (snd_max tp)"
  have ok: "m < half" "blocks_ok w m (sack_view tp)" using assms(1) by (auto simp: sack_ok_def m_def w_def)
  have sb: "finite (sack_cover tp)" "sack_cover tp \<subseteq> {0..<m}" using sum_blocks [OF ok] by (auto simp: sack_cover_def w_def)
  have c: "card (sack_cover tp) \<le> m" using card_mono [OF _ sb(2)] by simp
  have "snd_max tp - w = of_nat m" by (simp add: m_def rel_def)
  moreover have "tcp_sack_bytes tp = of_nat (card (sack_cover tp))"
    by (simp flip: tcp_sack_bytes_card [OF assms(1)])
  moreover have "card ({0..<m} - sack_cover tp) = m - card (sack_cover tp)" using sb by (simp add: card_Diff_subset)
  ultimately show "tcp_sack_pipe tp = of_nat (card ({0..<rel w (snd_max tp)} - sack_cover tp)) + sack_rexmit_bytes tp"
    using c by (simp add: tcp_sack_pipe_def w_def [symmetric] m_def [symmetric] of_nat_diff)
  show "case tcp_sack_next_hole tp of
       None \<Rightarrow> \<forall>k. start \<le> k \<longrightarrow> k \<notin> sack_cover tp \<longrightarrow> (\<forall>j\<in>sack_cover tp. j < k)
     | Some (seq, len) \<Rightarrow> start \<le> rel w seq \<and> {start ..< rel w seq} \<subseteq> sack_cover tp \<and> len \<noteq> 0 \<and>
         {rel w seq ..< rel w seq + unat len} \<inter> sack_cover tp = {} \<and> rel w seq + unat len \<in> sack_cover tp"
    using next_hole_spec [OF assms(1)] unfolding start_def w_def hole_start_def .
qed

theorem tcp_sack_next_hole_correct_witness:
  "tcp_sack_pipe ex_sack = of_nat (card ({0..<272} - {16..<24::nat})) \<and>
   tcp_sack_next_hole ex_sack = Some (0xFFFFFFF0, 16) \<and> {0..<16} \<inter> sack_cover ex_sack = {} \<and> 16 \<in> sack_cover ex_sack"
proof -
  have r: "rel (0xFFFFFFF0 :: u32) 0x100 = 272" by (simp add: rel_def)
  have h: "tcp_sack_next_hole ex_sack = Some (0xFFFFFFF0, 16)"
    unfolding tcp_sack_next_hole_def sack_view_def [symmetric] by (simp add: ex_sack_simps SEQ_GT_def SEQ_LT_def)
  show ?thesis
    using tcp_sack_next_hole_correct [OF ex_sack_ok] by (simp add: h ex_sack_cover ex_sack_simps r)
qed

section \<open>An acknowledgement moves the window\<close>

lemma view_ack_loop:
  "sack_shape tp \<Longrightarrow> sack_view (sack_ack_loop tp ack) = dropWhile (\<lambda>b. SEQ_LEQ (sb_end b) ack) (sack_view tp) \<and>
     sack_shape (sack_ack_loop tp ack) \<and> sack_frame tp (sack_ack_loop tp ack)"
proof (induction tp ack rule: sack_ack_loop.induct)
  case (1 tp ack)
  have len: "length (sack_view tp) = sack_count tp" by (rule length_sack_view [OF 1(2)])
  have nth: "sack_count tp \<noteq> 0 \<Longrightarrow> sack_view tp = sack_blocks tp ! 0 # drop 1 (sack_view tp)"
  proof -
    assume n: "sack_count tp \<noteq> 0"
    have "sack_view tp ! 0 = sack_blocks tp ! 0" using n by (simp add: sack_view_def)
    then show ?thesis using n len by (cases "sack_view tp") auto
  qed
  show ?case
  proof (cases "sack_count tp \<noteq> 0 \<and> SEQ_LEQ (sb_end (sack_blocks tp ! 0)) ack")
    case True
    note v = view_remove [OF 1(2), of 0]
    have "sack_view (tcp_sack_remove tp 0) = drop 1 (sack_view tp)" "sack_shape (tcp_sack_remove tp 0)" using v True by simp_all
    then show ?thesis
      using 1(1) [OF True] True sack_frame_trans [OF sack_frame_intros(2) [of tp 0]]
      by (subst (1 2 3) sack_ack_loop.simps) (subst nth, simp, simp)
  next
    case False
    then have "dropWhile (\<lambda>b. SEQ_LEQ (sb_end b) ack) (sack_view tp) = sack_view tp"
      using nth len by (cases "sack_count tp = 0") (simp, metis dropWhile.simps(2))
    then show ?thesis using False 1(2) by (subst (1 2 3) sack_ack_loop.simps) auto
  qed
qed

fun clip_head :: "tcp_seq \<Rightarrow> tcp_sack_block list \<Rightarrow> tcp_sack_block list" where
  "clip_head ack [] = []"
| "clip_head ack (b # bs) = (if SEQ_LT (sb_start b) ack then b\<lparr>sb_start := ack\<rparr> else b) # bs"

lemma tcp_sack_ack_list:
  assumes "sack_shape tp"
  shows "sack_view (tcp_sack_ack tp ack) = clip_head ack (dropWhile (\<lambda>b. SEQ_LEQ (sb_end b) ack) (sack_view tp))"
    "sack_shape (tcp_sack_ack tp ack)" "snd_una (tcp_sack_ack tp ack) = snd_una tp" "snd_max (tcp_sack_ack tp ack) = snd_max tp"
proof -
  define t where "t = sack_ack_loop tp ack"
  have l: "sack_view t = dropWhile (\<lambda>b. SEQ_LEQ (sb_end b) ack) (sack_view tp)" "sack_shape t" "sack_frame tp t"
    using view_ack_loop [OF assms] by (auto simp: t_def)
  define c where "c = (if sack_count t \<noteq> 0 \<and> SEQ_LT (sb_start (sack_blocks t ! 0)) ack
                then t\<lparr>sack_blocks := (sack_blocks t)[0 := (sack_blocks t ! 0)\<lparr>sb_start := ack\<rparr>]\<rparr> else t)"
  have a: "tcp_sack_ack tp ack = (if SEQ_LT (sack_rxmit c) ack then c\<lparr>sack_rxmit := ack\<rparr> else c)"
    unfolding tcp_sack_ack_def Let_def t_def [symmetric] c_def [symmetric] by simp
  have c: "sack_view c = clip_head ack (sack_view t)" "sack_shape c"
    using l(2) by (cases "sack_blocks t"; cases "sack_count t"; simp add: c_def sack_view_def sack_shape_def)+
  then show "sack_view (tcp_sack_ack tp ack) = clip_head ack (dropWhile (\<lambda>b. SEQ_LEQ (sb_end b) ack) (sack_view tp))"
    "sack_shape (tcp_sack_ack tp ack)" unfolding a l(1) [symmetric] by (simp_all add: sack_view_def sack_shape_def)
  show "snd_una (tcp_sack_ack tp ack) = snd_una tp" "snd_max (tcp_sack_ack tp ack) = snd_max tp"
    unfolding a using sack_frame_fields [OF l(3)] by (simp_all add: c_def)
qed

lemma rel_rebase: "rel w v \<le> rel w x \<Longrightarrow> rel v x = rel w x - rel w v"
  using rel_diff [of w v x] by (simp add: rel_def [of v])

lemma clip_cover:
  assumes "m < half" and "rel w ack \<le> m"
  shows "blocks_ok w m bs \<Longrightarrow> bs' = clip_head ack (dropWhile (\<lambda>b. SEQ_LEQ (sb_end b) ack) bs) \<Longrightarrow>
     blocks_ok ack (m - rel w ack) bs' \<and> (\<forall>k. k \<in> cover ack bs' \<longleftrightarrow> k + rel w ack \<in> cover w bs)"
proof (induction bs)
  case (Cons b bs)
  have b: "block_ok w m b" "blocks_ok w m bs" "\<And>c. c \<in> set bs \<Longrightarrow> rel w (sb_end b) < rel w (sb_start c)" using Cons.prems by auto
  have cmp: "SEQ_LEQ (sb_end b) ack \<longleftrightarrow> rel w (sb_end b) \<le> rel w ack" "SEQ_LT (sb_start b) ack \<longleftrightarrow> rel w (sb_start b) < rel w ack"
    using b(1) assms by (auto simp: block_ok_def seq_cmp [of w])
  show ?case
  proof (cases "rel w (sb_end b) \<le> rel w ack")
    case True
    then show ?thesis using Cons.IH [OF b(2)] Cons.prems(2) by (auto simp: cmp block_set_def)
  next
    case False
    define c where "c = (if SEQ_LT (sb_start b) ack then b\<lparr>sb_start := ack\<rparr> else b)"
    have bs': "bs' = c # bs" using False Cons.prems(2) by (simp add: cmp c_def)
    have rc: "rel ack (sb_end c) = rel w (sb_end b) - rel w ack" "rel ack (sb_start c) = rel w (sb_start b) - rel w ack"
      using False rel_rebase [of w ack "sb_end b"] rel_rebase [of w ack "sb_start b"] by (simp_all add: c_def cmp)
    have rd: "rel ack (sb_start d) = rel w (sb_start d) - rel w ack \<and> rel ack (sb_end d) = rel w (sb_end d) - rel w ack \<and>
        rel w ack \<le> rel w (sb_start d)" if d: "d \<in> set bs" for d
    proof -
      have "rel w ack \<le> rel w (sb_start d)" "rel w (sb_start d) < rel w (sb_end d)"
        using False b(3) [OF d] b(2) d by (auto simp: blocks_ok_def block_ok_def)
      then show ?thesis using rel_rebase [of w ack "sb_end d"] rel_rebase [of w ack "sb_start d"] by simp
    qed
    have "block_ok ack (m - rel w ack) c" using False b(1) assms by (auto simp: block_ok_def rc)
    moreover have "\<forall>d\<in>set bs. rel ack (sb_end c) < rel ack (sb_start d)" using rd b(3) False by (auto simp: rc intro: diff_less_mono)
    moreover have "blocks_ok ack (m - rel w ack) bs"
    proof -
      have "\<forall>d\<in>set bs. block_ok ack (m - rel w ack) d" using rd b(2) by (fastforce simp: blocks_ok_def block_ok_def)
      moreover have "sorted_wrt (\<lambda>a b. rel ack (sb_end a) < rel ack (sb_start b)) bs"
      proof (rule sorted_wrt_mono_rel [of bs "\<lambda>a b. rel w (sb_end a) < rel w (sb_start b)"])
        fix x y
        assume x: "x \<in> set bs" and y: "y \<in> set bs" and l: "rel w (sb_end x) < rel w (sb_start y)"
        have "rel w (sb_start x) < rel w (sb_end x)" using b(2) x by (auto simp: blocks_ok_def block_ok_def)
        then show "rel ack (sb_end x) < rel ack (sb_start y)" using rd [OF x] rd [OF y] l by (simp add: diff_less_mono)
      qed (use b(2) in \<open>simp add: blocks_ok_def\<close>)
      ultimately show ?thesis by (simp add: blocks_ok_def)
    qed
    moreover have "k \<in> cover ack bs' \<longleftrightarrow> k + rel w ack \<in> cover w (b # bs)" for k
    proof -
      have "k \<in> block_set ack c \<longleftrightarrow> k + rel w ack \<in> block_set w b" using False by (auto simp: block_set_def rc)
      moreover have "k \<in> block_set ack d \<longleftrightarrow> k + rel w ack \<in> block_set w d" if d: "d \<in> set bs" for d
        using rd [OF d] by (auto simp: block_set_def)
      ultimately show ?thesis by (simp add: bs' cover_def)
    qed
    ultimately show ?thesis by (simp add: bs')
  qed
qed simp

text \<open>Once \<open>tcp_new_ack\<close> has moved \<open>snd_una\<close>, \<open>tcp_sack_ack\<close> restores the invariant: exactly the bytes at or
  above the acknowledgement stay covered.\<close>

lemma tcp_sack_ack_ok:
  assumes ok: "sack_ok tp" and ack: "rel (snd_una tp) ack \<le> rel (snd_una tp) (snd_max tp)"
  defines "tp' \<equiv> tcp_sack_ack (tp\<lparr>snd_una := ack\<rparr>) ack"
  shows "sack_ok tp' \<and> (\<forall>k. k \<in> sack_cover tp' \<longleftrightarrow> k + rel (snd_una tp) ack \<in> sack_cover tp)"
proof -
  have sh: "sack_shape (tp\<lparr>snd_una := ack\<rparr>)" "sack_view (tp\<lparr>snd_una := ack\<rparr>) = sack_view tp"
    using ok by (simp_all add: sack_ok_def sack_shape_def sack_view_def)
  note l = tcp_sack_ack_list [OF sh(1), of ack, folded tp'_def, unfolded sh(2)]
  have "rel ack (snd_max tp) = rel (snd_una tp) (snd_max tp) - rel (snd_una tp) ack" by (rule rel_rebase [OF ack])
  then show ?thesis
    using clip_cover [OF _ ack _ l(1)] ok l(2-4) by (auto simp: sack_ok_def sack_cover_def)
qed

end
