(* ===== verification/TCP_Reassembly.thy ===== *)
theory TCP_Reassembly
  imports TCP_Sack
begin

text \<open>
  Reassembly of received segments, \<^verbatim>\<open>src/kernel/drivers/net/tcp/tcp_input.c\<close>: the queue of segments that
  arrived early, insertion with trimming of overlaps, and delivery to the socket. The outcome of the
  allocation of an entry is an argument.
\<close>

section \<open>The code\<close>

definition tcp_reassemble_free_entry :: "tcpcb \<Rightarrow> tcp_reassemble_entry \<Rightarrow> tcpcb" where
  "tcp_reassemble_free_entry tp e = tp\<lparr>reassemble_len := reassemble_len tp - re_len e\<rparr>"

definition tcp_reassemble_flush :: "tcpcb \<Rightarrow> tcpcb" where
  "tcp_reassemble_flush tp =
     fold (\<lambda>e tp. tcp_reassemble_free_entry tp e) (reassemble_queue tp) (tp\<lparr>reassemble_queue := []\<rparr>)"

definition tcp_reassemble_full :: "tcpcb \<Rightarrow> socket option \<Rightarrow> tcp_seq \<Rightarrow> u32 \<Rightarrow> bool" where
  "tcp_reassemble_full tp so seq len =
     (seq \<noteq> rcv_nxt tp \<and> (case so of None \<Rightarrow> False | Some so \<Rightarrow> ucast (reassemble_len tp + len) > sb_hiwat (so_rcv so)))"

text \<open>The loop that drops the entries a new segment covers, on the part of the queue from \<^verbatim>\<open>*pp\<close> on.\<close>

fun drop_covered :: "tcp_seq \<Rightarrow> tcp_reassemble_entry list \<Rightarrow> u8 \<Rightarrow> tcpcb \<Rightarrow> tcp_reassemble_entry list \<times> u8 \<times> tcpcb" where
  "drop_covered end_seq [] flags tp = ([], flags, tp)"
| "drop_covered end_seq (e # es) flags tp =
     (if SEQ_LEQ (re_seq e + re_len e) end_seq
      then drop_covered end_seq es (flags OR re_flags e) (tcp_reassemble_free_entry tp e)
      else (e # es, flags, tp))"

text \<open>The part of \<^verbatim>\<open>tcp_reassemble_insert\<close> after the overlap with the previous entry is settled: \<open>before\<close> and
  \<open>rest\<close> are the queue up to and from \<^verbatim>\<open>*pp\<close>.\<close>

definition insert_tail ::
  "bool \<Rightarrow> tcpcb \<Rightarrow> tcp_reassemble_entry list \<Rightarrow> tcp_reassemble_entry list \<Rightarrow> tcp_seq \<Rightarrow> u32 \<Rightarrow> u8 \<Rightarrow> chain \<Rightarrow> tcpcb run" where
  "insert_tail ok tp before rest seq len flags nb =
     (let (rest, flags, tp) = drop_covered (seq + len) rest flags tp
      in bind_run
           (case rest of
              e # es \<Rightarrow>
                if SEQ_LT (re_seq e) (seq + len)
                then let overlap = seq + len - re_seq e
                     in bind_run (netbuf_adj nb (- int (unat overlap))) (\<lambda>nb. Done (len - overlap, flags AND NOT TH_FIN, nb))
                else Done (len, flags, nb)
            | [] \<Rightarrow> Done (len, flags, nb))
           (\<lambda>(len, flags, nb).
              if \<not> ok then Done (tp\<lparr>reassemble_queue := before @ rest\<rparr>)
              else Done (tp\<lparr>reassemble_queue := before @ \<lparr>re_seq = seq, re_len = len, re_flags = flags, re_data = nb\<rparr> # rest,
                            reassemble_len := reassemble_len tp + len\<rparr>)))"

definition tcp_reassemble_insert ::
  "bool \<Rightarrow> tcpcb \<Rightarrow> socket option \<Rightarrow> tcp_seq \<Rightarrow> u32 \<Rightarrow> u8 \<Rightarrow> chain \<Rightarrow> tcpcb run" where
  "tcp_reassemble_insert ok tp so seq len flags nb =
     (if tcp_reassemble_full tp so seq len then Done tp
      else
        let before = takeWhile (\<lambda>e. SEQ_LT (re_seq e) seq) (reassemble_queue tp);
            rest = dropWhile (\<lambda>e. SEQ_LT (re_seq e) seq) (reassemble_queue tp)
        in if before = [] then insert_tail ok tp before rest seq len flags nb
           else
             let prev = last before; overlap = re_seq prev + re_len prev - seq
             in if sint overlap > 0 \<and> overlap \<ge> len
                then Done (if overlap = len
                           then tp\<lparr>reassemble_queue := butlast before @ prev\<lparr>re_flags := re_flags prev OR flags\<rparr> # rest\<rparr> else tp)
                else if sint overlap > 0
                then bind_run (netbuf_adj nb (sint overlap))
                       (\<lambda>nb. insert_tail ok tp before rest (seq + overlap) (len - overlap) flags nb)
                else insert_tail ok tp before rest seq len flags nb)"

text \<open>The loop of \<^verbatim>\<open>tcp_reassemble_pull\<close>.\<close>

fun pull_loop ::
  "tcp_reassemble_entry list \<Rightarrow> tcpcb \<Rightarrow> socket option \<Rightarrow> tcp_stats \<Rightarrow> u8 \<Rightarrow> bool \<Rightarrow> tcpcb \<times> socket option \<times> tcp_stats \<times> u8 \<times> bool" where
  "pull_loop [] tp so st flags delivered = (tp\<lparr>reassemble_queue := []\<rparr>, so, st, flags, delivered)"
| "pull_loop (e # es) tp so st flags delivered =
     (if flags AND TH_FIN = 0 \<and> re_seq e = rcv_nxt tp then
        let tp = tp\<lparr>rcv_nxt := rcv_nxt tp + re_len e, reassemble_len := reassemble_len tp - re_len e\<rparr>;
            flags = flags OR re_flags e;
            st = st\<lparr>st_rcvpack := st_rcvpack st + 1, st_rcvbyte := st_rcvbyte st + ucast (re_len e)\<rparr>
        in case so of
             Some s \<Rightarrow>
               if re_len e \<noteq> 0 \<and> so_state s AND SS_CANTRCVMORE = 0
               then pull_loop es tp (Some (s\<lparr>so_rcv := sockbuf_append (so_rcv s) (re_data e)\<rparr>)) st flags True
               else pull_loop es tp so st flags delivered
           | None \<Rightarrow> pull_loop es tp so st flags delivered
      else (tp\<lparr>reassemble_queue := e # es\<rparr>, so, st, flags, delivered))"

definition tcp_reassemble_pull :: "tcpcb \<Rightarrow> socket option \<Rightarrow> tcp_stats \<Rightarrow> tcpcb \<times> socket option \<times> tcp_stats \<times> u8" where
  "tcp_reassemble_pull tp so st =
     (let (tp, so, st, flags, delivered) = pull_loop (reassemble_queue tp) tp so st 0 False
      in (tp, if delivered then map_option sock_wakeup so else so, st, flags AND TH_FIN))"

text \<open>\<^verbatim>\<open>tcp_reassemble\<close>; no header (only a pull) is None.\<close>

definition tcp_reassemble ::
  "bool \<Rightarrow> tcpcb \<Rightarrow> socket option \<Rightarrow> tcp_stats \<Rightarrow> (tcp_seq \<times> u8) option \<Rightarrow> chain \<Rightarrow> u32 \<Rightarrow> (tcpcb \<times> socket option \<times> tcp_stats \<times> u8) run" where
  "tcp_reassemble ok tp so st th nb len =
     (case th of
        None \<Rightarrow> Done (tcp_reassemble_pull tp so st)
      | Some (seq, flags) \<Rightarrow>
          bind_run (tcp_reassemble_insert ok tp so seq len (flags AND TH_FIN) nb) (\<lambda>tp. Done (tcp_reassemble_pull tp so st)))"

section \<open>The stream a peer sends\<close>

text \<open>\<open>S\<close> is the byte stream of the peer and \<open>F\<close> its length; \<open>pos\<close> bytes of it have been delivered, so that
  \<open>rcv_nxt\<close> is the sequence number of byte \<open>pos\<close>. An entry covers the positions from \<open>lo\<close> to \<open>hi\<close>,
  counted from there.\<close>

definition lo :: "tcp_seq \<Rightarrow> tcp_reassemble_entry \<Rightarrow> nat" where
  "lo w e = rel w (re_seq e)"

definition hi :: "tcp_seq \<Rightarrow> tcp_reassemble_entry \<Rightarrow> nat" where
  "hi w e = rel w (re_seq e) + unat (re_len e)"

text \<open>A packet that carries \<open>n\<close> bytes of the stream from offset \<open>k\<close> on.\<close>

definition carries :: "(nat \<Rightarrow> u8) \<Rightarrow> nat \<Rightarrow> nat \<Rightarrow> chain \<Rightarrow> bool" where
  "carries S k n nb \<longleftrightarrow> pkt_wf nb \<and> (\<forall>b\<in>set nb. \<not> sockbuf_is_addr b) \<and> chain_bytes nb = map S [k..<k + n]"

definition entry_ok :: "(nat \<Rightarrow> u8) \<Rightarrow> nat \<Rightarrow> nat \<Rightarrow> tcp_seq \<Rightarrow> tcp_reassemble_entry \<Rightarrow> bool" where
  "entry_ok S F pos w e \<longleftrightarrow> hi w e < half \<and> carries S (pos + lo w e) (unat (re_len e)) (re_data e) \<and>
     pos + hi w e \<le> F \<and> (re_flags e AND TH_FIN \<noteq> 0 \<longrightarrow> pos + hi w e = F)"

definition queue_ok :: "(nat \<Rightarrow> u8) \<Rightarrow> nat \<Rightarrow> nat \<Rightarrow> tcp_seq \<Rightarrow> tcp_reassemble_entry list \<Rightarrow> bool" where
  "queue_ok S F pos w q \<longleftrightarrow> (\<forall>e\<in>set q. entry_ok S F pos w e) \<and> sorted_wrt (\<lambda>e f. hi w e \<le> lo w f) q"

definition rasm_ok :: "(nat \<Rightarrow> u8) \<Rightarrow> nat \<Rightarrow> nat \<Rightarrow> tcpcb \<Rightarrow> bool" where
  "rasm_ok S F pos tp \<longleftrightarrow> queue_ok S F pos (rcv_nxt tp) (reassemble_queue tp) \<and>
     reassemble_len tp = sum_list (map re_len (reassemble_queue tp))"

text \<open>The positions the queue holds.\<close>

definition qcover :: "tcp_seq \<Rightarrow> tcp_reassemble_entry list \<Rightarrow> nat set" where
  "qcover w q = (\<Union>e\<in>set q. {lo w e ..< hi w e})"

lemma queue_ok_simps [simp]:
  "queue_ok S F pos w []"
  "queue_ok S F pos w (e # q) \<longleftrightarrow> entry_ok S F pos w e \<and> (\<forall>f\<in>set q. hi w e \<le> lo w f) \<and> queue_ok S F pos w q"
  "queue_ok S F pos w (p @ q) \<longleftrightarrow> queue_ok S F pos w p \<and> queue_ok S F pos w q \<and> (\<forall>e\<in>set p. \<forall>f\<in>set q. hi w e \<le> lo w f)"
  by (auto simp: queue_ok_def sorted_wrt_append)

section \<open>Trimming a packet\<close>

lemma adj_front_flags: "nb_flags ` set (fst (netbuf_adj_front c n)) \<subseteq> nb_flags ` set c"
proof (induction c n rule: netbuf_adj_front.induct)
  case (2 b bs left)
  show ?case
  proof (cases "left = 0")
    case False
    then have "set (fst (netbuf_adj_front (b # bs) left)) =
        insert (b\<lparr>nb_off := nb_off b + min left (nb_len b), nb_len := nb_len b - min left (nb_len b)\<rparr>)
          (set (fst (netbuf_adj_front bs (left - min left (nb_len b)))))"
      by (simp add: Let_def split: prod.splits)
    then show ?thesis using 2 [OF False] by auto
  qed simp
qed simp

lemma cut_after_flags: "nb_flags ` set (netbuf_cut_after c n) \<subseteq> nb_flags ` set c"
  by (induction c n rule: netbuf_cut_after.induct) auto

lemma set_pkt_len_flags: "nb_flags ` set (set_pkt_len l c) = nb_flags ` set c"
  by (cases c) auto

lemma adj_flags: "netbuf_adj c n = Done c' \<Longrightarrow> nb_flags ` set c' \<subseteq> nb_flags ` set c"
proof (cases c)
  case (Cons nb rest)
  assume a: "netbuf_adj c n = Done c'"
  show ?thesis
  proof (cases "n \<ge> 0")
    case True
    then obtain l where "c' = set_pkt_len l (fst (netbuf_adj_front c (nat n)))"
      using a by (auto simp: Cons split: prod.splits simp del: netbuf_adj_front.simps)
    then show ?thesis using adj_front_flags [of c "nat n"] by (simp add: set_pkt_len_flags)
  next
    case False
    then obtain k l where "c' = set_pkt_len l (netbuf_cut_after c k)" using a by (auto simp: Cons Let_def)
    then show ?thesis using cut_after_flags [of c k] by (simp add: set_pkt_len_flags)
  qed
qed simp

lemma adj_no_addr:
  assumes "netbuf_adj c n = Done c'" and "\<forall>b\<in>set c. \<not> sockbuf_is_addr b"
  shows "\<forall>b\<in>set c'. \<not> sockbuf_is_addr b"
proof
  fix b
  assume "b \<in> set c'"
  then obtain d where "d \<in> set c" "nb_flags d = nb_flags b" using adj_flags [OF assms(1)] by force
  then show "\<not> sockbuf_is_addr b" using assms(2) by (auto simp: sockbuf_is_addr_def)
qed

lemma carries_drop:
  assumes "carries S k n nb" and "d \<le> n"
  shows "\<exists>nb'. netbuf_adj nb (int d) = Done nb' \<and> carries S (k + d) (n - d) nb'"
proof -
  obtain nb' where a: "netbuf_adj nb (int d) = Done nb'" "pkt_wf nb'" "chain_bytes nb' = drop d (chain_bytes nb)"
    using netbuf_adj_pkt [of nb "int d"] assms(1) by (auto simp: carries_def)
  have "drop d [k..<k + n] = [k + d..<k + d + (n - d)]" using assms(2) by (simp add: drop_upt)
  then show ?thesis using a adj_no_addr [OF a(1)] assms(1) by (auto simp: carries_def drop_map)
qed

lemma carries_take:
  assumes "carries S k n nb" and "d \<le> n" and "0 < d"
  shows "\<exists>nb'. netbuf_adj nb (- int d) = Done nb' \<and> carries S k (n - d) nb'"
proof -
  have "length (chain_bytes nb) = n" using assms(1) by (simp add: carries_def)
  then obtain nb' where a: "netbuf_adj nb (- int d) = Done nb'" "pkt_wf nb'" "chain_bytes nb' = take (n - d) (chain_bytes nb)"
    using netbuf_adj_pkt [of nb "- int d"] assms(1,3) by (auto simp: carries_def)
  have "take (n - d) [k..<k + n] = [k..<k + (n - d)]" using assms(2) by (simp add: take_upt)
  then show ?thesis using a adj_no_addr [OF a(1)] assms(1) by (auto simp: carries_def take_map)
qed

section \<open>Insertion\<close>

definition rasm_frame :: "tcpcb \<Rightarrow> tcpcb \<Rightarrow> bool" where
  "rasm_frame tp tp' \<longleftrightarrow> tp'\<lparr>reassemble_queue := reassemble_queue tp, reassemble_len := reassemble_len tp\<rparr> = tp"

lemma rasm_frame_upd [intro, simp]:
  "rasm_frame tp tp" "rasm_frame tp (tp\<lparr>reassemble_queue := q\<rparr>)" "rasm_frame tp (tp\<lparr>reassemble_len := l\<rparr>)"
  "rasm_frame tp (tp\<lparr>reassemble_len := l, reassemble_queue := q\<rparr>)"
  "rasm_frame tp (tp\<lparr>reassemble_queue := q, reassemble_len := l\<rparr>)"
  by (simp_all add: rasm_frame_def)

lemma rasm_frame_rcv_nxt: "rasm_frame tp tp' \<Longrightarrow> rcv_nxt tp' = rcv_nxt tp"
  by (cases tp, cases tp') (simp add: rasm_frame_def)

lemma rel_end: "hi w e < half \<Longrightarrow> rel w (re_seq e + re_len e) = hi w e"
  by (subst rel_add) (simp_all add: hi_def half_def)

lemma entry_end: "entry_ok S F pos w e \<Longrightarrow> rel w (re_seq e + re_len e) = hi w e"
  by (simp add: rel_end entry_ok_def)

lemma and_or_fin: "(a OR b) AND TH_FIN \<noteq> 0 \<Longrightarrow> a AND TH_FIN \<noteq> 0 \<or> b AND TH_FIN \<noteq> 0"
  by (auto simp: bit_eq_iff bit_simps)

lemma drop_covered_spec:
  assumes "rel w end_seq < half"
  shows "\<forall>e\<in>set rest. entry_ok S F pos w e \<Longrightarrow> drop_covered end_seq rest flags tp = (rest', flags', tp') \<Longrightarrow>
    \<exists>cs. rest = cs @ rest' \<and> (\<forall>e\<in>set cs. hi w e \<le> rel w end_seq) \<and> (rest' \<noteq> [] \<longrightarrow> rel w end_seq < hi w (hd rest')) \<and>
      (flags' AND TH_FIN \<noteq> 0 \<longrightarrow> flags AND TH_FIN \<noteq> 0 \<or> (\<exists>e\<in>set cs. re_flags e AND TH_FIN \<noteq> 0)) \<and>
      tp' = tp\<lparr>reassemble_len := reassemble_len tp - sum_list (map re_len cs)\<rparr>"
proof (induction rest arbitrary: flags tp)
  case (Cons e es)
  have e: "entry_ok S F pos w e" and es: "\<forall>e\<in>set es. entry_ok S F pos w e" using Cons.prems by auto
  have c: "SEQ_LEQ (re_seq e + re_len e) end_seq \<longleftrightarrow> hi w e \<le> rel w end_seq"
    using entry_end [OF e] e assms by (subst seq_cmp [of w]) (auto simp: entry_ok_def)
  show ?case
  proof (cases "hi w e \<le> rel w end_seq")
    case True
    then have "drop_covered end_seq es (flags OR re_flags e) (tcp_reassemble_free_entry tp e) = (rest', flags', tp')" using Cons.prems(2) c by simp
    from Cons.IH [OF es this] obtain cs where cs: "es = cs @ rest'" "\<forall>e\<in>set cs. hi w e \<le> rel w end_seq"
      "rest' \<noteq> [] \<longrightarrow> rel w end_seq < hi w (hd rest')"
      "flags' AND TH_FIN \<noteq> 0 \<longrightarrow> (flags OR re_flags e) AND TH_FIN \<noteq> 0 \<or> (\<exists>e\<in>set cs. re_flags e AND TH_FIN \<noteq> 0)"
      "tp' = (tcp_reassemble_free_entry tp e)\<lparr>reassemble_len := reassemble_len (tcp_reassemble_free_entry tp e) - sum_list (map re_len cs)\<rparr>"
      by blast
    have "tp' = tp\<lparr>reassemble_len := reassemble_len tp - sum_list (map re_len (e # cs))\<rparr>"
      unfolding cs(5) tcp_reassemble_free_entry_def by (simp add: algebra_simps)
    moreover have "flags' AND TH_FIN \<noteq> 0 \<longrightarrow> flags AND TH_FIN \<noteq> 0 \<or> (\<exists>e\<in>set (e # cs). re_flags e AND TH_FIN \<noteq> 0)"
      using cs(4) and_or_fin [of flags "re_flags e"] by auto
    moreover have "e # es = (e # cs) @ rest'" "\<forall>e\<in>set (e # cs). hi w e \<le> rel w end_seq" using cs(1,2) True by simp_all
    ultimately show ?thesis using cs(3) by blast
  next
    case False
    then show ?thesis using Cons.prems(2) c by (intro exI [of _ "[]"]) auto
  qed
next
  case Nil
  then have "rest' = []" "flags' = flags" "tp' = tp" by simp_all
  then show ?case by (intro exI [of _ "[]"]) simp
qed

lemma insert_tail_spec:
  assumes q: "queue_ok S F pos w (before @ rest)"
    and new: "entry_ok S F pos w \<lparr>re_seq = seq, re_len = len, re_flags = flags, re_data = nb\<rparr>"
    and pre: "\<forall>e\<in>set before. hi w e \<le> rel w seq" and post: "\<forall>e\<in>set rest. rel w seq \<le> lo w e"
    and len: "reassemble_len tp = sum_list (map re_len (before @ rest))" and w: "w = rcv_nxt tp"
  shows "\<exists>tp'. insert_tail ok tp before rest seq len flags nb = Done tp' \<and> rasm_ok S F pos tp' \<and> rasm_frame tp tp' \<and>
    (ok \<longrightarrow> {rel w seq ..< rel w seq + unat len} \<subseteq> qcover w (reassemble_queue tp'))"
proof -
  have en: "rel w (seq + len) = rel w seq + unat len" "rel w (seq + len) < half"
    using entry_end [OF new] new by (auto simp: entry_ok_def hi_def)
  obtain rest' flags' tp1 where d: "drop_covered (seq + len) rest flags tp = (rest', flags', tp1)" by (cases "drop_covered (seq + len) rest flags tp") auto
  have "\<forall>e\<in>set rest. entry_ok S F pos w e" using q by (auto simp: queue_ok_def)
  from drop_covered_spec [OF en(2) this d] obtain cs where cs: "rest = cs @ rest'" "\<forall>e\<in>set cs. hi w e \<le> rel w (seq + len)"
    "rest' \<noteq> [] \<longrightarrow> rel w (seq + len) < hi w (hd rest')"
    "flags' AND TH_FIN \<noteq> 0 \<longrightarrow> flags AND TH_FIN \<noteq> 0 \<or> (\<exists>e\<in>set cs. re_flags e AND TH_FIN \<noteq> 0)"
    "tp1 = tp\<lparr>reassemble_len := reassemble_len tp - sum_list (map re_len cs)\<rparr>" by blast
  have l1: "reassemble_len tp1 = sum_list (map re_len (before @ rest'))" using len by (simp add: cs(1,5))
  have fin: "pos + rel w (seq + len) = F" if f: "flags' AND TH_FIN \<noteq> 0"
  proof -
    consider "flags AND TH_FIN \<noteq> 0" | e where "e \<in> set cs" "re_flags e AND TH_FIN \<noteq> 0" using cs(4) f by blast
    then show ?thesis
    proof cases
      case 1
      then show ?thesis using new en(1) by (simp add: entry_ok_def hi_def)
    next
      case 2
      then have "pos + hi w e = F" "hi w e \<le> rel w (seq + len)" using q cs(1,2) by (auto simp: queue_ok_def entry_ok_def)
      moreover have "pos + rel w (seq + len) \<le> F" using new en(1) by (simp add: entry_ok_def hi_def)
      ultimately show ?thesis by simp
    qed
  qed
  have q': "queue_ok S F pos w (before @ rest')" using q by (auto simp: cs(1))
  have post': "\<forall>e\<in>set rest'. rel w seq \<le> lo w e" using post by (simp add: cs(1))
  define P where "P = (\<lambda>(len' :: u32, flags'' :: u8, nb'). entry_ok S F pos w \<lparr>re_seq = seq, re_len = len', re_flags = flags'', re_data = nb'\<rparr> \<and>
     (\<forall>e\<in>set rest'. rel w seq + unat len' \<le> lo w e) \<and>
     {rel w seq ..< rel w seq + unat len} \<subseteq> {rel w seq ..< rel w seq + unat len'} \<union> qcover w rest')"
  define trim where "trim = (case rest' of
              e # es \<Rightarrow>
                if SEQ_LT (re_seq e) (seq + len)
                then let overlap = seq + len - re_seq e
                     in bind_run (netbuf_adj nb (- int (unat overlap))) (\<lambda>nb. Done (len - overlap, flags' AND NOT TH_FIN, nb))
                else Done (len, flags', nb)
            | [] \<Rightarrow> Done (len, flags', nb))"
  have keep: "entry_ok S F pos w \<lparr>re_seq = seq, re_len = len, re_flags = flags', re_data = nb\<rparr>"
    using new fin en(1) by (simp add: entry_ok_def hi_def lo_def)
  have "\<exists>x. trim = Done x \<and> P x"
  proof (cases rest')
    case Nil
    then show ?thesis using keep by (simp add: trim_def P_def)
  next
    case (Cons e es)
    have e: "entry_ok S F pos w e" "\<forall>f\<in>set es. hi w e \<le> lo w f" using q' by (auto simp: Cons)
    have le: "lo w e < half" "lo w e \<le> hi w e" using e(1) by (simp_all add: entry_ok_def lo_def hi_def)
    have c: "SEQ_LT (re_seq e) (seq + len) \<longleftrightarrow> lo w e < rel w (seq + len)"
      using le en(2) by (subst seq_cmp [of w]) (auto simp: lo_def)
    show ?thesis
    proof (cases "lo w e < rel w (seq + len)")
      case False
      then have "\<forall>f\<in>set rest'. rel w seq + unat len \<le> lo w f" using e(2) le en(1) by (force simp: Cons)
      then show ?thesis using False keep c by (simp add: trim_def Cons P_def)
    next
      case True
      define ov where "ov = seq + len - re_seq e"
      have ov: "unat ov = rel w (seq + len) - lo w e" unfolding ov_def lo_def using True by (intro rel_diff) (simp add: lo_def)
      have lo: "rel w seq \<le> lo w e" using post' by (simp add: Cons)
      have ov2: "unat ov \<le> unat len" "0 < unat ov" using ov lo True en(1) by simp_all
      have sub: "unat (len - ov) = unat len - unat ov" using ov2(1) by (intro unat_minus_le) (simp add: word_le_nat_alt)
      have "carries S (pos + rel w seq) (unat len) nb" using new by (simp add: entry_ok_def lo_def)
      from carries_take [OF this ov2] obtain nb' where nb': "netbuf_adj nb (- int (unat ov)) = Done nb'" "carries S (pos + rel w seq) (unat len - unat ov) nb'" by blast
      have fl: "(flags' AND NOT TH_FIN) AND TH_FIN = 0" by (auto simp: bit_eq_iff bit_simps)
      have "P (len - ov, flags' AND NOT TH_FIN, nb')"
      proof -
        have "rel w (seq + len) < hi w e" using cs(3) by (simp add: Cons)
        then have "{rel w seq ..< rel w seq + unat len} \<subseteq> {rel w seq ..< rel w seq + unat (len - ov)} \<union> qcover w rest'"
          using sub ov en(1) lo True by (auto simp: qcover_def Cons)
        then show ?thesis using nb'(2) new sub fl ov en(1) True lo e(2) le by (auto simp: P_def entry_ok_def lo_def hi_def Cons)
      qed
      moreover have "trim = Done (len - ov, flags' AND NOT TH_FIN, nb')" using True c nb'(1) by (simp add: trim_def Cons ov_def)
      ultimately show ?thesis by blast
    qed
  qed
  then obtain len' flags'' nb' where t: "trim = Done (len', flags'', nb')" "P (len', flags'', nb')" by (metis prod_cases3)
  have it: "insert_tail ok tp before rest seq len flags nb =
      (if \<not> ok then Done (tp1\<lparr>reassemble_queue := before @ rest'\<rparr>)
       else Done (tp1\<lparr>reassemble_queue := before @ \<lparr>re_seq = seq, re_len = len', re_flags = flags'', re_data = nb'\<rparr> # rest',
                     reassemble_len := reassemble_len tp1 + len'\<rparr>))"
    unfolding insert_tail_def d Let_def prod.case unfolding Let_def trim_def [symmetric, unfolded Let_def] t(1) by simp
  have q2: "queue_ok S F pos w (before @ \<lparr>re_seq = seq, re_len = len', re_flags = flags'', re_data = nb'\<rparr> # rest')"
    using q' pre t(2) by (auto simp: P_def lo_def hi_def)
  have f1: "rasm_frame tp tp1" "rcv_nxt tp1 = rcv_nxt tp" by (simp_all add: cs(5))
  show ?thesis
  proof (cases ok)
    case True
    define tp' where "tp' = tp1\<lparr>reassemble_queue := before @ \<lparr>re_seq = seq, re_len = len', re_flags = flags'', re_data = nb'\<rparr> # rest',
                     reassemble_len := reassemble_len tp1 + len'\<rparr>"
    have "rasm_ok S F pos tp'" using q2 l1 f1(2) w by (simp add: rasm_ok_def tp'_def)
    moreover have "rasm_frame tp tp'" using f1(1) unfolding tp'_def rasm_frame_def by simp
    moreover have "insert_tail ok tp before rest seq len flags nb = Done tp'" unfolding it tp'_def using True by simp
    moreover have "{rel w seq ..< rel w seq + unat len} \<subseteq> qcover w (reassemble_queue tp')"
      using t(2) by (auto simp: tp'_def P_def qcover_def lo_def hi_def)
    ultimately show ?thesis by blast
  next
    case False
    have "rasm_ok S F pos (tp1\<lparr>reassemble_queue := before @ rest'\<rparr>)" using q' l1 f1(2) w by (simp add: rasm_ok_def)
    moreover have "rasm_frame tp (tp1\<lparr>reassemble_queue := before @ rest'\<rparr>)" using f1(1) unfolding rasm_frame_def by simp
    moreover have "insert_tail ok tp before rest seq len flags nb = Done (tp1\<lparr>reassemble_queue := before @ rest'\<rparr>)" unfolding it using False by simp
    ultimately show ?thesis using False by blast
  qed
qed

lemma insert_spec:
  assumes r: "rasm_ok S F pos tp" and w: "w = rcv_nxt tp"
    and new: "entry_ok S F pos w \<lparr>re_seq = seq, re_len = len, re_flags = flags, re_data = nb\<rparr>"
  shows "\<exists>tp'. tcp_reassemble_insert ok tp so seq len flags nb = Done tp' \<and> rasm_ok S F pos tp' \<and> rasm_frame tp tp' \<and>
    (ok \<and> seq = rcv_nxt tp \<longrightarrow> {0..<unat len} \<subseteq> qcover w (reassemble_queue tp'))"
proof (cases "tcp_reassemble_full tp so seq len")
  case True
  then show ?thesis using r by (auto simp: tcp_reassemble_insert_def tcp_reassemble_full_def)
next
  case False
  define q where "q = reassemble_queue tp"
  have q: "queue_ok S F pos w q" "reassemble_len tp = sum_list (map re_len q)" using r w by (simp_all add: rasm_ok_def q_def)
  define before where "before = takeWhile (\<lambda>e. SEQ_LT (re_seq e) seq) q"
  define rest where "rest = dropWhile (\<lambda>e. SEQ_LT (re_seq e) seq) q"
  have br: "q = before @ rest" by (simp add: before_def rest_def)
  have qbr: "queue_ok S F pos w (before @ rest)" using q(1) br by simp
  have seq: "rel w seq < half" using new by (simp add: entry_ok_def hi_def)
  have c: "SEQ_LT (re_seq e) seq \<longleftrightarrow> lo w e < rel w seq" if e: "e \<in> set q" for e
    using e q(1) seq by (subst seq_cmp [of w]) (auto simp: lo_def hi_def entry_ok_def queue_ok_def)
  have lohi: "lo w e \<le> hi w e" for e by (simp add: lo_def hi_def)
  have pre: "\<forall>e\<in>set before. lo w e < rel w seq" using c by (auto simp: before_def dest!: set_takeWhileD)
  have post: "\<forall>e\<in>set rest. rel w seq \<le> lo w e"
  proof (cases rest)
    case (Cons e es)
    have "\<not> SEQ_LT (re_seq e) seq" using Cons hd_dropWhile [of "\<lambda>e. SEQ_LT (re_seq e) seq" q] by (simp add: rest_def)
    then have "rel w seq \<le> lo w e" using c [of e] br Cons by simp
    then show ?thesis using qbr lohi [of e] by (force simp: Cons)
  qed simp
  have len: "reassemble_len tp = sum_list (map re_len (before @ rest))" using q(2) br by simp
  show ?thesis
  proof (cases "before = []")
    case True
    then have i: "tcp_reassemble_insert ok tp so seq len flags nb = insert_tail ok tp before rest seq len flags nb"
      using False by (simp add: tcp_reassemble_insert_def Let_def q_def [symmetric] before_def [symmetric] rest_def [symmetric])
    obtain tp' where t: "insert_tail ok tp before rest seq len flags nb = Done tp'" "rasm_ok S F pos tp'" "rasm_frame tp tp'"
      "ok \<longrightarrow> {rel w seq ..< rel w seq + unat len} \<subseteq> qcover w (reassemble_queue tp')"
      using insert_tail_spec [OF qbr new _ post len w, of ok] True by auto
    have "{0..<unat len} \<subseteq> qcover w (reassemble_queue tp')" if o: "ok" "seq = rcv_nxt tp"
    proof -
      have "rel w seq = 0" using o(2) by (simp add: w)
      then show ?thesis using t(4) o(1) by simp
    qed
    then show ?thesis unfolding i using t by blast
  next
    case nb: False
    have ns: "seq \<noteq> rcv_nxt tp"
      using pre nb w by (metis last_in_set not_less_zero rel_self)
    define prev where "prev = last before"
    define ov where "ov = re_seq prev + re_len prev - seq"
    have prev: "entry_ok S F pos w prev" "lo w prev < rel w seq" using nb qbr pre by (auto simp: prev_def queue_ok_def)
    have hp: "hi w prev < half" using prev by (simp add: entry_ok_def)
    have so: "sint ov = int (hi w prev) - int (rel w seq)"
      unfolding ov_def using sint_diff [of w "re_seq prev + re_len prev" seq] entry_end [OF prev(1)] hp seq by simp
    have uo: "unat ov = hi w prev - rel w seq" if p: "0 < sint ov"
      unfolding ov_def using rel_diff [of w seq "re_seq prev + re_len prev"] entry_end [OF prev(1)] p so by simp
    have i: "tcp_reassemble_insert ok tp so seq len flags nb =
        (if sint ov > 0 \<and> ov \<ge> len
         then Done (if ov = len then tp\<lparr>reassemble_queue := butlast before @ prev\<lparr>re_flags := re_flags prev OR flags\<rparr> # rest\<rparr> else tp)
         else if sint ov > 0
         then bind_run (netbuf_adj nb (sint ov)) (\<lambda>nb. insert_tail ok tp before rest (seq + ov) (len - ov) flags nb)
         else insert_tail ok tp before rest seq len flags nb)"
      using False nb unfolding tcp_reassemble_insert_def Let_def q_def [symmetric] before_def [symmetric] rest_def [symmetric] prev_def [symmetric] ov_def [symmetric]
      by simp
    have hb: "\<forall>e\<in>set before. hi w e \<le> hi w prev"
    proof
      fix e
      assume e: "e \<in> set before"
      have "before = butlast before @ [prev]" using nb by (simp add: prev_def)
      then have "queue_ok S F pos w (butlast before @ [prev])" "e \<in> set (butlast before) \<or> e = prev"
        using qbr e by (metis queue_ok_simps(3), metis Un_iff empty_iff insert_iff list.set set_append)
      then show "hi w e \<le> hi w prev" using lohi [of prev] by (auto intro: le_trans)
    qed
    consider "sint ov > 0" "ov \<ge> len" | "sint ov > 0" "\<not> ov \<ge> len" | "\<not> sint ov > 0" by blast
    then show ?thesis
    proof cases
      case 1
      have "before = butlast before @ [prev]" using nb by (simp add: prev_def)
      then have bq: "queue_ok S F pos w ((butlast before @ [prev]) @ rest)" "reassemble_len tp = sum_list (map re_len ((butlast before @ [prev]) @ rest))"
        using qbr len by simp_all
      have "entry_ok S F pos w (prev\<lparr>re_flags := re_flags prev OR flags\<rparr>)" if e: "ov = len"
      proof -
        have "hi w prev = rel w seq + unat len" using uo [OF 1(1)] e so 1(1) by simp
        then show ?thesis using prev(1) new and_or_fin [of "re_flags prev" flags] by (auto simp: entry_ok_def hi_def lo_def)
      qed
      then have "rasm_ok S F pos (tp\<lparr>reassemble_queue := butlast before @ prev\<lparr>re_flags := re_flags prev OR flags\<rparr> # rest\<rparr>)" if e: "ov = len"
        using bq w e by (simp add: rasm_ok_def lo_def hi_def)
      then show ?thesis using 1 r ns by (simp add: i)
    next
      case 2
      have lt: "unat ov < unat len" using 2(2) by (simp add: word_le_nat_alt)
      have sv: "sint ov = int (unat ov)" using uo [OF 2(1)] so 2(1) by simp
      have "carries S (pos + rel w seq) (unat len) nb" using new by (simp add: entry_ok_def lo_def)
      from carries_drop [OF this, of "unat ov"] lt obtain nb' where
        nb': "netbuf_adj nb (int (unat ov)) = Done nb'" "carries S (pos + rel w seq + unat ov) (unat len - unat ov) nb'" by auto
      have rs: "rel w (seq + ov) = rel w seq + unat ov" using uo [OF 2(1)] hp so 2(1) by (intro rel_add) (simp add: half_def)
      have sl: "unat (len - ov) = unat len - unat ov" using lt by (intro unat_minus_le) (simp add: word_le_nat_alt)
      have new': "entry_ok S F pos w \<lparr>re_seq = seq + ov, re_len = len - ov, re_flags = flags, re_data = nb'\<rparr>"
        using new nb'(2) lt by (simp add: entry_ok_def hi_def lo_def rs sl add.assoc)
      have hs: "rel w (seq + ov) = hi w prev" using rs uo [OF 2(1)] so 2(1) by simp
      have "\<forall>e\<in>set rest. rel w (seq + ov) \<le> lo w e" using qbr nb unfolding hs by (simp add: prev_def)
      from insert_tail_spec [OF qbr new' _ this len w, of ok] hb hs
      show ?thesis using 2 nb'(1) ns by (auto simp: i sv)
    next
      case 3
      then have "\<forall>e\<in>set before. hi w e \<le> rel w seq" using hb so by force
      from insert_tail_spec [OF qbr new this post len w, of ok] show ?thesis using 3 ns by (auto simp: i)
    qed
  qed
qed

section \<open>Delivery\<close>

lemma no_addr_data: "\<forall>b\<in>set c. \<not> sockbuf_is_addr b \<Longrightarrow> sb_data c = chain_bytes c"
  by (induction c) auto

lemma entry_shift:
  assumes "entry_ok S F pos w e" and "n \<le> lo w e"
  shows "entry_ok S F (pos + n) (w + of_nat n) e" "lo (w + of_nat n) e = lo w e - n" "hi (w + of_nat n) e = hi w e - n"
proof -
  have n: "n < 2 ^ 32" using assms by (simp add: entry_ok_def lo_def hi_def half_def)
  have "rel w (w + of_nat n) = n" unfolding rel_def using n by (simp add: unat_of_nat take_bit_nat_eq_self)
  then have r: "rel (w + of_nat n) (re_seq e) = rel w (re_seq e) - n" using rel_rebase [of w "w + of_nat n" "re_seq e"] assms(2) by (simp add: lo_def)
  then show l: "lo (w + of_nat n) e = lo w e - n" and "hi (w + of_nat n) e = hi w e - n" using assms(2) by (simp_all add: lo_def hi_def)
  then show "entry_ok S F (pos + n) (w + of_nat n) e" using assms by (auto simp: entry_ok_def hi_def lo_def)
qed

lemma queue_shift:
  assumes "queue_ok S F pos w q" and "\<forall>e\<in>set q. n \<le> lo w e"
  shows "queue_ok S F (pos + n) (w + of_nat n) q" "qcover w q = (+) n ` qcover (w + of_nat n) q"
proof -
  have e: "entry_ok S F pos w e" "n \<le> lo w e" "lo w e \<le> hi w e" if "e \<in> set q" for e
    using that assms by (auto simp: queue_ok_def lo_def hi_def)
  show "queue_ok S F (pos + n) (w + of_nat n) q"
    unfolding queue_ok_def
  proof (intro conjI ballI)
    show "sorted_wrt (\<lambda>e f. hi (w + of_nat n) e \<le> lo (w + of_nat n) f) q"
    proof (rule sorted_wrt_mono_rel [of q "\<lambda>e f. hi w e \<le> lo w f"])
      fix x y
      assume x: "x \<in> set q" and y: "y \<in> set q" and l: "hi w x \<le> lo w y"
      show "hi (w + of_nat n) x \<le> lo (w + of_nat n) y"
        using entry_shift(3) [OF e(1,2) [OF x]] entry_shift(2) [OF e(1,2) [OF y]] l by simp
    qed (use assms(1) in \<open>simp add: queue_ok_def\<close>)
  qed (use e entry_shift in auto)
  have "{lo w e..<hi w e} = (+) n ` {lo (w + of_nat n) e..<hi (w + of_nat n) e}" if m: "e \<in> set q" for e
    using e [OF m] entry_shift [OF e(1,2) [OF m]] by simp
  then show "qcover w q = (+) n ` qcover (w + of_nat n) q" unfolding qcover_def image_UN by simp
qed

text \<open>What the socket holds after \<open>n\<close> more bytes of the stream.\<close>

definition received :: "(nat \<Rightarrow> u8) \<Rightarrow> nat \<Rightarrow> nat \<Rightarrow> socket \<Rightarrow> socket \<Rightarrow> bool" where
  "received S pos n s s' \<longleftrightarrow> sockbuf_inv (so_rcv s') \<and> sb_stream (so_rcv s') = sb_stream (so_rcv s) @ map S [pos..<pos + n] \<and>
     so_state s' = so_state s"

lemma map_upt_append: "map f [i..<i + m] @ map f [i + m..<i + m + n] = map f [i..<i + (m + n)]"
  using upt_add_eq_append [of i "i + m" n] by (simp add: add.assoc)

definition pull_frame :: "tcpcb \<Rightarrow> tcpcb \<Rightarrow> bool" where
  "pull_frame tp tp' \<longleftrightarrow> tp'\<lparr>rcv_nxt := rcv_nxt tp, reassemble_queue := reassemble_queue tp, reassemble_len := reassemble_len tp\<rparr> = tp"

lemma pull_loop_spec:
  "queue_ok S F pos (rcv_nxt tp) q \<Longrightarrow> reassemble_len tp = sum_list (map re_len q) \<Longrightarrow> pos \<le> F \<Longrightarrow>
   sockbuf_inv (so_rcv s) \<Longrightarrow> so_state s AND SS_CANTRCVMORE = 0 \<Longrightarrow> length (sb_stream (so_rcv s)) + (F - pos) < 2 ^ 64 \<Longrightarrow>
   pull_loop q tp (Some s) st flags d = (tp', so', st', flags', d') \<Longrightarrow> (flags AND TH_FIN \<noteq> 0 \<longrightarrow> pos = F) \<Longrightarrow>
   \<exists>n s'. so' = Some s' \<and> rcv_nxt tp' = rcv_nxt tp + of_nat n \<and> rasm_ok S F (pos + n) tp' \<and> received S pos n s s' \<and>
     pos + n \<le> F \<and> (flags' AND TH_FIN \<noteq> 0 \<longrightarrow> pos + n = F) \<and> n \<notin> qcover (rcv_nxt tp) q"
proof (induction q arbitrary: tp s st flags d pos)
  case Nil
  then show ?case by (intro exI [of _ 0] exI [of _ s]) (auto simp: rasm_ok_def received_def qcover_def)
next
  case (Cons e q)
  define w where "w = rcv_nxt tp"
  have e: "entry_ok S F pos w e" "\<forall>f\<in>set q. hi w e \<le> lo w f" "queue_ok S F pos w q" using Cons.prems(1) by (auto simp: w_def)
  show ?case
  proof (cases "flags AND TH_FIN = 0 \<and> re_seq e = w")
    case False
    have nc: "0 \<notin> qcover w (e # q)"
    proof (cases "flags AND TH_FIN = 0")
      case True
      then have "rel w (re_seq e) \<noteq> 0" using False rel_inj [of w "re_seq e" w] by auto
      then show ?thesis using e(2) by (force simp: qcover_def lo_def hi_def)
    next
      case False
      then have "pos = F" using Cons.prems(8) by simp
      then have "hi w f = 0" if "f \<in> set (e # q)" for f using that Cons.prems(1) by (auto simp: queue_ok_def entry_ok_def w_def)
      then show ?thesis by (force simp: qcover_def)
    qed
    have "tp' = tp\<lparr>reassemble_queue := e # q\<rparr>" "so' = Some s" "flags' = flags" using Cons.prems(7) False by (simp_all add: w_def split: if_splits)
    then show ?thesis
      using Cons.prems(1-6,8) nc by (intro exI [of _ 0] exI [of _ s]) (auto simp: rasm_ok_def received_def w_def [symmetric])
  next
    case True
    define m where "m = unat (re_len e)"
    have lo0: "lo w e = 0" "hi w e = m" using True by (simp_all add: lo_def hi_def m_def)
    define tp1 where "tp1 = tp\<lparr>rcv_nxt := w + re_len e, reassemble_len := reassemble_len tp - re_len e\<rparr>"
    define s1 where "s1 = (if re_len e \<noteq> 0 then s\<lparr>so_rcv := sockbuf_append (so_rcv s) (re_data e)\<rparr> else s)"
    define st1 where "st1 = st\<lparr>st_rcvpack := st_rcvpack st + 1, st_rcvbyte := st_rcvbyte st + ucast (re_len e)\<rparr>"
    have loop: "pull_loop q tp1 (Some s1) st1 (flags OR re_flags e) (d \<or> re_len e \<noteq> 0) = (tp', so', st', flags', d')"
      using Cons.prems(5,7) True by (auto simp: tp1_def s1_def st1_def w_def Let_def split: if_splits)
    have wm: "w + re_len e = w + of_nat m" by (simp add: m_def)
    have ge: "\<forall>f\<in>set q. m \<le> lo w f" using e(2) lo0 by simp
    have q1: "queue_ok S F (pos + m) (rcv_nxt tp1) q" "qcover w q = (+) m ` qcover (rcv_nxt tp1) q"
      using queue_shift [OF e(3) ge] by (simp_all add: tp1_def wm)
    have F1: "pos + m \<le> F" using e(1) lo0 by (simp add: entry_ok_def)
    have fin1: "(flags OR re_flags e) AND TH_FIN \<noteq> 0 \<longrightarrow> pos + m = F"
      using True e(1) lo0 and_or_fin [of flags "re_flags e"] by (auto simp: entry_ok_def)
    have car: "carries S pos m (re_data e)" using e(1) lo0 by (simp add: entry_ok_def m_def)
    then have data: "chain_wf (re_data e)" "sb_data (re_data e) = map S [pos..<pos + m]"
      using no_addr_data by (auto simp: carries_def pkt_wf_def)
    have s1: "received S pos m s s1"
    proof (cases "re_len e = 0")
      case True
      then show ?thesis using Cons.prems(4) by (simp add: received_def s1_def m_def)
    next
      case False
      have "length (sb_stream (so_rcv s)) + length (sb_data (re_data e)) < 2 ^ 64" using Cons.prems(6) F1 by (simp add: data)
      from sockbuf_append_spec [OF Cons.prems(4) data(1) this] show ?thesis using False by (simp add: received_def s1_def data)
    qed
    have "reassemble_len tp1 = sum_list (map re_len q)" using Cons.prems(2) by (simp add: tp1_def)
    moreover have "length (sb_stream (so_rcv s1)) + (F - (pos + m)) < 2 ^ 64" using Cons.prems(6) F1 s1 by (simp add: received_def)
    ultimately obtain n s' where IH: "so' = Some s'" "rcv_nxt tp' = rcv_nxt tp1 + of_nat n" "rasm_ok S F (pos + m + n) tp'"
      "received S (pos + m) n s1 s'" "pos + m + n \<le> F" "flags' AND TH_FIN \<noteq> 0 \<longrightarrow> pos + m + n = F" "n \<notin> qcover (rcv_nxt tp1) q"
      using Cons.IH [OF q1(1) _ F1 _ _ _ loop fin1] s1 Cons.prems(5) by (auto simp: received_def)
    have "m + n \<notin> qcover w (e # q)" using IH(7) q1(2) lo0 by (auto simp: qcover_def [of w "e # q"] qcover_def [of w q, symmetric])
    moreover have "received S pos (m + n) s s'" using s1 IH(4) map_upt_append [of S pos m n] by (simp add: received_def)
    moreover have "rcv_nxt tp' = w + of_nat (m + n)" using IH(2) by (simp add: tp1_def wm algebra_simps)
    ultimately show ?thesis
      using IH(1,3,5,6) by (intro exI [of _ "m + n"] exI [of _ s']) (simp add: w_def [symmetric] add.assoc)
  qed
qed

lemma reassemble_step:
  assumes r: "rasm_ok S F pos tp" and F: "pos \<le> F" "length (sb_stream (so_rcv s)) + (F - pos) < 2 ^ 64"
    and s: "sockbuf_inv (so_rcv s)" "so_state s AND SS_CANTRCVMORE = 0"
    and new: "entry_ok S F pos (rcv_nxt tp) \<lparr>re_seq = seq, re_len = len, re_flags = flags AND TH_FIN, re_data = nb\<rparr>"
  shows "\<exists>tp' s' st' f n. tcp_reassemble ok tp (Some s) st (Some (seq, flags)) nb len = Done (tp', Some s', st', f) \<and>
     rcv_nxt tp' = rcv_nxt tp + of_nat n \<and> rasm_ok S F (pos + n) tp' \<and> received S pos n s s' \<and> pos + n \<le> F \<and>
     (f \<noteq> 0 \<longrightarrow> pos + n = F) \<and> (ok \<and> seq = rcv_nxt tp \<longrightarrow> unat len \<le> n)"
proof -
  obtain tp1 where t1: "tcp_reassemble_insert ok tp (Some s) seq len (flags AND TH_FIN) nb = Done tp1" "rasm_ok S F pos tp1" "rasm_frame tp tp1"
    "ok \<and> seq = rcv_nxt tp \<longrightarrow> {0..<unat len} \<subseteq> qcover (rcv_nxt tp) (reassemble_queue tp1)"
    using insert_spec [OF r refl new, of ok "Some s"] by blast
  have w: "rcv_nxt tp1 = rcv_nxt tp" by (rule rasm_frame_rcv_nxt [OF t1(3)])
  obtain tp2 so2 st2 f2 d2 where p: "pull_loop (reassemble_queue tp1) tp1 (Some s) st 0 False = (tp2, so2, st2, f2, d2)"
    by (cases "pull_loop (reassemble_queue tp1) tp1 (Some s) st 0 False") auto
  have q1: "queue_ok S F pos (rcv_nxt tp1) (reassemble_queue tp1)" "reassemble_len tp1 = sum_list (map re_len (reassemble_queue tp1))"
    using t1(2) by (simp_all add: rasm_ok_def)
  obtain n s2 where n: "so2 = Some s2" "rcv_nxt tp2 = rcv_nxt tp1 + of_nat n"
    "rasm_ok S F (pos + n) tp2" "received S pos n s s2" "pos + n \<le> F" "f2 AND TH_FIN \<noteq> 0 \<longrightarrow> pos + n = F" "n \<notin> qcover (rcv_nxt tp1) (reassemble_queue tp1)"
    using pull_loop_spec [OF q1 F(1) s F(2) p] by auto
  have "received S pos n s (if d2 then sock_wakeup s2 else s2)" using n(4) by (simp add: received_def)
  moreover have "tcp_reassemble ok tp (Some s) st (Some (seq, flags)) nb len = Done (tp2, Some (if d2 then sock_wakeup s2 else s2), st2, f2 AND TH_FIN)"
    by (simp add: tcp_reassemble_def t1(1) tcp_reassemble_pull_def p n(1))
  moreover have "ok \<and> seq = rcv_nxt tp \<longrightarrow> unat len \<le> n" using t1(4) n(7) w by (auto simp: not_less [symmetric])
  ultimately show ?thesis using n(2,3,5,6) w by metis
qed

section \<open>A receiving connection\<close>

text \<open>A segment that carries bytes of the stream from offset \<open>k\<close> on, in the window, with the end flag only at the
  end; \<open>w0\<close> is the sequence number of the first byte. Segments may come in any order, repeatedly,
  cut differently, and the reader may take bytes at any time.\<close>

definition genuine :: "(nat \<Rightarrow> u8) \<Rightarrow> nat \<Rightarrow> tcp_seq \<Rightarrow> nat \<Rightarrow> tcp_seq \<Rightarrow> u32 \<Rightarrow> u8 \<Rightarrow> chain \<Rightarrow> bool" where
  "genuine S F w0 pos seq len flags nb \<longleftrightarrow>
     (\<exists>k. seq = w0 + of_nat k \<and> pos \<le> k \<and> k + unat len \<le> F \<and> k + unat len - pos < half \<and> carries S k (unat len) nb \<and>
       (flags AND TH_FIN \<noteq> 0 \<longrightarrow> k + unat len = F))"

definition stream_pos :: "socket \<Rightarrow> bytes \<Rightarrow> nat" where
  "stream_pos s taken = length taken + length (sb_stream (so_rcv s))"

inductive rcv_reach :: "(nat \<Rightarrow> u8) \<Rightarrow> nat \<Rightarrow> tcp_seq \<Rightarrow> tcpcb \<Rightarrow> socket \<Rightarrow> bytes \<Rightarrow> bool \<Rightarrow> bool" for S F w0 where
  start: "rcv_nxt tp = w0 \<Longrightarrow> reassemble_queue tp = [] \<Longrightarrow> reassemble_len tp = 0 \<Longrightarrow> sockbuf_inv (so_rcv s) \<Longrightarrow> sb_stream (so_rcv s) = [] \<Longrightarrow>
    so_state s AND SS_CANTRCVMORE = 0 \<Longrightarrow> rcv_reach S F w0 tp s [] False"
| arrive: "rcv_reach S F w0 tp s taken fin \<Longrightarrow> genuine S F w0 (stream_pos s taken) seq len flags nb \<Longrightarrow>
    tcp_reassemble ok tp (Some s) st (Some (seq, flags)) nb len = Done (tp', Some s', st', f) \<Longrightarrow>
    rcv_reach S F w0 tp' s' taken (fin \<or> f \<noteq> 0)"
| read: "rcv_reach S F w0 tp s taken fin \<Longrightarrow>
    rcv_reach S F w0 tp (s\<lparr>so_rcv := sockbuf_drop (so_rcv s) n\<rparr>) (taken @ sockbuf_copy (so_rcv s) 0 n) fin"

definition rcv_inv :: "(nat \<Rightarrow> u8) \<Rightarrow> nat \<Rightarrow> tcp_seq \<Rightarrow> tcpcb \<Rightarrow> socket \<Rightarrow> bytes \<Rightarrow> bool \<Rightarrow> bool" where
  "rcv_inv S F w0 tp s taken fin \<longleftrightarrow> taken @ sb_stream (so_rcv s) = map S [0..<stream_pos s taken] \<and>
     rcv_nxt tp = w0 + of_nat (stream_pos s taken) \<and> rasm_ok S F (stream_pos s taken) tp \<and> stream_pos s taken \<le> F \<and>
     sockbuf_inv (so_rcv s) \<and> so_state s AND SS_CANTRCVMORE = 0 \<and> (fin \<longrightarrow> stream_pos s taken = F)"

lemma genuine_entry:
  assumes "genuine S F w0 pos seq len flags nb"
  shows "entry_ok S F pos (w0 + of_nat pos) \<lparr>re_seq = seq, re_len = len, re_flags = flags AND TH_FIN, re_data = nb\<rparr>"
proof -
  obtain k where k: "seq = w0 + of_nat k" "pos \<le> k" "k + unat len \<le> F" "k + unat len - pos < half" "carries S k (unat len) nb"
    "flags AND TH_FIN \<noteq> 0 \<longrightarrow> k + unat len = F" using assms by (auto simp: genuine_def)
  have d: "seq - (w0 + of_nat pos) = of_nat (k - pos)" using k(1,2) by (simp add: of_nat_diff)
  have "unat (of_nat (k - pos) :: u32) = k - pos" using k(2,4) by (intro unat_word_of_nat_id) (simp add: half_def)
  then have "rel (w0 + of_nat pos) seq = k - pos" unfolding rel_def d .
  then show ?thesis using k by (simp add: entry_ok_def lo_def hi_def and.assoc)
qed

lemma rcv_step:
  assumes F: "F < 2 ^ 64" and i: "rcv_inv S F w0 tp s taken fin" and g: "genuine S F w0 (stream_pos s taken) seq len flags nb"
  shows "\<exists>tp' s' st' f. tcp_reassemble ok tp (Some s) st (Some (seq, flags)) nb len = Done (tp', Some s', st', f) \<and>
     rcv_inv S F w0 tp' s' taken (fin \<or> f \<noteq> 0) \<and>
     (ok \<and> seq = rcv_nxt tp \<longrightarrow> stream_pos s taken + unat len \<le> stream_pos s' taken)"
proof -
  define pos where "pos = stream_pos s taken"
  have i': "rasm_ok S F pos tp" "pos \<le> F" "sockbuf_inv (so_rcv s)" "so_state s AND SS_CANTRCVMORE = 0" "rcv_nxt tp = w0 + of_nat pos"
    "taken @ sb_stream (so_rcv s) = map S [0..<pos]" "fin \<longrightarrow> pos = F"
    using i by (auto simp: rcv_inv_def pos_def)
  have b: "length (sb_stream (so_rcv s)) + (F - pos) < 2 ^ 64" using F i'(2) by (simp add: pos_def stream_pos_def)
  have en: "entry_ok S F pos (rcv_nxt tp) \<lparr>re_seq = seq, re_len = len, re_flags = flags AND TH_FIN, re_data = nb\<rparr>"
    using genuine_entry [OF g] i'(5) by (simp add: pos_def)
  obtain tp' s' st' f n where st: "tcp_reassemble ok tp (Some s) st (Some (seq, flags)) nb len = Done (tp', Some s', st', f)"
    "rcv_nxt tp' = rcv_nxt tp + of_nat n" "rasm_ok S F (pos + n) tp'" "received S pos n s s'" "pos + n \<le> F"
    "f \<noteq> 0 \<longrightarrow> pos + n = F" "ok \<and> seq = rcv_nxt tp \<longrightarrow> unat len \<le> n"
    using reassemble_step [OF i'(1,2) b i'(3,4) en, of ok st] by blast
  have str: "sb_stream (so_rcv s') = sb_stream (so_rcv s) @ map S [pos..<pos + n]" using st(4) by (simp add: received_def)
  then have p': "stream_pos s' taken = pos + n" by (simp add: stream_pos_def pos_def)
  have "taken @ sb_stream (so_rcv s') = map S [0..<pos + n]"
    using map_upt_append [of S 0 pos n] i'(6) by (simp add: str flip: append_assoc)
  then have "rcv_inv S F w0 tp' s' taken (fin \<or> f \<noteq> 0)"
    using st(2-6) i'(2,4,5,7) by (auto simp: rcv_inv_def p' received_def algebra_simps)
  then show ?thesis using st(1,7) p' by (auto simp: pos_def)
qed

lemma rcv_reach_inv:
  assumes "F < 2 ^ 64"
  shows "rcv_reach S F w0 tp s taken fin \<Longrightarrow> rcv_inv S F w0 tp s taken fin"
proof (induction rule: rcv_reach.induct)
  case (start tp s)
  then show ?case by (simp add: rcv_inv_def stream_pos_def rasm_ok_def)
next
  case (arrive tp s taken fin seq len flags nb ok st tp' s' st' f)
  from rcv_step [OF assms arrive.IH arrive.hyps(2), of ok st] arrive.hyps(3) show ?case by auto
next
  case (read tp s taken fin n)
  note d = sockbuf_drop_spec [of "so_rcv s" n] sockbuf_copy_spec [of "so_rcv s" 0 n]
  have i: "sockbuf_inv (so_rcv s)" using read.IH by (simp add: rcv_inv_def)
  have dc: "sockbuf_inv (sockbuf_drop (so_rcv s) n)" "sb_stream (sockbuf_drop (so_rcv s) n) = drop n (sb_stream (so_rcv s))"
    "sockbuf_copy (so_rcv s) 0 n = take n (sb_stream (so_rcv s))" using d i by (auto simp: sockbuf_inv_def)
  have "stream_pos (s\<lparr>so_rcv := sockbuf_drop (so_rcv s) n\<rparr>) (taken @ sockbuf_copy (so_rcv s) 0 n) = stream_pos s taken"
    by (simp add: stream_pos_def dc)
  then show ?case using read.IH dc by (simp add: rcv_inv_def)
qed

text \<open>C4: TCP delivers the stream. However the segments of a peer's stream are cut, reordered, repeated and
  overlapped, and whatever allocations fail, every segment is processed without a fault, and the
  bytes the reader has taken followed by those waiting in the socket are at any moment a prefix of
  the stream, in order, each byte once; \<open>rcv_nxt\<close> is the sequence number of the next byte; the end of
  the stream is reported only when every byte is there. A segment at \<open>rcv_nxt\<close> for which memory
  suffices is delivered at once.\<close>

theorem tcp_reassemble_stream:
  assumes "F < 2 ^ 64" and "rcv_reach S F w0 tp s taken fin"
  shows "taken @ sb_stream (so_rcv s) = map S [0..<stream_pos s taken] \<and> stream_pos s taken \<le> F \<and>
    rcv_nxt tp = w0 + of_nat (stream_pos s taken) \<and> (fin \<longrightarrow> stream_pos s taken = F) \<and>
    (\<forall>seq len flags nb ok st. genuine S F w0 (stream_pos s taken) seq len flags nb \<longrightarrow>
       (\<exists>tp' s' st' f. tcp_reassemble ok tp (Some s) st (Some (seq, flags)) nb len = Done (tp', Some s', st', f) \<and>
          (ok \<and> seq = rcv_nxt tp \<longrightarrow> stream_pos s taken + unat len \<le> stream_pos s' taken)))"
proof -
  have i: "rcv_inv S F w0 tp s taken fin" by (rule rcv_reach_inv [OF assms])
  have st: "\<exists>tp' s' st' f. tcp_reassemble ok tp (Some s) st (Some (seq, flags)) nb len = Done (tp', Some s', st', f) \<and>
      (ok \<and> seq = rcv_nxt tp \<longrightarrow> stream_pos s taken + unat len \<le> stream_pos s' taken)"
    if g: "genuine S F w0 (stream_pos s taken) seq len flags nb" for seq len flags nb ok st
    using rcv_step [OF assms(1) i g, of ok st] by blast
  then show ?thesis using i unfolding rcv_inv_def by (intro conjI allI impI) simp_all
qed

text \<open>Five bytes across the wrap of the sequence space.\<close>

definition ex_stream :: "nat \<Rightarrow> u8" where
  "ex_stream k = of_nat (k + 1)"

definition ex_so :: socket where
  "ex_so = (sock_alloc 1)\<lparr>so_rcv := sockbuf_init 100\<rparr>"

lemma ex_so_simps: "sockbuf_inv (so_rcv ex_so)" "sb_stream (so_rcv ex_so) = []" "so_state ex_so AND SS_CANTRCVMORE = 0" "stream_pos ex_so [] = 0"
  by (simp_all add: ex_so_def sock_alloc_def sockbuf_inv_def sockbuf_init_def sb_stream_def stream_pos_def)

lemma ex_genuine: "genuine ex_stream 5 0xFFFFFFFF 0 0xFFFFFFFF 5 TH_FIN example_pkt"
proof -
  have "map ex_stream [0..<5] = [1, 2, 3, 4, 5]" by (simp add: ex_stream_def upt_rec)
  moreover have "\<forall>b\<in>set example_pkt. \<not> sockbuf_is_addr b"
    by (simp add: example_pkt_def example_buf_def netbuf_setup_def sockbuf_is_addr_def NETBUF_SOCKADDR_def NETBUF_PKTHDR_def)
  ultimately have "carries ex_stream 0 5 example_pkt" using example_pkt_wf example_pkt_bytes by (simp add: carries_def)
  then show ?thesis by (auto simp: genuine_def half_def intro!: exI [of _ 0])
qed

theorem tcp_reassemble_stream_witness:
  "\<exists>tp s. rcv_reach ex_stream 5 0xFFFFFFFF tp s [] False \<and>
    (\<exists>st tp' s' st' f. tcp_reassemble True tp (Some s) st (Some (0xFFFFFFFF, TH_FIN)) example_pkt 5 = Done (tp', Some s', st', f) \<and>
      5 \<le> stream_pos s' [])"
proof -
  define tp where "tp = tcpcb_zero\<lparr>rcv_nxt := 0xFFFFFFFF\<rparr>"
  have tp: "rcv_nxt tp = 0xFFFFFFFF" "reassemble_queue tp = []" "reassemble_len tp = 0" by (simp_all add: tp_def tcpcb_zero_def)
  have r: "rcv_reach ex_stream 5 0xFFFFFFFF tp ex_so [] False" by (rule rcv_reach.start) (simp_all add: tp ex_so_simps)
  have F: "(5 :: nat) < 2 ^ 64" by simp
  have g: "genuine ex_stream 5 0xFFFFFFFF (stream_pos ex_so []) 0xFFFFFFFF 5 TH_FIN example_pkt" using ex_genuine by (simp add: ex_so_simps)
  have "\<exists>tp' s' st' f. tcp_reassemble True tp (Some ex_so) tcpstat_zero (Some (0xFFFFFFFF, TH_FIN)) example_pkt 5 = Done (tp', Some s', st', f) \<and>
      (True \<and> 0xFFFFFFFF = rcv_nxt tp \<longrightarrow> stream_pos ex_so [] + unat (5 :: u32) \<le> stream_pos s' [])"
    using tcp_reassemble_stream [OF F r] g by blast
  then obtain tp' s' st' f where "tcp_reassemble True tp (Some ex_so) tcpstat_zero (Some (0xFFFFFFFF, TH_FIN)) example_pkt 5 = Done (tp', Some s', st', f)"
    "5 \<le> stream_pos s' []" using tp(1) by (auto simp: ex_so_simps)
  then show ?thesis using r by blast
qed

end
