(* ===== verification/TCP_Congestion.thy ===== *)
theory TCP_Congestion
  imports TCP_Base Kernel_Errno
begin

text \<open>
  Congestion control, \<^verbatim>\<open>src/kernel/drivers/net/tcp/tcp_cc.c\<close>: the registry of algorithms, each a struct of
  function pointers, and the one algorithm of the kernel, NewReno. What the connection code relies on
  is the contract \<open>cc_contract\<close>; NewReno's struct satisfies it.
\<close>

section \<open>The code\<close>

definition TCP_CC_MAX :: nat where "TCP_CC_MAX = 4"
definition TCP_CWND_MAX :: u32 where "TCP_CWND_MAX = 0x40000000"

datatype tcp_cc_signal = CC_DUPACK | CC_RTO | CC_ECN

text \<open>Null function pointers are None.\<close>

record 't tcp_cc_algo =
  cc_name :: string
  cc_init :: "('t \<Rightarrow> 't \<times> int) option"
  cc_destroy :: "('t \<Rightarrow> 't) option"
  cc_conn_init :: "('t \<Rightarrow> 't) option"
  cc_ack_received :: "'t \<Rightarrow> u32 \<Rightarrow> 't"
  cc_cong_signal :: "'t \<Rightarrow> tcp_cc_signal \<Rightarrow> 't"
  cc_post_recovery :: "'t \<Rightarrow> 't"
  cc_after_idle :: "('t \<Rightarrow> 't) option"

type_synonym 't cc_registry = "'t tcp_cc_algo option list"

fun tcp_cc_name_eq :: "string \<Rightarrow> string \<Rightarrow> bool" where
  "tcp_cc_name_eq (a # as) (b # bs) = (if a = b then tcp_cc_name_eq as bs else False)"
| "tcp_cc_name_eq [] [] = True"
| "tcp_cc_name_eq _ _ = False"

fun tcp_cc_find :: "'t cc_registry \<Rightarrow> string \<Rightarrow> 't tcp_cc_algo option" where
  "tcp_cc_find [] name = None"
| "tcp_cc_find (None # rs) name = tcp_cc_find rs name"
| "tcp_cc_find (Some a # rs) name = (if tcp_cc_name_eq (cc_name a) name then Some a else tcp_cc_find rs name)"

fun cc_take_slot :: "'t cc_registry \<Rightarrow> 't tcp_cc_algo \<Rightarrow> 't cc_registry option" where
  "cc_take_slot [] a = None"
| "cc_take_slot (None # rs) a = Some (Some a # rs)"
| "cc_take_slot (Some b # rs) a = map_option ((#) (Some b)) (cc_take_slot rs a)"

definition tcp_cc_register :: "'t cc_registry \<Rightarrow> 't tcp_cc_algo \<Rightarrow> int \<times> 't cc_registry" where
  "tcp_cc_register reg a =
     (if tcp_cc_find reg (cc_name a) \<noteq> None then (- EEXIST, reg)
      else case cc_take_slot reg a of Some reg \<Rightarrow> (0, reg) | None \<Rightarrow> (- ENOMEM, reg))"

definition tcp_flight_size :: "tcpcb \<Rightarrow> u32" where
  "tcp_flight_size tp = snd_max tp - snd_una tp"

definition newreno_initial_window :: "tcpcb \<Rightarrow> u32" where
  "newreno_initial_window tp =
     (if mss tp > 2190 then 2 * ucast (mss tp) else if mss tp > 1095 then 3 * ucast (mss tp) else 4 * ucast (mss tp))"

definition newreno_half_flight :: "tcpcb \<Rightarrow> u32" where
  "newreno_half_flight tp =
     (let h = tcp_flight_size tp div 2 in if h > 2 * ucast (mss tp) then h else 2 * ucast (mss tp))"

definition newreno_init :: "tcpcb \<Rightarrow> tcpcb \<times> int" where
  "newreno_init tp = (tp\<lparr>snd_cwnd := newreno_initial_window tp, snd_ssthresh := TCP_CWND_MAX\<rparr>, 0)"

definition newreno_conn_init :: "tcpcb \<Rightarrow> tcpcb" where
  "newreno_conn_init tp = tp\<lparr>snd_cwnd := newreno_initial_window tp\<rparr>"

definition newreno_ack_received :: "tcpcb \<Rightarrow> u32 \<Rightarrow> tcpcb" where
  "newreno_ack_received tp acked_bytes =
     (let incr = (if snd_cwnd tp \<le> snd_ssthresh tp then (if acked_bytes < ucast (mss tp) then acked_bytes else ucast (mss tp))
                  else ucast (mss tp) * ucast (mss tp) div snd_cwnd tp);
          incr = (if incr = 0 then 1 else incr)
      in if snd_cwnd tp + incr \<le> TCP_CWND_MAX then tp\<lparr>snd_cwnd := snd_cwnd tp + incr\<rparr> else tp)"

fun newreno_cong_signal :: "tcpcb \<Rightarrow> tcp_cc_signal \<Rightarrow> tcpcb" where
  "newreno_cong_signal tp CC_RTO =
     (let tp = (if rexmt_shift tp \<le> 1 then tp\<lparr>snd_ssthresh := newreno_half_flight tp\<rparr> else tp)
      in tp\<lparr>snd_cwnd := ucast (mss tp)\<rparr>)"
| "newreno_cong_signal tp _ = tp\<lparr>snd_ssthresh := newreno_half_flight tp, snd_cwnd := newreno_half_flight tp\<rparr>"

definition newreno_post_recovery :: "tcpcb \<Rightarrow> tcpcb" where
  "newreno_post_recovery tp = tp\<lparr>snd_cwnd := snd_ssthresh tp\<rparr>"

definition newreno_after_idle :: "tcpcb \<Rightarrow> tcpcb" where
  "newreno_after_idle tp =
     (let iw = newreno_initial_window tp in if snd_cwnd tp > iw then tp\<lparr>snd_cwnd := iw\<rparr> else tp)"

definition tcp_cc_newreno :: "tcpcb tcp_cc_algo" where
  "tcp_cc_newreno = \<lparr>cc_name = ''newreno'', cc_init = Some newreno_init, cc_destroy = None, cc_conn_init = Some newreno_conn_init,
     cc_ack_received = newreno_ack_received, cc_cong_signal = newreno_cong_signal,
     cc_post_recovery = newreno_post_recovery, cc_after_idle = Some newreno_after_idle\<rparr>"

definition tcp_cc_default :: "tcpcb cc_registry \<Rightarrow> tcpcb tcp_cc_algo" where
  "tcp_cc_default reg = (case reg ! 0 of Some a \<Rightarrow> a | None \<Rightarrow> tcp_cc_newreno)"

text \<open>\<^verbatim>\<open>tcp_cc_set\<close>: the algorithm in use so far (if any) is an argument.\<close>

definition tcp_cc_set :: "tcpcb tcp_cc_algo option \<Rightarrow> tcpcb tcp_cc_algo \<Rightarrow> tcpcb \<Rightarrow> tcpcb \<times> int" where
  "tcp_cc_set old a tp =
     (let tp = (case old of Some b \<Rightarrow> (case cc_destroy b of Some f \<Rightarrow> f tp | None \<Rightarrow> tp) | None \<Rightarrow> tp)
      in case cc_init a of Some f \<Rightarrow> f tp | None \<Rightarrow> (tp, 0))"

section \<open>The registry\<close>

lemma tcp_cc_name_eq_iff [simp]: "tcp_cc_name_eq a b \<longleftrightarrow> a = b"
  by (induction a b rule: tcp_cc_name_eq.induct) auto

lemma find_take_slot:
  "cc_take_slot reg a = Some reg' \<Longrightarrow> tcp_cc_find reg (cc_name a) = None \<Longrightarrow>
     tcp_cc_find reg' n = (if n = cc_name a then Some a else tcp_cc_find reg n) \<and> length reg' = length reg"
  by (induction reg a arbitrary: reg' rule: cc_take_slot.induct) (auto split: if_splits)

text \<open>Registering is an insertion into a finite map from names, without overwriting.\<close>

lemma tcp_cc_register_find:
  assumes "tcp_cc_register reg a = (r, reg')"
  shows "(r = 0 \<longrightarrow> tcp_cc_find reg (cc_name a) = None \<and> (\<forall>n. tcp_cc_find reg' n = (if n = cc_name a then Some a else tcp_cc_find reg n))) \<and>
    (r \<noteq> 0 \<longrightarrow> reg' = reg)"
  using assms find_take_slot [of reg a reg']
  by (auto simp: tcp_cc_register_def EEXIST_def ENOMEM_def split: if_splits option.splits)

text \<open>After \<^verbatim>\<open>tcp_initialize\<close> has registered NewReno, it is the default of every connection.\<close>

lemma newreno_is_default:
  "tcp_cc_default (snd (tcp_cc_register (replicate TCP_CC_MAX None) tcp_cc_newreno)) = tcp_cc_newreno"
  by (simp add: tcp_cc_default_def tcp_cc_register_def TCP_CC_MAX_def numeral_nat)

section \<open>The contract of an algorithm\<close>

text \<open>An operation changes the two window variables only.\<close>

definition cc_frame :: "tcpcb \<Rightarrow> tcpcb \<Rightarrow> bool" where
  "cc_frame tp tp' \<longleftrightarrow> tp'\<lparr>snd_cwnd := snd_cwnd tp, snd_ssthresh := snd_ssthresh tp\<rparr> = tp"

lemma cc_frame_upd: "cc_frame tp (tp\<lparr>snd_cwnd := w, snd_ssthresh := s\<rparr>)" "cc_frame tp (tp\<lparr>snd_cwnd := w\<rparr>)" "cc_frame tp tp"
  "cc_frame tp (tp\<lparr>snd_ssthresh := s\<rparr>)" "cc_frame tp (tp\<lparr>snd_ssthresh := s, snd_cwnd := w\<rparr>)"
  by (simp_all add: cc_frame_def)

lemma cc_frame_trans: "cc_frame tp tp' \<Longrightarrow> cc_frame tp' tp'' \<Longrightarrow> cc_frame tp tp''"
  by (cases tp, cases tp', cases tp'') (simp add: cc_frame_def)

lemma cc_frame_fields:
  "cc_frame tp tp' \<Longrightarrow> mss tp' = mss tp \<and> snd_una tp' = snd_una tp \<and> snd_max tp' = snd_max tp \<and> snd_nxt tp' = snd_nxt tp \<and>
     rexmt_shift tp' = rexmt_shift tp"
  by (cases tp, cases tp') (simp add: cc_frame_def)

text \<open>The window is at least one segment and at most \<open>TCP_CWND_MAX\<close>, the threshold at least two segments.\<close>

definition cc_ready :: "tcpcb \<Rightarrow> bool" where
  "cc_ready tp \<longleftrightarrow> 0 < mss tp \<and> unat (tcp_flight_size tp) \<le> 2 ^ 31"

definition cwnd_ok :: "tcpcb \<Rightarrow> bool" where
  "cwnd_ok tp \<longleftrightarrow> unat (mss tp) \<le> unat (snd_cwnd tp) \<and> snd_cwnd tp \<le> TCP_CWND_MAX \<and>
     2 * unat (mss tp) \<le> unat (snd_ssthresh tp) \<and> snd_ssthresh tp \<le> TCP_CWND_MAX"

datatype cc_event = Ack u32 | Signal tcp_cc_signal | Recovered | Idle

fun cc_do :: "tcpcb tcp_cc_algo \<Rightarrow> cc_event \<Rightarrow> tcpcb \<Rightarrow> tcpcb" where
  "cc_do a (Ack n) tp = cc_ack_received a tp n"
| "cc_do a (Signal s) tp = cc_cong_signal a tp s"
| "cc_do a Recovered tp = cc_post_recovery a tp"
| "cc_do a Idle tp = (case cc_after_idle a of Some f \<Rightarrow> f tp | None \<Rightarrow> tp)"

text \<open>No operation touches anything but the two windows, in whatever state it is called; that is all the
  sending and receiving code needs.\<close>

locale cc_frames =
  fixes a :: "tcpcb tcp_cc_algo"
  assumes frame_law: "cc_frame tp (cc_do a e tp)"
    and conn_frame_law: "cc_conn_init a = Some g \<Longrightarrow> cc_frame tp (g tp)"
    and destroy_frame_law: "cc_destroy a = Some g \<Longrightarrow> cc_frame tp (g tp)"
    and init_frame_law: "cc_init a = Some f \<Longrightarrow> cc_frame tp (fst (f tp))"

locale cc_contract = cc_frames +
  assumes start_law: "cc_ready tp \<Longrightarrow> cc_init a = Some f \<Longrightarrow> cc_frame tp (fst (f tp)) \<and> cwnd_ok (fst (f tp))"
    and event_law: "cc_ready tp \<Longrightarrow> cwnd_ok tp \<Longrightarrow> cc_frame tp (cc_do a e tp) \<and> cwnd_ok (cc_do a e tp)"
begin

lemma run_ok: "cc_ready tp \<Longrightarrow> cwnd_ok tp \<Longrightarrow> cc_frame tp (fold (cc_do a) es tp) \<and> cwnd_ok (fold (cc_do a) es tp)"
proof (induction es arbitrary: tp)
  case (Cons e es)
  have e: "cc_frame tp (cc_do a e tp)" "cwnd_ok (cc_do a e tp)" using event_law Cons.prems by auto
  have "cc_ready (cc_do a e tp)" using cc_frame_fields [OF e(1)] Cons.prems(1) by (simp add: cc_ready_def tcp_flight_size_def)
  from Cons.IH [OF this e(2)] show ?case using cc_frame_trans [OF e(1)] by simp
qed (simp add: cc_frame_upd)

end

section \<open>NewReno\<close>

lemma unat_times_mss: "k \<le> 4 \<Longrightarrow> unat (word_of_nat k * ucast (m :: u16) :: u32) = k * unat m"
proof -
  assume "k \<le> 4"
  then have "k * unat m < 2 ^ 32" using u16_bound [of m] mult_le_mono [of k 4 "unat m" 65536] by simp
  then show ?thesis using \<open>k \<le> 4\<close> by (simp add: unat_word_ariths unat_ucast_16_32 unat_of_nat take_bit_eq_mod)
qed

lemmas times_mss = unat_times_mss [of 2, simplified] unat_times_mss [of 3, simplified] unat_times_mss [of 4, simplified]

lemma initial_window: "unat (mss tp) \<le> unat (newreno_initial_window tp)" "newreno_initial_window tp \<le> TCP_CWND_MAX"
  using u16_bound [of "mss tp"] by (auto simp: newreno_initial_window_def times_mss word_le_nat_alt TCP_CWND_MAX_def)

lemma half_flight:
  assumes "cc_ready tp"
  shows "unat (newreno_half_flight tp) = max (unat (tcp_flight_size tp) div 2) (2 * unat (mss tp))"
    "newreno_half_flight tp \<le> TCP_CWND_MAX"
proof -
  show h: "unat (newreno_half_flight tp) = max (unat (tcp_flight_size tp) div 2) (2 * unat (mss tp))"
    by (auto simp: newreno_half_flight_def Let_def word_less_nat_alt times_mss unat_div)
  have "unat (tcp_flight_size tp) div 2 \<le> 2 ^ 31 div 2" using assms by (intro div_le_mono) (simp add: cc_ready_def)
  then show "newreno_half_flight tp \<le> TCP_CWND_MAX"
    using u16_bound [of "mss tp"] by (simp add: word_le_nat_alt h TCP_CWND_MAX_def)
qed

text \<open>What an acknowledgement adds to the window.\<close>

definition cwnd_incr :: "tcpcb \<Rightarrow> u32 \<Rightarrow> nat" where
  "cwnd_incr tp acked = max 1 (if snd_cwnd tp \<le> snd_ssthresh tp then min (unat acked) (unat (mss tp))
     else unat (mss tp) * unat (mss tp) div unat (snd_cwnd tp))"

lemma ack_received:
  assumes "cc_ready tp" and "cwnd_ok tp"
  shows "newreno_ack_received tp n =
    (if unat (snd_cwnd tp) + cwnd_incr tp n \<le> 2 ^ 30 then tp\<lparr>snd_cwnd := snd_cwnd tp + of_nat (cwnd_incr tp n)\<rparr> else tp)"
    and "cwnd_incr tp n \<le> unat (mss tp)"
proof -
  define i :: u32 where "i = (if snd_cwnd tp \<le> snd_ssthresh tp then (if n < ucast (mss tp) then n else ucast (mss tp))
                  else ucast (mss tp) * ucast (mss tp) div snd_cwnd tp)"
  define j where "j = (if i = 0 then 1 else i)"
  have m: "0 < unat (mss tp)" "unat (mss tp) \<le> unat (snd_cwnd tp)" "unat (snd_cwnd tp) \<le> 2 ^ 30"
    using assms by (auto simp: cc_ready_def cwnd_ok_def word_less_nat_alt word_le_nat_alt TCP_CWND_MAX_def)
  have "unat (mss tp) * unat (mss tp) < 2 ^ 32" using mult_strict_mono' [OF u16_bound [of "mss tp"] u16_bound [of "mss tp"]] by simp
  then have sq: "unat (ucast (mss tp) * ucast (mss tp) :: u32) = unat (mss tp) * unat (mss tp)" by (simp add: unat_word_ariths unat_ucast_16_32)
  have "unat i = (if snd_cwnd tp \<le> snd_ssthresh tp then min (unat n) (unat (mss tp))
     else unat (mss tp) * unat (mss tp) div unat (snd_cwnd tp))"
    by (auto simp: i_def word_less_nat_alt unat_ucast_16_32 unat_div sq min_def)
  then have ji: "unat j = cwnd_incr tp n" using unat_gt_0 [of i] by (auto simp: j_def cwnd_incr_def max_def)
  have "unat (mss tp) * unat (mss tp) div unat (snd_cwnd tp) \<le> unat (mss tp) * unat (snd_cwnd tp) div unat (snd_cwnd tp)"
    using m by (intro div_le_mono) simp
  then show l: "cwnd_incr tp n \<le> unat (mss tp)" using m by (auto simp: cwnd_incr_def)
  have "unat (snd_cwnd tp + j) = unat (snd_cwnd tp) + unat j"
    using m l u16_bound [of "mss tp"] by (intro unat_plus_no_wrap) (simp add: ji)
  then have c: "snd_cwnd tp + j \<le> TCP_CWND_MAX \<longleftrightarrow> unat (snd_cwnd tp) + cwnd_incr tp n \<le> 2 ^ 30"
    by (simp add: word_le_nat_alt TCP_CWND_MAX_def ji)
  have "newreno_ack_received tp n = (if snd_cwnd tp + j \<le> TCP_CWND_MAX then tp\<lparr>snd_cwnd := snd_cwnd tp + j\<rparr> else tp)"
    by (simp add: newreno_ack_received_def Let_def i_def j_def)
  then show "newreno_ack_received tp n =
    (if unat (snd_cwnd tp) + cwnd_incr tp n \<le> 2 ^ 30 then tp\<lparr>snd_cwnd := snd_cwnd tp + of_nat (cwnd_incr tp n)\<rparr> else tp)"
    unfolding c ji [symmetric] by simp
qed

lemma newreno_event:
  assumes r: "cc_ready tp" and w: "cwnd_ok tp"
  shows "cc_frame tp (cc_do tcp_cc_newreno e tp) \<and> cwnd_ok (cc_do tcp_cc_newreno e tp)"
proof -
  note h = half_flight [OF r]
  note m = u16_bound [of "mss tp"]
  show ?thesis
  proof (cases e)
    case (Ack n)
    note a = ack_received [OF r w, of n]
    have u: "unat (snd_cwnd tp + of_nat (cwnd_incr tp n)) = unat (snd_cwnd tp) + cwnd_incr tp n"
      if c: "unat (snd_cwnd tp) + cwnd_incr tp n \<le> 2 ^ 30"
      using c unat_plus_no_wrap [of "snd_cwnd tp" "of_nat (cwnd_incr tp n)"] unat_word_of_nat_id [of "cwnd_incr tp n", where 'a = 32] by simp
    show ?thesis using w u by (auto simp: Ack tcp_cc_newreno_def a(1) cc_frame_upd cwnd_ok_def word_le_nat_alt TCP_CWND_MAX_def)
  next
    case (Signal s)
    show ?thesis using w h m by (cases s) (auto simp: Signal tcp_cc_newreno_def cc_frame_upd cwnd_ok_def word_le_nat_alt unat_ucast_16_32 TCP_CWND_MAX_def Let_def)
  next
    case Recovered
    show ?thesis using w by (auto simp: Recovered tcp_cc_newreno_def newreno_post_recovery_def cc_frame_upd cwnd_ok_def)
  next
    case Idle
    show ?thesis using w initial_window [of tp] by (auto simp: Idle tcp_cc_newreno_def newreno_after_idle_def cc_frame_upd cwnd_ok_def Let_def)
  qed
qed

lemma newreno_start: "cc_frame tp (fst (newreno_init tp)) \<and> cwnd_ok (fst (newreno_init tp))"
  using initial_window [of tp] u16_bound [of "mss tp"]
  by (simp add: newreno_init_def cc_frame_upd cwnd_ok_def TCP_CWND_MAX_def newreno_initial_window_def)

lemma newreno_frame: "cc_frame tp (cc_do tcp_cc_newreno e tp)"
proof (cases e)
  case (Signal s)
  then show ?thesis by (cases s) (auto simp: tcp_cc_newreno_def cc_frame_upd Let_def)
qed (auto simp: tcp_cc_newreno_def newreno_ack_received_def newreno_post_recovery_def newreno_after_idle_def cc_frame_upd Let_def)

interpretation nr: cc_contract tcp_cc_newreno
  by unfold_locales
    (use newreno_event newreno_start newreno_frame in \<open>auto simp: tcp_cc_newreno_def newreno_conn_init_def cc_frame_upd\<close>)



end
