(* ===== verification/TCP_Conn.thy ===== *)
theory TCP_Conn
  imports TCP_Reassembly TCP_Congestion TCP_Options
begin

text \<open>
  A TCP connection and what the code of \<^verbatim>\<open>src/kernel/drivers/net/tcp\<close> does around its control block: the
  protocol control block, the socket, the clock, the segments handed to IP. This theory has the
  timers of \<^verbatim>\<open>tcp_timer.c\<close>, the round trip estimate of \<^verbatim>\<open>tcp_input.c\<close> and the small helpers of \<^verbatim>\<open>tcp_subr.c\<close>.
\<close>

section \<open>A connection\<close>

definition INPCB_IPV6 :: u32 where "INPCB_IPV6 = 0x01"
definition INPCB_DETACHED :: u32 where "INPCB_DETACHED = 0x40"

text \<open>A segment as it is handed to \<^verbatim>\<open>inpcb_ip_output\<close>, its header in host byte order; the checksum is added
  over all of it.\<close>

record segment =
  sg_sport :: u16
  sg_dport :: u16
  sg_seq :: tcp_seq
  sg_ack :: tcp_seq
  sg_flags :: u8
  sg_win :: u16
  sg_hlen :: nat
  sg_opts :: bytes
  sg_data :: bytes

text \<open>The control block and its congestion control algorithm, the fields of the protocol control block the
  code uses (\<open>c_v4\<close>: the peer's address is a mapped IPv4 address; \<open>c_gone\<close>: its pointer to the control
  block is null; \<open>c_released\<close>: it has been freed), the socket, the clock (\<open>c_hz\<close> is what \<^verbatim>\<open>ticks_hz\<close>
  returns), the route to the peer (the MTU, if there is a route), the outcomes of allocations to come,
  the segments handed to IP, oldest first, and the statistics. \<open>c_freed\<close> says that the memory of the
  control block has been freed.\<close>

record tcp_conn =
  c_tp :: tcpcb
  c_cc :: "tcpcb tcp_cc_algo"
  c_inp_flags :: u32
  c_v4 :: bool
  c_lport :: u16
  c_fport :: u16
  c_gone :: bool
  c_freed :: bool
  c_released :: bool
  c_so :: "socket option"
  c_ticks :: u64
  c_hz :: u32
  c_route :: "u32 option"
  c_allocs :: malloc_results
  c_sent :: "segment list"
  c_stat :: tcp_stats

definition on_tp :: "(tcpcb \<Rightarrow> tcpcb) \<Rightarrow> tcp_conn \<Rightarrow> tcp_conn" where
  "on_tp f c = c\<lparr>c_tp := f (c_tp c)\<rparr>"

definition on_so :: "(socket \<Rightarrow> socket) \<Rightarrow> tcp_conn \<Rightarrow> tcp_conn" where
  "on_so f c = c\<lparr>c_so := map_option f (c_so c)\<rparr>"

definition on_stat :: "(tcp_stats \<Rightarrow> tcp_stats) \<Rightarrow> tcp_conn \<Rightarrow> tcp_conn" where
  "on_stat f c = c\<lparr>c_stat := f (c_stat c)\<rparr>"

definition detached :: "tcp_conn \<Rightarrow> bool" where
  "detached c \<longleftrightarrow> c_inp_flags c AND INPCB_DETACHED \<noteq> 0"

definition tp_flag :: "u32 \<Rightarrow> tcpcb \<Rightarrow> bool" where
  "tp_flag f tp \<longleftrightarrow> t_flags tp AND f \<noteq> 0"

definition set_flag_tp :: "u32 \<Rightarrow> tcpcb \<Rightarrow> tcpcb" where
  "set_flag_tp f tp = tp\<lparr>t_flags := t_flags tp OR f\<rparr>"

definition clear_flag_tp :: "u32 \<Rightarrow> tcpcb \<Rightarrow> tcpcb" where
  "clear_flag_tp f tp = tp\<lparr>t_flags := t_flags tp AND NOT f\<rparr>"

lemmas TF_defs = TF_ACKNOW_def TF_DELACK_def TF_NODELAY_def TF_NOOPT_def TF_SENTFIN_def TF_RCVD_SCALE_def TF_RCVD_TSTMP_def
  TF_SACK_PERMIT_def TF_FASTRECOVERY_def TF_NEEDFIN_def TF_FORCEDATA_def

lemma and_or_zero:
  fixes a f g :: "'a::len word"
  shows "g AND f = 0 \<Longrightarrow> (a OR g) AND f = a AND f" "g AND f = 0 \<Longrightarrow> (a AND NOT g) AND f = a AND f"
    "(a AND NOT f) AND f = 0" "f \<noteq> 0 \<Longrightarrow> (a OR f) AND f \<noteq> 0"
proof -
  show "(a OR g) AND f = a AND f" if "g AND f = 0" using that by (simp add: bit.conj_disj_distrib2)
  have "f AND NOT g = f" if "g AND f = 0"
  proof -
    have "f = f AND (g OR NOT g)" by simp
    also have "\<dots> = f AND NOT g" unfolding bit.conj_disj_distrib using that by (simp add: and.commute)
    finally show ?thesis by simp
  qed
  then show "(a AND NOT g) AND f = a AND f" if "g AND f = 0" using that by (simp add: ac_simps)
  show "(a AND NOT f) AND f = 0" by (simp add: ac_simps)
  have "(a OR f) AND f = f" by (rule bit_word_eqI) (auto simp: bit_simps)
  then show "(a OR f) AND f \<noteq> 0" if "f \<noteq> 0" using that by simp
qed

lemma TF_disjoint [simp]:
  "TF_ACKNOW AND TF_DELACK = 0" "TF_ACKNOW AND TF_NODELAY = 0" "TF_ACKNOW AND TF_NOOPT = 0" "TF_ACKNOW AND TF_SENTFIN = 0" "TF_ACKNOW AND TF_RCVD_SCALE = 0" "TF_ACKNOW AND TF_RCVD_TSTMP = 0" "TF_ACKNOW AND TF_SACK_PERMIT = 0" "TF_ACKNOW AND TF_FASTRECOVERY = 0" "TF_ACKNOW AND TF_NEEDFIN = 0" "TF_ACKNOW AND TF_FORCEDATA = 0"
  "TF_DELACK AND TF_ACKNOW = 0" "TF_DELACK AND TF_NODELAY = 0" "TF_DELACK AND TF_NOOPT = 0" "TF_DELACK AND TF_SENTFIN = 0" "TF_DELACK AND TF_RCVD_SCALE = 0" "TF_DELACK AND TF_RCVD_TSTMP = 0" "TF_DELACK AND TF_SACK_PERMIT = 0" "TF_DELACK AND TF_FASTRECOVERY = 0" "TF_DELACK AND TF_NEEDFIN = 0" "TF_DELACK AND TF_FORCEDATA = 0"
  "TF_NODELAY AND TF_ACKNOW = 0" "TF_NODELAY AND TF_DELACK = 0" "TF_NODELAY AND TF_NOOPT = 0" "TF_NODELAY AND TF_SENTFIN = 0" "TF_NODELAY AND TF_RCVD_SCALE = 0" "TF_NODELAY AND TF_RCVD_TSTMP = 0" "TF_NODELAY AND TF_SACK_PERMIT = 0" "TF_NODELAY AND TF_FASTRECOVERY = 0" "TF_NODELAY AND TF_NEEDFIN = 0" "TF_NODELAY AND TF_FORCEDATA = 0"
  "TF_NOOPT AND TF_ACKNOW = 0" "TF_NOOPT AND TF_DELACK = 0" "TF_NOOPT AND TF_NODELAY = 0" "TF_NOOPT AND TF_SENTFIN = 0" "TF_NOOPT AND TF_RCVD_SCALE = 0" "TF_NOOPT AND TF_RCVD_TSTMP = 0" "TF_NOOPT AND TF_SACK_PERMIT = 0" "TF_NOOPT AND TF_FASTRECOVERY = 0" "TF_NOOPT AND TF_NEEDFIN = 0" "TF_NOOPT AND TF_FORCEDATA = 0"
  "TF_SENTFIN AND TF_ACKNOW = 0" "TF_SENTFIN AND TF_DELACK = 0" "TF_SENTFIN AND TF_NODELAY = 0" "TF_SENTFIN AND TF_NOOPT = 0" "TF_SENTFIN AND TF_RCVD_SCALE = 0" "TF_SENTFIN AND TF_RCVD_TSTMP = 0" "TF_SENTFIN AND TF_SACK_PERMIT = 0" "TF_SENTFIN AND TF_FASTRECOVERY = 0" "TF_SENTFIN AND TF_NEEDFIN = 0" "TF_SENTFIN AND TF_FORCEDATA = 0"
  "TF_RCVD_SCALE AND TF_ACKNOW = 0" "TF_RCVD_SCALE AND TF_DELACK = 0" "TF_RCVD_SCALE AND TF_NODELAY = 0" "TF_RCVD_SCALE AND TF_NOOPT = 0" "TF_RCVD_SCALE AND TF_SENTFIN = 0" "TF_RCVD_SCALE AND TF_RCVD_TSTMP = 0" "TF_RCVD_SCALE AND TF_SACK_PERMIT = 0" "TF_RCVD_SCALE AND TF_FASTRECOVERY = 0" "TF_RCVD_SCALE AND TF_NEEDFIN = 0" "TF_RCVD_SCALE AND TF_FORCEDATA = 0"
  "TF_RCVD_TSTMP AND TF_ACKNOW = 0" "TF_RCVD_TSTMP AND TF_DELACK = 0" "TF_RCVD_TSTMP AND TF_NODELAY = 0" "TF_RCVD_TSTMP AND TF_NOOPT = 0" "TF_RCVD_TSTMP AND TF_SENTFIN = 0" "TF_RCVD_TSTMP AND TF_RCVD_SCALE = 0" "TF_RCVD_TSTMP AND TF_SACK_PERMIT = 0" "TF_RCVD_TSTMP AND TF_FASTRECOVERY = 0" "TF_RCVD_TSTMP AND TF_NEEDFIN = 0" "TF_RCVD_TSTMP AND TF_FORCEDATA = 0"
  "TF_SACK_PERMIT AND TF_ACKNOW = 0" "TF_SACK_PERMIT AND TF_DELACK = 0" "TF_SACK_PERMIT AND TF_NODELAY = 0" "TF_SACK_PERMIT AND TF_NOOPT = 0" "TF_SACK_PERMIT AND TF_SENTFIN = 0" "TF_SACK_PERMIT AND TF_RCVD_SCALE = 0" "TF_SACK_PERMIT AND TF_RCVD_TSTMP = 0" "TF_SACK_PERMIT AND TF_FASTRECOVERY = 0" "TF_SACK_PERMIT AND TF_NEEDFIN = 0" "TF_SACK_PERMIT AND TF_FORCEDATA = 0"
  "TF_FASTRECOVERY AND TF_ACKNOW = 0" "TF_FASTRECOVERY AND TF_DELACK = 0" "TF_FASTRECOVERY AND TF_NODELAY = 0" "TF_FASTRECOVERY AND TF_NOOPT = 0" "TF_FASTRECOVERY AND TF_SENTFIN = 0" "TF_FASTRECOVERY AND TF_RCVD_SCALE = 0" "TF_FASTRECOVERY AND TF_RCVD_TSTMP = 0" "TF_FASTRECOVERY AND TF_SACK_PERMIT = 0" "TF_FASTRECOVERY AND TF_NEEDFIN = 0" "TF_FASTRECOVERY AND TF_FORCEDATA = 0"
  "TF_NEEDFIN AND TF_ACKNOW = 0" "TF_NEEDFIN AND TF_DELACK = 0" "TF_NEEDFIN AND TF_NODELAY = 0" "TF_NEEDFIN AND TF_NOOPT = 0" "TF_NEEDFIN AND TF_SENTFIN = 0" "TF_NEEDFIN AND TF_RCVD_SCALE = 0" "TF_NEEDFIN AND TF_RCVD_TSTMP = 0" "TF_NEEDFIN AND TF_SACK_PERMIT = 0" "TF_NEEDFIN AND TF_FASTRECOVERY = 0" "TF_NEEDFIN AND TF_FORCEDATA = 0"
  "TF_FORCEDATA AND TF_ACKNOW = 0" "TF_FORCEDATA AND TF_DELACK = 0" "TF_FORCEDATA AND TF_NODELAY = 0" "TF_FORCEDATA AND TF_NOOPT = 0" "TF_FORCEDATA AND TF_SENTFIN = 0" "TF_FORCEDATA AND TF_RCVD_SCALE = 0" "TF_FORCEDATA AND TF_RCVD_TSTMP = 0" "TF_FORCEDATA AND TF_SACK_PERMIT = 0" "TF_FORCEDATA AND TF_FASTRECOVERY = 0" "TF_FORCEDATA AND TF_NEEDFIN = 0"
  "TF_ACKNOW \<noteq> 0" "TF_DELACK \<noteq> 0" "TF_NODELAY \<noteq> 0" "TF_NOOPT \<noteq> 0" "TF_SENTFIN \<noteq> 0" "TF_RCVD_SCALE \<noteq> 0" "TF_RCVD_TSTMP \<noteq> 0" "TF_SACK_PERMIT \<noteq> 0" "TF_FASTRECOVERY \<noteq> 0" "TF_NEEDFIN \<noteq> 0" "TF_FORCEDATA \<noteq> 0"
  by (simp_all add: TF_defs)

lemma tp_flag_simps [simp]:
  "g AND f = 0 \<Longrightarrow> tp_flag f (set_flag_tp g tp) = tp_flag f tp" "g AND f = 0 \<Longrightarrow> tp_flag f (clear_flag_tp g tp) = tp_flag f tp"
  "f \<noteq> 0 \<Longrightarrow> tp_flag f (set_flag_tp f tp)" "\<not> tp_flag f (clear_flag_tp f tp)"
  by (simp_all add: tp_flag_def set_flag_tp_def clear_flag_tp_def and_or_zero)

lemma on_tp_simps [simp]:
  "c_cc (on_tp f c) = c_cc c"
  "c_tp (on_tp f c) = f (c_tp c)" "c_inp_flags (on_tp f c) = c_inp_flags c" "c_v4 (on_tp f c) = c_v4 c" "c_gone (on_tp f c) = c_gone c"
  "c_freed (on_tp f c) = c_freed c" "c_released (on_tp f c) = c_released c" "c_so (on_tp f c) = c_so c" "c_ticks (on_tp f c) = c_ticks c"
  "c_hz (on_tp f c) = c_hz c" "c_route (on_tp f c) = c_route c" "c_allocs (on_tp f c) = c_allocs c" "c_sent (on_tp f c) = c_sent c"
  "c_lport (on_tp f c) = c_lport c" "c_fport (on_tp f c) = c_fport c" "c_stat (on_tp f c) = c_stat c" "detached (on_tp f c) = detached c"
  by (simp_all add: on_tp_def detached_def)

lemma on_so_simps [simp]:
  "c_cc (on_so g c) = c_cc c"
  "c_tp (on_so g c) = c_tp c" "c_inp_flags (on_so g c) = c_inp_flags c" "c_gone (on_so g c) = c_gone c" "c_freed (on_so g c) = c_freed c"
  "c_released (on_so g c) = c_released c" "c_so (on_so g c) = map_option g (c_so c)" "c_sent (on_so g c) = c_sent c" "c_ticks (on_so g c) = c_ticks c"
  "c_hz (on_so g c) = c_hz c" "c_allocs (on_so g c) = c_allocs c" "detached (on_so g c) = detached c" "c_route (on_so g c) = c_route c" "c_v4 (on_so g c) = c_v4 c"
  by (simp_all add: on_so_def detached_def)

lemma on_stat_simps [simp]:
  "c_cc (on_stat h c) = c_cc c"
  "c_tp (on_stat h c) = c_tp c" "c_inp_flags (on_stat h c) = c_inp_flags c" "c_gone (on_stat h c) = c_gone c" "c_freed (on_stat h c) = c_freed c"
  "c_released (on_stat h c) = c_released c" "c_so (on_stat h c) = c_so c" "c_sent (on_stat h c) = c_sent c" "c_ticks (on_stat h c) = c_ticks c"
  "c_hz (on_stat h c) = c_hz c" "c_allocs (on_stat h c) = c_allocs c" "detached (on_stat h c) = detached c" "c_route (on_stat h c) = c_route c" "c_v4 (on_stat h c) = c_v4 c"
  by (simp_all add: on_stat_def detached_def)

text \<open>The outcome of an allocation whose contents do not matter.\<close>

definition take_alloc :: "tcp_conn \<Rightarrow> bool \<times> tcp_conn" where
  "take_alloc c = (case c_allocs c of [] \<Rightarrow> (False, c) | r # os \<Rightarrow> (r \<noteq> None, c\<lparr>c_allocs := os\<rparr>))"

text \<open>Faults and loops that do not end are None.\<close>

fun run_option :: "'a run \<Rightarrow> 'a option" where
  "run_option (Done x) = Some x"
| "run_option Fault = None"

section \<open>Timers\<close>

definition TCP_RTO_MIN_MS :: u32 where "TCP_RTO_MIN_MS = 1000"
definition TCP_RTO_MAX_MS :: u32 where "TCP_RTO_MAX_MS = 60000"
definition TCP_RTO_INITIAL_MS :: u32 where "TCP_RTO_INITIAL_MS = 1000"
definition TCP_MAXRXTSHIFT :: u8 where "TCP_MAXRXTSHIFT = 12"
definition TCP_DELACK_MS :: u64 where "TCP_DELACK_MS = 100"
definition TCP_MSL_MS :: u64 where "TCP_MSL_MS = 30000"
definition TCP_KEEPINIT_MS :: u64 where "TCP_KEEPINIT_MS = 75000"
definition TCP_KEEPIDLE_MS :: u64 where "TCP_KEEPIDLE_MS = 2 * 60 * 60 * 1000"
definition TCP_KEEPINTVL_MS :: u64 where "TCP_KEEPINTVL_MS = 75000"
definition TCP_KEEPCNT :: u8 where "TCP_KEEPCNT = 8"
definition TCP_PERSMIN_MS :: u64 where "TCP_PERSMIN_MS = 5000"
definition TCP_PERSMAX_MS :: u64 where "TCP_PERSMAX_MS = 60000"

text \<open>Distinct addresses of the handlers; the argument of all of them is the control block itself.\<close>

fun tcp_timer_funcs :: "tcp_timer_type \<Rightarrow> ptr" where
  "tcp_timer_funcs TCPT_REXMT = 1"
| "tcp_timer_funcs TCPT_PERSIST = 2"
| "tcp_timer_funcs TCPT_KEEP = 3"
| "tcp_timer_funcs TCPT_2MSL = 4"
| "tcp_timer_funcs TCPT_DELACK = 5"

definition tcp_now_ms :: "tcp_conn \<Rightarrow> u64" where
  "tcp_now_ms c = c_ticks c * 1000 div ucast (c_hz c)"

definition tcp_rexmt_ms :: "tcpcb \<Rightarrow> u32" where
  "tcp_rexmt_ms tp =
     (let rto = push_bit (unat (rexmt_shift tp)) (ucast (rto tp) :: u64)
      in if rto > ucast TCP_RTO_MAX_MS then TCP_RTO_MAX_MS else ucast rto)"

definition set_timer :: "tcp_timer_type \<Rightarrow> callout \<Rightarrow> tcpcb \<Rightarrow> tcpcb" where
  "set_timer which v tp = tp\<lparr>timers := (timers tp)(which := v)\<rparr>"

text \<open>The effect of \<^verbatim>\<open>callout_reset\<close> and \<^verbatim>\<open>callout_stop\<close> on the timer itself; \<open>Callout\<close> has their effect on the wheel.\<close>

definition tcp_timer_activate :: "tcp_timer_type \<Rightarrow> u64 \<Rightarrow> tcp_conn \<Rightarrow> tcp_conn" where
  "tcp_timer_activate which delta_ms c =
     on_tp (\<lambda>tp. set_timer which (callout_arm (c_ticks c) (ticks_from_ms (c_hz c) delta_ms) (tcp_timer_funcs which) 0 (timers tp which)) tp) c"

definition tcp_timer_stop :: "tcp_timer_type \<Rightarrow> tcpcb \<Rightarrow> tcpcb" where
  "tcp_timer_stop which tp = set_timer which ((timers tp which)\<lparr>co_pending := False\<rparr>) tp"

definition all_timers :: "tcp_timer_type list" where
  "all_timers = [TCPT_REXMT, TCPT_PERSIST, TCPT_KEEP, TCPT_2MSL, TCPT_DELACK]"

definition tcp_timer_stop_all :: "tcpcb \<Rightarrow> tcpcb" where
  "tcp_timer_stop_all tp = fold tcp_timer_stop all_timers tp"

definition tcp_timer_discard :: "tcpcb \<Rightarrow> u32 \<times> tcpcb" where
  "tcp_timer_discard tp =
     fold (\<lambda>t (pending, tp). (pending + (callout_dispatches (timers tp t) - t_timer_entered tp t), tcp_timer_stop t tp)) all_timers (0, tp)"

definition tcp_timer_active :: "tcpcb \<Rightarrow> tcp_timer_type \<Rightarrow> bool" where
  "tcp_timer_active tp which = callout_pending (timers tp which)"

text \<open>\<^verbatim>\<open>tcp_timer_enter\<close>: whether the handler may go on.\<close>

definition tcp_timer_enter :: "tcp_timer_type \<Rightarrow> tcp_conn \<Rightarrow> bool \<times> tcp_conn" where
  "tcp_timer_enter which c =
     (let c = on_tp (\<lambda>tp. tp\<lparr>t_timer_entered := (t_timer_entered tp)(which := t_timer_entered tp which + 1)\<rparr>) c
      in if \<not> t_closed (c_tp c) then (True, c)
         else let c = on_tp (\<lambda>tp. tp\<lparr>t_draining := t_draining tp - 1\<rparr>) c
              in (False, if t_draining (c_tp c) = 0 then c\<lparr>c_freed := True\<rparr> else c))"

text \<open>The small updates, unfolded to record updates.\<close>

lemmas tcp_upd_defs = tcp_timer_stop_def tcp_timer_activate_def set_timer_def set_flag_tp_def clear_flag_tp_def on_tp_def on_so_def on_stat_def

section \<open>Round trip time\<close>

definition sshift :: "u32 \<Rightarrow> nat \<Rightarrow> u32" where
  "sshift x n = word_of_int (sint x div 2 ^ n)"

text \<open>Signed 32-bit arithmetic wraps.\<close>

definition tcp_xmit_timer :: "u32 \<Rightarrow> u32 \<Rightarrow> tcpcb \<Rightarrow> tcpcb" where
  "tcp_xmit_timer hz rtt tp =
     (let rtt = (if sint rtt < 1 then 1 else rtt);
          tp = (if srtt tp = 0 then tp\<lparr>srtt := push_bit 3 rtt, rttvar := push_bit 1 rtt\<rparr>
                else let delta = rtt - sshift (srtt tp) 3;
                         tp = tp\<lparr>srtt := srtt tp + delta\<rparr>;
                         delta = (if sint delta < 0 then - delta else delta)
                     in tp\<lparr>rttvar := rttvar tp + (delta - sshift (rttvar tp) 2)\<rparr>);
          granularity = 1000 div hz + 1;
          r = sshift (srtt tp) 3 + (if sint (rttvar tp) > sint granularity then rttvar tp else granularity);
          r = (if r < TCP_RTO_MIN_MS then TCP_RTO_MIN_MS else r);
          r = (if r > TCP_RTO_MAX_MS then TCP_RTO_MAX_MS else r)
      in tp\<lparr>rto := r, t_softerror := 0\<rparr>)"

section \<open>Segment size\<close>

definition IPV4_HEADER_LEN :: u32 where "IPV4_HEADER_LEN = 20"
definition IPV6_HEADER_LEN :: u32 where "IPV6_HEADER_LEN = 40"
definition TCP_MAX_PAYLOAD :: u32 where
  "TCP_MAX_PAYLOAD = of_nat (NETBUF_CLUSTER_SIZE - NETBUF_HEADROOM - TCP_MAX_HEADER_LEN)"

definition tcp_local_mss :: "tcp_conn \<Rightarrow> u16" where
  "tcp_local_mss c =
     (let mtu = (case c_route c of Some m \<Rightarrow> if m \<noteq> 0 then m else 1500 | None \<Rightarrow> 1500);
          mss = mtu - (if c_v4 c then IPV4_HEADER_LEN else IPV6_HEADER_LEN) - of_nat TCP_HEADER_LEN
      in ucast (if mss < TCP_MAX_PAYLOAD then mss else TCP_MAX_PAYLOAD))"

definition tcp_mss_update :: "u16 \<Rightarrow> tcp_conn \<Rightarrow> tcp_conn" where
  "tcp_mss_update offer c =
     (let peer = (if offer \<noteq> 0 then offer else if c_v4 c then TCP_DEFAULT_MSS else TCP_DEFAULT_MSS6);
          m = tcp_local_mss c;
          m = (if peer < m then peer else m);
          m = (if m < 64 then 64 else m)
      in on_tp (\<lambda>tp. tp\<lparr>mss := m, peer_mss := offer\<rparr>) c)"

definition tcp_pick_rcv_scale :: "socket option \<Rightarrow> u8" where
  "tcp_pick_rcv_scale so =
     (let hiwat = (case so of Some so \<Rightarrow> sb_hiwat (so_rcv so) | None \<Rightarrow> 0)
      in case find (\<lambda>n. n \<ge> unat TCP_MAX_WINSHIFT \<or> \<not> push_bit n (65535 :: u64) < hiwat) [0..<Suc (unat TCP_MAX_WINSHIFT)] of
           Some n \<Rightarrow> of_nat n | None \<Rightarrow> TCP_MAX_WINSHIFT)"

text \<open>\<^verbatim>\<open>tcp_newtcpcb\<close>: whether the control block could be allocated. \<open>reg\<close> is the registry of congestion
  control algorithms.\<close>

definition tcp_newtcpcb :: "tcpcb cc_registry \<Rightarrow> tcp_conn \<Rightarrow> bool \<times> tcp_conn" where
  "tcp_newtcpcb reg c =
     (let (ok, c) = take_alloc c
      in if \<not> ok then (False, c)
         else
           let tp = tcpcb_zero\<lparr>tp_state := TCPS_CLOSED, mss := (if c_inp_flags c AND INPCB_IPV6 \<noteq> 0 then TCP_DEFAULT_MSS6 else TCP_DEFAULT_MSS),
                      rto := TCP_RTO_INITIAL_MS, req_rcv_scale := tcp_pick_rcv_scale (c_so c), t_rcvtime := tcp_now_ms c\<rparr>;
               a = tcp_cc_default reg
           in (True, c\<lparr>c_tp := fst (tcp_cc_set None a tp), c_cc := a, c_gone := False, c_freed := False\<rparr>))"

definition tcp_state_change :: "tcp_state \<Rightarrow> tcpcb \<Rightarrow> tcpcb" where
  "tcp_state_change s tp = tp\<lparr>tp_state := s\<rparr>"

text \<open>The hash of the address pair, \<^verbatim>\<open>siphash24\<close> under the secret key, is an argument.\<close>

definition tcp_new_isn :: "u32 \<Rightarrow> tcp_conn \<Rightarrow> tcp_seq" where
  "tcp_new_isn h c = ucast (tcp_now_ms c * 250) + h"

definition tcp_sendseqinit :: "u32 \<Rightarrow> tcp_conn \<Rightarrow> tcp_conn" where
  "tcp_sendseqinit h c =
     (let i = tcp_new_isn h c
      in on_tp (\<lambda>tp. tp\<lparr>iss := i, snd_una := i, snd_nxt := i, snd_max := i, snd_recover := i, sack_rxmit := i\<rparr>) c)"

end
