(* ===== verification/TCP_Output.thy ===== *)
theory TCP_Output
  imports TCP_Conn
begin

text \<open>
  Sending, \<^verbatim>\<open>src/kernel/drivers/net/tcp/tcp_output.c\<close>. A segment is planned (what to send: a hole of the SACK
  scoreboard, new data, a FIN, a bare acknowledgement), a decision is taken whether to send it, it is
  built in a network buffer and handed to IP, and the send state is advanced. A write outside the
  buffer, a null pointer and a loop that does not end are None.
\<close>

section \<open>The code\<close>

definition TCP_MAXWIN :: u32 where "TCP_MAXWIN = 65535"

fun tcp_outflags :: "tcp_state \<Rightarrow> u8" where
  "tcp_outflags TCPS_CLOSED = TH_RST OR TH_ACK"
| "tcp_outflags TCPS_LISTEN = 0"
| "tcp_outflags TCPS_SYN_SENT = TH_SYN"
| "tcp_outflags TCPS_SYN_RECEIVED = TH_SYN OR TH_ACK"
| "tcp_outflags TCPS_ESTABLISHED = TH_ACK"
| "tcp_outflags TCPS_CLOSE_WAIT = TH_ACK"
| "tcp_outflags TCPS_FIN_WAIT_1 = TH_FIN OR TH_ACK"
| "tcp_outflags TCPS_CLOSING = TH_FIN OR TH_ACK"
| "tcp_outflags TCPS_LAST_ACK = TH_FIN OR TH_ACK"
| "tcp_outflags TCPS_FIN_WAIT_2 = TH_ACK"
| "tcp_outflags TCPS_TIME_WAIT = TH_ACK"

record tcp_txplan =
  tx_seq :: tcp_seq
  tx_off :: u32
  tx_len :: u32
  tx_flags :: u8
  tx_sack :: bool

definition tx_has :: "tcp_txplan \<Rightarrow> u8 \<Rightarrow> bool" where
  "tx_has tx f \<longleftrightarrow> tx_flags tx AND f \<noteq> 0"

definition tcp_build_opts :: "tcp_conn \<Rightarrow> u8 \<Rightarrow> bytes" where
  "tcp_build_opts c flags =
     (let tp = c_tp c;
          offer = \<not> tp_flag TF_NOOPT tp;
          active = tp_state tp = TCPS_SYN_SENT;
          to = (if flags AND TH_SYN \<noteq> 0 then
                  let to = no_opts\<lparr>to_flags := TOF_MSS, to_mss := tcp_local_mss c\<rparr>;
                      to = (if offer \<and> (active \<or> tp_flag TF_RCVD_SCALE tp)
                            then to\<lparr>to_flags := to_flags to OR TOF_SCALE, to_wscale := req_rcv_scale tp\<rparr> else to);
                      to = (if offer \<and> (active \<or> tp_flag TF_SACK_PERMIT tp) then to\<lparr>to_flags := to_flags to OR TOF_SACKPERM\<rparr> else to)
                  in if offer \<and> (active \<or> tp_flag TF_RCVD_TSTMP tp) then to\<lparr>to_flags := to_flags to OR TOF_TS\<rparr> else to
                else
                  let to = (if tp_flag TF_RCVD_TSTMP tp then no_opts\<lparr>to_flags := TOF_TS\<rparr> else no_opts)
                  in if tp_flag TF_SACK_PERMIT tp \<and> reassemble_queue tp \<noteq> [] then
                       let to = to\<lparr>to_sacks := tcp_sack_build_blocks tp TCP_MAX_SACK\<rparr>
                       in if to_sacks to \<noteq> [] then to\<lparr>to_flags := to_flags to OR TOF_SACK\<rparr> else to
                     else to)
      in tcp_addoptions (to\<lparr>to_ts_val := ucast (tcp_now_ms c), to_ts_ecr := ts_recent tp\<rparr>))"

text \<open>The window the peer was told and has not used up.\<close>

definition rcv_advertised :: "tcpcb \<Rightarrow> u32" where
  "rcv_advertised tp = (if SEQ_GT (rcv_adv tp) (rcv_nxt tp) then rcv_adv tp - rcv_nxt tp else 0)"

definition tcp_rcv_window :: "tcp_conn \<Rightarrow> u32" where
  "tcp_rcv_window c =
     (let tp = c_tp c;
          win = (case c_so c of
                   Some so \<Rightarrow>
                     let win = ucast (sockbuf_space (so_rcv so)) :: u32
                     in if ucast win < sb_hiwat (so_rcv so) div 4 \<and> win < ucast (mss tp) then 0 else win
                 | None \<Rightarrow> 0);
          max = push_bit (unat (rcv_scale tp)) TCP_MAXWIN;
          win = (if win > max then max else win);
          advertised = rcv_advertised tp
      in if win > advertised then win else advertised)"

definition tcp_window_field :: "tcpcb \<Rightarrow> u32 \<Rightarrow> u8 \<Rightarrow> u16" where
  "tcp_window_field tp win flags =
     (let w = drop_bit (if flags AND TH_SYN \<noteq> 0 then 0 else unat (rcv_scale tp)) win
      in if w > TCP_MAXWIN then ucast TCP_MAXWIN else ucast w)"

definition tcp_in_sack_recovery :: "tcpcb \<Rightarrow> bool" where
  "tcp_in_sack_recovery tp \<longleftrightarrow> tp_flag TF_FASTRECOVERY tp \<and> tp_flag TF_SACK_PERMIT tp"

definition tcp_send_window :: "tcpcb \<Rightarrow> u32" where
  "tcp_send_window tp =
     (let cwnd = (if tcp_in_sack_recovery tp then
                    let pipe = tcp_sack_pipe tp
                    in (snd_nxt tp - snd_una tp) + (if snd_cwnd tp > pipe then snd_cwnd tp - pipe else 0)
                  else snd_cwnd tp);
          win = (if snd_wnd tp < cwnd then snd_wnd tp else cwnd)
      in if win = 0 \<and> tp_flag TF_FORCEDATA tp then 1 else win)"

definition tcp_max_payload :: "tcpcb \<Rightarrow> nat \<Rightarrow> u32" where
  "tcp_max_payload tp optlen =
     (let max = (if unat (mss tp) > optlen then of_nat (unat (mss tp) - optlen) else 1)
      in if max < TCP_MAX_PAYLOAD then max else TCP_MAX_PAYLOAD)"

text \<open>None: there is no hole to fill.\<close>

definition tcp_plan_sack_rxmit :: "tcpcb \<Rightarrow> u32 \<Rightarrow> tcp_txplan \<Rightarrow> tcp_txplan option" where
  "tcp_plan_sack_rxmit tp maxseg tx =
     (if \<not> tcp_in_sack_recovery tp then None
      else case tcp_sack_next_hole tp of
             None \<Rightarrow> None
           | Some (seq, len) \<Rightarrow>
               let pipe = tcp_sack_pipe tp
               in if snd_cwnd tp \<le> pipe then Some tx
                  else let room = snd_cwnd tp - pipe;
                           len = (if len > maxseg then maxseg else len)
                       in Some (tx\<lparr>tx_seq := seq, tx_off := seq - snd_una tp, tx_len := (if len < room then len else room),
                                   tx_sack := True\<rparr>))"

definition tcp_plan_data :: "tcpcb \<Rightarrow> u32 \<Rightarrow> u32 \<Rightarrow> tcp_txplan \<Rightarrow> tcp_txplan" where
  "tcp_plan_data tp cc maxseg tx =
     (if \<not> TCPS_HAVEESTABLISHED (tp_state tp) then tx
      else let win = tcp_send_window tp;
               stop = (if cc < win then cc else win);
               off = snd_nxt tp - snd_una tp;
               len = (if stop > off then stop - off else 0)
           in tx\<lparr>tx_off := off, tx_len := (if len > maxseg then maxseg else len)\<rparr>)"

definition tcp_plan_fin :: "tcpcb \<Rightarrow> u32 \<Rightarrow> tcp_txplan \<Rightarrow> tcp_txplan" where
  "tcp_plan_fin tp cc tx =
     (if \<not> tx_has tx TH_FIN then tx
      else let more_data = (tx_sack tx \<or> tx_off tx + tx_len tx < cc);
               already_sent = (tp_flag TF_SENTFIN tp \<and> snd_nxt tp = snd_max tp)
           in if more_data \<or> already_sent then tx\<lparr>tx_flags := tx_flags tx AND NOT TH_FIN\<rparr> else tx)"

definition tcp_nagle_allows :: "tcpcb \<Rightarrow> u32 \<Rightarrow> tcp_txplan \<Rightarrow> bool" where
  "tcp_nagle_allows tp cc tx \<longleftrightarrow> (snd_max tp = snd_una tp \<or> tp_flag TF_NODELAY tp) \<and> tx_off tx + tx_len tx \<ge> cc"

definition tcp_window_update_due :: "tcp_conn \<Rightarrow> bool" where
  "tcp_window_update_due c =
     (let tp = c_tp c; win = tcp_rcv_window c; advertised = rcv_advertised tp; incr = win - advertised
      in TCPS_HAVEESTABLISHED (tp_state tp) \<and> \<not> win \<le> advertised \<and>
         (incr \<ge> 2 * ucast (mss tp) \<or> (case c_so c of Some so \<Rightarrow> ucast (2 * incr) \<ge> sb_hiwat (so_rcv so) | None \<Rightarrow> False)))"

definition tcp_should_send :: "tcp_conn \<Rightarrow> u32 \<Rightarrow> u32 \<Rightarrow> tcp_txplan \<Rightarrow> bool" where
  "tcp_should_send c cc maxseg tx =
     (let tp = c_tp c
      in if tx_len tx \<noteq> 0 \<and> (tx_len tx \<ge> maxseg \<or> tx_sack tx \<or> tp_flag TF_FORCEDATA tp) then True
         else if tx_len tx \<noteq> 0 \<and> (SEQ_LT (snd_nxt tp) (snd_max tp) \<or> tcp_nagle_allows tp cc tx) then True
         else if tp_flag TF_ACKNOW tp then True
         else if tx_has tx (TH_SYN OR TH_RST OR TH_FIN) then True
         else tcp_window_update_due c)"

definition tcp_setpersist :: "tcp_conn \<Rightarrow> tcp_conn" where
  "tcp_setpersist c =
     (let tp = c_tp c;
          t = push_bit (unat (rexmt_shift tp)) (ucast (rto tp) :: u64);
          t = (if t < TCP_PERSMIN_MS then TCP_PERSMIN_MS else t);
          t = (if t > TCP_PERSMAX_MS then TCP_PERSMAX_MS else t);
          c = tcp_timer_activate TCPT_PERSIST t c
      in if rexmt_shift (c_tp c) < TCP_MAXRXTSHIFT then on_tp (\<lambda>tp. tp\<lparr>rexmt_shift := rexmt_shift tp + 1\<rparr>) c else c)"

definition tcp_maybe_persist :: "u32 \<Rightarrow> tcp_conn \<Rightarrow> tcp_conn" where
  "tcp_maybe_persist cc c =
     (if cc = 0 \<or> \<not> TCPS_HAVEESTABLISHED (tp_state (c_tp c)) then c
      else if tcp_timer_active (c_tp c) TCPT_REXMT \<or> tcp_timer_active (c_tp c) TCPT_PERSIST then c
      else tcp_setpersist (on_tp (\<lambda>tp. tp\<lparr>rexmt_shift := 0\<rparr>) c))"

definition tcp_fill_header :: "u16 \<Rightarrow> u16 \<Rightarrow> tcp_seq \<Rightarrow> tcp_seq \<Rightarrow> u8 \<Rightarrow> u16 \<Rightarrow> bytes \<Rightarrow> bytes \<Rightarrow> segment" where
  "tcp_fill_header sport dport seq ack flags win opts data =
     \<lparr>sg_sport = sport, sg_dport = dport, sg_seq = seq, sg_ack = (if flags AND TH_ACK \<noteq> 0 then ack else 0), sg_flags = flags,
      sg_win = win, sg_hlen = TCP_HEADER_LEN + length opts, sg_opts = opts, sg_data = data\<rparr>"

text \<open>The checksum is a function of the segment and the addresses (\<open>Inet_Checksum\<close>); IP takes the segment
  whatever becomes of it.\<close>

definition tcp_checksum_and_send :: "segment \<Rightarrow> tcp_conn \<Rightarrow> tcp_conn" where
  "tcp_checksum_and_send sg c =
     on_stat (\<lambda>st. st\<lparr>st_sndtotal := st_sndtotal st + 1\<rparr>) (c\<lparr>c_sent := c_sent c @ [sg]\<rparr>)"

text \<open>The bytes \<^verbatim>\<open>tcp_build_segment\<close> puts behind the header.\<close>

definition segment_data :: "tcp_conn \<Rightarrow> tcp_txplan \<Rightarrow> bytes option" where
  "segment_data c tx =
     (if tx_len tx = 0 then Some []
      else case c_so c of
             None \<Rightarrow> None
           | Some so \<Rightarrow>
               let copied = sockbuf_copy (so_snd so) (unat (tx_off tx)) (unat (tx_len tx))
               in Some (copied @ replicate (unat (tx_len tx) - length copied) 0))"

text \<open>\<^verbatim>\<open>tcp_build_segment\<close>: the segment, if a buffer could be allocated.\<close>

definition tcp_build_segment :: "tcp_conn \<Rightarrow> tcp_txplan \<Rightarrow> bytes \<Rightarrow> u32 \<Rightarrow> (segment option \<times> tcp_conn) option" where
  "tcp_build_segment c tx opts win =
     (case netbuf_alloc_cluster (c_allocs c) True of
        (None, os) \<Rightarrow> Some (None, c\<lparr>c_allocs := os\<rparr>)
      | (Some nb, os) \<Rightarrow>
          let hlen = TCP_HEADER_LEN + length opts; tp = c_tp c
          in if hlen + unat (tx_len tx) > nb_buf_size nb - nb_off nb then None
             else case segment_data c tx of
                    None \<Rightarrow> None
                  | Some data \<Rightarrow>
                      Some (Some (tcp_fill_header (c_lport c) (c_fport c) (tx_seq tx) (rcv_nxt tp) (tx_flags tx)
                                    (tcp_window_field tp win (tx_flags tx)) opts data), c\<lparr>c_allocs := os\<rparr>))"

definition tcp_count_send :: "tcpcb \<Rightarrow> tcp_txplan \<Rightarrow> tcp_stats \<Rightarrow> tcp_stats" where
  "tcp_count_send tp tx st =
     (if tx_len tx \<noteq> 0 \<and> SEQ_LT (tx_seq tx) (snd_max tp) then st\<lparr>st_sndrexmitpack := st_sndrexmitpack st + 1\<rparr>
      else if tx_len tx \<noteq> 0 then st\<lparr>st_sndpack := st_sndpack st + 1, st_sndbyte := st_sndbyte st + ucast (tx_len tx)\<rparr>
      else if tx_has tx TH_ACK then st\<lparr>st_sndacks := st_sndacks st + 1\<rparr>
      else st)"

definition flag_len :: "tcp_txplan \<Rightarrow> u8 \<Rightarrow> u32" where
  "flag_len tx f = (if tx_has tx f then 1 else 0)"

definition tx_end :: "tcp_txplan \<Rightarrow> tcp_seq" where
  "tx_end tx = tx_seq tx + tx_len tx + flag_len tx TH_SYN + flag_len tx TH_FIN"

text \<open>The three parts of \<^verbatim>\<open>tcp_after_send\<close>: the receive side, the send sequence, the retransmission timer.\<close>

definition after_send_rcv :: "u32 \<Rightarrow> tcpcb \<Rightarrow> tcpcb" where
  "after_send_rcv win tp =
     (let tp = (if win \<noteq> 0 \<and> SEQ_GT (rcv_nxt tp + win) (rcv_adv tp) then tp\<lparr>rcv_adv := rcv_nxt tp + win\<rparr> else tp)
      in tcp_timer_stop TCPT_DELACK (clear_flag_tp (TF_ACKNOW OR TF_DELACK) (tp\<lparr>last_ack_sent := rcv_nxt tp\<rparr>)))"

definition is_probe :: "tcpcb \<Rightarrow> bool" where
  "is_probe tp \<longleftrightarrow> tp_flag TF_FORCEDATA tp \<and> tcp_timer_active tp TCPT_PERSIST"

definition after_send_seq :: "u64 \<Rightarrow> tcp_txplan \<Rightarrow> tcpcb \<Rightarrow> tcpcb" where
  "after_send_seq now tx tp =
     (let stop = tx_end tx;
          tp = (if tx_has tx TH_FIN then set_flag_tp TF_SENTFIN tp else tp);
          tp = (if tx_sack tx then tp\<lparr>sack_rxmit := stop, sack_rexmit_bytes := sack_rexmit_bytes tp + tx_len tx\<rparr> else tp);
          tp = (if \<not> is_probe tp \<and> \<not> tx_sack tx then tp\<lparr>snd_nxt := stop\<rparr> else tp)
      in if SEQ_GT stop (snd_max tp) then
           let tp = tp\<lparr>snd_max := stop\<rparr>
           in if rtt_start tp = 0 \<and> \<not> is_probe tp then tp\<lparr>rtt_start := if now \<noteq> 0 then now else 1, rtt_seq := tx_seq tx\<rparr> else tp
         else tp)"

definition after_send_timer :: "tcp_conn \<Rightarrow> tcp_conn" where
  "after_send_timer c =
     (let tp = c_tp c
      in if \<not> is_probe tp \<and> snd_nxt tp \<noteq> snd_una tp \<and> \<not> tcp_timer_active tp TCPT_REXMT then
           let tp = (if tcp_timer_active tp TCPT_PERSIST then (tcp_timer_stop TCPT_PERSIST tp)\<lparr>rexmt_shift := 0\<rparr> else tp)
           in tcp_timer_activate TCPT_REXMT (ucast (tcp_rexmt_ms tp)) (on_tp (\<lambda>_. tp) c)
         else c)"

definition tcp_after_send :: "tcp_txplan \<Rightarrow> u32 \<Rightarrow> tcp_conn \<Rightarrow> tcp_conn" where
  "tcp_after_send tx win c =
     (let c = on_tp (after_send_rcv win) c
      in if tx_has tx TH_RST then c
         else after_send_timer (on_tp (after_send_seq (tcp_now_ms c) tx) c))"

text \<open>The bytes waiting in the send buffer.\<close>

definition snd_cc :: "tcp_conn \<Rightarrow> u32" where
  "snd_cc c = (case c_so c of Some so \<Rightarrow> ucast (sb_cc (so_snd so)) | None \<Rightarrow> 0)"

text \<open>The first half of \<^verbatim>\<open>tcp_output_once\<close>: the options, the largest payload and the plan.\<close>

definition tcp_make_plan :: "tcp_conn \<Rightarrow> bytes \<times> u32 \<times> tcp_txplan" where
  "tcp_make_plan c =
     (let tp = c_tp c; cc = snd_cc c;
          flags = tcp_outflags (tp_state tp);
          flags = (if flags AND TH_SYN \<noteq> 0 \<and> snd_nxt tp \<noteq> iss tp then flags AND NOT TH_SYN else flags);
          tx = \<lparr>tx_seq = snd_nxt tp, tx_off = 0, tx_len = 0, tx_flags = flags, tx_sack = False\<rparr>;
          opts = tcp_build_opts c flags;
          maxseg = tcp_max_payload tp (length opts);
          tx = (case tcp_plan_sack_rxmit tp maxseg tx of Some tx \<Rightarrow> tx | None \<Rightarrow> tcp_plan_data tp cc maxseg tx)
      in (opts, maxseg, tcp_plan_fin tp cc tx))"

definition tcp_output_once :: "tcp_conn \<Rightarrow> (int \<times> tcp_conn) option" where
  "tcp_output_once c =
     (let (opts, maxseg, tx) = tcp_make_plan c
      in if \<not> tcp_should_send c (snd_cc c) maxseg tx then Some (0, tcp_maybe_persist (snd_cc c) c)
         else
           let win = tcp_rcv_window c
           in case tcp_build_segment c tx opts win of
                None \<Rightarrow> None
              | Some (None, c) \<Rightarrow> Some (- ENOBUFS, c)
              | Some (Some sg, c) \<Rightarrow>
                  let c = on_stat (tcp_count_send (c_tp c) tx) c;
                      c = tcp_after_send tx win c;
                      c = tcp_checksum_and_send sg c;
                      full = (tx_len tx = maxseg \<or> tx_sack tx)
                  in Some (if full \<and> \<not> tx_has tx TH_RST \<and> \<not> tp_flag TF_FORCEDATA (c_tp c) then 1 else 0, c))"

partial_function (option) output_loop :: "tcp_conn \<Rightarrow> (int \<times> tcp_conn) option" where
  "output_loop c =
     (case tcp_output_once c of None \<Rightarrow> None | Some (ret, c) \<Rightarrow> if ret > 0 then output_loop c else Some (ret, c))"

definition after_idle_reset :: "tcp_conn \<Rightarrow> tcp_conn" where
  "after_idle_reset c =
     (let tp = c_tp c
      in if snd_max tp = snd_una tp \<and> TCPS_HAVEESTABLISHED (tp_state tp) \<and> cc_after_idle (c_cc c) \<noteq> None \<and>
            tcp_now_ms c - t_rcvtime tp \<ge> ucast (rto tp)
         then on_tp (cc_do (c_cc c) Idle) c else c)"

text \<open>A control block that has been freed must not be used.\<close>

definition tcp_output :: "tcp_conn \<Rightarrow> (int \<times> tcp_conn) option" where
  "tcp_output c = (if c_freed c then None else output_loop (after_idle_reset c))"

text \<open>\<^verbatim>\<open>tcp_respond\<close> on behalf of a connection, and in reply to a packet that belongs to none (\<open>sport\<close> and \<open>dport\<close>
  are that packet's ports, swapped).\<close>

definition tcp_respond :: "tcp_seq \<Rightarrow> tcp_seq \<Rightarrow> u8 \<Rightarrow> tcp_conn \<Rightarrow> tcp_conn" where
  "tcp_respond ack seq flags c =
     (case netbuf_alloc (c_allocs c) True of
        (None, os) \<Rightarrow> c\<lparr>c_allocs := os\<rparr>
      | (Some nb, os) \<Rightarrow>
          tcp_checksum_and_send
            (tcp_fill_header (c_lport c) (c_fport c) seq ack flags (tcp_window_field (c_tp c) (tcp_rcv_window c) 0) [] [])
            (c\<lparr>c_allocs := os\<rparr>))"

definition tcp_respond_stray :: "u16 \<Rightarrow> u16 \<Rightarrow> tcp_seq \<Rightarrow> tcp_seq \<Rightarrow> u8 \<Rightarrow> malloc_results \<Rightarrow> segment option \<times> malloc_results" where
  "tcp_respond_stray sport dport ack seq flags os =
     (case netbuf_alloc os True of
        (None, os) \<Rightarrow> (None, os)
      | (Some nb, os) \<Rightarrow> (Some (tcp_fill_header sport dport seq ack flags 0 [] []), os))"

end
