(* ===== verification/TCP_Sender.thy ===== *)
theory TCP_Sender
  imports TCP_Output
begin

text \<open>
  What the sending code guarantees. \<open>snd_ok\<close> ties the send sequence variables to the send buffer: the
  bytes of the buffer are the bytes of the stream from \<^verbatim>\<open>snd_una\<close> on, and nothing beyond them (and the
  FIN) has been sent.
\<close>

section \<open>The invariant\<close>

definition snd_stream :: "tcp_conn \<Rightarrow> bytes" where
  "snd_stream c = (case c_so c of Some so \<Rightarrow> sb_stream (so_snd so) | None \<Rightarrow> [])"

definition sndbuf_ok :: "tcp_conn \<Rightarrow> bool" where
  "sndbuf_ok c \<longleftrightarrow> (case c_so c of Some so \<Rightarrow> sockbuf_inv (so_snd so) | None \<Rightarrow> True) \<and> length (snd_stream c) \<le> 2 ^ 30"

definition syn_pending :: "tcpcb \<Rightarrow> bool" where
  "syn_pending tp \<longleftrightarrow> tp_state tp = TCPS_SYN_SENT \<or> tp_state tp = TCPS_SYN_RECEIVED"

text \<open>\<open>n\<close> is the number of bytes in the send buffer. While the SYN is not acknowledged, nothing else has been
  sent. Later, what has been sent is in the buffer, and the FIN comes last; it is sent in the states that
  follow a close only. (A connection being dropped is in state CLOSED while the RST is sent, and the numbers of one not yet open do not matter.)\<close>

definition snd_limit :: "nat \<Rightarrow> tcpcb \<Rightarrow> bool" where
  "snd_limit n tp \<longleftrightarrow>
     (if syn_pending tp then snd_una tp = iss tp \<and> rel (snd_una tp) (snd_max tp) \<le> 1 \<and> \<not> tp_flag TF_FASTRECOVERY tp \<and> \<not> tp_flag TF_SENTFIN tp \<and> sack_count tp = 0
      else if tp_flag TF_SENTFIN tp then rel (snd_una tp) (snd_max tp) = n + 1 \<or> snd_una tp = snd_max tp \<and> n = 0
      else rel (snd_una tp) (snd_max tp) \<le> n + (if tp_state tp < TCPS_SYN_SENT then 1 else 0))"

definition snd_seq_ok :: "nat \<Rightarrow> tcpcb \<Rightarrow> bool" where
  "snd_seq_ok n tp \<longleftrightarrow> sack_ok tp \<and> rel (snd_una tp) (snd_nxt tp) \<le> rel (snd_una tp) (snd_max tp) \<and> snd_limit n tp \<and>
     (tp_flag TF_SENTFIN tp \<longrightarrow> tp_state tp = TCPS_CLOSED \<or> TCPS_FIN_WAIT_1 \<le> tp_state tp)"

definition snd_ok :: "tcp_conn \<Rightarrow> bool" where
  "snd_ok c \<longleftrightarrow> sndbuf_ok c \<and> snd_seq_ok (length (snd_stream c)) (c_tp c)"

lemma snd_cc: "sndbuf_ok c \<Longrightarrow> unat (snd_cc c) = length (snd_stream c)"
proof -
  assume ok: "sndbuf_ok c"
  show ?thesis
  proof (cases "c_so c")
    case (Some so)
    have "sb_cc (so_snd so) = word_of_nat (length (snd_stream c))" "length (snd_stream c) \<le> 2 ^ 30"
      using ok Some by (auto simp: sndbuf_ok_def snd_stream_def sockbuf_inv_def)
    then show ?thesis using Some by (simp add: snd_cc_def unsigned_ucast_eq take_bit_nat_eq_self unat_word_of_nat_id)
  qed (simp add: snd_cc_def snd_stream_def)
qed

section \<open>The plan\<close>

lemma tx_has_simps [simp]:
  "tx_has (tx\<lparr>tx_seq := s\<rparr>) f = tx_has tx f" "tx_has (tx\<lparr>tx_off := n\<rparr>) f = tx_has tx f" "tx_has (tx\<lparr>tx_len := n\<rparr>) f = tx_has tx f"
  "tx_has (tx\<lparr>tx_sack := b\<rparr>) f = tx_has tx f"
  by (simp_all add: tx_has_def)

lemma TH_disjoint [simp]:
  "TH_FIN AND TH_SYN = 0" "TH_SYN AND TH_FIN = 0" "TH_SYN AND TH_RST = 0" "TH_FIN AND TH_RST = 0" "TH_RST AND TH_FIN = 0"
  "TH_RST AND TH_SYN = 0" "TH_ACK AND TH_SYN = 0" "TH_ACK AND TH_FIN = 0" "TH_ACK AND TH_RST = 0"
  "TH_FIN AND TH_ACK = 0" "TH_SYN AND TH_ACK = 0" "TH_RST AND TH_ACK = 0"
  "TH_FIN \<noteq> 0" "TH_SYN \<noteq> 0" "TH_RST \<noteq> 0" "TH_ACK \<noteq> 0"
  by (simp_all add: TH_FIN_def TH_SYN_def TH_RST_def TH_ACK_def)

lemma TCP_MAX_PAYLOAD_nat: "unat TCP_MAX_PAYLOAD = 1924"
  by (simp add: TCP_MAX_PAYLOAD_def netbuf_consts TCP_MAX_HEADER_LEN_def)

lemma max_payload: "0 < unat (tcp_max_payload tp n)" "unat (tcp_max_payload tp n) \<le> 1924"
proof -
  have "unat (word_of_nat (unat (mss tp) - n) :: u32) = unat (mss tp) - n"
    using u16_bound [of "mss tp"] by (intro unat_word_of_nat_id) simp
  then show "0 < unat (tcp_max_payload tp n)" "unat (tcp_max_payload tp n) \<le> 1924"
    by (auto simp: tcp_max_payload_def Let_def word_less_nat_alt TCP_MAX_PAYLOAD_nat)
qed

lemma send_window: "unat (tcp_send_window tp) \<le> max (unat (snd_wnd tp)) (if tp_flag TF_FORCEDATA tp then 1 else 0)"
  by (auto simp: tcp_send_window_def Let_def word_less_nat_alt)

lemma rel_nth: "unat (x - w) = rel w x" by (simp add: rel_def)

lemma snd_seq_bounds:
  assumes "snd_seq_ok n tp" and "n \<le> 2 ^ 30"
  shows "rel (snd_una tp) (snd_nxt tp) \<le> rel (snd_una tp) (snd_max tp)" "rel (snd_una tp) (snd_max tp) \<le> n + 1" "sack_ok tp"
    "rel (snd_una tp) (snd_max tp) < half"
    "\<not> syn_pending tp \<Longrightarrow> \<not> tp_flag TF_SENTFIN tp \<Longrightarrow> \<not> tp_state tp < TCPS_SYN_SENT \<Longrightarrow> rel (snd_una tp) (snd_max tp) \<le> n"
  using assms by (auto simp: snd_seq_ok_def snd_limit_def half_def split: if_splits)

text \<open>Data are sent on a connection that has been established (and may be in recovery when it is dropped).\<close>

definition sends_data :: "tcpcb \<Rightarrow> bool" where
  "sends_data tp \<longleftrightarrow> TCPS_HAVEESTABLISHED (tp_state tp) \<or> tp_flag TF_FASTRECOVERY tp"

text \<open>A FIN is sent after a close only.\<close>

definition fin_kept :: "tcpcb \<Rightarrow> tcpcb \<Rightarrow> bool" where
  "fin_kept tp tp' \<longleftrightarrow> (tp_flag TF_SENTFIN tp' \<longrightarrow> tp_flag TF_SENTFIN tp \<or> TCPS_FIN_WAIT_1 \<le> tp_state tp)"

text \<open>The peer has acknowledged the FIN.\<close>

definition fin_acked :: "tcpcb \<Rightarrow> bool" where
  "fin_acked tp \<longleftrightarrow> tp_flag TF_SENTFIN tp \<and> snd_una tp = snd_max tp"

text \<open>What a plan may be: the data of a segment lies in the send buffer, at the offset its sequence number
  says, and within the peer's window; a retransmission fills a gap below \<^verbatim>\<open>snd_max\<close>; a FIN comes
  right after the last byte, a SYN first.\<close>

definition plan_ok :: "nat \<Rightarrow> tcpcb \<Rightarrow> u32 \<Rightarrow> tcp_txplan \<Rightarrow> bool" where
  "plan_ok n tp maxseg tx \<longleftrightarrow>
     (let pos = rel (snd_una tp) (tx_seq tx); len = unat (tx_len tx)
      in (len \<noteq> 0 \<longrightarrow> unat (tx_off tx) = pos \<and> pos + len \<le> n \<and> tx_len tx \<le> maxseg \<and> \<not> syn_pending tp \<and> sends_data tp) \<and>
         (tx_sack tx \<longrightarrow> len \<noteq> 0 \<and> hole_start tp \<le> pos \<and> pos + len \<le> rel (snd_una tp) (snd_max tp) \<and> \<not> tx_has tx TH_FIN) \<and>
         (\<not> tx_sack tx \<longrightarrow> tx_seq tx = snd_nxt tp \<and>
            (len \<noteq> 0 \<longrightarrow> pos + len \<le> max (unat (snd_wnd tp)) (if tp_flag TF_FORCEDATA tp then 1 else 0))) \<and>
         (tx_has tx TH_FIN \<longrightarrow> TCPS_FIN_WAIT_1 \<le> tp_state tp \<and> pos + len = n \<and> \<not> (tp_flag TF_SENTFIN tp \<and> snd_nxt tp = snd_max tp)) \<and>
         (tx_has tx TH_SYN \<longrightarrow> syn_pending tp \<and> tx_seq tx = iss tp))"

text \<open>A gap lies in the send buffer.\<close>

lemma hole_in_buffer:
  assumes ok: "snd_seq_ok n tp" "n \<le> 2 ^ 30" and rec: "tcp_in_sack_recovery tp" and h: "tcp_sack_next_hole tp = Some (seq, len)"
  shows "hole_start tp \<le> rel (snd_una tp) seq" "len \<noteq> 0" "rel (snd_una tp) seq + unat len \<le> n"
    "rel (snd_una tp) seq + unat len \<le> rel (snd_una tp) (snd_max tp)" "\<not> syn_pending tp" "sends_data tp"
proof -
  show "sends_data tp" using rec by (simp add: sends_data_def tcp_in_sack_recovery_def)
  show syn: "\<not> syn_pending tp" using ok(1) rec by (auto simp: snd_seq_ok_def snd_limit_def tcp_in_sack_recovery_def)
  note b = snd_seq_bounds [OF ok]
  have s: "hole_start tp \<le> rel (snd_una tp) seq" "len \<noteq> 0" "rel (snd_una tp) seq + unat len \<in> sack_cover tp"
    using next_hole_spec [OF b(3)] h by auto
  have "sack_cover tp \<subseteq> {0..<rel (snd_una tp) (snd_max tp)}"
    using b(3) sum_blocks [of "rel (snd_una tp) (snd_max tp)" "snd_una tp" "sack_view tp"] by (auto simp: sack_ok_def sack_cover_def)
  then show "rel (snd_una tp) seq + unat len \<le> n" "rel (snd_una tp) seq + unat len \<le> rel (snd_una tp) (snd_max tp)"
    using s(3) b(2) by fastforce+
  show "hole_start tp \<le> rel (snd_una tp) seq" "len \<noteq> 0" using s by auto
qed

lemma plan_sack:
  assumes ok: "snd_seq_ok n tp" "n \<le> 2 ^ 30" and ms: "0 < maxseg" and p: "tcp_plan_sack_rxmit tp maxseg tx = Some tx'"
    and tx: "tx_seq tx = snd_nxt tp" "tx_off tx = 0" "tx_len tx = 0" "\<not> tx_sack tx" "\<not> tx_has tx TH_SYN"
  shows "plan_ok n tp maxseg (tcp_plan_fin tp (of_nat n) tx')"
proof -
  have rec: "tcp_in_sack_recovery tp" using p by (auto simp: tcp_plan_sack_rxmit_def split: if_splits)
  obtain seq len where h: "tcp_sack_next_hole tp = Some (seq, len)"
    using p rec by (auto simp: tcp_plan_sack_rxmit_def split: option.splits)
  note hole = hole_in_buffer [OF ok rec h]
  have n: "0 < (of_nat n :: u32)" using hole(2,3) ok(2) unat_gt_0 [of len] by (simp add: word_less_nat_alt unat_word_of_nat_id)
  show ?thesis
  proof (cases "snd_cwnd tp \<le> tcp_sack_pipe tp")
    case True
    then have "tx' = tx" using p rec h by (simp add: tcp_plan_sack_rxmit_def Let_def)
    then show ?thesis using tx n by (auto simp: tcp_plan_fin_def plan_ok_def Let_def tx_has_def and_or_zero)
  next
    case False
    define len' where "len' = (if (if len > maxseg then maxseg else len) < snd_cwnd tp - tcp_sack_pipe tp
      then (if len > maxseg then maxseg else len) else snd_cwnd tp - tcp_sack_pipe tp)"
    have tx': "tx' = tx\<lparr>tx_seq := seq, tx_off := seq - snd_una tp, tx_len := len', tx_sack := True\<rparr>"
      using p rec h False by (simp add: tcp_plan_sack_rxmit_def Let_def len'_def)
    have "len' \<noteq> 0" "len' \<le> maxseg" "len' \<le> len" using hole(2) ms False by (auto simp: len'_def word_less_nat_alt word_le_nat_alt)
    moreover from this have "0 < unat len'" by (simp add: unat_gt_0)
    ultimately show ?thesis using hole tx by (auto simp: tx' tcp_plan_fin_def plan_ok_def Let_def rel_nth tx_has_def and_or_zero word_le_nat_alt)
  qed
qed

lemma established_not_syn: "TCPS_HAVEESTABLISHED (tp_state tp) \<Longrightarrow> \<not> syn_pending tp"
  by (auto simp: TCPS_HAVEESTABLISHED_def syn_pending_def less_eq_tcp_state_def)

lemma plan_data:
  assumes ok: "snd_seq_ok n tp" "n \<le> 2 ^ 30" and est: "TCPS_HAVEESTABLISHED (tp_state tp)"
    and tx: "tx_seq tx = snd_nxt tp" "\<not> tx_sack tx" "\<not> tx_has tx TH_SYN" "tx_has tx TH_FIN \<Longrightarrow> TCPS_FIN_WAIT_1 \<le> tp_state tp"
  shows "plan_ok n tp maxseg (tcp_plan_fin tp (of_nat n) (tcp_plan_data tp (of_nat n) maxseg tx))"
proof -
  define pos where "pos = rel (snd_una tp) (snd_nxt tp)"
  define stop where "stop = (if of_nat n < tcp_send_window tp then of_nat n else tcp_send_window tp)"
  define len where "len = (if stop > snd_nxt tp - snd_una tp then stop - (snd_nxt tp - snd_una tp) else 0)"
  define tx' where "tx' = tcp_plan_data tp (of_nat n) maxseg tx"
  note b = snd_seq_bounds [OF ok]
  note syn = established_not_syn [OF est]
  have sd: "sends_data tp" using est by (simp add: sends_data_def)
  have nc: "\<not> tp_state tp < TCPS_SYN_SENT" using est by (auto simp: TCPS_HAVEESTABLISHED_def less_eq_tcp_state_def less_tcp_state_def)
  have off: "unat (snd_nxt tp - snd_una tp) = pos" by (simp add: pos_def rel_nth)
  have tx': "tx' = tx\<lparr>tx_off := snd_nxt tp - snd_una tp, tx_len := (if len > maxseg then maxseg else len)\<rparr>"
    by (simp add: tx'_def tcp_plan_data_def est Let_def len_def stop_def)
  have un: "unat (of_nat n :: u32) = n" using ok(2) by (simp add: unat_word_of_nat_id)
  have st: "unat stop \<le> n" "unat stop \<le> max (unat (snd_wnd tp)) (if tp_flag TF_FORCEDATA tp then 1 else 0)"
    using send_window [of tp] un by (auto simp: stop_def word_less_nat_alt)
  have len: "unat len = (if unat stop > pos then unat stop - pos else 0)"
    using off unat_minus_le [of "snd_nxt tp - snd_una tp" stop] by (auto simp: len_def word_less_nat_alt)
  have l': "unat (tx_len tx') \<le> unat len" "tx_len tx' \<le> maxseg" by (auto simp: tx' word_less_nat_alt word_le_nat_alt)
  have sum: "unat (tx_off tx' + tx_len tx') = pos + unat (tx_len tx')"
    using l' len st(1) b(1,2) ok(2) off by (intro unat_plus_no_wrap [THEN trans]) (auto simp: tx' pos_def split: if_splits)
  have fin: "pos + unat (tx_len tx') = n"
    if f: "\<not> tx_off tx' + tx_len tx' < of_nat n" "\<not> (tp_flag TF_SENTFIN tp \<and> snd_nxt tp = snd_max tp)"
  proof -
    have "pos \<le> n"
      using b(1,2) b(5) [OF syn _ nc] f(2) rel_inj [of "snd_una tp" "snd_nxt tp" "snd_max tp"]
      by (cases "tp_flag TF_SENTFIN tp") (auto simp: pos_def)
    moreover have "n \<le> pos + unat (tx_len tx')" using f(1) by (simp add: word_less_nat_alt sum un)
    ultimately show ?thesis using l'(1) len st(1) by (auto split: if_splits)
  qed
  have "plan_ok n tp maxseg (tcp_plan_fin tp (of_nat n) tx')"
    using tx syn sd l' len st fin off
    by (auto simp: plan_ok_def Let_def tcp_plan_fin_def tx_has_def and_or_zero pos_def [symmetric] tx' split: if_splits)
  then show ?thesis by (simp add: tx'_def)
qed

lemma outflags:
  "tcp_outflags s AND TH_SYN \<noteq> 0 \<longleftrightarrow> s = TCPS_SYN_SENT \<or> s = TCPS_SYN_RECEIVED"
  "tcp_outflags s AND TH_FIN \<noteq> 0 \<longleftrightarrow> s = TCPS_FIN_WAIT_1 \<or> s = TCPS_CLOSING \<or> s = TCPS_LAST_ACK"
  "tcp_outflags s AND TH_RST \<noteq> 0 \<longleftrightarrow> s = TCPS_CLOSED"
  by (cases s; simp add: TH_FIN_def TH_SYN_def TH_RST_def TH_ACK_def)+

lemma plan_flags [simp]:
  "tx_flags (tcp_plan_data tp cc m tx) = tx_flags tx" "tx_has (tcp_plan_fin tp cc tx) TH_RST = tx_has tx TH_RST"
  "tcp_plan_sack_rxmit tp m tx = Some tx' \<Longrightarrow> tx_flags tx' = tx_flags tx"
  by (auto simp: tcp_plan_data_def tcp_plan_fin_def tcp_plan_sack_rxmit_def tx_has_def and_or_zero Let_def split: option.splits if_splits)

lemma make_plan_ok:
  assumes ok: "snd_ok c" and p: "tcp_make_plan c = (opts, maxseg, tx)"
  shows "plan_ok (length (snd_stream c)) (c_tp c) maxseg tx" "0 < maxseg" "unat maxseg \<le> 1924" "length opts \<le> 40"
    "tx_has tx TH_RST \<longleftrightarrow> tp_state (c_tp c) = TCPS_CLOSED"
proof -
  define tp where "tp = c_tp c"
  define n where "n = length (snd_stream c)"
  define f where "f = (if tcp_outflags (tp_state tp) AND TH_SYN \<noteq> 0 \<and> snd_nxt tp \<noteq> iss tp
    then tcp_outflags (tp_state tp) AND NOT TH_SYN else tcp_outflags (tp_state tp))"
  define tx0 where "tx0 = \<lparr>tx_seq = snd_nxt tp, tx_off = 0, tx_len = 0, tx_flags = f, tx_sack = False\<rparr>"
  define ms where "ms = tcp_max_payload tp (length (tcp_build_opts c f))"
  define tx1 where "tx1 = (case tcp_plan_sack_rxmit tp ms tx0 of Some tx \<Rightarrow> tx | None \<Rightarrow> tcp_plan_data tp (snd_cc c) ms tx0)"
  have seq: "snd_seq_ok n tp" "n \<le> 2 ^ 30" using ok by (auto simp: snd_ok_def sndbuf_ok_def n_def tp_def)
  have "unat (snd_cc c) = n" using ok snd_cc by (simp add: snd_ok_def n_def)
  then have cc: "snd_cc c = of_nat n" by auto
  have "tcp_make_plan c = (tcp_build_opts c f, ms, tcp_plan_fin tp (snd_cc c) tx1)"
    unfolding tcp_make_plan_def Let_def tx1_def tx0_def ms_def f_def tp_def by (rule refl)
  then have eq: "opts = tcp_build_opts c f" "maxseg = ms" "tx = tcp_plan_fin tp (of_nat n) tx1" using p cc by simp_all
  show ms: "0 < maxseg" "unat maxseg \<le> 1924" using max_payload by (simp_all add: eq(2) ms_def word_less_nat_alt)
  show "length opts \<le> 40"
    using options_fit(1) by (simp add: eq(1) tcp_build_opts_def Let_def TCP_MAX_HEADER_LEN_def TCP_HEADER_LEN_def)
  have "tx_flags tx1 = f" by (cases "tcp_plan_sack_rxmit tp ms tx0") (simp_all add: tx1_def tx0_def)
  then show "tx_has tx TH_RST \<longleftrightarrow> tp_state (c_tp c) = TCPS_CLOSED"
    unfolding eq(3) plan_flags(2) unfolding tx_has_def by (simp add: f_def and_or_zero outflags flip: tp_def)
  show "plan_ok (length (snd_stream c)) (c_tp c) maxseg tx"
  proof (cases "syn_pending tp")
    case True
    then have "tcp_plan_sack_rxmit tp ms tx0 = None" "\<not> TCPS_HAVEESTABLISHED (tp_state tp)" "f AND TH_FIN = 0"
      using seq(1) outflags(2) [of "tp_state tp"]
      by (auto simp: snd_seq_ok_def snd_limit_def tcp_plan_sack_rxmit_def tcp_in_sack_recovery_def syn_pending_def TCPS_HAVEESTABLISHED_def less_eq_tcp_state_def f_def and_or_zero)
    then have "tx = tx0" by (simp add: eq(2,3) tx1_def tcp_plan_data_def tcp_plan_fin_def tx_has_def tx0_def)
    then show ?thesis using True \<open>f AND TH_FIN = 0\<close>
      by (auto simp: plan_ok_def tx0_def tx_has_def f_def and_or_zero Let_def tp_def [symmetric] split: if_splits)
  next
    case False
    then have nosyn: "f AND TH_SYN = 0" using outflags(1) [of "tp_state tp"] by (auto simp: f_def syn_pending_def)
    consider tx' where "tcp_plan_sack_rxmit tp ms tx0 = Some tx'" | "tcp_plan_sack_rxmit tp ms tx0 = None" "TCPS_HAVEESTABLISHED (tp_state tp)"
      | "tcp_plan_sack_rxmit tp ms tx0 = None" "\<not> TCPS_HAVEESTABLISHED (tp_state tp)" by (cases "tcp_plan_sack_rxmit tp ms tx0") auto
    then have "plan_ok n tp maxseg tx"
    proof cases
      case (1 tx')
      then show ?thesis using plan_sack [OF seq ms(1) [unfolded eq(2)] 1] nosyn by (simp add: eq(2,3) tx1_def tx0_def tx_has_def)
    next
      case 2
      have "f AND TH_FIN \<noteq> 0 \<Longrightarrow> TCPS_FIN_WAIT_1 \<le> tp_state tp" using outflags(2) [of "tp_state tp"]
        by (auto simp: f_def and_or_zero less_eq_tcp_state_def split: if_splits)
      then have "plan_ok n tp ms (tcp_plan_fin tp (of_nat n) (tcp_plan_data tp (of_nat n) ms tx0))"
        using nosyn by (intro plan_data [OF seq 2(2)]) (simp_all add: tx0_def tx_has_def)
      then show ?thesis using 2 by (simp add: eq(2,3) tx1_def cc)
    next
      case 3
      then have "f AND TH_FIN = 0" using outflags(2) [of "tp_state tp"] False
        by (auto simp: f_def and_or_zero TCPS_HAVEESTABLISHED_def less_eq_tcp_state_def)
      then show ?thesis using 3 nosyn by (simp add: eq(2,3) tx1_def tx0_def tx_has_def tcp_plan_data_def tcp_plan_fin_def plan_ok_def)
    qed
    then show ?thesis by (simp add: tp_def n_def)
  qed
qed

section \<open>Sending\<close>

lemma fin_state_not_syn: "TCPS_FIN_WAIT_1 \<le> tp_state tp \<Longrightarrow> \<not> syn_pending tp"
  by (auto simp: syn_pending_def less_eq_tcp_state_def)

lemma tx_end_rel:
  assumes ok: "snd_seq_ok n tp" "n \<le> 2 ^ 30" and p: "plan_ok n tp maxseg tx"
  defines "e \<equiv> rel (snd_una tp) (tx_end tx)"
  shows "e = rel (snd_una tp) (tx_seq tx) + unat (tx_len tx) + (if tx_has tx TH_SYN then 1 else 0) + (if tx_has tx TH_FIN then 1 else 0)"
    "tx_sack tx \<Longrightarrow> e \<le> rel (snd_una tp) (snd_max tp)" "\<not> tx_sack tx \<Longrightarrow> syn_pending tp \<Longrightarrow> e \<le> 1"
    "\<not> tx_sack tx \<Longrightarrow> \<not> syn_pending tp \<Longrightarrow> e \<le> max (rel (snd_una tp) (snd_max tp)) (n + (if tx_has tx TH_FIN then 1 else 0))"
    "e \<le> n + 2"
proof -
  note b = snd_seq_bounds [OF ok]
  have pos: "rel (snd_una tp) (tx_seq tx) + unat (tx_len tx) \<le> n + 1"
    using p b(1,2) by (auto simp: plan_ok_def Let_def)
  have e1: "rel (snd_una tp) (tx_seq tx + tx_len tx) = rel (snd_una tp) (tx_seq tx) + unat (tx_len tx)"
    using pos ok(2) by (intro rel_add) simp
  have e2: "rel (snd_una tp) (tx_seq tx + tx_len tx + flag_len tx TH_SYN) = rel (snd_una tp) (tx_seq tx) + unat (tx_len tx) + unat (flag_len tx TH_SYN)"
    using pos ok(2) e1 rel_add [of "snd_una tp" "tx_seq tx + tx_len tx" "flag_len tx TH_SYN"] by (simp add: flag_len_def)
  show e: "e = rel (snd_una tp) (tx_seq tx) + unat (tx_len tx) + (if tx_has tx TH_SYN then 1 else 0) + (if tx_has tx TH_FIN then 1 else 0)"
    using pos ok(2) e2 rel_add [of "snd_una tp" "tx_seq tx + tx_len tx + flag_len tx TH_SYN" "flag_len tx TH_FIN"]
    by (auto simp: e_def tx_end_def flag_len_def)
  show "tx_sack tx \<Longrightarrow> e \<le> rel (snd_una tp) (snd_max tp)" using p by (auto simp: e plan_ok_def Let_def)
  show "\<not> tx_sack tx \<Longrightarrow> syn_pending tp \<Longrightarrow> e \<le> 1" using p ok(1) b(1) by (auto simp: e plan_ok_def Let_def snd_seq_ok_def snd_limit_def fin_state_not_syn)
  show "\<not> tx_sack tx \<Longrightarrow> \<not> syn_pending tp \<Longrightarrow> e \<le> max (rel (snd_una tp) (snd_max tp)) (n + (if tx_has tx TH_FIN then 1 else 0))"
    using p b(1) by (auto simp: e plan_ok_def Let_def)
  show "e \<le> n + 2" using p pos b(1,2) by (auto simp: e plan_ok_def Let_def)
qed

lemma blocks_ok_mono: "blocks_ok w m bs \<Longrightarrow> m \<le> m' \<Longrightarrow> blocks_ok w m' bs"
  by (auto simp: blocks_ok_def block_ok_def)

text \<open>Advancing the send sequence keeps the invariant as long as it stays in the buffer.\<close>

lemma snd_seq_ok_step:
  assumes ok: "snd_seq_ok n tp" "n \<le> 2 ^ 30"
    and same: "snd_una tp' = snd_una tp" "tp_state tp' = tp_state tp" "iss tp' = iss tp" "sack_blocks tp' = sack_blocks tp"
      "sack_count tp' = sack_count tp" "tp_flag TF_FASTRECOVERY tp' = tp_flag TF_FASTRECOVERY tp"
    and nxt: "rel (snd_una tp) (snd_nxt tp') \<le> rel (snd_una tp) (snd_max tp')"
    and max: "rel (snd_una tp) (snd_max tp) \<le> rel (snd_una tp) (snd_max tp')"
    and lim: "snd_limit n tp'" and fin: "tp_flag TF_SENTFIN tp' \<Longrightarrow> tp_flag TF_SENTFIN tp \<or> TCPS_FIN_WAIT_1 \<le> tp_state tp"
  shows "snd_seq_ok n tp'"
proof -
  have h: "rel (snd_una tp) (snd_max tp') < half" using lim ok(2) by (auto simp: snd_limit_def half_def same split: if_splits)
  have "sack_ok tp'"
    using snd_seq_bounds(3) [OF ok] h blocks_ok_mono [OF _ max] by (auto simp: sack_ok_def sack_shape_def sack_view_def same)
  then show ?thesis using ok(1) nxt lim fin by (auto simp: snd_seq_ok_def same)
qed

lemma after_send_seq_fields [simp]:
  "snd_una (after_send_seq now tx tp) = snd_una tp" "tp_state (after_send_seq now tx tp) = tp_state tp" "iss (after_send_seq now tx tp) = iss tp"
  "sack_blocks (after_send_seq now tx tp) = sack_blocks tp" "sack_count (after_send_seq now tx tp) = sack_count tp"
  "snd_wnd (after_send_seq now tx tp) = snd_wnd tp" "timers (after_send_seq now tx tp) = timers tp"
  "snd_max (after_send_seq now tx tp) = (if SEQ_GT (tx_end tx) (snd_max tp) then tx_end tx else snd_max tp)"
  "sack_rxmit (after_send_seq now tx tp) = (if tx_sack tx then tx_end tx else sack_rxmit tp)"
  "t_flags (after_send_seq now tx tp) = (if tx_has tx TH_FIN then t_flags tp OR TF_SENTFIN else t_flags tp)"
  by (simp_all add: after_send_seq_def Let_def set_flag_tp_def)

lemma after_send_seq_nxt:
  "snd_nxt (after_send_seq now tx tp) = (if is_probe tp \<or> tx_sack tx then snd_nxt tp else tx_end tx)"
proof -
  have "is_probe (set_flag_tp TF_SENTFIN tp) = is_probe tp"
    by (simp add: is_probe_def tcp_timer_active_def) (simp add: set_flag_tp_def)
  moreover have "is_probe (tp\<lparr>sack_rxmit := a, sack_rexmit_bytes := b\<rparr>) = is_probe tp" for tp a b
    by (simp add: is_probe_def tcp_timer_active_def tp_flag_def)
  ultimately show ?thesis by (auto simp: after_send_seq_def Let_def set_flag_tp_def)
qed

lemma after_send_seq_max:
  assumes ok: "snd_seq_ok n tp" "n \<le> 2 ^ 30" and p: "plan_ok n tp maxseg tx"
  shows "rel (snd_una tp) (snd_max (after_send_seq now tx tp)) = max (rel (snd_una tp) (snd_max tp)) (rel (snd_una tp) (tx_end tx))"
proof -
  have h: "rel (snd_una tp) (tx_end tx) < half" using tx_end_rel(5) [OF ok p] ok(2) by (simp add: half_def)
  have gt: "SEQ_GT (tx_end tx) (snd_max tp) \<longleftrightarrow> rel (snd_una tp) (snd_max tp) < rel (snd_una tp) (tx_end tx)"
    using h snd_seq_bounds(4) [OF ok] by (simp add: seq_cmp [of "snd_una tp"])
  show ?thesis by (simp add: gt)
qed

lemma after_send_seq_ok:
  assumes ok: "snd_seq_ok n tp" "n \<le> 2 ^ 30" and p: "plan_ok n tp maxseg tx"
  shows "snd_seq_ok n (after_send_seq now tx tp)"
proof -
  define tp' where "tp' = after_send_seq now tx tp"
  define e where "e = rel (snd_una tp) (tx_end tx)"
  note b = snd_seq_bounds [OF ok]
  note t = tx_end_rel [OF ok p, folded e_def]
  have max: "rel (snd_una tp) (snd_max tp') = max (rel (snd_una tp) (snd_max tp)) e"
    unfolding tp'_def e_def by (rule after_send_seq_max [OF ok p])
  have nxt: "rel (snd_una tp) (snd_nxt tp') = (if is_probe tp \<or> tx_sack tx then rel (snd_una tp) (snd_nxt tp) else e)"
    by (simp add: tp'_def after_send_seq_nxt e_def)
  have flag: "tp_flag TF_SENTFIN tp' = (tp_flag TF_SENTFIN tp \<or> tx_has tx TH_FIN)" "tp_flag TF_FASTRECOVERY tp' = tp_flag TF_FASTRECOVERY tp"
    by (auto simp: tp'_def tp_flag_def and_or_zero)
  have same: "snd_una tp' = snd_una tp" "tp_state tp' = tp_state tp" "iss tp' = iss tp" "sack_count tp' = sack_count tp" by (simp_all add: tp'_def)
  have syn: "syn_pending tp' = syn_pending tp" by (simp add: syn_pending_def same)
  show ?thesis unfolding tp'_def [symmetric]
  proof (rule snd_seq_ok_step [OF ok])
    show "rel (snd_una tp) (snd_nxt tp') \<le> rel (snd_una tp) (snd_max tp')" using b(1) by (auto simp: nxt max)
    show "rel (snd_una tp) (snd_max tp) \<le> rel (snd_una tp) (snd_max tp')" by (simp add: max)
    show "snd_limit n tp'"
    proof (cases "syn_pending tp")
      case s: True
      have o: "rel (snd_una tp) (snd_max tp) \<le> 1" "\<not> tp_flag TF_SENTFIN tp" using s ok(1) by (auto simp: snd_seq_ok_def snd_limit_def)
      have "\<not> tx_sack tx" "\<not> tx_has tx TH_FIN" using s p by (auto simp: plan_ok_def Let_def fin_state_not_syn)
      then have "rel (snd_una tp) (snd_max tp') \<le> 1" "\<not> tp_flag TF_SENTFIN tp'" using t(3) s o by (simp_all add: max flag)
      then show ?thesis using s ok(1) by (simp add: snd_limit_def snd_seq_ok_def flag syn same)
    next
      case s: False
      have f: "rel (snd_una tp) (snd_max tp') = n + 1" if c: "tx_has tx TH_FIN"
      proof -
        have "\<not> tx_has tx TH_SYN" "rel (snd_una tp) (tx_seq tx) + unat (tx_len tx) = n" using c p s by (auto simp: plan_ok_def Let_def)
        then show ?thesis using c t(1) b(2) by (simp add: max)
      qed
      have "rel (snd_una tp) (snd_max tp') = n + 1 \<or> snd_una tp = snd_max tp' \<and> n = 0"
        if "tp_flag TF_SENTFIN tp" "\<not> tx_has tx TH_FIN"
      proof -
        have "rel (snd_una tp) (snd_max tp) = n + 1 \<or> snd_una tp = snd_max tp \<and> n = 0" using that(1) s ok(1) by (simp add: snd_seq_ok_def snd_limit_def)
        then show ?thesis using t(2,4) that(2) s rel_inj [of "snd_una tp" "snd_una tp" "snd_max tp'"] by (cases "tx_sack tx") (auto simp: max)
      qed
      moreover have "rel (snd_una tp) (snd_max tp') \<le> n + (if tp_state tp < TCPS_SYN_SENT then 1 else 0)"
        if "\<not> tp_flag TF_SENTFIN tp" "\<not> tx_has tx TH_FIN"
        using t(2,4) that s ok(1) by (cases "tx_sack tx") (auto simp: max snd_seq_ok_def snd_limit_def split: if_splits)
      ultimately show ?thesis using f s by (auto simp: snd_limit_def flag syn same)
    qed
    show "tp_flag TF_SENTFIN tp' \<Longrightarrow> tp_flag TF_SENTFIN tp \<or> TCPS_FIN_WAIT_1 \<le> tp_state tp" using p by (auto simp: flag plan_ok_def Let_def)
  qed (simp_all add: tp'_def flag [unfolded tp'_def])
qed

lemma after_send_seq_sentfin: "tp_flag TF_SENTFIN (after_send_seq now tx tp) \<longleftrightarrow> tp_flag TF_SENTFIN tp \<or> tx_has tx TH_FIN"
  by (auto simp: tp_flag_def and_or_zero)

lemma plan_fin_state: "plan_ok n tp m tx \<Longrightarrow> tx_has tx TH_FIN \<Longrightarrow> TCPS_FIN_WAIT_1 \<le> tp_state tp"
  by (simp add: plan_ok_def Let_def)

text \<open>Sending does not change whether the peer has acknowledged the FIN.\<close>

lemma after_send_seq_fin:
  assumes ok: "snd_seq_ok n tp" "n \<le> 2 ^ 30" and p: "plan_ok n tp maxseg tx"
  shows "fin_acked (after_send_seq now tx tp) = fin_acked tp"
proof -
  define tp' where "tp' = after_send_seq now tx tp"
  note b = snd_seq_bounds [OF ok]
  have eq: "snd_una tp = x \<longleftrightarrow> rel (snd_una tp) x = 0" for x using rel_inj [of "snd_una tp" x "snd_una tp"] by auto
  have max: "rel (snd_una tp) (snd_max tp') = max (rel (snd_una tp) (snd_max tp)) (rel (snd_una tp) (tx_end tx))"
    unfolding tp'_def by (rule after_send_seq_max [OF ok p])
  have flag: "tp_flag TF_SENTFIN tp' = (tp_flag TF_SENTFIN tp \<or> tx_has tx TH_FIN)" by (auto simp: tp'_def tp_flag_def and_or_zero)
  have una: "snd_una tp' = snd_una tp" by (simp add: tp'_def)
  have fin: "\<not> fin_acked tp \<and> rel (snd_una tp) (tx_end tx) \<noteq> 0" if f: "tx_has tx TH_FIN"
  proof
    show "\<not> fin_acked tp" using f p b(1) rel_inj [of "snd_una tp" "snd_nxt tp" "snd_max tp"] by (auto simp: fin_acked_def plan_ok_def Let_def)
    show "rel (snd_una tp) (tx_end tx) \<noteq> 0" using f by (simp add: tx_end_rel(1) [OF ok p])
  qed
  have "rel (snd_una tp) (tx_end tx) = 0" if a: "fin_acked tp" "\<not> tx_has tx TH_FIN"
  proof -
    have s: "\<not> syn_pending tp" "n = 0" using a(1) ok(1) by (auto simp: fin_acked_def snd_seq_ok_def snd_limit_def split: if_splits)
    show ?thesis using tx_end_rel(2,4) [OF ok p] a s by (cases "tx_sack tx") (auto simp: fin_acked_def)
  qed
  then show ?thesis using fin unfolding tp'_def [symmetric] by (cases "tx_has tx TH_FIN") (auto simp: fin_acked_def una flag eq max)
qed

text \<open>The part of the control block the invariant is about.\<close>

definition snd_core :: "tcpcb \<Rightarrow> _" where
  "snd_core tp = (tp_state tp, iss tp, snd_una tp, snd_nxt tp, snd_max tp, snd_wnd tp, sack_blocks tp, sack_count tp, sack_rxmit tp,
     tp_flag TF_FASTRECOVERY tp, tp_flag TF_SENTFIN tp, tp_flag TF_FORCEDATA tp)"

lemma snd_core_eq:
  assumes "snd_core tp' = snd_core tp"
  shows "snd_seq_ok n tp' = snd_seq_ok n tp" "plan_ok n tp' m tx = plan_ok n tp m tx" "hole_start tp' = hole_start tp"
    "syn_pending tp' = syn_pending tp" "fin_acked tp' = fin_acked tp"
  using assms by (simp_all add: fin_acked_def sends_data_def snd_core_def snd_seq_ok_def plan_ok_def sack_ok_def sack_shape_def sack_view_def hole_start_def syn_pending_def snd_limit_def)

lemma flags_rcv: "f AND (TF_ACKNOW OR TF_DELACK) = 0 \<Longrightarrow> tp_flag f (after_send_rcv win tp) = tp_flag f tp"
proof -
  assume "f AND (TF_ACKNOW OR TF_DELACK) = 0"
  then have "(TF_ACKNOW OR TF_DELACK) AND f = 0" by (simp only: and.commute)
  moreover have "t_flags (after_send_rcv win tp) = t_flags tp AND NOT (TF_ACKNOW OR TF_DELACK)"
    by (simp add: after_send_rcv_def Let_def tcp_upd_defs)
  ultimately show ?thesis by (simp only: tp_flag_def and_or_zero)
qed

lemma core_rcv: "snd_core (after_send_rcv win tp) = snd_core tp"
  by (simp add: snd_core_def flags_rcv bit.conj_disj_distrib) (simp add: after_send_rcv_def Let_def tcp_upd_defs)

lemma core_timer: "snd_core (c_tp (after_send_timer c)) = snd_core (c_tp c)"
  by (simp add: after_send_timer_def Let_def snd_core_def tcp_upd_defs tp_flag_def)

lemma core_persist: "snd_core (c_tp (tcp_maybe_persist cc c)) = snd_core (c_tp c)"
  by (simp add: tcp_maybe_persist_def tcp_setpersist_def Let_def snd_core_def tcp_upd_defs tp_flag_def)

text \<open>What else sending changes: nothing but the fields listed.\<close>

definition out_put :: "tcpcb \<Rightarrow> tcpcb \<Rightarrow> tcpcb" where
  "out_put x tp = tp\<lparr>t_flags := t_flags x, timers := timers x, rexmt_shift := rexmt_shift x, snd_nxt := snd_nxt x, snd_max := snd_max x,
     rcv_adv := rcv_adv x, last_ack_sent := last_ack_sent x, rtt_start := rtt_start x, rtt_seq := rtt_seq x,
     sack_rxmit := sack_rxmit x, sack_rexmit_bytes := sack_rexmit_bytes x, snd_cwnd := snd_cwnd x, snd_ssthresh := snd_ssthresh x\<rparr>"

text \<open>Of the flags, only those for pending acknowledgements and \<^verbatim>\<open>TF_SENTFIN\<close> may change, the latter from unset to set.\<close>

definition out_flags :: "tcpcb \<Rightarrow> tcpcb \<Rightarrow> bool" where
  "out_flags tp tp' \<longleftrightarrow> (\<forall>f. f AND (TF_ACKNOW OR TF_DELACK OR TF_SENTFIN) = 0 \<longrightarrow> tp_flag f tp' = tp_flag f tp) \<and>
     (tp_flag TF_SENTFIN tp \<longrightarrow> tp_flag TF_SENTFIN tp')"

definition out_tp_frame :: "tcpcb \<Rightarrow> tcpcb \<Rightarrow> bool" where
  "out_tp_frame tp tp' \<longleftrightarrow> tp' = out_put tp' tp \<and> out_flags tp tp'"

definition out_frame :: "tcp_conn \<Rightarrow> tcp_conn \<Rightarrow> bool" where
  "out_frame c c' \<longleftrightarrow> c'\<lparr>c_tp := c_tp c, c_allocs := c_allocs c, c_sent := c_sent c, c_stat := c_stat c\<rparr> = c \<and> out_tp_frame (c_tp c) (c_tp c')"

lemma out_tp_frame_refl [simp]: "out_tp_frame tp tp" by (simp add: out_tp_frame_def out_flags_def out_put_def)

lemma out_put_put: "out_put x (out_put y tp) = out_put x tp" by (simp add: out_put_def)

lemma out_tp_frame_trans: "out_tp_frame a b \<Longrightarrow> out_tp_frame b c \<Longrightarrow> out_tp_frame a c"
  unfolding out_tp_frame_def out_flags_def by (metis out_put_put)

lemma out_put_upd:
  "(out_put t tp)\<lparr>timers := x0\<rparr> = out_put (t\<lparr>timers := x0\<rparr>) tp"
  "(out_put t tp)\<lparr>rexmt_shift := x1\<rparr> = out_put (t\<lparr>rexmt_shift := x1\<rparr>) tp"
  "(out_put t tp)\<lparr>snd_nxt := x2\<rparr> = out_put (t\<lparr>snd_nxt := x2\<rparr>) tp"
  "(out_put t tp)\<lparr>snd_max := x3\<rparr> = out_put (t\<lparr>snd_max := x3\<rparr>) tp"
  "(out_put t tp)\<lparr>rcv_adv := x4\<rparr> = out_put (t\<lparr>rcv_adv := x4\<rparr>) tp"
  "(out_put t tp)\<lparr>last_ack_sent := x5\<rparr> = out_put (t\<lparr>last_ack_sent := x5\<rparr>) tp"
  "(out_put t tp)\<lparr>rtt_start := x6\<rparr> = out_put (t\<lparr>rtt_start := x6\<rparr>) tp"
  "(out_put t tp)\<lparr>rtt_seq := x7\<rparr> = out_put (t\<lparr>rtt_seq := x7\<rparr>) tp"
  "(out_put t tp)\<lparr>sack_rxmit := x8\<rparr> = out_put (t\<lparr>sack_rxmit := x8\<rparr>) tp"
  "(out_put t tp)\<lparr>sack_rexmit_bytes := x9\<rparr> = out_put (t\<lparr>sack_rexmit_bytes := x9\<rparr>) tp"
  "(out_put t tp)\<lparr>snd_cwnd := x10\<rparr> = out_put (t\<lparr>snd_cwnd := x10\<rparr>) tp"
  "(out_put t tp)\<lparr>snd_ssthresh := x11\<rparr> = out_put (t\<lparr>snd_ssthresh := x11\<rparr>) tp"
  by (simp_all add: out_put_def)

lemma out_flags_upd:
  "out_flags tp (t\<lparr>timers := x0\<rparr>) = out_flags tp t"
  "out_flags tp (t\<lparr>rexmt_shift := x1\<rparr>) = out_flags tp t"
  "out_flags tp (t\<lparr>snd_nxt := x2\<rparr>) = out_flags tp t"
  "out_flags tp (t\<lparr>snd_max := x3\<rparr>) = out_flags tp t"
  "out_flags tp (t\<lparr>rcv_adv := x4\<rparr>) = out_flags tp t"
  "out_flags tp (t\<lparr>last_ack_sent := x5\<rparr>) = out_flags tp t"
  "out_flags tp (t\<lparr>rtt_start := x6\<rparr>) = out_flags tp t"
  "out_flags tp (t\<lparr>rtt_seq := x7\<rparr>) = out_flags tp t"
  "out_flags tp (t\<lparr>sack_rxmit := x8\<rparr>) = out_flags tp t"
  "out_flags tp (t\<lparr>sack_rexmit_bytes := x9\<rparr>) = out_flags tp t"
  "out_flags tp (t\<lparr>snd_cwnd := x10\<rparr>) = out_flags tp t"
  "out_flags tp (t\<lparr>snd_ssthresh := x11\<rparr>) = out_flags tp t"
  by (simp_all add: out_flags_def tp_flag_def)

lemma out_tp_upd:
  assumes "out_tp_frame tp t"
  shows
    "out_tp_frame tp (t\<lparr>timers := x0\<rparr>)"
    "out_tp_frame tp (t\<lparr>rexmt_shift := x1\<rparr>)"
    "out_tp_frame tp (t\<lparr>snd_nxt := x2\<rparr>)"
    "out_tp_frame tp (t\<lparr>snd_max := x3\<rparr>)"
    "out_tp_frame tp (t\<lparr>rcv_adv := x4\<rparr>)"
    "out_tp_frame tp (t\<lparr>last_ack_sent := x5\<rparr>)"
    "out_tp_frame tp (t\<lparr>rtt_start := x6\<rparr>)"
    "out_tp_frame tp (t\<lparr>rtt_seq := x7\<rparr>)"
    "out_tp_frame tp (t\<lparr>sack_rxmit := x8\<rparr>)"
    "out_tp_frame tp (t\<lparr>sack_rexmit_bytes := x9\<rparr>)"
    "out_tp_frame tp (t\<lparr>snd_cwnd := x10\<rparr>)"
    "out_tp_frame tp (t\<lparr>snd_ssthresh := x11\<rparr>)"
  using assms unfolding out_tp_frame_def out_flags_upd by (metis out_put_upd)+

lemma out_tp_flags: "out_tp_frame tp t \<Longrightarrow> out_flags tp (t\<lparr>t_flags := f\<rparr>) \<Longrightarrow> out_tp_frame tp (t\<lparr>t_flags := f\<rparr>)"
proof -
  have "(out_put t tp)\<lparr>t_flags := f\<rparr> = out_put (t\<lparr>t_flags := f\<rparr>) tp" by (simp add: out_put_def)
  then show "out_tp_frame tp t \<Longrightarrow> out_flags tp (t\<lparr>t_flags := f\<rparr>) \<Longrightarrow> out_tp_frame tp (t\<lparr>t_flags := f\<rparr>)"
    unfolding out_tp_frame_def by metis
qed

lemma out_tp_if: "out_tp_frame tp a \<Longrightarrow> out_tp_frame tp b \<Longrightarrow> out_tp_frame tp (if P then a else b)" by simp

lemma out_frame_trans: "out_frame a b \<Longrightarrow> out_frame b c \<Longrightarrow> out_frame a c"
  by (cases a, cases b, cases c) (auto simp: out_frame_def intro: out_tp_frame_trans)

lemma out_flags_sentfin: "out_flags tp t \<Longrightarrow> out_flags tp (t\<lparr>t_flags := t_flags t OR TF_SENTFIN\<rparr>)"
  by (auto simp: out_flags_def tp_flag_def bit.conj_disj_distrib or_eq_0_iff and_or_zero and.commute [of TF_SENTFIN])

lemma frame_rcv: "out_tp_frame tp (after_send_rcv win tp)"
proof -
  have "tp_flag f (after_send_rcv win tp) = tp_flag f tp" if "f AND (TF_ACKNOW OR TF_DELACK OR TF_SENTFIN) = 0 \<or> f = TF_SENTFIN" for f
    using that by (intro flags_rcv) (auto simp: bit.conj_disj_distrib or_eq_0_iff)
  then have "out_flags tp (after_send_rcv win tp)" unfolding out_flags_def by blast
  then show ?thesis unfolding after_send_rcv_def Let_def tcp_upd_defs out_flags_upd
    by (auto intro!: out_tp_upd out_tp_if out_tp_flags simp: out_flags_upd)
qed

lemma frame_seq: "out_tp_frame tp (after_send_seq now tx tp)"
proof -
  define tp1 where "tp1 = (if tx_has tx TH_FIN then set_flag_tp TF_SENTFIN tp else tp)"
  have "out_tp_frame tp tp1" using out_flags_sentfin [of tp tp]
    by (auto simp: tp1_def set_flag_tp_def out_flags_def intro!: out_tp_flags)
  then show ?thesis unfolding after_send_seq_def Let_def tp1_def [symmetric] by (intro out_tp_upd out_tp_if)
qed

lemma frame_timer: "out_frame c (after_send_timer c)"
  by (auto simp: after_send_timer_def Let_def out_frame_def tcp_upd_defs intro!: out_tp_upd)

lemma frame_persist: "out_frame c (tcp_maybe_persist cc c)"
  by (auto simp: tcp_maybe_persist_def tcp_setpersist_def Let_def out_frame_def tcp_upd_defs intro!: out_tp_upd)

section \<open>One segment\<close>

text \<open>The peer's window; a probe of a closed window is one byte.\<close>

definition peer_window :: "tcpcb \<Rightarrow> nat" where
  "peer_window tp = max (unat (snd_wnd tp)) (if tp_flag TF_FORCEDATA tp then 1 else 0)"

text \<open>A segment sent: it fits in the buffer it was built in; its data are the bytes of the send buffer at
  its position, and end at position \<open>B\<close> or before; a FIN comes right after the last byte.\<close>

definition segment_ok :: "tcp_seq \<Rightarrow> bytes \<Rightarrow> nat \<Rightarrow> segment \<Rightarrow> bool" where
  "segment_ok una stream B sg \<longleftrightarrow>
     (let pos = rel una (sg_seq sg); len = length (sg_data sg)
      in sg_hlen sg = TCP_HEADER_LEN + length (sg_opts sg) \<and> sg_hlen sg + len \<le> NETBUF_CLUSTER_SIZE - NETBUF_HEADROOM \<and>
         (len \<noteq> 0 \<longrightarrow> pos + len \<le> length stream \<and> sg_data sg = take len (drop pos stream) \<and> pos + len \<le> B) \<and>
         (sg_flags sg AND TH_FIN \<noteq> 0 \<longrightarrow> pos + len = length stream))"

text \<open>Nothing past \<open>B\<close> has been sent, but for the FIN.\<close>

definition sent_below :: "nat \<Rightarrow> nat \<Rightarrow> tcpcb \<Rightarrow> bool" where
  "sent_below B n tp \<longleftrightarrow> syn_pending tp \<or> rel (snd_una tp) (snd_max tp) \<le> B \<or> n \<le> B \<and> rel (snd_una tp) (snd_max tp) \<le> n + 1"

text \<open>What is left to send in one run of the loop.\<close>

definition out_left :: "nat \<Rightarrow> tcpcb \<Rightarrow> nat" where
  "out_left n tp = (n - hole_start tp) + (n - rel (snd_una tp) (snd_nxt tp))"

lemma cluster_room:
  assumes "netbuf_alloc_cluster os True = (Some nb, os')"
  shows "nb_buf_size nb - nb_off nb = NETBUF_CLUSTER_SIZE - NETBUF_HEADROOM"
proof -
  obtain st where m: "malloc_bytes os NETBUF_CLUSTER_SIZE = (Some st, os')" and nb: "nb = netbuf_setup st True"
    using assms by (auto simp: netbuf_alloc_cluster_def netbuf_alloc_sized_def split: prod.splits option.splits)
  show ?thesis using malloc_bytes_length [OF m] by (simp add: nb netbuf_setup_def)
qed

lemma segment_data_spec:
  assumes ok: "sndbuf_ok c" and len: "tx_len tx \<noteq> 0 \<Longrightarrow> unat (tx_off tx) + unat (tx_len tx) \<le> length (snd_stream c)"
  shows "segment_data c tx = Some (take (unat (tx_len tx)) (drop (unat (tx_off tx)) (snd_stream c)))"
proof (cases "tx_len tx = 0")
  case False
  then have n: "snd_stream c \<noteq> []" "unat (tx_len tx) \<le> length (snd_stream c) - unat (tx_off tx)" using len unat_gt_0 [of "tx_len tx"] by auto
  then obtain so where so: "c_so c = Some so" "sockbuf_inv (so_snd so)" "snd_stream c = sb_stream (so_snd so)"
    using ok by (cases "c_so c") (auto simp: snd_stream_def sndbuf_ok_def)
  show ?thesis using False n by (simp add: segment_data_def so sockbuf_copy_spec Let_def)
qed (simp add: segment_data_def)

lemma build_segment_spec:
  assumes ok: "sndbuf_ok c" and p: "plan_ok (length (snd_stream c)) (c_tp c) maxseg tx" and m: "unat maxseg \<le> 1924" "length opts \<le> 40"
    and B: "tx_len tx \<noteq> 0 \<Longrightarrow> rel (snd_una (c_tp c)) (tx_seq tx) + unat (tx_len tx) \<le> B"
  shows "\<exists>os r. tcp_build_segment c tx opts win = Some (r, c\<lparr>c_allocs := os\<rparr>) \<and>
    (\<forall>sg. r = Some sg \<longrightarrow> segment_ok (snd_una (c_tp c)) (snd_stream c) B sg \<and> (sg_data sg \<noteq> [] \<longrightarrow> sends_data (c_tp c)))"
proof -
  have off: "tx_len tx \<noteq> 0 \<Longrightarrow> unat (tx_off tx) = rel (snd_una (c_tp c)) (tx_seq tx) \<and>
      unat (tx_off tx) + unat (tx_len tx) \<le> length (snd_stream c) \<and> unat (tx_len tx) \<le> 1924"
    using p m(1) unat_gt_0 [of "tx_len tx"] by (auto simp: plan_ok_def Let_def word_le_nat_alt)
  then have d: "segment_data c tx = Some (take (unat (tx_len tx)) (drop (unat (tx_off tx)) (snd_stream c)))"
    by (intro segment_data_spec [OF ok]) blast
  have l: "length (take (unat (tx_len tx)) (drop (unat (tx_off tx)) (snd_stream c))) = unat (tx_len tx)"
    using off by (cases "tx_len tx = 0") auto
  have fit: "TCP_HEADER_LEN + length opts + unat (tx_len tx) \<le> NETBUF_CLUSTER_SIZE - NETBUF_HEADROOM"
    using off m(2) by (cases "tx_len tx = 0") (auto simp: netbuf_consts TCP_HEADER_LEN_def)
  have fin: "tx_has tx TH_FIN \<Longrightarrow> rel (snd_una (c_tp c)) (tx_seq tx) + unat (tx_len tx) = length (snd_stream c)"
    using p by (auto simp: plan_ok_def Let_def)
  define sg where "sg = tcp_fill_header (c_lport c) (c_fport c) (tx_seq tx) (rcv_nxt (c_tp c)) (tx_flags tx)
    (tcp_window_field (c_tp c) win (tx_flags tx)) opts (take (unat (tx_len tx)) (drop (unat (tx_off tx)) (snd_stream c)))"
  have "sg_data sg \<noteq> [] \<longrightarrow> sends_data (c_tp c)"
    using p by (auto simp: sg_def tcp_fill_header_def plan_ok_def Let_def unat_eq_0)
  moreover have "segment_ok (snd_una (c_tp c)) (snd_stream c) B sg"
    using off fit fin B l by (cases "tx_len tx = 0") (auto simp: segment_ok_def sg_def tcp_fill_header_def Let_def tx_has_def)
  ultimately have sg: "segment_ok (snd_una (c_tp c)) (snd_stream c) B sg \<and> (sg_data sg \<noteq> [] \<longrightarrow> sends_data (c_tp c))" by blast
  obtain nb os where a: "netbuf_alloc_cluster (c_allocs c) True = (nb, os)" by fastforce
  show ?thesis
  proof (cases nb)
    case None
    then show ?thesis by (intro exI [of _ os] exI [of _ None]) (simp add: tcp_build_segment_def a)
  next
    case (Some b)
    note room = cluster_room [OF a [unfolded Some]]
    have "tcp_build_segment c tx opts win = Some (Some sg, c\<lparr>c_allocs := os\<rparr>)"
      using fit by (simp add: tcp_build_segment_def a Some room d sg_def Let_def)
    then show ?thesis using sg by blast
  qed
qed

lemma sent_below_send:
  assumes ok: "snd_seq_ok n tp" "n \<le> 2 ^ 30" and p: "plan_ok n tp maxseg tx" and B: "peer_window tp \<le> B" "sent_below B n tp"
  shows "sent_below B n (after_send_seq now tx tp)"
    "tx_len tx \<noteq> 0 \<Longrightarrow> rel (snd_una tp) (tx_seq tx) + unat (tx_len tx) \<le> B"
proof -
  note b = snd_seq_bounds [OF ok]
  have m: "rel (snd_una tp) (snd_max tp) \<le> B \<or> n \<le> B \<and> rel (snd_una tp) (snd_max tp) \<le> n + 1" if "\<not> syn_pending tp"
    using B(2) that by (simp add: sent_below_def)
  show l: "rel (snd_una tp) (tx_seq tx) + unat (tx_len tx) \<le> B" if c: "tx_len tx \<noteq> 0"
  proof -
    have "0 < unat (tx_len tx)" using c by (simp add: unat_gt_0)
    then show ?thesis using p m B(1) by (cases "tx_sack tx") (auto simp: plan_ok_def Let_def peer_window_def)
  qed
  have syn: "syn_pending (after_send_seq now tx tp) = syn_pending tp" by (simp add: syn_pending_def)
  show "sent_below B n (after_send_seq now tx tp)"
  proof (cases "syn_pending tp")
    case False
    have "rel (snd_una tp) (tx_end tx) \<le> B \<or> n \<le> B \<and> rel (snd_una tp) (tx_end tx) \<le> n + 1"
    proof (cases "tx_len tx = 0")
      case True
      then have "\<not> tx_sack tx" "rel (snd_una tp) (tx_seq tx) \<le> rel (snd_una tp) (snd_max tp)" "\<not> tx_has tx TH_SYN"
        using p b(1) False by (auto simp: plan_ok_def Let_def)
      then show ?thesis using m [OF False] p True by (auto simp: tx_end_rel(1) [OF ok p] plan_ok_def Let_def)
    next
      case c: False
      then have "\<not> tx_has tx TH_SYN" using p False by (auto simp: plan_ok_def Let_def)
      then show ?thesis using l [OF c] p by (auto simp: tx_end_rel(1) [OF ok p] plan_ok_def Let_def)
    qed
    then show ?thesis using m [OF False] by (auto simp: sent_below_def after_send_seq_max [OF ok p] simp del: after_send_seq_fields(8))
  qed (simp add: sent_below_def syn)
qed

text \<open>Sending a full segment or filling a gap leaves less to send.\<close>

lemma out_left_send:
  assumes ok: "snd_seq_ok n tp" "n \<le> 2 ^ 30" and p: "plan_ok n tp maxseg tx" and m: "0 < maxseg"
    and full: "tx_len tx = maxseg \<or> tx_sack tx" and f: "\<not> tp_flag TF_FORCEDATA tp"
  fixes now :: u64
  defines "tp' \<equiv> after_send_seq now tx tp"
  shows "out_left n tp' < out_left n tp"
proof -
  have una: "snd_una tp' = snd_una tp" by (simp add: tp'_def)
  note e = tx_end_rel [OF ok p]
  have len: "0 < unat (tx_len tx)" using full m p by (auto simp: plan_ok_def Let_def word_less_nat_alt)
  have np: "\<not> is_probe tp" using f by (simp add: is_probe_def)
  show ?thesis
  proof (cases "tx_sack tx")
    case True
    have t: "rel (snd_una tp) (tx_end tx) = rel (snd_una tp) (tx_seq tx) + unat (tx_len tx)" using p True len by (auto simp: e(1) plan_ok_def Let_def)
    have h: "rel (snd_una tp) (tx_end tx) < half" using e(5) ok(2) by (simp add: half_def)
    have "SEQ_GT (tx_end tx) (snd_una tp)" using h len t by (simp add: seq_cmp [of "snd_una tp"] half_def)
    then have "hole_start tp' = rel (snd_una tp) (tx_end tx)" by (simp add: hole_start_def tp'_def True)
    moreover have "snd_nxt tp' = snd_nxt tp" by (simp add: tp'_def after_send_seq_nxt True)
    ultimately show ?thesis using p True len by (auto simp: t plan_ok_def Let_def out_left_def una)
  next
    case False
    have "hole_start tp' = hole_start tp" by (simp add: hole_start_def tp'_def False)
    moreover have "rel (snd_una tp) (snd_nxt tp') = rel (snd_una tp) (tx_end tx)" by (simp add: tp'_def after_send_seq_nxt False np)
    moreover have "rel (snd_una tp) (tx_end tx) \<ge> rel (snd_una tp) (snd_nxt tp) + unat (tx_len tx)"
      using p False by (simp add: e(1) plan_ok_def Let_def)
    moreover have "rel (snd_una tp) (snd_nxt tp) + unat (tx_len tx) \<le> n" using p len False by (auto simp: plan_ok_def Let_def)
    ultimately show ?thesis using len by (simp add: out_left_def una)
  qed
qed

lemma after_send_spec:
  fixes c :: tcp_conn and win :: u32
  assumes ok: "snd_seq_ok n (c_tp c)" "n \<le> 2 ^ 30" and p: "plan_ok n (c_tp c) maxseg tx" and m: "0 < maxseg"
    and B: "peer_window (c_tp c) \<le> B" "sent_below B n (c_tp c)"
  defines "c' \<equiv> tcp_after_send tx win c"
  shows "snd_seq_ok n (c_tp c') \<and> out_frame c c' \<and> sent_below B n (c_tp c') \<and> fin_acked (c_tp c') = fin_acked (c_tp c) \<and> fin_kept (c_tp c) (c_tp c') \<and>
    rel (snd_una (c_tp c)) (snd_max (c_tp c)) \<le> rel (snd_una (c_tp c)) (snd_max (c_tp c')) \<and>
    ((tx_len tx = maxseg \<or> tx_sack tx) \<and> \<not> tx_has tx TH_RST \<and> \<not> tp_flag TF_FORCEDATA (c_tp c) \<longrightarrow> out_left n (c_tp c') < out_left n (c_tp c))"
proof -
  define tp where "tp = after_send_rcv win (c_tp c)"
  have core: "snd_core tp = snd_core (c_tp c)" by (simp add: tp_def core_rcv)
  have eqs: "snd_una tp = snd_una (c_tp c)" "snd_nxt tp = snd_nxt (c_tp c)" "snd_max tp = snd_max (c_tp c)" "snd_wnd tp = snd_wnd (c_tp c)"
    "tp_flag TF_FORCEDATA tp = tp_flag TF_FORCEDATA (c_tp c)" "tp_flag TF_SENTFIN tp = tp_flag TF_SENTFIN (c_tp c)" using core by (auto simp: snd_core_def)
  note k = snd_core_eq [OF core]
  have seq: "snd_seq_ok n tp" "plan_ok n tp maxseg tx" "peer_window tp \<le> B" "sent_below B n tp"
    using ok p B by (simp_all add: k peer_window_def eqs sent_below_def)
  have f1: "out_frame c (on_tp (after_send_rcv win) c)" by (simp add: out_frame_def frame_rcv on_tp_def)
  show ?thesis
  proof (cases "tx_has tx TH_RST")
    case True
    have c': "c' = on_tp (after_send_rcv win) c" by (simp add: c'_def tcp_after_send_def True Let_def)
    show ?thesis using f1 seq True k(5) eqs(3,6) by (simp add: c' tp_def fin_kept_def)
  next
    case False
    define c2 where "c2 = on_tp (after_send_seq (tcp_now_ms (on_tp (after_send_rcv win) c)) tx) (on_tp (after_send_rcv win) c)"
    have c2: "c_tp c2 = after_send_seq (tcp_now_ms (on_tp (after_send_rcv win) c)) tx tp" by (simp add: c2_def tp_def)
    have c': "c' = after_send_timer c2" by (simp add: c'_def tcp_after_send_def False c2_def Let_def)
    have core': "snd_core (c_tp c') = snd_core (c_tp c2)" by (simp add: c' core_timer)
    note k' = snd_core_eq [OF core']
    have "out_frame (on_tp (after_send_rcv win) c) c2" by (simp add: c2_def out_frame_def frame_seq on_tp_def)
    then have fr: "out_frame c c'" unfolding c' using f1 frame_timer out_frame_trans by blast
    have e: "snd_una (c_tp c') = snd_una (c_tp c2)" "snd_nxt (c_tp c') = snd_nxt (c_tp c2)" "snd_max (c_tp c') = snd_max (c_tp c2)"
      using core' by (auto simp: snd_core_def)
    have "snd_seq_ok n (c_tp c')" unfolding k' c2 by (rule after_send_seq_ok [OF seq(1) ok(2) seq(2)])
    moreover have "fin_acked (c_tp c') = fin_acked (c_tp c)"
      unfolding k'(5) c2 after_send_seq_fin [OF seq(1) ok(2) seq(2)] by (rule k(5))
    moreover have "tp_flag TF_SENTFIN (c_tp c') = tp_flag TF_SENTFIN (c_tp c2)" using core' by (simp add: snd_core_def)
    then have "fin_kept (c_tp c) (c_tp c')"
      using eqs(6) plan_fin_state [OF p] by (auto simp: fin_kept_def c2 after_send_seq_sentfin)
    moreover have "rel (snd_una (c_tp c)) (snd_max (c_tp c)) \<le> rel (snd_una (c_tp c)) (snd_max (c_tp c'))"
      using after_send_seq_max [OF seq(1) ok(2) seq(2)] unfolding e c2 eqs by simp
    moreover have "sent_below B n (c_tp c')"
      using sent_below_send(1) [OF seq(1) ok(2) seq(2,3,4)] unfolding sent_below_def k' e c2 .
    moreover have "out_left n (c_tp c') = out_left n (c_tp c2)" "out_left n tp = out_left n (c_tp c)" by (simp_all add: out_left_def k(3) k'(3) e eqs)
    ultimately show ?thesis using fr out_left_send [OF seq(1) ok(2) seq(2) m] by (simp add: c2 eqs)
  qed
qed

lemma out_frame_stream: "out_frame c c' \<Longrightarrow> c_so c' = c_so c \<and> snd_stream c' = snd_stream c \<and> sndbuf_ok c' = sndbuf_ok c"
proof -
  assume "out_frame c c'"
  then have "c_so (c'\<lparr>c_tp := c_tp c, c_allocs := c_allocs c, c_sent := c_sent c, c_stat := c_stat c\<rparr>) = c_so c" by (simp add: out_frame_def)
  then show ?thesis by (simp add: snd_stream_def sndbuf_ok_def)
qed

lemma out_frame_tp:
  assumes "out_frame c c'"
  shows "snd_una (c_tp c') = snd_una (c_tp c)" "tp_state (c_tp c') = tp_state (c_tp c)" "iss (c_tp c') = iss (c_tp c)" "snd_wnd (c_tp c') = snd_wnd (c_tp c)"
    "tp_flag TF_FORCEDATA (c_tp c') = tp_flag TF_FORCEDATA (c_tp c)" "peer_window (c_tp c') = peer_window (c_tp c)"
    "tp_flag TF_FASTRECOVERY (c_tp c') = tp_flag TF_FASTRECOVERY (c_tp c)" "sends_data (c_tp c') = sends_data (c_tp c)"
proof -
  have t: "c_tp c' = out_put (c_tp c') (c_tp c)" "out_flags (c_tp c) (c_tp c')" using assms by (auto simp: out_frame_def out_tp_frame_def)
  have g: "f (c_tp c') = f (c_tp c)" if "\<And>x y. f (out_put x y) = f y" for f :: "tcpcb \<Rightarrow> 'a" using t(1) that by metis
  show e: "snd_una (c_tp c') = snd_una (c_tp c)" "tp_state (c_tp c') = tp_state (c_tp c)" "iss (c_tp c') = iss (c_tp c)" "snd_wnd (c_tp c') = snd_wnd (c_tp c)"
    by (rule g, simp add: out_put_def)+
  show f: "tp_flag TF_FORCEDATA (c_tp c') = tp_flag TF_FORCEDATA (c_tp c)" using t(2) by (simp add: out_flags_def bit.conj_disj_distrib)
  show r: "tp_flag TF_FASTRECOVERY (c_tp c') = tp_flag TF_FASTRECOVERY (c_tp c)" using t(2) by (simp add: out_flags_def bit.conj_disj_distrib)
  show "peer_window (c_tp c') = peer_window (c_tp c)" by (simp add: peer_window_def e f)
  show "sends_data (c_tp c') = sends_data (c_tp c)" by (simp add: sends_data_def e r)
qed

text \<open>\<open>out_step B c r c'\<close>: a correct step of the sender.\<close>

definition out_step :: "nat \<Rightarrow> tcp_conn \<Rightarrow> tcp_conn \<Rightarrow> bool" where
  "out_step B c c' \<longleftrightarrow> out_frame c c' \<and> snd_ok c' \<and> sent_below B (length (snd_stream c)) (c_tp c') \<and>
     fin_acked (c_tp c') = fin_acked (c_tp c) \<and> fin_kept (c_tp c) (c_tp c') \<and>
     rel (snd_una (c_tp c)) (snd_max (c_tp c)) \<le> rel (snd_una (c_tp c)) (snd_max (c_tp c')) \<and>
     (\<exists>segs. c_sent c' = c_sent c @ segs \<and>
       (\<forall>sg\<in>set segs. segment_ok (snd_una (c_tp c)) (snd_stream c) B sg \<and> (sg_data sg \<noteq> [] \<longrightarrow> sends_data (c_tp c))))"

lemma output_once_spec:
  assumes ok: "snd_ok c" and B: "peer_window (c_tp c) \<le> B" "sent_below B (length (snd_stream c)) (c_tp c)"
  shows "\<exists>r c'. tcp_output_once c = Some (r, c') \<and> out_step B c c' \<and>
    (0 < r \<longrightarrow> out_left (length (snd_stream c)) (c_tp c') < out_left (length (snd_stream c)) (c_tp c))"
proof -
  define n where "n = length (snd_stream c)"
  obtain opts maxseg tx where mp: "tcp_make_plan c = (opts, maxseg, tx)" by (cases "tcp_make_plan c")
  have o: "sndbuf_ok c" "snd_seq_ok n (c_tp c)" "n \<le> 2 ^ 30" using ok by (auto simp: snd_ok_def n_def sndbuf_ok_def)
  note p = make_plan_ok [OF ok mp, folded n_def]
  show ?thesis
  proof (cases "tcp_should_send c (snd_cc c) maxseg tx")
    case False
    define c' where "c' = tcp_maybe_persist (snd_cc c) c"
    have fr: "out_frame c c'" and core: "snd_core (c_tp c') = snd_core (c_tp c)" by (simp_all add: c'_def frame_persist core_persist)
    have "c_sent c' = c_sent c" by (simp add: c'_def tcp_maybe_persist_def tcp_setpersist_def Let_def tcp_upd_defs)
    moreover have "snd_max (c_tp c') = snd_max (c_tp c)" using core by (simp add: snd_core_def)
    moreover have "fin_kept (c_tp c) (c_tp c')" using core by (simp add: snd_core_def fin_kept_def)
    ultimately have "out_step B c c'"
      using fr out_frame_stream [OF fr] out_frame_tp [OF fr] o B snd_core_eq [OF core]
      by (simp add: out_step_def snd_ok_def n_def sent_below_def)
    then show ?thesis using False by (simp add: tcp_output_once_def mp c'_def)
  next
    case True
    obtain os r where b: "tcp_build_segment c tx opts (tcp_rcv_window c) = Some (r, c\<lparr>c_allocs := os\<rparr>)"
      and sg: "\<And>sg. r = Some sg \<Longrightarrow> segment_ok (snd_una (c_tp c)) (snd_stream c) B sg \<and> (sg_data sg \<noteq> [] \<longrightarrow> sends_data (c_tp c))"
      using build_segment_spec [OF o(1) p(1) [unfolded n_def] p(3,4)] sent_below_send(2) [OF o(2,3) p(1) B(1)] B(2) n_def by blast
    show ?thesis
    proof (cases r)
      case None
      have "tcp_output_once c = Some (- ENOBUFS, c\<lparr>c_allocs := os\<rparr>)" using True by (simp add: tcp_output_once_def mp b None)
      moreover have "out_frame c (c\<lparr>c_allocs := os\<rparr>)" by (simp add: out_frame_def)
      moreover from this have "out_step B c (c\<lparr>c_allocs := os\<rparr>)" using ok B out_frame_stream [of c "c\<lparr>c_allocs := os\<rparr>"]
        by (simp add: out_step_def snd_ok_def fin_kept_def)
      ultimately show ?thesis by (simp add: ENOBUFS_def)
    next
      case (Some g)
      define c1 where "c1 = on_stat (tcp_count_send (c_tp c) tx) (c\<lparr>c_allocs := os\<rparr>)"
      define c2 where "c2 = tcp_after_send tx (tcp_rcv_window c) c1"
      define c3 where "c3 = tcp_checksum_and_send g c2"
      have c1: "c_tp c1 = c_tp c" "c_sent c1 = c_sent c" "out_frame c c1" by (simp_all add: c1_def out_frame_def on_stat_def)
      have s: "snd_seq_ok n (c_tp c2)" "out_frame c1 c2" "sent_below B n (c_tp c2)" "fin_acked (c_tp c2) = fin_acked (c_tp c)" "fin_kept (c_tp c) (c_tp c2)"
        "rel (snd_una (c_tp c)) (snd_max (c_tp c)) \<le> rel (snd_una (c_tp c)) (snd_max (c_tp c2))"
        "(tx_len tx = maxseg \<or> tx_sack tx) \<and> \<not> tx_has tx TH_RST \<and> \<not> tp_flag TF_FORCEDATA (c_tp c) \<longrightarrow> out_left n (c_tp c2) < out_left n (c_tp c)"
        using after_send_spec [of n c1 maxseg tx B "tcp_rcv_window c"] o p(1,2) B unfolding c1(1) n_def c2_def by auto
      have c3: "c_tp c3 = c_tp c2" "c_sent c3 = c_sent c2 @ [g]" "out_frame c2 c3"
        by (simp_all add: c3_def tcp_checksum_and_send_def out_frame_def on_stat_def)
      have fr: "out_frame c c3" using c1(3) s(2) c3(3) out_frame_trans by blast
      have "c_sent c2 = c_sent c" by (simp add: c1 c2_def tcp_after_send_def after_send_timer_def Let_def tcp_upd_defs)
      then have st: "out_step B c c3" using fr s out_frame_stream [OF fr] o sg [OF Some] by (simp add: out_step_def snd_ok_def c3 n_def)
      have "tp_flag TF_FORCEDATA (c_tp c3) = tp_flag TF_FORCEDATA (c_tp c)" by (rule out_frame_tp [OF fr])
      moreover have "tcp_output_once c = Some (if (tx_len tx = maxseg \<or> tx_sack tx) \<and> \<not> tx_has tx TH_RST \<and> \<not> tp_flag TF_FORCEDATA (c_tp c3) then 1 else 0, c3)"
        using True by (simp add: tcp_output_once_def mp b Some c1_def c2_def c3_def Let_def)
      ultimately show ?thesis using st s(7) by (simp add: c3 n_def)
    qed
  qed
qed

section \<open>The whole loop\<close>

lemma out_step_trans:
  assumes 1: "out_step B c c1" and 2: "out_step B c1 c2"
  shows "out_step B c c2"
proof -
  have f: "out_frame c c1" "out_frame c1 c2" using 1 2 by (auto simp: out_step_def)
  note s = out_frame_stream [OF f(1)] out_frame_tp(1,8) [OF f(1)]
  define P where "P sg \<longleftrightarrow> segment_ok (snd_una (c_tp c)) (snd_stream c) B sg \<and> (sg_data sg \<noteq> [] \<longrightarrow> sends_data (c_tp c))" for sg
  obtain s1 s2 where "c_sent c1 = c_sent c @ s1" "\<forall>sg\<in>set s1. P sg" "c_sent c2 = c_sent c1 @ s2" "\<forall>sg\<in>set s2. P sg"
    using 1 2 s unfolding out_step_def P_def by metis
  then have "c_sent c2 = c_sent c @ (s1 @ s2)" "\<forall>sg\<in>set (s1 @ s2). P sg" by auto
  moreover have "rel (snd_una (c_tp c)) (snd_max (c_tp c)) \<le> rel (snd_una (c_tp c)) (snd_max (c_tp c2))" "fin_acked (c_tp c2) = fin_acked (c_tp c)"
    "fin_kept (c_tp c) (c_tp c2)" "snd_ok c2" "sent_below B (length (snd_stream c)) (c_tp c2)"
    using 1 2 s out_frame_tp(2) [OF f(1)] by (auto simp: out_step_def fin_kept_def)
  ultimately show ?thesis using out_frame_trans [OF f] unfolding out_step_def P_def by blast
qed

lemma output_loop_spec:
  "snd_ok c \<Longrightarrow> peer_window (c_tp c) \<le> B \<Longrightarrow> sent_below B (length (snd_stream c)) (c_tp c) \<Longrightarrow>
     \<exists>r c'. output_loop c = Some (r, c') \<and> r \<le> 0 \<and> out_step B c c'"
proof (induction "out_left (length (snd_stream c)) (c_tp c)" arbitrary: c rule: less_induct)
  case less
  obtain r c1 where o: "tcp_output_once c = Some (r, c1)" "out_step B c c1"
    "0 < r \<Longrightarrow> out_left (length (snd_stream c)) (c_tp c1) < out_left (length (snd_stream c)) (c_tp c)"
    using output_once_spec [OF less.prems] by blast
  have f: "out_frame c c1" using o(2) by (simp add: out_step_def)
  note s = out_frame_stream [OF f] out_frame_tp(6) [OF f]
  show ?case
  proof (cases "0 < r")
    case True
    have "\<exists>r c'. output_loop c1 = Some (r, c') \<and> r \<le> 0 \<and> out_step B c1 c'"
      by (rule less.hyps) (use o(2,3) s True less.prems(2) in \<open>auto simp: out_step_def\<close>)
    then obtain r' c' where "output_loop c1 = Some (r', c')" "r' \<le> 0" "out_step B c1 c'" by blast
    then show ?thesis using out_step_trans [OF o(2)] True by (subst output_loop.simps) (auto simp: o(1))
  next
    case False
    then show ?thesis using o by (subst output_loop.simps) auto
  qed
qed

lemma cc_frame_put: "cc_frame tp tp' \<Longrightarrow> tp' = tp\<lparr>snd_cwnd := snd_cwnd tp', snd_ssthresh := snd_ssthresh tp'\<rparr>"
  by (cases tp, cases tp') (simp add: cc_frame_def)

lemma idle_reset:
  assumes "cc_frames (c_cc c)"
  shows "out_frame c (after_idle_reset c)" "snd_core (c_tp (after_idle_reset c)) = snd_core (c_tp c)" "c_sent (after_idle_reset c) = c_sent c"
proof -
  have fr: "cc_frame tp (cc_do (c_cc c) Idle tp)" for tp using assms by (rule cc_frames.frame_law)
  obtain a b where e: "cc_do (c_cc c) Idle (c_tp c) = (c_tp c)\<lparr>snd_cwnd := a, snd_ssthresh := b\<rparr>" using cc_frame_put [OF fr] by blast
  show "c_sent (after_idle_reset c) = c_sent c" by (simp add: after_idle_reset_def Let_def)
  show "snd_core (c_tp (after_idle_reset c)) = snd_core (c_tp c)"
    by (simp add: after_idle_reset_def Let_def e snd_core_def tp_flag_def del: cc_do.simps)
  show "out_frame c (after_idle_reset c)" unfolding after_idle_reset_def Let_def on_tp_def out_frame_def e
    by (auto intro!: out_tp_upd)
qed

lemma tcp_output_spec:
  assumes live: "\<not> c_freed c" and cc: "cc_frames (c_cc c)" and ok: "snd_ok c" and B: "peer_window (c_tp c) \<le> B" "sent_below B (length (snd_stream c)) (c_tp c)"
  shows "\<exists>r c'. tcp_output c = Some (r, c') \<and> r \<le> 0 \<and> out_step B c c'"
proof -
  define c1 where "c1 = after_idle_reset c"
  note i = idle_reset [OF cc, folded c1_def]
  note s = out_frame_stream [OF i(1)] out_frame_tp [OF i(1)]
  note k = snd_core_eq [OF i(2)]
  have m: "snd_max (c_tp c1) = snd_max (c_tp c)" using i(2) by (simp add: snd_core_def)
  have fk: "fin_kept (c_tp c) (c_tp c1)" using i(2) by (simp add: snd_core_def fin_kept_def)
  have "snd_ok c1" "sent_below B (length (snd_stream c1)) (c_tp c1)" using ok B(2) s k m by (auto simp: snd_ok_def sent_below_def)
  then obtain r c' where o: "output_loop c1 = Some (r, c')" "r \<le> 0" "out_step B c1 c'" using output_loop_spec [of c1 B] B(1) s by auto
  have "out_step B c c1" using i(1,3) s \<open>snd_ok c1\<close> \<open>sent_below B (length (snd_stream c1)) (c_tp c1)\<close> using k(5) m fk by (simp add: out_step_def)
  from out_step_trans [OF this o(3)] show ?thesis using o live by (simp add: tcp_output_def c1_def)
qed

section \<open>Properties\<close>


definition example_conn :: tcp_conn where
  "example_conn =
     \<lparr>c_tp = tcpcb_zero\<lparr>tp_state := TCPS_ESTABLISHED, iss := 100, snd_una := 101, snd_nxt := 101, snd_max := 101, sack_rxmit := 101, snd_wnd := 3,
        mss := 536, snd_cwnd := 1072, snd_ssthresh := 4000, rto := 1000\<rparr>,
      c_cc = tcp_cc_newreno, c_inp_flags = 0, c_v4 = True, c_lport = 80, c_fport = 5000, c_gone = False, c_freed = False, c_released = False,
      c_so = Some ((sock_alloc 1)\<lparr>so_snd := sockbuf_append (sockbuf_init 65536) example_pkt\<rparr>), c_ticks = 1000, c_hz = 1000, c_route = None,
      c_allocs = [Some (\<lambda>_. 0)], c_sent = [], c_stat = tcpstat_zero\<rparr>"

lemma example_conn_ok: "snd_ok example_conn" "snd_stream example_conn = [1, 2, 3, 4, 5]" "snd_una (c_tp example_conn) = 101"
  "snd_max (c_tp example_conn) = 101" "peer_window (c_tp example_conn) = 3" "c_sent example_conn = []" "c_cc example_conn = tcp_cc_newreno"
  "\<not> c_freed example_conn"
proof -
  have i: "sockbuf_inv (sockbuf_init 65536)" "sb_stream (sockbuf_init 65536) = []" by (simp_all add: sockbuf_init_def sockbuf_inv_def sb_stream_def)
  have wf: "chain_wf example_pkt" using example_pkt_wf by (simp add: pkt_wf_def)
  have d: "sb_data example_pkt = [1, 2, 3, 4, 5]"
    by (simp add: example_pkt_def example_buf_def netbuf_setup_def sb_data_def nb_bytes_def sockbuf_is_addr_def NETBUF_PKTHDR_def NETBUF_SOCKADDR_def)
  have b: "sockbuf_inv (sockbuf_append (sockbuf_init 65536) example_pkt)" "sb_stream (sockbuf_append (sockbuf_init 65536) example_pkt) = [1, 2, 3, 4, 5]"
    using sockbuf_append_spec [OF i(1) wf] by (simp_all add: i d)
  show s: "snd_stream example_conn = [1, 2, 3, 4, 5]" by (simp add: snd_stream_def example_conn_def b)
  have "sack_ok (c_tp example_conn)" by (simp add: example_conn_def sack_ok_def sack_shape_def sack_view_def tcpcb_zero_def half_def)
  then have "snd_seq_ok n (c_tp example_conn)" for n by (simp add: snd_seq_ok_def snd_limit_def) (simp add: example_conn_def syn_pending_def tcpcb_zero_def tp_flag_def)
  moreover have "sndbuf_ok example_conn" by (simp add: sndbuf_ok_def s) (simp add: example_conn_def b)
  ultimately show "snd_ok example_conn" by (simp add: snd_ok_def s)
qed (simp_all add: example_conn_def peer_window_def tp_flag_def tcpcb_zero_def)


end
