(* ===== verification/TCP_Subr.thy ===== *)
theory TCP_Subr
  imports TCP_Output "HOL-Library.Monad_Syntax"
begin

text \<open>
  The life of a connection, \<^verbatim>\<open>src/kernel/drivers/net/tcp/tcp_subr.c\<close>, and the timer handlers of
  \<^verbatim>\<open>tcp_timer.c\<close>: establishing, closing and dropping connections, the release of the control block and of
  the references to the socket, errors reported by ICMP, retransmission, window probes, keepalive. Use
  of freed memory is None.
\<close>

section \<open>The code\<close>

definition INPCB_IPV6_ONLY :: u32 where "INPCB_IPV6_ONLY = 0x02"
definition INPCB_INHASH :: u32 where "INPCB_INHASH = 0x20"

definition send_out :: "tcp_conn \<Rightarrow> tcp_conn option" where
  "send_out c = map_option snd (tcp_output c)"

text \<open>\<^verbatim>\<open>sock_release\<close> of the socket of the connection: it must still exist.\<close>

definition release_so :: "tcp_conn \<Rightarrow> tcp_conn option" where
  "release_so c = (case c_so c of None \<Rightarrow> None | Some so \<Rightarrow> Some (c\<lparr>c_so := sock_release so\<rparr>))"

text \<open>\<^verbatim>\<open>inpcb_free\<close> and \<^verbatim>\<open>inpcb_hash_remove\<close>, as far as the connection itself is concerned.\<close>

definition conn_unhash :: "tcp_conn \<Rightarrow> tcp_conn" where
  "conn_unhash c = c\<lparr>c_inp_flags := c_inp_flags c AND NOT INPCB_INHASH\<rparr>"

definition tcp_pcb_release :: "tcp_conn \<Rightarrow> tcp_conn option" where
  "tcp_pcb_release c =
     (let c = (conn_unhash c)\<lparr>c_released := True\<rparr> in if c_so c = None then Some c else release_so c)"

text \<open>\<^verbatim>\<open>tcp_attach_pcb\<close> for a new socket: the protocol control block and the control block are allocated.\<close>

definition tcp_attach_pcb :: "tcpcb cc_registry \<Rightarrow> tcp_conn \<Rightarrow> bool \<times> tcp_conn" where
  "tcp_attach_pcb reg c =
     (let (ok, c) = take_alloc c
      in if \<not> ok then (False, c)
         else let (ok, c) = tcp_newtcpcb reg c
              in if \<not> ok then (False, c) else (True, on_so sock_hold c))"

text \<open>The first half of \<^verbatim>\<open>tcp_close\<close>: the control block goes.\<close>

definition tcp_discard :: "tcp_conn \<Rightarrow> tcp_conn" where
  "tcp_discard c =
     (let (draining, tp) = tcp_timer_discard (c_tp c);
          tp = tcp_reassemble_flush tp;
          tp = (case cc_destroy (c_cc c) of Some f \<Rightarrow> f tp | None \<Rightarrow> tp);
          c = on_stat (\<lambda>st. st\<lparr>st_closed := st_closed st + 1\<rparr>) (c\<lparr>c_tp := tp, c_gone := True\<rparr>)
      in if draining \<noteq> 0 then on_tp (\<lambda>tp. tp\<lparr>t_closed := True, t_draining := draining\<rparr>) c else c\<lparr>c_freed := True\<rparr>)"

definition tcp_close :: "tcp_conn \<Rightarrow> tcp_conn option" where
  "tcp_close c =
     (if c_freed c then None
      else let c = tcp_discard c
           in if detached c then tcp_pcb_release c
              else case c_so c of
                     None \<Rightarrow> None
                   | Some so \<Rightarrow>
                       let (dropped, so') = sock_drop_embryo so
                       in if dropped then (case so' of None \<Rightarrow> None | Some so' \<Rightarrow> tcp_pcb_release (c\<lparr>c_so := Some so'\<rparr>))
                          else Some (on_so sock_is_disconnected (conn_unhash c)))"

definition set_so_error :: "int \<Rightarrow> tcp_conn \<Rightarrow> tcp_conn" where
  "set_so_error e c = (if \<not> detached c then on_so (\<lambda>so. so\<lparr>so_error := e\<rparr>) c else c)"

definition tcp_drop :: "int \<Rightarrow> tcp_conn \<Rightarrow> tcp_conn option" where
  "tcp_drop error c =
     do {
       c \<leftarrow> if TCPS_HAVERCVDSYN (tp_state (c_tp c)) then send_out (on_tp (tcp_state_change TCPS_CLOSED) c) else Some c;
       let c = on_stat (\<lambda>st. st\<lparr>st_drops := st_drops st + 1\<rparr>) c;
       tcp_close (set_so_error error c)
     }"

definition tcp_established :: "tcp_conn \<Rightarrow> tcp_conn" where
  "tcp_established c =
     (let c = on_tp (tcp_state_change TCPS_ESTABLISHED) c;
          c = on_stat (\<lambda>st. st\<lparr>st_connects := st_connects st + 1\<rparr>) c;
          c = on_tp (\<lambda>tp. case cc_conn_init (c_cc c) of Some f \<Rightarrow> f tp | None \<Rightarrow> tp) c;
          c = tcp_timer_activate TCPT_KEEP TCP_KEEPIDLE_MS c;
          c = (if \<not> detached c then on_so sock_is_connected c else c)
      in if tp_flag TF_NEEDFIN (c_tp c) then on_tp (\<lambda>tp. tcp_state_change TCPS_FIN_WAIT_1 (clear_flag_tp TF_NEEDFIN tp)) c else c)"

definition tcp_enter_timewait :: "tcp_conn \<Rightarrow> tcp_conn option" where
  "tcp_enter_timewait c =
     (let c = on_tp (\<lambda>tp. tcp_timer_stop_all (tcp_state_change TCPS_TIME_WAIT tp)) c;
          c = tcp_timer_activate TCPT_2MSL (2 * TCP_MSL_MS) c
      in if detached c then Some c
         else if c_so c = None then None
         else Some (on_so sock_is_disconnected c))"

text \<open>\<^verbatim>\<open>tcp_usrclosed\<close>: it returns the control block or null; the connection tells which by \<open>c_gone\<close>.\<close>

definition usrclosed_state :: "tcpcb \<Rightarrow> tcpcb" where
  "usrclosed_state tp =
     (case tp_state tp of
        TCPS_SYN_RECEIVED \<Rightarrow> set_flag_tp TF_NEEDFIN tp
      | TCPS_ESTABLISHED \<Rightarrow> tcp_state_change TCPS_FIN_WAIT_1 tp
      | TCPS_CLOSE_WAIT \<Rightarrow> tcp_state_change TCPS_LAST_ACK tp
      | _ \<Rightarrow> tp)"

definition tcp_usrclosed :: "tcp_conn \<Rightarrow> tcp_conn option" where
  "tcp_usrclosed c =
     (if tp_state (c_tp c) \<in> {TCPS_CLOSED, TCPS_LISTEN, TCPS_SYN_SENT} then tcp_close c
      else let c = on_tp usrclosed_state c
           in Some (if tp_state (c_tp c) = TCPS_FIN_WAIT_2 \<and> detached c then tcp_timer_activate TCPT_2MSL (2 * TCP_MSL_MS) c else c))"

definition tcp_ctlinput_locked :: "int \<Rightarrow> u32 \<Rightarrow> tcp_conn \<Rightarrow> tcp_conn option" where
  "tcp_ctlinput_locked error mtu c =
     (if c_gone c then Some c
      else if mtu \<noteq> 0 then
        let hdr = (if c_v4 c then IPV4_HEADER_LEN else IPV6_HEADER_LEN) + of_nat TCP_HEADER_LEN
        in if mtu > hdr + 64 \<and> mtu - hdr < ucast (mss (c_tp c))
           then send_out (on_tp (\<lambda>tp. tp\<lparr>mss := ucast (mtu - hdr), snd_nxt := snd_una tp\<rparr>) c)
           else Some c
      else if tp_state (c_tp c) = TCPS_SYN_SENT \<and> error = ECONNREFUSED then tcp_drop error c
      else Some (on_tp (\<lambda>tp. tp\<lparr>t_softerror := error\<rparr>) c))"

definition tcp_ctlinput :: "int \<Rightarrow> u32 \<Rightarrow> tcp_conn \<Rightarrow> tcp_conn option" where
  "tcp_ctlinput error mtu c =
     (if c_so c = None then tcp_ctlinput_locked error mtu c
      else tcp_ctlinput_locked error mtu (on_so sock_hold c) \<bind> release_so)"

section \<open>Timer handlers\<close>

text \<open>\<^verbatim>\<open>tcp_timer_begin\<close> and \<^verbatim>\<open>tcp_timer_end\<close> around the work of a handler.\<close>

definition timer_handler :: "tcp_timer_type \<Rightarrow> (tcp_conn \<Rightarrow> tcp_conn option) \<Rightarrow> tcp_conn \<Rightarrow> tcp_conn option" where
  "timer_handler which body c =
     (if c_freed c then None
      else let held = (\<not> t_closed (c_tp c) \<and> c_so c \<noteq> None);
               c = (if held then on_so sock_hold c else c);
               (go, c) = tcp_timer_enter which c
           in (if go then body c else Some c) \<bind> (\<lambda>c. if held then release_so c else Some c))"

definition rexmt_backoff :: "tcpcb \<Rightarrow> tcpcb" where
  "rexmt_backoff tp =
     (if rexmt_shift tp > TCP_MAXRXTSHIFT div 4 then tp\<lparr>rttvar := rttvar tp + sshift (srtt tp) 3, srtt := 0\<rparr> else tp)"

definition rexmt_reset :: "tcpcb \<Rightarrow> tcpcb" where
  "rexmt_reset tp =
     tcp_sack_clear (clear_flag_tp TF_FASTRECOVERY (tp\<lparr>snd_nxt := snd_una tp, snd_recover := snd_max tp, rtt_start := 0, dupacks := 0\<rparr>))"

definition tcp_rexmt_timeout :: "tcp_conn \<Rightarrow> tcp_conn option" where
  "tcp_rexmt_timeout c =
     (let c = on_tp (\<lambda>tp. tp\<lparr>rexmt_shift := rexmt_shift tp + 1\<rparr>) c
      in if rexmt_shift (c_tp c) > TCP_MAXRXTSHIFT
         then tcp_drop (if t_softerror (c_tp c) \<noteq> 0 then t_softerror (c_tp c) else ETIMEDOUT) c
         else
           let c = on_stat (\<lambda>st. st\<lparr>st_rexmttimeo := st_rexmttimeo st + 1\<rparr>) c;
               c = on_tp rexmt_backoff c;
               c = (if TCPS_HAVEESTABLISHED (tp_state (c_tp c)) then on_tp (cc_do (c_cc c) (Signal CC_RTO)) c else c);
               c = on_tp rexmt_reset c
           in send_out (tcp_timer_activate TCPT_REXMT (ucast (tcp_rexmt_ms (c_tp c))) c))"

definition tcp_timer_rexmt :: "tcp_conn \<Rightarrow> tcp_conn option" where
  "tcp_timer_rexmt = timer_handler TCPT_REXMT tcp_rexmt_timeout"

definition persist_timeout :: "tcp_conn \<Rightarrow> tcp_conn option" where
  "persist_timeout c =
     do {
       let c = tcp_setpersist (on_stat (\<lambda>st. st\<lparr>st_persisttimeo := st_persisttimeo st + 1\<rparr>) c);
       c \<leftarrow> send_out (on_tp (set_flag_tp TF_FORCEDATA) c);
       Some (on_tp (clear_flag_tp TF_FORCEDATA) c)
     }"

definition tcp_timer_persist :: "tcp_conn \<Rightarrow> tcp_conn option" where
  "tcp_timer_persist = timer_handler TCPT_PERSIST persist_timeout"

definition tcp_keepalive_enabled :: "tcp_conn \<Rightarrow> bool" where
  "tcp_keepalive_enabled c =
     (case c_so c of None \<Rightarrow> False | Some so \<Rightarrow> so_options so AND SO_KEEPALIVE \<noteq> 0 \<and> tp_state (c_tp c) \<le> TCPS_CLOSE_WAIT)"

definition tcp_keep_timeout :: "tcp_conn \<Rightarrow> tcp_conn option" where
  "tcp_keep_timeout c =
     (if \<not> TCPS_HAVEESTABLISHED (tp_state (c_tp c)) then tcp_drop ETIMEDOUT c
      else if \<not> tcp_keepalive_enabled c then Some (tcp_timer_activate TCPT_KEEP TCP_KEEPIDLE_MS c)
      else
        let idle = tcp_now_ms c - t_rcvtime (c_tp c)
        in if idle < TCP_KEEPIDLE_MS
           then Some (tcp_timer_activate TCPT_KEEP (TCP_KEEPIDLE_MS - idle) (on_tp (\<lambda>tp. tp\<lparr>keep_probes := 0\<rparr>) c))
           else if keep_probes (c_tp c) \<ge> TCP_KEEPCNT
           then tcp_drop ETIMEDOUT (on_stat (\<lambda>st. st\<lparr>st_keeptimeo := st_keeptimeo st + 1\<rparr>) c)
           else
             let c = on_tp (\<lambda>tp. tp\<lparr>keep_probes := keep_probes tp + 1\<rparr>) c;
                 c = tcp_respond (rcv_nxt (c_tp c)) (snd_una (c_tp c) - 1) TH_ACK c
             in Some (tcp_timer_activate TCPT_KEEP TCP_KEEPINTVL_MS c))"

definition tcp_timer_keep :: "tcp_conn \<Rightarrow> tcp_conn option" where
  "tcp_timer_keep = timer_handler TCPT_KEEP tcp_keep_timeout"

definition tcp_timer_2msl :: "tcp_conn \<Rightarrow> tcp_conn option" where
  "tcp_timer_2msl = timer_handler TCPT_2MSL tcp_close"

definition tcp_timer_delack :: "tcp_conn \<Rightarrow> tcp_conn option" where
  "tcp_timer_delack = timer_handler TCPT_DELACK (\<lambda>c. send_out (on_tp (\<lambda>tp. set_flag_tp TF_ACKNOW (clear_flag_tp TF_DELACK tp)) c))"

end
