(* ===== verification/TCP_Input.thy ===== *)
theory TCP_Input
  imports TCP_Subr
begin

text \<open>
  Receiving, \<^verbatim>\<open>src/kernel/drivers/net/tcp/tcp_input.c\<close> from \<^verbatim>\<open>tcp_apply_syn_opts\<close> on (options and reassembly are in
  \<open>TCP_Options\<close> and \<open>TCP_Reassembly\<close>): a segment for a connection in any state, with trimming to the
  receive window, acknowledgements, fast retransmission, the window, data, FIN and RST. The segment is
  given with its header in host byte order and its options parsed or still to be parsed.
\<close>

section \<open>Segments\<close>

definition TCP_PAWS_IDLE_MS :: u64 where "TCP_PAWS_IDLE_MS = 24 * 24 * 60 * 60 * 1000"

record tcp_seg =
  in_sport :: u16
  in_dport :: u16
  in_seq :: tcp_seq
  in_ack :: tcp_seq
  in_flags :: u8
  in_to :: tcp_opts
  in_data :: chain
  in_len :: u32
  in_wnd :: u32

datatype tcp_ack_result = TCP_ACK_CONTINUE | TCP_ACK_DROP | TCP_ACK_DROP_ACK | TCP_ACK_GONE

definition in_has :: "tcp_seg \<Rightarrow> u8 \<Rightarrow> bool" where
  "in_has seg f \<longleftrightarrow> in_flags seg AND f \<noteq> 0"

definition bit_len :: "bool \<Rightarrow> u32" where
  "bit_len b = (if b then 1 else 0)"

section \<open>Handshake\<close>

definition tcp_apply_syn_opts :: "tcp_opts \<Rightarrow> tcp_conn \<Rightarrow> tcp_conn" where
  "tcp_apply_syn_opts to c =
     (let now = tcp_now_ms c;
          c = (if \<not> tp_flag TF_NOOPT (c_tp c) then
                 let c = (if has_opt to TOF_SCALE
                          then on_tp (\<lambda>tp. (set_flag_tp TF_RCVD_SCALE tp)\<lparr>snd_scale := to_wscale to, rcv_scale := req_rcv_scale tp\<rparr>) c else c);
                     c = (if has_opt to TOF_TS
                          then on_tp (\<lambda>tp. (set_flag_tp TF_RCVD_TSTMP tp)\<lparr>ts_recent := to_ts_val to, ts_recent_age := now\<rparr>) c else c)
                 in if has_opt to TOF_SACKPERM then on_tp (set_flag_tp TF_SACK_PERMIT) c else c
               else c)
      in tcp_mss_update (if has_opt to TOF_MSS then to_mss to else 0) c)"

definition tcp_init_rcv :: "tcp_seq \<Rightarrow> tcpcb \<Rightarrow> tcpcb" where
  "tcp_init_rcv i tp = tp\<lparr>irs := i, rcv_nxt := i + 1, rcv_adv := i + 1\<rparr>"

text \<open>\<^verbatim>\<open>tcp_reply_reset\<close>: the reset sent back, if any.\<close>

definition tcp_reply_reset :: "tcp_seg \<Rightarrow> malloc_results \<Rightarrow> segment option \<times> malloc_results" where
  "tcp_reply_reset seg os =
     (if in_has seg TH_RST then (None, os)
      else if in_has seg TH_ACK then tcp_respond_stray (in_dport seg) (in_sport seg) 0 (in_ack seg) TH_RST os
      else let len = in_len seg + bit_len (in_has seg TH_SYN) + bit_len (in_has seg TH_FIN)
           in tcp_respond_stray (in_dport seg) (in_sport seg) (in_seq seg + len) 0 (TH_RST OR TH_ACK) os)"

definition reply_reset_conn :: "tcp_seg \<Rightarrow> tcp_conn \<Rightarrow> tcp_conn" where
  "reply_reset_conn seg c =
     (case tcp_reply_reset seg (c_allocs c) of
        (None, os) \<Rightarrow> c\<lparr>c_allocs := os\<rparr>
      | (Some sg, os) \<Rightarrow> tcp_checksum_and_send sg (c\<lparr>c_allocs := os\<rparr>))"

definition tcp_send_challenge_ack :: "tcp_conn \<Rightarrow> tcp_conn" where
  "tcp_send_challenge_ack c = tcp_respond (rcv_nxt (c_tp c)) (snd_nxt (c_tp c)) TH_ACK c"

text \<open>What \<^verbatim>\<open>tcp_input_listen\<close> uses besides the listening connection: the registry of congestion control
  algorithms, whether the packet is IPv4, the two queue lengths and the backlog of the listening
  socket, the route back to the peer and the hash in the initial sequence number.\<close>

record listen_env =
  le_reg :: "tcpcb cc_registry"
  le_v4 :: bool
  le_incomplete :: nat
  le_complete :: nat
  le_backlog :: nat
  le_route :: "u32 option"
  le_hash :: u32

text \<open>The new connection, once it has its control blocks, up to the SYN it answers with.\<close>

definition listen_open :: "listen_env \<Rightarrow> tcp_seg \<Rightarrow> tcp_conn \<Rightarrow> tcp_conn \<Rightarrow> tcp_conn option" where
  "listen_open e seg lp c =
     (let c = c\<lparr>c_v4 := le_v4 e, c_fport := in_sport seg, c_lport := c_lport lp, c_route := le_route e,
                c_inp_flags := c_inp_flags c OR (c_inp_flags lp AND (INPCB_IPV6 OR INPCB_IPV6_ONLY)) OR INPCB_INHASH\<rparr>;
          c = tcp_apply_syn_opts (in_to seg) c;
          c = on_tp (tcp_init_rcv (in_seq seg)) c;
          c = tcp_sendseqinit (le_hash e) c;
          c = on_tp (\<lambda>tp. tcp_state_change TCPS_SYN_RECEIVED (tp\<lparr>snd_wnd := in_wnd seg, snd_wl1 := in_seq seg\<rparr>)) c;
          c = tcp_timer_activate TCPT_KEEP TCP_KEEPINIT_MS c;
          c = on_tp (set_flag_tp TF_ACKNOW) c;
          c = on_stat (\<lambda>st. st\<lparr>st_accepts := st_accepts st + 1\<rparr>) c
      in send_out c)"

text \<open>\<^verbatim>\<open>tcp_input_listen\<close>: the listening connection, and the new one if there is one. Allocation outcomes and
  statistics are shared.\<close>

definition tcp_input_listen :: "listen_env \<Rightarrow> tcp_seg \<Rightarrow> tcp_conn \<Rightarrow> (tcp_conn \<times> tcp_conn option) option" where
  "tcp_input_listen e seg lp =
     (if in_has seg TH_RST then Some (lp, None)
      else if in_has seg TH_ACK then Some (reply_reset_conn seg lp, None)
      else if \<not> in_has seg TH_SYN then Some (lp, None)
      else case c_so lp of
             None \<Rightarrow> None
           | Some head \<Rightarrow>
               let (ok, lp) = take_alloc lp
               in case sock_new_conn ok (le_incomplete e) (le_complete e) (le_backlog e) head of
                    None \<Rightarrow> Some (lp, None)
                  | Some so \<Rightarrow>
                      let (ok, c) = tcp_attach_pcb (le_reg e)
                            (lp\<lparr>c_so := Some so, c_sent := [], c_inp_flags := c_inp_flags lp AND INPCB_IPV6, c_released := False\<rparr>)
                      in if \<not> ok then Some (lp\<lparr>c_allocs := c_allocs c\<rparr>, None)
                         else map_option (\<lambda>c. (lp\<lparr>c_allocs := c_allocs c, c_stat := c_stat c\<rparr>, Some c)) (listen_open e seg lp c))"

definition syn_sent_ack :: "tcp_seg \<Rightarrow> tcp_conn \<Rightarrow> tcp_conn" where
  "syn_sent_ack seg c =
     (let c = on_tp (\<lambda>tp. if rtt_start tp \<noteq> 0 then tcp_xmit_timer (c_hz c) (ucast (tcp_now_ms c - rtt_start tp)) tp else tp) c;
          c = on_tp (\<lambda>tp. tcp_timer_stop TCPT_REXMT (tp\<lparr>rtt_start := 0, rexmt_shift := 0\<rparr>)) c;
          c = on_tp (\<lambda>tp. tp\<lparr>snd_una := in_ack seg\<rparr>) c;
          c = on_tp (\<lambda>tp. if SEQ_LT (snd_nxt tp) (snd_una tp) then tp\<lparr>snd_nxt := snd_una tp\<rparr> else tp) c;
          c = tcp_established (on_tp (\<lambda>tp. tp\<lparr>sack_rxmit := snd_una tp\<rparr>) c)
      in on_tp (\<lambda>tp. tp\<lparr>snd_wl1 := in_seq seg\<rparr>) c)"

text \<open>\<^verbatim>\<open>tcp_input_syn_sent\<close>: whether the segment is processed further, and as what.\<close>

definition tcp_input_syn_sent :: "tcp_seg \<Rightarrow> tcp_conn \<Rightarrow> (tcp_seg option \<times> tcp_conn) option" where
  "tcp_input_syn_sent seg c =
     (if in_has seg TH_ACK \<and> (SEQ_LEQ (in_ack seg) (iss (c_tp c)) \<or> SEQ_GT (in_ack seg) (snd_max (c_tp c))) then
        Some (None, if \<not> in_has seg TH_RST then tcp_respond 0 (in_ack seg) TH_RST c else c)
      else if in_has seg TH_RST then
        (if in_has seg TH_ACK then map_option (Pair None) (tcp_drop ECONNREFUSED c) else Some (None, c))
      else if \<not> in_has seg TH_SYN then Some (None, c)
      else
        let c = on_tp (tcp_init_rcv (in_seq seg)) c;
            c = on_tp (set_flag_tp TF_ACKNOW) (tcp_apply_syn_opts (in_to seg) c)
        in if \<not> in_has seg TH_ACK then
             map_option (Pair None) (send_out (on_tp (\<lambda>tp. tcp_state_change TCPS_SYN_RECEIVED
               (tp\<lparr>snd_wnd := in_wnd seg, snd_wl1 := in_seq seg, snd_nxt := iss tp\<rparr>)) c))
           else Some (Some (seg\<lparr>in_seq := in_seq seg + 1, in_flags := in_flags seg AND NOT TH_SYN\<rparr>), syn_sent_ack seg c))"

section \<open>Checks on arrival\<close>

definition tcp_rcv_space :: "tcp_conn \<Rightarrow> u32" where
  "tcp_rcv_space c =
     (let space = (case c_so c of Some so \<Rightarrow> ucast (sockbuf_space (so_rcv so)) | None \<Rightarrow> 0);
          advertised = rcv_advertised (c_tp c)
      in if space > advertised then space else advertised)"

definition tcp_paws_ok :: "tcp_seg \<Rightarrow> tcp_conn \<Rightarrow> bool \<times> tcp_conn" where
  "tcp_paws_ok seg c =
     (let tp = c_tp c
      in if \<not> has_opt (in_to seg) TOF_TS \<or> \<not> tp_flag TF_RCVD_TSTMP tp \<or> in_has seg TH_RST then (True, c)
         else if sint (to_ts_val (in_to seg) - ts_recent tp) \<ge> 0 then (True, c)
         else if tcp_now_ms c - ts_recent_age tp > TCP_PAWS_IDLE_MS then (True, on_tp (\<lambda>tp. tp\<lparr>ts_recent := 0\<rparr>) c)
         else (False, on_stat (\<lambda>st. st\<lparr>st_rcvduppack := st_rcvduppack st + 1\<rparr>) c))"

definition tcp_update_ts_recent :: "tcp_seg \<Rightarrow> tcp_conn \<Rightarrow> tcp_conn" where
  "tcp_update_ts_recent seg c =
     (let span = in_len seg + bit_len (in_has seg (TH_SYN OR TH_FIN)); tp = c_tp c
      in if has_opt (in_to seg) TOF_TS \<and> SEQ_LEQ (in_seq seg) (last_ack_sent tp) \<and> SEQ_LEQ (last_ack_sent tp) (in_seq seg + span)
         then on_tp (\<lambda>tp. tp\<lparr>ts_recent := to_ts_val (in_to seg), ts_recent_age := tcp_now_ms c\<rparr>) c else c)"

definition rst_error :: "tcp_state \<Rightarrow> int" where
  "rst_error s =
     (case s of TCPS_SYN_RECEIVED \<Rightarrow> ECONNREFUSED
      | TCPS_ESTABLISHED \<Rightarrow> ECONNRESET | TCPS_FIN_WAIT_1 \<Rightarrow> ECONNRESET | TCPS_FIN_WAIT_2 \<Rightarrow> ECONNRESET | TCPS_CLOSE_WAIT \<Rightarrow> ECONNRESET
      | _ \<Rightarrow> 0)"

definition tcp_input_rst :: "tcp_seg \<Rightarrow> tcp_conn \<Rightarrow> tcp_conn option" where
  "tcp_input_rst seg c =
     (let tp = c_tp c
      in if in_seq seg \<noteq> rcv_nxt tp then
           let wnd = (if rcv_wnd tp \<noteq> 0 then rcv_wnd tp else 1)
           in Some (if SEQ_GT (in_seq seg) (rcv_nxt tp) \<and> SEQ_LT (in_seq seg) (rcv_nxt tp + wnd) then tcp_send_challenge_ack c else c)
         else tcp_close (if rst_error (tp_state tp) \<noteq> 0 then set_so_error (rst_error (tp_state tp)) c else c))"

text \<open>The two halves of \<^verbatim>\<open>tcp_trim_segment\<close>: what was received before, and what is beyond the window (None: the
  whole segment is).\<close>

definition trim_front :: "tcp_seg \<Rightarrow> tcp_conn \<Rightarrow> (tcp_seg \<times> tcp_conn) option" where
  "trim_front seg c =
     (let todrop = rcv_nxt (c_tp c) - in_seq seg
      in if sint todrop > 0 then
           let (seg, todrop) = (if in_has seg TH_SYN
                 then (seg\<lparr>in_flags := in_flags seg AND NOT TH_SYN, in_seq := in_seq seg + 1\<rparr>, todrop - 1) else (seg, todrop));
               (seg, todrop, c) =
                 (if todrop > in_len seg \<or> todrop = in_len seg \<and> \<not> in_has seg TH_FIN
                  then (seg\<lparr>in_flags := in_flags seg AND NOT TH_FIN\<rparr>, in_len seg,
                        on_stat (\<lambda>st. st\<lparr>st_rcvduppack := st_rcvduppack st + 1\<rparr>) (on_tp (set_flag_tp TF_ACKNOW) c))
                  else (seg, todrop, c))
           in case netbuf_adj (in_data seg) (sint todrop) of
                Fault \<Rightarrow> None
              | Done nb \<Rightarrow> Some (seg\<lparr>in_data := nb, in_seq := in_seq seg + todrop, in_len := in_len seg - todrop\<rparr>, c)
         else Some (seg, c))"

definition trim_back :: "tcp_seg \<Rightarrow> tcp_conn \<Rightarrow> (tcp_seg option \<times> tcp_conn) option" where
  "trim_back seg c =
     (let tp = c_tp c; todrop = in_seq seg + in_len seg - (rcv_nxt tp + rcv_wnd tp)
      in if sint todrop > 0 then
           if todrop \<ge> in_len seg \<and> (rcv_wnd tp \<noteq> 0 \<or> in_seq seg \<noteq> rcv_nxt tp) then Some (None, c)
           else
             let (todrop, c) = (if todrop \<ge> in_len seg then (in_len seg, on_tp (set_flag_tp TF_ACKNOW) c) else (todrop, c))
             in case netbuf_adj (in_data seg) (- sint todrop) of
                  Fault \<Rightarrow> None
                | Done nb \<Rightarrow> Some (Some (seg\<lparr>in_data := nb, in_len := in_len seg - todrop,
                                             in_flags := in_flags seg AND NOT (TH_PUSH OR TH_FIN)\<rparr>), c)
         else Some (Some seg, c))"

definition tcp_trim_segment :: "tcp_seg \<Rightarrow> tcp_conn \<Rightarrow> (tcp_seg option \<times> tcp_conn) option" where
  "tcp_trim_segment seg c = do { (seg, c) \<leftarrow> trim_front seg c; trim_back seg c }"

section \<open>Acknowledgements\<close>

definition tcp_rtt_sample :: "tcp_seg \<Rightarrow> tcp_conn \<Rightarrow> tcp_conn" where
  "tcp_rtt_sample seg c =
     (let tp = c_tp c; now = tcp_now_ms c; timed = (rtt_start tp \<noteq> 0 \<and> SEQ_GT (in_ack seg) (rtt_seq tp));
          c = (if has_opt (in_to seg) TOF_TS \<and> tp_flag TF_RCVD_TSTMP tp \<and> to_ts_ecr (in_to seg) \<noteq> 0
               then on_tp (tcp_xmit_timer (c_hz c) (ucast now - to_ts_ecr (in_to seg))) c
               else if timed then on_tp (tcp_xmit_timer (c_hz c) (ucast (now - rtt_start tp))) c
               else c)
      in if timed then on_tp (\<lambda>tp. tp\<lparr>rtt_start := 0\<rparr>) c else c)"

text \<open>\<^verbatim>\<open>tcp_retransmit_from\<close>: the end of what was sent.\<close>

definition tcp_retransmit_from :: "tcp_seq \<Rightarrow> u32 \<Rightarrow> tcp_conn \<Rightarrow> (tcp_seq \<times> tcp_conn) option" where
  "tcp_retransmit_from from cwnd c =
     do {
       let onxt = snd_nxt (c_tp c);
       c \<leftarrow> send_out (on_tp (\<lambda>tp. tp\<lparr>snd_nxt := from, snd_cwnd := cwnd\<rparr>) c);
       Some (snd_nxt (c_tp c), on_tp (\<lambda>tp. if SEQ_GT onxt (snd_nxt tp) then tp\<lparr>snd_nxt := onxt\<rparr> else tp) c)
     }"

definition recovery_window :: "tcp_seq \<Rightarrow> tcpcb \<Rightarrow> tcpcb" where
  "recovery_window stop tp =
     (let tp = set_flag_tp TF_FASTRECOVERY tp
      in if tp_flag TF_SACK_PERMIT tp
         then tp\<lparr>sack_rxmit := stop, sack_rexmit_bytes := stop - snd_una tp, snd_cwnd := snd_ssthresh tp\<rparr>
         else tp\<lparr>snd_cwnd := snd_ssthresh tp + dupacks tp * ucast (mss tp)\<rparr>)"

definition tcp_enter_recovery :: "tcp_conn \<Rightarrow> tcp_conn option" where
  "tcp_enter_recovery c =
     do {
       let c = on_tp (cc_do (c_cc c) (Signal CC_DUPACK)) c;
       let c = on_tp (\<lambda>tp. (tcp_timer_stop TCPT_REXMT (tp\<lparr>snd_recover := snd_max tp\<rparr>))\<lparr>rtt_start := 0\<rparr>) c;
       (stop, c) \<leftarrow> tcp_retransmit_from (snd_una (c_tp c)) (ucast (mss (c_tp c))) c;
       Some (on_tp (recovery_window stop) c)
     }"

definition tcp_dupack :: "tcp_seg \<Rightarrow> tcp_conn \<Rightarrow> tcp_conn option" where
  "tcp_dupack seg c =
     (let tp = c_tp c;
          dup = (in_len seg = 0 \<and> in_wnd seg = snd_wnd tp \<and> in_ack seg = snd_una tp \<and> snd_max tp \<noteq> snd_una tp \<and> \<not> in_has seg TH_FIN)
      in if \<not> dup then Some (on_tp (\<lambda>tp. tp\<lparr>dupacks := 0\<rparr>) c)
         else if tp_flag TF_FASTRECOVERY tp
         then Some (if \<not> tp_flag TF_SACK_PERMIT tp then on_tp (\<lambda>tp. tp\<lparr>snd_cwnd := snd_cwnd tp + ucast (mss tp)\<rparr>) c else c)
         else let c = on_tp (\<lambda>tp. tp\<lparr>dupacks := dupacks tp + 1\<rparr>) c
              in if dupacks (c_tp c) = 3 \<and> SEQ_GT (in_ack seg) (snd_recover (c_tp c)) then tcp_enter_recovery c else Some c)"

definition tcp_partial_ack :: "tcp_seq \<Rightarrow> tcp_conn \<Rightarrow> tcp_conn option" where
  "tcp_partial_ack ack c =
     (if tp_flag TF_SACK_PERMIT (c_tp c) then Some c
      else
        do {
          let acked = ack - snd_una (c_tp c);
          let ocwnd = snd_cwnd (c_tp c);
          let c = on_tp (\<lambda>tp. (tcp_timer_stop TCPT_REXMT tp)\<lparr>rtt_start := 0\<rparr>) c;
          (_, c) \<leftarrow> tcp_retransmit_from ack (ucast (mss (c_tp c)) + acked) c;
          Some (on_tp (\<lambda>tp. tp\<lparr>snd_cwnd := (if ocwnd > acked then ocwnd - acked else 0) + ucast (mss tp)\<rparr>) c)
        })"

definition tcp_exit_recovery :: "tcp_conn \<Rightarrow> tcp_conn" where
  "tcp_exit_recovery c =
     on_tp (\<lambda>tp. cc_do (c_cc c) Recovered ((clear_flag_tp TF_FASTRECOVERY tp)\<lparr>dupacks := 0, sack_rexmit_bytes := 0\<rparr>)) c"

definition acked_bytes :: "tcpcb \<Rightarrow> tcp_seq \<Rightarrow> u32 \<Rightarrow> u32" where
  "acked_bytes tp ack acked =
     (let acked = (if SEQ_LEQ (snd_una tp) (iss tp) then acked - 1 else acked)
      in if tp_flag TF_SENTFIN tp \<and> ack = snd_max tp then acked - 1 else acked)"

definition tcp_drop_acked_data :: "tcp_seq \<Rightarrow> u32 \<Rightarrow> tcp_conn \<Rightarrow> tcp_conn" where
  "tcp_drop_acked_data ack acked c =
     (let acked = acked_bytes (c_tp c) ack acked
      in if acked = 0 then c
         else on_so (\<lambda>so. sock_wakeup (so\<lparr>so_snd := sockbuf_drop (so_snd so)
                (unat (if ucast acked < sb_cc (so_snd so) then ucast acked else sb_cc (so_snd so)))\<rparr>)) c)"

text \<open>\<^verbatim>\<open>tcp_new_ack\<close>: the congestion window, then the buffer, the sequence numbers and the timer.\<close>

definition new_ack_window :: "tcp_seq \<Rightarrow> tcp_conn \<Rightarrow> tcp_conn option" where
  "new_ack_window ack c =
     (if \<not> tp_flag TF_FASTRECOVERY (c_tp c)
      then Some (on_tp (\<lambda>tp. cc_do (c_cc c) (Ack (ack - snd_una tp)) (tp\<lparr>dupacks := 0\<rparr>)) c)
      else if SEQ_LT ack (snd_recover (c_tp c)) then tcp_partial_ack ack c
      else Some (tcp_exit_recovery c))"

definition new_ack_advance :: "tcp_seq \<Rightarrow> tcpcb \<Rightarrow> tcpcb" where
  "new_ack_advance ack tp =
     (let tp = tp\<lparr>snd_una := ack\<rparr>;
          tp = (if SEQ_LT (snd_nxt tp) ack then tp\<lparr>snd_nxt := ack\<rparr> else tp)
      in (tcp_sack_ack tp ack)\<lparr>rexmt_shift := 0\<rparr>)"

definition tcp_new_ack :: "tcp_seg \<Rightarrow> tcp_conn \<Rightarrow> tcp_conn option" where
  "tcp_new_ack seg c =
     do {
       let ack = in_ack seg;
       let acked = ack - snd_una (c_tp c);
       c \<leftarrow> new_ack_window ack (tcp_rtt_sample seg c);
       let c = on_tp (new_ack_advance ack) (tcp_drop_acked_data ack acked c);
       Some (if ack = snd_max (c_tp c) then on_tp (tcp_timer_stop TCPT_REXMT) c
             else if \<not> tcp_timer_active (c_tp c) TCPT_PERSIST
             then tcp_timer_activate TCPT_REXMT (ucast (tcp_rexmt_ms (c_tp c))) c
             else c)
     }"

definition tcp_our_fin_acked :: "tcp_conn \<Rightarrow> (tcp_ack_result \<times> tcp_conn) option" where
  "tcp_our_fin_acked c =
     (if \<not> tp_flag TF_SENTFIN (c_tp c) \<or> snd_una (c_tp c) \<noteq> snd_max (c_tp c) then Some (TCP_ACK_CONTINUE, c)
      else case tp_state (c_tp c) of
             TCPS_FIN_WAIT_1 \<Rightarrow>
               let c = on_tp (tcp_state_change TCPS_FIN_WAIT_2) c
               in Some (TCP_ACK_CONTINUE, if detached c then tcp_timer_activate TCPT_2MSL (2 * TCP_MSL_MS) c else c)
           | TCPS_CLOSING \<Rightarrow> map_option (Pair TCP_ACK_CONTINUE) (tcp_enter_timewait c)
           | TCPS_LAST_ACK \<Rightarrow> map_option (Pair TCP_ACK_GONE) (tcp_close c)
           | _ \<Rightarrow> Some (TCP_ACK_CONTINUE, c))"

definition tcp_process_ack :: "tcp_seg \<Rightarrow> tcp_conn \<Rightarrow> (tcp_ack_result \<times> tcp_conn) option" where
  "tcp_process_ack seg c =
     (let ack = in_ack seg
      in if tp_state (c_tp c) = TCPS_SYN_RECEIVED \<and> (SEQ_LEQ ack (snd_una (c_tp c)) \<or> SEQ_GT ack (snd_max (c_tp c)))
         then Some (TCP_ACK_DROP, tcp_respond 0 ack TH_RST c)
         else
           let c = (if tp_state (c_tp c) = TCPS_SYN_RECEIVED then tcp_established c else c)
           in if SEQ_GT ack (snd_max (c_tp c)) then Some (TCP_ACK_DROP_ACK, c)
              else
                let c = (if tp_flag TF_SACK_PERMIT (c_tp c) \<and> has_opt (in_to seg) TOF_SACK
                         then on_tp (\<lambda>tp. tcp_sack_update tp (to_sacks (in_to seg))) c else c)
                in if SEQ_LEQ ack (snd_una (c_tp c)) then map_option (Pair TCP_ACK_CONTINUE) (tcp_dupack seg c)
                   else tcp_new_ack seg c \<bind> tcp_our_fin_acked)"

definition tcp_update_window :: "tcp_seg \<Rightarrow> tcpcb \<Rightarrow> tcpcb" where
  "tcp_update_window seg tp =
     (if SEQ_LT (snd_wl1 tp) (in_seq seg) \<or>
         snd_wl1 tp = in_seq seg \<and> (SEQ_LT (snd_wl2 tp) (in_ack seg) \<or> snd_wl2 tp = in_ack seg \<and> in_wnd seg > snd_wnd tp)
      then tp\<lparr>snd_wnd := in_wnd seg, snd_wl1 := in_seq seg, snd_wl2 := in_ack seg\<rparr> else tp)"

section \<open>Data\<close>

definition tcp_process_fin :: "tcp_conn \<Rightarrow> tcp_conn option" where
  "tcp_process_fin c =
     (let c = (if \<not> detached c then on_so sock_cant_recv_more c else c);
          c = on_tp (\<lambda>tp. set_flag_tp TF_ACKNOW (tp\<lparr>rcv_nxt := rcv_nxt tp + 1\<rparr>)) c
      in case tp_state (c_tp c) of
           TCPS_SYN_RECEIVED \<Rightarrow> Some (on_tp (tcp_state_change TCPS_CLOSE_WAIT) c)
         | TCPS_ESTABLISHED \<Rightarrow> Some (on_tp (tcp_state_change TCPS_CLOSE_WAIT) c)
         | TCPS_FIN_WAIT_1 \<Rightarrow> Some (on_tp (tcp_state_change TCPS_CLOSING) c)
         | TCPS_FIN_WAIT_2 \<Rightarrow> tcp_enter_timewait c
         | _ \<Rightarrow> Some c)"

definition tcp_schedule_ack :: "bool \<Rightarrow> tcp_conn \<Rightarrow> tcp_conn" where
  "tcp_schedule_ack delay c =
     (if \<not> delay \<or> tp_flag TF_DELACK (c_tp c) then on_tp (set_flag_tp TF_ACKNOW) c
      else tcp_timer_activate TCPT_DELACK TCP_DELACK_MS (on_tp (set_flag_tp TF_DELACK) c))"

definition reassemble_conn :: "tcp_seg \<Rightarrow> tcp_conn \<Rightarrow> (u8 \<times> tcp_conn) option" where
  "reassemble_conn seg c =
     (let (ok, c) = take_alloc c
      in case tcp_reassemble ok (c_tp c) (c_so c) (c_stat c) (Some (in_seq seg, in_flags seg)) (in_data seg) (in_len seg) of
           Fault \<Rightarrow> None
         | Done (tp, so, st, fin) \<Rightarrow> Some (fin, c\<lparr>c_tp := tp, c_so := so, c_stat := st\<rparr>))"

definition tcp_process_data :: "tcp_seg \<Rightarrow> tcp_conn \<Rightarrow> (bool \<times> tcp_conn) option" where
  "tcp_process_data seg c =
     (if TCPS_HAVERCVDFIN (tp_state (c_tp c)) \<or> in_len seg = 0 \<and> \<not> in_has seg TH_FIN then Some (True, c)
      else if in_len seg \<noteq> 0 \<and> detached c then map_option (Pair False) (tcp_drop 0 c)
      else
        do {
          let in_order = (in_seq seg = rcv_nxt (c_tp c) \<and> reassemble_queue (c_tp c) = []);
          let c = (if \<not> in_order then on_stat (\<lambda>st. st\<lparr>st_rcvoopack := st_rcvoopack st + 1\<rparr>) c else c);
          (fin, c) \<leftarrow> reassemble_conn seg c;
          let c = (if in_len seg \<noteq> 0 then tcp_schedule_ack in_order c else c);
          map_option (Pair True) (if fin \<noteq> 0 then tcp_process_fin c else Some c)
        })"

section \<open>The input routine\<close>

definition drop_after_ack :: "tcp_conn \<Rightarrow> tcp_conn option" where
  "drop_after_ack c = send_out (on_tp (set_flag_tp TF_ACKNOW) c)"

text \<open>The part of \<^verbatim>\<open>tcp_input_sync\<close> after the acknowledgement.\<close>

definition sync_rest :: "tcp_seg \<Rightarrow> tcp_conn \<Rightarrow> tcp_conn option" where
  "sync_rest seg c =
     do {
       (go, c) \<leftarrow> tcp_process_data seg (on_tp (tcp_update_window seg) c);
       if go then send_out c else Some c
     }"

definition sync_ack :: "tcp_seg \<Rightarrow> tcp_conn \<Rightarrow> tcp_conn option" where
  "sync_ack seg c =
     (if in_has seg TH_SYN then Some (tcp_send_challenge_ack c)
      else if \<not> in_has seg TH_ACK then Some c
      else
        do {
          (r, c) \<leftarrow> tcp_process_ack seg (tcp_update_ts_recent seg c);
          (case r of TCP_ACK_CONTINUE \<Rightarrow> sync_rest seg c | TCP_ACK_DROP \<Rightarrow> Some c | TCP_ACK_DROP_ACK \<Rightarrow> drop_after_ack c | TCP_ACK_GONE \<Rightarrow> Some c)
        })"

definition tcp_input_sync :: "tcp_seg \<Rightarrow> tcp_conn \<Rightarrow> tcp_conn option" where
  "tcp_input_sync seg c =
     (let c = on_tp (\<lambda>tp. tp\<lparr>rcv_wnd := tcp_rcv_space c\<rparr>) c;
          (ok, c) = tcp_paws_ok seg c
      in if \<not> ok then drop_after_ack c
         else if in_has seg TH_RST then tcp_input_rst seg c
         else
           do {
             (seg, c) \<leftarrow> tcp_trim_segment seg c;
             (case seg of None \<Rightarrow> drop_after_ack c | Some seg \<Rightarrow> sync_ack seg c)
           })"

text \<open>A packet: its TCP header, the option bytes, and the buffer chain, whose first \<open>pk_off\<close> bytes are the
  headers.\<close>

record tcp_packet =
  pk_sport :: u16
  pk_dport :: u16
  pk_seq :: tcp_seq
  pk_ack :: tcp_seq
  pk_flags :: u8
  pk_win :: u16
  pk_opts :: bytes
  pk_chain :: chain
  pk_off :: nat

definition pk_len :: "tcp_packet \<Rightarrow> u32" where
  "pk_len pk = ucast (nb_pkt_len (hd (pk_chain pk)) - of_nat (pk_off pk))"

definition tcp_input :: "listen_env \<Rightarrow> tcp_packet \<Rightarrow> tcp_conn \<Rightarrow> (tcp_conn \<times> tcp_conn option) option" where
  "tcp_input e pk c =
     (if c_freed c then None
      else case tcp_dooptions (pk_opts pk) (pk_flags pk AND TH_SYN \<noteq> 0) of
        Fault \<Rightarrow> None
      | Done to \<Rightarrow>
          let seg = \<lparr>in_sport = pk_sport pk, in_dport = pk_dport pk, in_seq = pk_seq pk, in_ack = pk_ack pk, in_flags = pk_flags pk,
                     in_to = to, in_data = [], in_len = pk_len pk,
                     in_wnd = (if pk_flags pk AND TH_SYN \<noteq> 0 then ucast (pk_win pk) else push_bit (unat (snd_scale (c_tp c))) (ucast (pk_win pk)))\<rparr>;
              c = on_tp (\<lambda>tp. tp\<lparr>t_rcvtime := tcp_now_ms c, keep_probes := 0\<rparr>) c
          in if tp_state (c_tp c) = TCPS_CLOSED then Some (reply_reset_conn seg c, None)
             else if tp_state (c_tp c) = TCPS_LISTEN then tcp_input_listen e seg c
             else
               do {
                 (seg, c) \<leftarrow> (if tp_state (c_tp c) = TCPS_SYN_SENT then tcp_input_syn_sent seg c else Some (Some seg, c));
                 (case seg of
                    None \<Rightarrow> Some (c, None)
                  | Some seg \<Rightarrow>
                      (case netbuf_adj (pk_chain pk) (int (pk_off pk)) of
                         Fault \<Rightarrow> None
                       | Done nb \<Rightarrow> map_option (\<lambda>c. (c, None)) (tcp_input_sync (seg\<lparr>in_data := nb\<rparr>) c)))
               })"

end
