(* ===== verification/TCP_Usrreq.thy ===== *)
theory TCP_Usrreq
  imports TCP_Subr
begin

text \<open>
  The requests a socket makes of TCP, \<^verbatim>\<open>src/kernel/drivers/net/tcp/tcp_usrreq.c\<close>. Results of requests are the
  integers the C functions return. What \<^verbatim>\<open>inpcb_bind\<close> and \<^verbatim>\<open>inpcb_connect\<close> decide is an argument
  (\<open>Inpcb\<close> has them).
\<close>

definition IPPROTO_TCP :: int where "IPPROTO_TCP = 6"
definition TCP_NODELAY :: int where "TCP_NODELAY = 1"
definition TCP_MAXSEG :: int where "TCP_MAXSEG = 2"

definition tcp_gone_error :: "socket \<Rightarrow> int" where
  "tcp_gone_error so = (if so_error so \<noteq> 0 then - so_error so else - ENOTCONN)"

definition tcp_listen :: "int \<times> u16 \<Rightarrow> tcp_conn \<Rightarrow> int \<times> tcp_conn" where
  "tcp_listen bd c =
     (if c_gone c \<or> tp_state (c_tp c) \<noteq> TCPS_CLOSED \<and> tp_state (c_tp c) \<noteq> TCPS_LISTEN then (- EINVAL, c)
      else
        let (err, c) = (if c_lport c = 0
              then (fst bd, if fst bd = 0 then c\<lparr>c_lport := snd bd, c_inp_flags := c_inp_flags c OR INPCB_INHASH\<rparr> else c) else (0, c))
        in (err, if err = 0 then on_tp (tcp_state_change TCPS_LISTEN) c else c))"

text \<open>What \<^verbatim>\<open>inpcb_connect\<close> sets: whether the peer is IPv4, the ports, and with them the route and the hash
  for the initial sequence number.\<close>

record connect_result =
  cr_err :: int
  cr_v4 :: bool
  cr_lport :: u16
  cr_fport :: u16
  cr_route :: "u32 option"
  cr_hash :: u32

definition tcp_connect :: "connect_result \<Rightarrow> tcp_conn \<Rightarrow> (int \<times> tcp_conn) option" where
  "tcp_connect r c =
     (if c_gone c then Some (- EINVAL, c)
      else if tp_state (c_tp c) = TCPS_SYN_SENT then Some (- EALREADY, c)
      else if tp_state (c_tp c) \<noteq> TCPS_CLOSED then Some (- EISCONN, c)
      else if cr_err r \<noteq> 0 then Some (cr_err r, c)
      else
        let c = c\<lparr>c_v4 := cr_v4 r, c_lport := cr_lport r, c_fport := cr_fport r, c_route := cr_route r, c_inp_flags := c_inp_flags c OR INPCB_INHASH\<rparr>;
            c = tcp_sendseqinit (cr_hash r) c;
            c = on_tp (tcp_state_change TCPS_SYN_SENT) c;
            c = on_so sock_is_connecting c;
            c = tcp_timer_activate TCPT_KEEP TCP_KEEPINIT_MS c;
            c = on_stat (\<lambda>st. st\<lparr>st_connattempt := st_connattempt st + 1\<rparr>) c
        in map_option (Pair 0) (send_out c))"

definition tcp_send :: "bool \<Rightarrow> chain \<Rightarrow> tcp_conn \<Rightarrow> (int \<times> tcp_conn) option" where
  "tcp_send oob nb c =
     (if oob then Some (- EOPNOTSUPP, c)
      else case c_so c of
             None \<Rightarrow> None
           | Some so \<Rightarrow>
               if c_gone c then Some (tcp_gone_error so, c)
               else if tp_state (c_tp c) < TCPS_SYN_SENT then Some (- ENOTCONN, c)
               else if tp_state (c_tp c) > TCPS_CLOSE_WAIT then Some (- EPIPE, c)
               else map_option (Pair 0) (send_out (on_so (\<lambda>so. so\<lparr>so_snd := sockbuf_append (so_snd so) nb\<rparr>) c)))"

definition tcp_rcvd :: "tcp_conn \<Rightarrow> tcp_conn option" where
  "tcp_rcvd c = (if c_gone c then Some c else send_out c)"

text \<open>\<^verbatim>\<open>tcp_usrclosed\<close> followed by output, if the connection is still there.\<close>

definition usrclosed_output :: "tcp_conn \<Rightarrow> tcp_conn option" where
  "usrclosed_output c = do { c \<leftarrow> tcp_usrclosed c; if c_gone c then Some c else send_out c }"

definition tcp_shutdown :: "bool \<Rightarrow> tcp_conn \<Rightarrow> tcp_conn option" where
  "tcp_shutdown read_only c =
     (if read_only then Some c
      else let c = on_so sock_cant_send_more c in if c_gone c then Some c else usrclosed_output c)"

definition tcp_disconnect :: "tcp_conn \<Rightarrow> (int \<times> tcp_conn) option" where
  "tcp_disconnect c =
     (if c_gone c then Some (- ENOTCONN, c)
      else case c_so c of
             None \<Rightarrow> None
           | Some so \<Rightarrow>
               map_option (Pair 0)
                 (if \<not> TCPS_HAVEESTABLISHED (tp_state (c_tp c)) then tcp_close c
                  else if so_linger so = 0 then tcp_drop 0 c
                  else usrclosed_output (on_so sock_is_disconnecting c)))"

definition tcp_abort :: "tcp_conn \<Rightarrow> tcp_conn option" where
  "tcp_abort c = (if c_gone c then Some c else tcp_drop ECONNABORTED c)"

definition tcp_detach :: "tcp_conn \<Rightarrow> tcp_conn option" where
  "tcp_detach c =
     (let c = c\<lparr>c_inp_flags := c_inp_flags c OR INPCB_DETACHED\<rparr>
      in if c_gone c then tcp_pcb_release c
         else if \<not> TCPS_HAVEESTABLISHED (tp_state (c_tp c)) then tcp_close c
         else usrclosed_output c)"

text \<open>\<^verbatim>\<open>tcp_ctloutput\<close>: the error, and the value read or, when setting, written.\<close>

definition tcp_ctloutput :: "int \<Rightarrow> int \<Rightarrow> nat \<Rightarrow> int \<Rightarrow> bool \<Rightarrow> tcp_conn \<Rightarrow> (int \<times> int \<times> tcp_conn) option" where
  "tcp_ctloutput level optname optlen val wr c =
     (if level \<noteq> IPPROTO_TCP then Some (- ENOPROTOOPT, val, c)
      else case c_so c of
             None \<Rightarrow> None
           | Some so \<Rightarrow>
               if c_gone c then Some (tcp_gone_error so, val, c)
               else if optname = TCP_NODELAY then
                 if optlen < 4 then Some (- EINVAL, val, c)
                 else if \<not> wr then Some (0, (if tp_flag TF_NODELAY (c_tp c) then 1 else 0), c)
                 else if val \<noteq> 0 then map_option (\<lambda>c. (0, val, c)) (send_out (on_tp (set_flag_tp TF_NODELAY) c))
                 else Some (0, val, on_tp (clear_flag_tp TF_NODELAY) c)
               else if optname = TCP_MAXSEG then
                 if optlen < 4 then Some (- EINVAL, val, c)
                 else if \<not> wr then Some (0, int (unat (mss (c_tp c))), c)
                 else if val < 64 \<or> val > int (unat (mss (c_tp c))) then Some (- EINVAL, val, c)
                 else Some (0, val, on_tp (\<lambda>tp. tp\<lparr>mss := word_of_int val\<rparr>) c)
               else Some (- ENOPROTOOPT, val, c))"

end
