(* ===== verification/TCP_Life.thy ===== *)
theory TCP_Life
  imports TCP_Sender TCP_Input TCP_Usrreq
begin

text \<open>
  The invariant of a connection over its whole life, and what the routines of \<^verbatim>\<open>tcp_subr.c\<close> and the
  timers do to it: the send side carries one byte stream, the socket is referenced as long as it is used, and
  the control block is freed when, and only when, no timer call is outstanding.
\<close>

section \<open>The invariant\<close>

text \<open>The timer calls dispatched and not yet entered.\<close>

definition pending_calls :: "tcpcb \<Rightarrow> nat" where
  "pending_calls tp = sum_list (map (\<lambda>t. unat (co_dispatched (timers tp t) - t_timer_entered tp t)) all_timers)"

definition refs :: "tcp_conn \<Rightarrow> nat" where
  "refs c = (case c_so c of Some so \<Rightarrow> unat (so_refcount so) | None \<Rightarrow> 0)"

text \<open>A segment with data carries the bytes of the stream \<open>S\<close> its sequence number stands for; the first byte of
  the stream follows the SYN.\<close>

definition carries_stream :: "bytes \<Rightarrow> tcp_seq \<Rightarrow> segment \<Rightarrow> bool" where
  "carries_stream S i sg \<longleftrightarrow>
     (sg_data sg \<noteq> [] \<longrightarrow>
        (let pos = rel (i + 1) (sg_seq sg); len = length (sg_data sg)
         in pos + len \<le> length S \<and> sg_data sg = take len (drop pos S)))"

definition sent_ok :: "bytes \<Rightarrow> tcp_conn \<Rightarrow> bool" where
  "sent_ok S c \<longleftrightarrow> (\<forall>sg\<in>set (c_sent c). carries_stream S (iss (c_tp c)) sg)"

text \<open>\<open>k\<close> bytes of the stream have been acknowledged, and with them the SYN.\<close>

definition acked_to :: "nat \<Rightarrow> tcpcb \<Rightarrow> bool" where
  "acked_to k tp \<longleftrightarrow> snd_una tp = iss tp + 1 + word_of_nat k + (if fin_acked tp then 1 else 0)"

text \<open>The send buffer holds the rest of the stream, from the first byte not acknowledged.\<close>

definition stream_ok :: "bytes \<Rightarrow> tcp_conn \<Rightarrow> bool" where
  "stream_ok S c \<longleftrightarrow> (\<exists>k\<le>length S. snd_stream c = drop k S \<and> (sends_data (c_tp c) \<longrightarrow> acked_to k (c_tp c)))"

text \<open>The stream is shorter than half of the sequence space: beyond it, \<^verbatim>\<open>tcp_drop_acked_data\<close> takes an
  acknowledgement for that of the SYN.\<close>

definition stream_max :: nat where "stream_max = 2 ^ 31 - 2"

text \<open>What sending needs, and keeps.\<close>

definition sending :: "bytes \<Rightarrow> tcp_conn \<Rightarrow> bool" where
  "sending S c \<longleftrightarrow> \<not> c_freed c \<and> cc_frames (c_cc c) \<and> snd_ok c \<and> stream_ok S c \<and> sent_ok S c \<and> length S < stream_max"

text \<open>Before the connection is established the whole stream is in the buffer, and before it is opened nothing has
  been sent.\<close>

definition before_open :: "bytes \<Rightarrow> tcp_conn \<Rightarrow> bool" where
  "before_open S c \<longleftrightarrow> snd_stream c = S \<and> sack_count (c_tp c) = 0 \<and> \<not> tp_flag TF_FASTRECOVERY (c_tp c) \<and> \<not> tp_flag TF_SENTFIN (c_tp c) \<and>
     (\<forall>sg\<in>set (c_sent c). sg_data sg = [])"

text \<open>A connection that has its control block. The socket is referenced by the protocol control block, by its
  user unless detached, and \<open>h\<close> more times by the code that is running.\<close>

definition live :: "bytes \<Rightarrow> nat \<Rightarrow> tcp_conn \<Rightarrow> bool" where
  "live S h c \<longleftrightarrow> sending S c \<and> \<not> c_gone c \<and> \<not> c_released c \<and> \<not> t_closed (c_tp c) \<and> pending_calls (c_tp c) < 2 ^ 32 \<and>
     (\<not> TCPS_HAVEESTABLISHED (tp_state (c_tp c)) \<longrightarrow> before_open S c) \<and>
     h + (if detached c then 1 else 2) \<le> refs c \<and> refs c < 2 ^ 31 + h"

text \<open>A connection that has lost it: no timer is running; its memory has been freed unless timer calls are still to come, and then
  their number is known. The protocol control block stays until the user closes the socket.\<close>

definition closed_down :: "bytes \<Rightarrow> nat \<Rightarrow> tcp_conn \<Rightarrow> bool" where
  "closed_down S h c \<longleftrightarrow> c_gone c \<and> sent_ok S c \<and> (\<forall>t. \<not> tcp_timer_active (c_tp c) t) \<and> (c_freed c \<longleftrightarrow> pending_calls (c_tp c) = 0) \<and> pending_calls (c_tp c) < 2 ^ 32 \<and>
     (\<not> c_freed c \<longrightarrow> t_closed (c_tp c) \<and> unat (t_draining (c_tp c)) = pending_calls (c_tp c)) \<and>
     (if c_released c then h \<le> refs c else \<not> detached c \<and> h + 2 \<le> refs c) \<and> refs c < 2 ^ 31 + h"

definition conn_inv :: "bytes \<Rightarrow> nat \<Rightarrow> tcp_conn \<Rightarrow> bool" where
  "conn_inv S h c \<longleftrightarrow> (if c_gone c then closed_down S h c else live S h c)"

section \<open>What the invariant is about\<close>

text \<open>Routines that touch neither the send sequence nor the send buffer, the references, the dispatched timer calls nor
  the segments sent keep the invariant.\<close>

definition tp_core :: "tcpcb \<Rightarrow> _" where
  "tp_core tp = (tp_state tp, iss tp, snd_una tp, snd_nxt tp, snd_max tp, sack_blocks tp, sack_count tp, tp_flag TF_FASTRECOVERY tp, tp_flag TF_SENTFIN tp,
     t_closed tp, t_draining tp, (\<lambda>t. co_dispatched (timers tp t)), t_timer_entered tp)"

definition so_core :: "socket \<Rightarrow> _" where
  "so_core so = (sb_records (so_snd so), sb_cc (so_snd so), so_refcount so)"

definition conn_core :: "tcp_conn \<Rightarrow> _" where
  "conn_core c = (tp_core (c_tp c), map_option so_core (c_so c), c_cc c, c_gone c, c_freed c, c_released c, detached c, c_sent c)"

lemma tp_core_eq:
  assumes "tp_core tp' = tp_core tp"
  shows "tp_state tp' = tp_state tp" "iss tp' = iss tp" "snd_una tp' = snd_una tp" "snd_max tp' = snd_max tp" "sack_count tp' = sack_count tp"
    "tp_flag TF_FASTRECOVERY tp' = tp_flag TF_FASTRECOVERY tp" "tp_flag TF_SENTFIN tp' = tp_flag TF_SENTFIN tp"
    "t_closed tp' = t_closed tp" "t_draining tp' = t_draining tp" "pending_calls tp' = pending_calls tp" "snd_seq_ok n tp' = snd_seq_ok n tp"
    "sends_data tp' = sends_data tp" "acked_to k tp' = acked_to k tp" "fin_acked tp' = fin_acked tp"
  using assms
  by (simp_all add: tp_core_def pending_calls_def fun_eq_iff snd_seq_ok_def sack_ok_def sack_shape_def sack_view_def snd_limit_def syn_pending_def
      sends_data_def acked_to_def fin_acked_def)

lemma so_core_eq:
  assumes "map_option so_core (c_so c') = map_option so_core (c_so c)"
  shows "snd_stream c' = snd_stream c" "sndbuf_ok c' = sndbuf_ok c" "refs c' = refs c"
  using assms
  by (auto simp: snd_stream_def sndbuf_ok_def refs_def so_core_def sb_stream_def sockbuf_inv_def map_option_case split: option.splits)

lemma conn_core_eq:
  assumes "conn_core c' = conn_core c"
  shows "live S h c' = live S h c" "sending S c' = sending S c" "before_open S c' = before_open S c"
    "tp_state (c_tp c') = tp_state (c_tp c)" "snd_una (c_tp c') = snd_una (c_tp c)" "snd_max (c_tp c') = snd_max (c_tp c)"
    "snd_stream c' = snd_stream c"
proof -
  have p: "tp_core (c_tp c') = tp_core (c_tp c)" "map_option so_core (c_so c') = map_option so_core (c_so c)"
    "c_cc c' = c_cc c" "c_gone c' = c_gone c" "c_freed c' = c_freed c" "c_released c' = c_released c" "detached c' = detached c" "c_sent c' = c_sent c"
    using assms by (simp_all add: conn_core_def)
  note t = tp_core_eq [OF p(1)] so_core_eq [OF p(2)] p(3-8)
  show s: "sending S c' = sending S c" by (simp add: sending_def snd_ok_def stream_ok_def sent_ok_def t)
  show "live S h c' = live S h c" "before_open S c' = before_open S c"
    by (simp_all add: live_def before_open_def s t)
  show "tp_state (c_tp c') = tp_state (c_tp c)" "snd_una (c_tp c') = snd_una (c_tp c)" "snd_max (c_tp c') = snd_max (c_tp c)"
    "snd_stream c' = snd_stream c" by (simp_all add: t)
qed

lemma core_tpI: "tp_core (f (c_tp c)) = tp_core (c_tp c) \<Longrightarrow> conn_core (on_tp f c) = conn_core c"
  by (simp add: conn_core_def)

lemma core_soI: "(\<And>so. so_core (f so) = so_core so) \<Longrightarrow> conn_core (on_so f c) = conn_core c"
  by (simp add: conn_core_def option.map_comp o_def)

lemma core_so [simp]:
  "so_core (sock_wakeup so) = so_core so" "so_core (sock_is_connected so) = so_core so" "so_core (sock_is_connecting so) = so_core so"
  "so_core (sock_is_disconnected so) = so_core so" "so_core (sock_is_disconnecting so) = so_core so"
  "so_core (sock_cant_send_more so) = so_core so" "so_core (sock_cant_recv_more so) = so_core so" "so_core (so\<lparr>so_error := e\<rparr>) = so_core so"
proof -
  show w: "so_core (sock_wakeup so) = so_core so" for so by (simp add: so_core_def sock_wakeup_def sockbuf_wakeup_def)
  show "so_core (sock_is_connected so) = so_core so" "so_core (sock_is_connecting so) = so_core so"
    "so_core (sock_is_disconnected so) = so_core so" "so_core (sock_is_disconnecting so) = so_core so"
    "so_core (sock_cant_send_more so) = so_core so" "so_core (sock_cant_recv_more so) = so_core so" "so_core (so\<lparr>so_error := e\<rparr>) = so_core so"
    unfolding sock_is_connected_def sock_is_connecting_def sock_is_disconnected_def sock_is_disconnecting_def sock_cant_send_more_def
      sock_cant_recv_more_def w Let_def by (simp_all add: so_core_def sb_cantmore_def)
qed

lemma core_timer_stop [simp]: "tp_core (tcp_timer_stop w tp) = tp_core tp"
  by (simp add: tp_core_def tcp_timer_stop_def set_timer_def fun_eq_iff tp_flag_def)

lemma core_timer_stop_all [simp]: "tp_core (tcp_timer_stop_all tp) = tp_core tp"
  by (simp add: tcp_timer_stop_all_def all_timers_def)

lemma core_timer_activate [simp]: "conn_core (tcp_timer_activate w d c) = conn_core c"
  by (simp add: tcp_timer_activate_def conn_core_def tp_core_def set_timer_def callout_arm_def fun_eq_iff tp_flag_def)

lemma core_simple [simp]:
  "conn_core (on_stat f c) = conn_core c" "conn_core (c\<lparr>c_allocs := os\<rparr>) = conn_core c" "conn_core (snd (take_alloc c)) = conn_core c"
  "conn_core (set_so_error e c) = conn_core c"
  by (simp_all add: conn_core_def on_stat_def detached_def take_alloc_def set_so_error_def option.map_comp o_def split: list.splits)

lemma core_flag [simp]:
  assumes "f AND TF_FASTRECOVERY = 0" "f AND TF_SENTFIN = 0"
  shows "tp_core (set_flag_tp f tp) = tp_core tp" "tp_core (clear_flag_tp f tp) = tp_core tp"
  using assms by (simp_all add: tp_core_def) (simp_all add: set_flag_tp_def clear_flag_tp_def)

lemma core_cc: "cc_frame tp tp' \<Longrightarrow> tp_core tp' = tp_core tp"
proof -
  assume "cc_frame tp tp'"
  then obtain a b where "tp' = tp\<lparr>snd_cwnd := a, snd_ssthresh := b\<rparr>" using cc_frame_put by blast
  then show ?thesis by (simp add: tp_core_def tp_flag_def)
qed

lemma core_cc_do: "cc_frames a \<Longrightarrow> tp_core (cc_do a e tp) = tp_core tp"
  by (rule core_cc [OF cc_frames.frame_law])

lemma core_upd [simp]:
  "tp_core (tp\<lparr>rexmt_shift := x1\<rparr>) = tp_core tp" "tp_core (tp\<lparr>rtt_start := x2\<rparr>) = tp_core tp" "tp_core (tp\<lparr>dupacks := x3\<rparr>) = tp_core tp"
  "tp_core (tp\<lparr>snd_recover := s1\<rparr>) = tp_core tp" "tp_core (tp\<lparr>snd_cwnd := x4\<rparr>) = tp_core tp" "tp_core (tp\<lparr>sack_rexmit_bytes := x4\<rparr>) = tp_core tp"
  "tp_core (tp\<lparr>sack_rxmit := s2\<rparr>) = tp_core tp" "tp_core (tp\<lparr>t_softerror := e\<rparr>) = tp_core tp" "tp_core (tp\<lparr>mss := m\<rparr>) = tp_core tp"
  "tp_core (tp\<lparr>peer_mss := m\<rparr>) = tp_core tp" "tp_core (tp\<lparr>keep_probes := x1\<rparr>) = tp_core tp" "tp_core (tp\<lparr>t_rcvtime := x2\<rparr>) = tp_core tp"
  "tp_core (tp\<lparr>rttvar := x4\<rparr>) = tp_core tp" "tp_core (tp\<lparr>srtt := x4\<rparr>) = tp_core tp" "tp_core (tp\<lparr>rto := x4\<rparr>) = tp_core tp"
  "tp_core (tp\<lparr>snd_scale := x1\<rparr>) = tp_core tp" "tp_core (tp\<lparr>rcv_scale := x1\<rparr>) = tp_core tp" "tp_core (tp\<lparr>ts_recent := x4\<rparr>) = tp_core tp"
  "tp_core (tp\<lparr>ts_recent_age := x2\<rparr>) = tp_core tp" "tp_core (tp\<lparr>irs := s1\<rparr>) = tp_core tp" "tp_core (tp\<lparr>rcv_nxt := s1\<rparr>) = tp_core tp"
  "tp_core (tp\<lparr>rcv_adv := s1\<rparr>) = tp_core tp" "tp_core (tp\<lparr>rcv_wnd := x4\<rparr>) = tp_core tp" "tp_core (tp\<lparr>snd_wnd := x4\<rparr>) = tp_core tp"
  "tp_core (tp\<lparr>snd_wl1 := s1\<rparr>) = tp_core tp" "tp_core (tp\<lparr>snd_wl2 := s1\<rparr>) = tp_core tp" "tp_core (tp\<lparr>reassemble_queue := q\<rparr>) = tp_core tp"
  "tp_core (tp\<lparr>reassemble_len := x4\<rparr>) = tp_core tp"
  by (simp_all add: tp_core_def tp_flag_def)

lemma core_setpersist [simp]: "conn_core (tcp_setpersist c) = conn_core c"
  by (simp add: tcp_setpersist_def Let_def core_tpI)

section \<open>Sending\<close>

lemma fin_acked_empty: "snd_seq_ok n tp \<Longrightarrow> fin_acked tp \<Longrightarrow> n = 0"
  by (auto simp: snd_seq_ok_def snd_limit_def fin_acked_def split: if_splits)

lemma segment_carries:
  assumes sg: "segment_ok una (drop k S) B sg" and una: "una = i + 1 + word_of_nat k" and k: "k \<le> length S" "length S < stream_max"
  shows "carries_stream S i sg"
  unfolding carries_stream_def Let_def
proof
  assume d: "sg_data sg \<noteq> []"
  define p where "p = rel una (sg_seq sg)"
  have s: "p + length (sg_data sg) \<le> length S - k" "sg_data sg = take (length (sg_data sg)) (drop (p + k) S)"
    using sg d by (auto simp: segment_ok_def Let_def p_def)
  have "rel (i + 1) (una + (sg_seq sg - una)) = rel (i + 1) una + unat (sg_seq sg - una)"
  proof (rule rel_add)
    have "rel (i + 1) una = k" using k by (simp add: rel_def una unat_word_of_nat_id stream_max_def)
    moreover have "unat (sg_seq sg - una) = p" by (simp add: p_def rel_def)
    ultimately show "rel (i + 1) una + unat (sg_seq sg - una) < 2 ^ 32" using s(1) k by (simp add: stream_max_def)
  qed
  moreover have "rel (i + 1) una = k" using k by (simp add: rel_def una unat_word_of_nat_id stream_max_def)
  ultimately have r: "rel (i + 1) (sg_seq sg) = p + k" by (simp add: p_def rel_def)
  show "rel (i + 1) (sg_seq sg) + length (sg_data sg) \<le> length S \<and> sg_data sg = take (length (sg_data sg)) (drop (rel (i + 1) (sg_seq sg)) S)"
    using s k(1) unfolding r by auto
qed

text \<open>Sending dispatches no timer call.\<close>

definition dispatched :: "tcpcb \<Rightarrow> tcp_timer_type \<Rightarrow> u32" where
  "dispatched tp = (\<lambda>t. co_dispatched (timers tp t))"

lemma tp_core_dispatched: "tp_core tp' = tp_core tp \<Longrightarrow> dispatched tp' = dispatched tp"
  by (simp add: tp_core_def dispatched_def)

lemma conn_core_dispatched: "conn_core c' = conn_core c \<Longrightarrow> dispatched (c_tp c') = dispatched (c_tp c)"
  by (intro tp_core_dispatched) (simp add: conn_core_def)

lemma dispatched_rcv: "dispatched (after_send_rcv win tp) = dispatched tp"
  by (auto simp: after_send_rcv_def Let_def dispatched_def tcp_upd_defs fun_eq_iff)

lemma dispatched_timer: "dispatched (c_tp (after_send_timer c)) = dispatched (c_tp c)"
  by (simp add: after_send_timer_def Let_def dispatched_def tcp_upd_defs fun_eq_iff callout_arm_def)

lemma dispatched_after_send: "dispatched (c_tp (tcp_after_send tx win c)) = dispatched (c_tp c)"
proof -
  have "dispatched (after_send_seq now tx tp) = dispatched tp" for now tp by (simp add: dispatched_def)
  then show ?thesis by (simp add: tcp_after_send_def Let_def dispatched_timer dispatched_rcv)
qed

lemma dispatched_once: "tcp_output_once c = Some (r, c') \<Longrightarrow> dispatched (c_tp c') = dispatched (c_tp c)"
proof -
  assume o: "tcp_output_once c = Some (r, c')"
  have p: "conn_core (tcp_maybe_persist cc c) = conn_core c" for cc by (simp add: tcp_maybe_persist_def core_tpI)
  have b: "c_tp c2 = c_tp c" if "tcp_build_segment c tx opts win = Some (sg, c2)" for tx opts win sg c2
    using that by (auto simp: tcp_build_segment_def Let_def split: prod.splits option.splits if_splits)
  show ?thesis using o
    by (auto simp: tcp_output_once_def Let_def conn_core_dispatched [OF p] tcp_checksum_and_send_def on_stat_def dispatched_after_send
        split: prod.splits option.splits if_splits dest!: b)
qed

lemma dispatched_loop:
  assumes "output_loop c = Some y"
  shows "dispatched (c_tp (snd y)) = dispatched (c_tp c)"
proof (rule output_loop.raw_induct [OF _ assms])
  show "dispatched (c_tp (snd y)) = dispatched (c_tp c)"
    if IH: "\<And>c y. loop c = Some y \<Longrightarrow> dispatched (c_tp (snd y)) = dispatched (c_tp c)"
      and b: "(case tcp_output_once c of None \<Rightarrow> None | Some (ret, c) \<Rightarrow> if 0 < ret then loop c else Some (ret, c)) = Some y" for loop c y
  proof -
    obtain r c1 where o: "tcp_output_once c = Some (r, c1)" using b by (auto split: option.splits)
    show ?thesis using b IH dispatched_once [OF o] by (cases "0 < r") (auto simp: o)
  qed
qed

text \<open>Output keeps what it needs.\<close>

definition quiet :: "tcp_conn \<Rightarrow> tcp_conn \<Rightarrow> bool" where
  "quiet c c' \<longleftrightarrow> out_frame c c' \<and> fin_kept (c_tp c) (c_tp c') \<and> pending_calls (c_tp c') = pending_calls (c_tp c) \<and>
     rel (snd_una (c_tp c)) (snd_max (c_tp c)) \<le> rel (snd_una (c_tp c)) (snd_max (c_tp c'))"

lemma send_out_spec:
  assumes "sending S c"
  shows "\<exists>c'. send_out c = Some c' \<and> sending S c' \<and> quiet c c' \<and> (\<exists>segs. c_sent c' = c_sent c @ segs \<and> (sends_data (c_tp c) \<or> (\<forall>sg\<in>set segs. sg_data sg = [])))"
proof -
  define B where "B = max (peer_window (c_tp c)) (rel (snd_una (c_tp c)) (snd_max (c_tp c)))"
  have a: "\<not> c_freed c" "cc_frames (c_cc c)" "snd_ok c" "stream_ok S c" "sent_ok S c" "length S < stream_max" using assms by (auto simp: sending_def)
  have "sent_below B (length (snd_stream c)) (c_tp c)" "peer_window (c_tp c) \<le> B" by (simp_all add: sent_below_def B_def)
  then obtain r c' where o: "tcp_output c = Some (r, c')" "out_step B c c'" using tcp_output_spec [OF a(1-3)] by blast
  then have f: "out_frame c c'" "snd_ok c'" "fin_acked (c_tp c') = fin_acked (c_tp c)" "fin_kept (c_tp c) (c_tp c')"
    "rel (snd_una (c_tp c)) (snd_max (c_tp c)) \<le> rel (snd_una (c_tp c)) (snd_max (c_tp c'))" by (simp_all add: out_step_def)
  obtain segs where segs: "c_sent c' = c_sent c @ segs"
    "\<forall>sg\<in>set segs. segment_ok (snd_una (c_tp c)) (snd_stream c) B sg \<and> (sg_data sg \<noteq> [] \<longrightarrow> sends_data (c_tp c))"
    using o(2) by (auto simp: out_step_def)
  note t = out_frame_tp [OF f(1)] out_frame_stream [OF f(1)]
  have e: "c_freed c' = c_freed c \<and> c_cc c' = c_cc c" and tp: "c_tp c' = out_put (c_tp c') (c_tp c)"
    using f(1) by (cases c, cases c', auto simp: out_frame_def out_tp_frame_def)
  obtain k where k: "k \<le> length S" "snd_stream c = drop k S" "sends_data (c_tp c) \<longrightarrow> acked_to k (c_tp c)" using a(4) by (auto simp: stream_ok_def)
  have st: "stream_ok S c'" using k t f(3) by (auto simp: stream_ok_def acked_to_def)
  have "carries_stream S (iss (c_tp c)) sg" if "sg \<in> set segs" for sg
  proof (cases "sg_data sg = []")
    case False
    have ok: "segment_ok (snd_una (c_tp c)) (drop k S) B sg" "sends_data (c_tp c)" using that segs(2) False k by auto
    have "length (snd_stream c) \<noteq> 0" using ok(1) False by (auto simp: segment_ok_def Let_def k(2))
    then have "\<not> fin_acked (c_tp c)" using a(3) fin_acked_empty by (auto simp: snd_ok_def)
    then show ?thesis using segment_carries [OF ok(1) _ k(1) a(6)] ok(2) k(3) by (simp add: acked_to_def)
  qed (simp add: carries_stream_def)
  then have "sent_ok S c'" using a(5) segs(1) t by (auto simp: sent_ok_def)
  then have s: "sending S c'" using a f(2) st e by (simp add: sending_def)
  have dsp: "dispatched (c_tp c') = dispatched (c_tp c)"
  proof -
    have "tp_core (c_tp (after_idle_reset c)) = tp_core (c_tp c)"
      unfolding after_idle_reset_def Let_def using core_cc_do [OF a(2), of Idle "c_tp c"] by (simp only: on_tp_simps split: if_splits) blast
    from tp_core_dispatched [OF this] show ?thesis using o(1) a(1) dispatched_loop [of "after_idle_reset c" "(r, c')"] by (simp add: tcp_output_def)
  qed
  have "t_timer_entered (c_tp c') = t_timer_entered (c_tp c)" by (subst tp) (simp add: out_put_def)
  then have "pending_calls (c_tp c') = pending_calls (c_tp c)" using dsp by (simp add: pending_calls_def dispatched_def fun_eq_iff)
  then show ?thesis using o(1) s f segs by (auto simp: send_out_def quiet_def)
qed

lemma quiet_same:
  assumes "quiet c c'"
  shows "c_gone c' = c_gone c" "c_freed c' = c_freed c" "c_released c' = c_released c" "detached c' = detached c" "refs c' = refs c" "c_so c' = c_so c"
    "c_cc c' = c_cc c" "t_closed (c_tp c') = t_closed (c_tp c)" "tp_state (c_tp c') = tp_state (c_tp c)" "iss (c_tp c') = iss (c_tp c)"
    "snd_una (c_tp c') = snd_una (c_tp c)" "snd_stream c' = snd_stream c" "pending_calls (c_tp c') = pending_calls (c_tp c)"
    "tp_flag TF_FASTRECOVERY (c_tp c') = tp_flag TF_FASTRECOVERY (c_tp c)" "sack_count (c_tp c') = sack_count (c_tp c)"
proof -
  have f: "out_frame c c'" and tp: "c_tp c' = out_put (c_tp c') (c_tp c)" using assms by (auto simp: quiet_def out_frame_def out_tp_frame_def)
  have e: "c_gone c' = c_gone c \<and> c_freed c' = c_freed c \<and> c_released c' = c_released c \<and> c_inp_flags c' = c_inp_flags c \<and> c_so c' = c_so c \<and> c_cc c' = c_cc c"
    using f by (cases c, cases c', auto simp: out_frame_def)
  then show "c_gone c' = c_gone c" "c_freed c' = c_freed c" "c_released c' = c_released c" "detached c' = detached c" "refs c' = refs c" "c_so c' = c_so c" "c_cc c' = c_cc c"
    by (simp_all add: detached_def refs_def)
  show "t_closed (c_tp c') = t_closed (c_tp c)" by (subst tp) (simp add: out_put_def)
  show "sack_count (c_tp c') = sack_count (c_tp c)" by (subst tp) (simp add: out_put_def)
  show "pending_calls (c_tp c') = pending_calls (c_tp c)" using assms by (simp add: quiet_def)
qed (use assms out_frame_tp out_frame_stream in \<open>auto simp: quiet_def\<close>)

lemma live_send_out:
  assumes "live S h c"
  shows "\<exists>c'. send_out c = Some c' \<and> live S h c' \<and> quiet c c'"
proof -
  have l: "sending S c" using assms by (simp add: live_def)
  obtain c' segs where c': "send_out c = Some c'" "sending S c'" "quiet c c'" "c_sent c' = c_sent c @ segs"
    "sends_data (c_tp c) \<or> (\<forall>sg\<in>set segs. sg_data sg = [])" using send_out_spec [OF l] by blast
  note q = quiet_same [OF c'(3)]
  have "before_open S c'" if e: "\<not> TCPS_HAVEESTABLISHED (tp_state (c_tp c'))"
  proof -
    have b: "before_open S c" using assms e by (simp add: live_def q)
    then have "\<not> sends_data (c_tp c)" using e by (simp add: sends_data_def before_open_def q)
    moreover have "\<not> tp_flag TF_SENTFIN (c_tp c')"
      using b e c'(3) by (auto simp: quiet_def fin_kept_def before_open_def TCPS_HAVEESTABLISHED_def less_eq_tcp_state_def q)
    ultimately show ?thesis using b c'(4,5) by (auto simp: before_open_def q)
  qed
  then show ?thesis using assms c' by (auto simp: live_def q)
qed

section \<open>References\<close>

lemma same_so_snd:
  assumes "map_option so_snd so' = map_option so_snd (c_so c)"
  shows "sending S (c\<lparr>c_so := so'\<rparr>) = sending S c" "before_open S (c\<lparr>c_so := so'\<rparr>) = before_open S c"
proof -
  have "snd_stream (c\<lparr>c_so := so'\<rparr>) = snd_stream c" "sndbuf_ok (c\<lparr>c_so := so'\<rparr>) = sndbuf_ok c"
    using assms by (auto simp: snd_stream_def sndbuf_ok_def map_option_case split: option.splits)
  then show "sending S (c\<lparr>c_so := so'\<rparr>) = sending S c" "before_open S (c\<lparr>c_so := so'\<rparr>) = before_open S c"
    by (simp_all add: sending_def snd_ok_def stream_ok_def sent_ok_def before_open_def)
qed

lemma detached_so [simp]: "detached (c\<lparr>c_so := so\<rparr>) = detached c" by (simp add: detached_def)

lemma inv_refs:
  assumes so: "map_option so_snd so' = map_option so_snd (c_so c)" and r: "refs (c\<lparr>c_so := so'\<rparr>) + h = refs c + h'"
  shows "live S h c \<Longrightarrow> live S h' (c\<lparr>c_so := so'\<rparr>)"
  using r by (auto simp: live_def same_so_snd [OF so])

lemma closed_refs:
  assumes "refs (c\<lparr>c_so := so'\<rparr>) + h = refs c + h'" and "closed_down S h c"
  shows "closed_down S h' (c\<lparr>c_so := so'\<rparr>)"
  using assms by (auto simp: closed_down_def sent_ok_def split: if_splits)

lemma release_refs:
  assumes "c_so c = Some so" and "1 \<le> refs c"
  shows "refs (c\<lparr>c_so := sock_release so\<rparr>) = refs c - 1" "2 \<le> refs c \<Longrightarrow> \<exists>so'. sock_release so = Some so' \<and> so_snd so' = so_snd so"
proof -
  have z: "so_refcount so \<noteq> 0" using assms by (auto simp: refs_def)
  note n = z unat_minus_one [OF z]
  then show "refs (c\<lparr>c_so := sock_release so\<rparr>) = refs c - 1" using assms by (auto simp: refs_def sock_release_def)
  show "\<exists>so'. sock_release so = Some so' \<and> so_snd so' = so_snd so" if "2 \<le> refs c"
  proof -
    have "so_refcount so - 1 \<noteq> 0" using that n(2) assms(1) by (auto simp: refs_def)
    then show ?thesis using n(1) by (simp add: sock_release_def)
  qed
qed

lemma on_tp_so [simp]: "refs (on_tp f c) = refs c" "snd_stream (on_tp f c) = snd_stream c" "sndbuf_ok (on_tp f c) = sndbuf_ok c"
  by (simp_all add: refs_def snd_stream_def sndbuf_ok_def)

lemma refs_so: "1 \<le> refs c \<Longrightarrow> \<exists>so. c_so c = Some so" by (auto simp: refs_def split: option.splits)

lemma inv_release:
  assumes "conn_inv S (Suc h) c"
  shows "\<exists>c'. release_so c = Some c' \<and> conn_inv S h c' \<and> c_gone c' = c_gone c"
proof -
  have r: "1 \<le> refs c" "\<not> c_gone c \<Longrightarrow> 2 \<le> refs c" using assms by (auto simp: conn_inv_def live_def closed_down_def split: if_splits)
  obtain so where so: "c_so c = Some so" using refs_so [OF r(1)] by blast
  note e = release_refs [OF so r(1)]
  have "conn_inv S h (c\<lparr>c_so := sock_release so\<rparr>)"
  proof (cases "c_gone c")
    case True
    then have cd: "closed_down S (Suc h) c" using assms by (simp add: conn_inv_def)
    have "refs (c\<lparr>c_so := sock_release so\<rparr>) + Suc h = refs c + h" using e(1) r(1) by simp
    from closed_refs [OF this cd] show ?thesis using True by (simp add: conn_inv_def)
  next
    case False
    then have lv: "live S (Suc h) c" using assms by (simp add: conn_inv_def)
    have s: "map_option so_snd (sock_release so) = map_option so_snd (c_so c)" using e(2) r(2) False so by auto
    have "refs (c\<lparr>c_so := sock_release so\<rparr>) + Suc h = refs c + h" using e(1) r(1) by simp
    from inv_refs [OF s this lv] show ?thesis using False by (simp add: conn_inv_def)
  qed
  then show ?thesis using so by (simp add: release_so_def)
qed

lemma hold_refs: "c_so c = Some so \<Longrightarrow> refs c < 2 ^ 31 \<Longrightarrow> refs (on_so sock_hold c) = refs c + 1"
proof -
  assume a: "c_so c = Some so" "refs c < 2 ^ 31"
  then have "unat (so_refcount so + 1) = unat (so_refcount so) + 1" by (intro unat_plus_no_wrap [THEN trans]) (auto simp: refs_def)
  then show ?thesis using a by (simp add: refs_def sock_hold_def)
qed

lemma live_hold: "live S 0 c \<Longrightarrow> live S 1 (on_so sock_hold c)"
proof -
  assume l: "live S 0 c"
  then have "1 \<le> refs c" "refs c < 2 ^ 31" by (auto simp: live_def split: if_splits)
  moreover from this obtain so where "c_so c = Some so" using refs_so by blast
  ultimately show ?thesis
    using inv_refs [OF _ _ l, of "map_option sock_hold (c_so c)" 1] hold_refs [of c so] by (simp add: on_so_def sock_hold_def)
qed

section \<open>Closing\<close>

lemma timer_discard_spec: "tcp_timer_discard tp = (word_of_nat (pending_calls tp), tcp_timer_stop_all tp)"
  by (simp add: tcp_timer_discard_def tcp_timer_stop_all_def all_timers_def pending_calls_def tcp_timer_stop_def set_timer_def callout_dispatches_def)

lemma core_flush [simp]: "tp_core (tcp_reassemble_flush tp) = tp_core tp"
proof -
  have "tp_core (fold (\<lambda>e tp. tcp_reassemble_free_entry tp e) q tp) = tp_core tp" for q tp
    by (induction q arbitrary: tp) (simp_all add: tcp_reassemble_free_entry_def)
  then show ?thesis by (simp add: tcp_reassemble_flush_def)
qed

lemma timers_flush: "timers (tcp_reassemble_flush tp) = timers tp"
proof -
  have "timers (fold (\<lambda>e tp. tcp_reassemble_free_entry tp e) q tp) = timers tp" for q tp
    by (induction q arbitrary: tp) (simp_all add: tcp_reassemble_free_entry_def)
  then show ?thesis by (simp add: tcp_reassemble_flush_def)
qed

lemma timers_cc: "cc_frame tp tp' \<Longrightarrow> timers tp' = timers tp"
  by (cases tp, cases tp') (simp add: cc_frame_def)

text \<open>What closing needs.\<close>

definition closable :: "bytes \<Rightarrow> nat \<Rightarrow> tcp_conn \<Rightarrow> bool" where
  "closable S h c \<longleftrightarrow> \<not> c_freed c \<and> cc_frames (c_cc c) \<and> sent_ok S c \<and> pending_calls (c_tp c) < 2 ^ 32 \<and> \<not> c_released c \<and>
     h + (if detached c then 1 else 2) \<le> refs c \<and> refs c < 2 ^ 31 + h"

lemma live_closable: "live S h c \<Longrightarrow> closable S h c"
  by (simp add: live_def closable_def sending_def)

lemma closable_core:
  assumes "conn_core c' = conn_core c"
  shows "closable S h c' = closable S h c"
proof -
  have p: "tp_core (c_tp c') = tp_core (c_tp c)" "map_option so_core (c_so c') = map_option so_core (c_so c)"
    "c_cc c' = c_cc c" "c_freed c' = c_freed c" "c_released c' = c_released c" "detached c' = detached c" "c_sent c' = c_sent c"
    using assms by (simp_all add: conn_core_def)
  show ?thesis by (simp add: closable_def sent_ok_def tp_core_eq [OF p(1)] so_core_eq [OF p(2)] p(3-7))
qed

lemma discard_spec:
  fixes c :: tcp_conn
  assumes "cc_frames (c_cc c)" and "pending_calls (c_tp c) < 2 ^ 32" and "\<not> c_freed c"
  defines "c' \<equiv> tcp_discard c"
  shows "c_gone c'" "c_freed c' \<longleftrightarrow> pending_calls (c_tp c) = 0" "pending_calls (c_tp c') = pending_calls (c_tp c)" "iss (c_tp c') = iss (c_tp c)"
    "pending_calls (c_tp c) \<noteq> 0 \<Longrightarrow> t_closed (c_tp c') \<and> unat (t_draining (c_tp c')) = pending_calls (c_tp c)"
    "c_so c' = c_so c" "c_released c' = c_released c" "detached c' = detached c" "c_sent c' = c_sent c" "\<not> tcp_timer_active (c_tp c') t"
proof -
  define tp where "tp = (case cc_destroy (c_cc c) of Some f \<Rightarrow> f (tcp_reassemble_flush (tcp_timer_stop_all (c_tp c))) | None \<Rightarrow> tcp_reassemble_flush (tcp_timer_stop_all (c_tp c)))"
  have core: "tp_core tp = tp_core (c_tp c)"
    using core_cc [OF cc_frames.destroy_frame_law [OF assms(1)]] by (auto simp: tp_def split: option.splits)
  have u: "unat (word_of_nat (pending_calls (c_tp c)) :: u32) = pending_calls (c_tp c)" using assms(2) by (simp add: unat_word_of_nat_id)
  have z: "(word_of_nat (pending_calls (c_tp c)) :: u32) = 0 \<longleftrightarrow> pending_calls (c_tp c) = 0" using unat_eq_0 [of "word_of_nat (pending_calls (c_tp c)) :: u32"] unfolding u by blast
  define c1 where "c1 = on_stat (\<lambda>st. st\<lparr>st_closed := st_closed st + 1\<rparr>) (c\<lparr>c_tp := tp, c_gone := True\<rparr>)"
  have c': "c' = (if pending_calls (c_tp c) \<noteq> 0
      then on_tp (\<lambda>tp. tp\<lparr>t_closed := True, t_draining := word_of_nat (pending_calls (c_tp c))\<rparr>) c1 else c1\<lparr>c_freed := True\<rparr>)"
    by (simp add: c'_def tcp_discard_def timer_discard_spec Let_def tp_def c1_def z)
  have t: "pending_calls (tp\<lparr>t_closed := b, t_draining := x\<rparr>) = pending_calls tp" for b x by (simp add: pending_calls_def)
  note e = tp_core_eq [OF core]
  have "timers tp = timers (tcp_timer_stop_all (c_tp c))"
    by (cases "cc_destroy (c_cc c)") (simp_all add: tp_def timers_flush timers_cc [OF cc_frames.destroy_frame_law [OF assms(1)]])
  then have ta: "\<not> tcp_timer_active tp t" for t
    by (cases t) (simp_all add: tcp_timer_active_def callout_pending_def tcp_timer_stop_all_def all_timers_def tcp_timer_stop_def set_timer_def)
  show "c_gone c'" "c_freed c' \<longleftrightarrow> pending_calls (c_tp c) = 0" "pending_calls (c_tp c') = pending_calls (c_tp c)" "iss (c_tp c') = iss (c_tp c)"
    "pending_calls (c_tp c) \<noteq> 0 \<Longrightarrow> t_closed (c_tp c') \<and> unat (t_draining (c_tp c')) = pending_calls (c_tp c)"
    "c_so c' = c_so c" "c_released c' = c_released c" "detached c' = detached c" "c_sent c' = c_sent c" "\<not> tcp_timer_active (c_tp c') t"
    using assms(3) ta [of t] by (simp_all add: c' c1_def e t u on_stat_def detached_def tcp_timer_active_def)
qed

lemma pcb_release:
  assumes cd: "c_gone c" "sent_ok S c" "\<And>t. \<not> tcp_timer_active (c_tp c) t" "c_freed c \<longleftrightarrow> pending_calls (c_tp c) = 0" "pending_calls (c_tp c) < 2 ^ 32"
      "\<not> c_freed c \<longrightarrow> t_closed (c_tp c) \<and> unat (t_draining (c_tp c)) = pending_calls (c_tp c)"
    and r: "Suc h \<le> refs c" "refs c \<le> 2 ^ 31 + h"
  shows "\<exists>c'. tcp_pcb_release c = Some c' \<and> closed_down S h c'"
proof -
  obtain so where so: "c_so c = Some so" using refs_so [of c] r(1) by auto
  define c1 where "c1 = (conn_unhash c)\<lparr>c_released := True\<rparr>"
  have c1: "c_so c1 = Some so" "refs c1 = refs c" using so by (simp_all add: c1_def conn_unhash_def refs_def)
  have rel: "refs (c1\<lparr>c_so := sock_release so\<rparr>) = refs c - 1" using release_refs(1) [OF c1(1)] c1(2) r(1) by simp
  moreover have "h \<le> refs c - 1" "refs c - 1 < 2 ^ 31 + h" using r by linarith+
  ultimately have "closed_down S h (c1\<lparr>c_so := sock_release so\<rparr>)" using cd by (simp add: closed_down_def sent_ok_def c1_def conn_unhash_def)
  then show ?thesis using c1(1) by (simp add: tcp_pcb_release_def Let_def c1_def [symmetric] release_so_def)
qed

lemma close_spec:
  assumes "closable S h c"
  shows "\<exists>c'. tcp_close c = Some c' \<and> closed_down S h c'"
proof -
  have a: "\<not> c_freed c" "cc_frames (c_cc c)" "sent_ok S c" "pending_calls (c_tp c) < 2 ^ 32" "\<not> c_released c"
    "h + (if detached c then 1 else 2) \<le> refs c" "refs c < 2 ^ 31 + h" using assms by (auto simp: closable_def)
  define c1 where "c1 = tcp_discard c"
  note d = discard_spec [OF a(2,4,1), folded c1_def]
  have r: "refs c1 = refs c" using d(6) by (simp add: refs_def)
  have s: "sent_ok S c1" using a(3) d by (simp add: sent_ok_def)
  show ?thesis
  proof (cases "detached c")
    case True
    have "\<exists>c'. tcp_pcb_release c1 = Some c' \<and> closed_down S h c'" by (rule pcb_release) (use True a d s r in auto)
    then show ?thesis using a(1) True d(8) by (simp add: tcp_close_def Let_def c1_def [symmetric])
  next
    case False
    have r2: "h + 2 \<le> refs c" using False a(6) by simp
    then obtain so where so: "c_so c = Some so" using refs_so [of c] by auto
    show ?thesis
    proof (cases "so_place so = Incomplete")
      case True
      define so1 where "so1 = so\<lparr>so_place := No_head\<rparr>"
      have "refs (c1\<lparr>c_so := Some so1\<rparr>) = refs c" using so by (simp add: refs_def so1_def)
      then obtain so2 where so2: "sock_release so1 = Some so2" "refs (c1\<lparr>c_so := Some so2\<rparr>) = refs c - 1"
        using release_refs [of "c1\<lparr>c_so := Some so1\<rparr>" so1] r2 by auto
      have "\<exists>c'. tcp_pcb_release (c1\<lparr>c_so := Some so2\<rparr>) = Some c' \<and> closed_down S h c'"
        by (rule pcb_release) (use a d s r2 so2(2) in \<open>auto simp: sent_ok_def\<close>)
      then show ?thesis using a(1) False True so so2(1) d by (simp add: tcp_close_def Let_def c1_def [symmetric] sock_drop_embryo_def so1_def)
    next
      case np: False
      have eq: "tcp_close c = Some (on_so sock_is_disconnected (conn_unhash c1))"
        using a(1) False np so d by (simp add: tcp_close_def Let_def c1_def [symmetric] sock_drop_embryo_def)
      have "closed_down S h (conn_unhash c1)"
      proof -
        have "INPCB_INHASH AND INPCB_DETACHED = 0" by (simp add: INPCB_INHASH_def INPCB_DETACHED_def)
        then have "\<not> detached (conn_unhash c1)" using False d(8) by (simp add: detached_def conn_unhash_def and_or_zero)
        then show ?thesis using a d s r r2 by (simp add: closed_down_def conn_unhash_def sent_ok_def refs_def)
      qed
      moreover have "refs (on_so sock_is_disconnected (conn_unhash c1)) = refs (conn_unhash c1)"
        using core_so(4) [of so] so d(6) by (simp add: refs_def so_core_def conn_unhash_def)
      ultimately have "closed_down S h (on_so sock_is_disconnected (conn_unhash c1))" by (simp add: closed_down_def sent_ok_def del: add_2_eq_Suc')
      then show ?thesis using eq by simp
    qed
  qed
qed

lemma sending_closed:
  assumes "sending S c" and "TCPS_HAVERCVDSYN (tp_state (c_tp c))"
  shows "sending S (on_tp (tcp_state_change TCPS_CLOSED) c)"
proof -
  have "snd_seq_ok n ((c_tp c)\<lparr>tp_state := TCPS_CLOSED\<rparr>)" if "snd_seq_ok n (c_tp c)" for n
    using that assms(2)
    by (auto simp: snd_seq_ok_def snd_limit_def syn_pending_def sack_ok_def sack_shape_def sack_view_def tp_flag_def TCPS_HAVERCVDSYN_def
        less_eq_tcp_state_def less_tcp_state_def split: if_splits)
  moreover have "sends_data ((c_tp c)\<lparr>tp_state := TCPS_CLOSED\<rparr>) \<Longrightarrow> sends_data (c_tp c)"
    by (simp add: sends_data_def TCPS_HAVEESTABLISHED_def less_eq_tcp_state_def tp_flag_def)
  moreover have "acked_to k ((c_tp c)\<lparr>tp_state := TCPS_CLOSED\<rparr>) = acked_to k (c_tp c)" for k by (simp add: acked_to_def fin_acked_def tp_flag_def)
  ultimately show ?thesis
    using assms(1) by (auto simp: sending_def snd_ok_def stream_ok_def sent_ok_def tcp_state_change_def snd_stream_def sndbuf_ok_def)
qed

lemma drop_spec:
  assumes "live S h c"
  shows "\<exists>c'. tcp_drop e c = Some c' \<and> closed_down S h c'"
proof -
  have "\<exists>c1. (if TCPS_HAVERCVDSYN (tp_state (c_tp c)) then send_out (on_tp (tcp_state_change TCPS_CLOSED) c) else Some c) = Some c1 \<and> closable S h c1"
  proof (cases "TCPS_HAVERCVDSYN (tp_state (c_tp c))")
    case True
    have s: "sending S (on_tp (tcp_state_change TCPS_CLOSED) c)" using assms True by (intro sending_closed) (auto simp: live_def)
    obtain c1 where c1: "send_out (on_tp (tcp_state_change TCPS_CLOSED) c) = Some c1" "sending S c1" "quiet (on_tp (tcp_state_change TCPS_CLOSED) c) c1"
      using send_out_spec [OF s] by blast
    note q = quiet_same [OF c1(3)]
    have "pending_calls (tcp_state_change TCPS_CLOSED (c_tp c)) = pending_calls (c_tp c)" by (simp add: tcp_state_change_def pending_calls_def)
    then have "closable S h c1" using c1(2) assms by (auto simp: closable_def sending_def live_def q split: if_splits)
    then show ?thesis using True c1(1) by simp
  qed (use assms live_closable in simp)
  then obtain c1 where c1: "(if TCPS_HAVERCVDSYN (tp_state (c_tp c)) then send_out (on_tp (tcp_state_change TCPS_CLOSED) c) else Some c) = Some c1" "closable S h c1" by blast
  define c2 where "c2 = set_so_error e (on_stat (\<lambda>st. st\<lparr>st_drops := st_drops st + 1\<rparr>) c1)"
  have "closable S h c2" using c1(2) closable_core [of c2 c1] by (simp add: c2_def)
  from close_spec [OF this] show ?thesis using c1(1) by (simp add: tcp_drop_def c2_def)
qed

section \<open>Timers\<close>

lemma pending_enter:
  assumes "co_dispatched (timers tp w) \<noteq> t_timer_entered tp w"
  shows "Suc (pending_calls (tp\<lparr>t_timer_entered := (t_timer_entered tp)(w := t_timer_entered tp w + 1)\<rparr>)) = pending_calls tp"
proof -
  define d where "d = co_dispatched (timers tp w) - t_timer_entered tp w"
  have z: "d \<noteq> 0" using assms by (simp add: d_def)
  have e: "co_dispatched (timers tp w) - (t_timer_entered tp w + 1) = d - 1" by (simp add: d_def)
  have "Suc (unat (co_dispatched (timers tp w) - (t_timer_entered tp w + 1))) = unat (co_dispatched (timers tp w) - t_timer_entered tp w)"
    unfolding e using unat_minus_one [OF z] unat_gt_0 [of d] z by (simp add: d_def [symmetric])
  then show ?thesis by (cases w) (simp_all add: pending_calls_def all_timers_def)
qed

lemma enter_live:
  assumes l: "live S h c" and d: "co_dispatched (timers (c_tp c) w) \<noteq> t_timer_entered (c_tp c) w"
  shows "\<exists>c'. tcp_timer_enter w c = (True, c') \<and> live S h c'"
proof -
  define tp where "tp = (c_tp c)\<lparr>t_timer_entered := (t_timer_entered (c_tp c))(w := t_timer_entered (c_tp c) w + 1)\<rparr>"
  have e: "tcp_timer_enter w c = (True, c\<lparr>c_tp := tp\<rparr>)" using l by (simp add: tcp_timer_enter_def live_def tp_def on_tp_def)
  have p: "pending_calls tp < 2 ^ 32" using pending_enter [OF d] l by (simp add: tp_def live_def)
  have s: "snd_seq_ok n tp = snd_seq_ok n (c_tp c)" "acked_to k tp = acked_to k (c_tp c)" "sends_data tp = sends_data (c_tp c)" for n k
    by (simp_all add: tp_def snd_seq_ok_def sack_ok_def sack_shape_def sack_view_def snd_limit_def syn_pending_def acked_to_def fin_acked_def sends_data_def tp_flag_def)
  have o: "snd_stream (c\<lparr>c_tp := tp\<rparr>) = snd_stream c" "sndbuf_ok (c\<lparr>c_tp := tp\<rparr>) = sndbuf_ok c" "refs (c\<lparr>c_tp := tp\<rparr>) = refs c" "detached (c\<lparr>c_tp := tp\<rparr>) = detached c"
    by (simp_all add: snd_stream_def sndbuf_ok_def refs_def detached_def)
  have t: "tp_state tp = tp_state (c_tp c)" "iss tp = iss (c_tp c)" "t_closed tp = t_closed (c_tp c)" "sack_count tp = sack_count (c_tp c)" "t_flags tp = t_flags (c_tp c)"
    by (simp_all add: tp_def)
  have "live S h (c\<lparr>c_tp := tp\<rparr>)"
    using l p by (simp add: live_def sending_def snd_ok_def stream_ok_def sent_ok_def before_open_def s o t tp_flag_def)
  then show ?thesis using e by blast
qed

lemma enter_closed:
  assumes l: "closed_down S h c" and d: "co_dispatched (timers (c_tp c) w) \<noteq> t_timer_entered (c_tp c) w"
  shows "\<exists>c'. tcp_timer_enter w c = (False, c') \<and> closed_down S h c'"
proof -
  define tp where "tp = (c_tp c)\<lparr>t_timer_entered := (t_timer_entered (c_tp c))(w := t_timer_entered (c_tp c) w + 1)\<rparr>"
  have p: "Suc (pending_calls tp) = pending_calls (c_tp c)" using pending_enter [OF d] by (simp add: tp_def)
  have nf: "\<not> c_freed c" "t_closed (c_tp c)" "unat (t_draining (c_tp c)) = Suc (pending_calls tp)" using l p by (auto simp: closed_down_def)
  have z: "t_draining (c_tp c) \<noteq> 0" using nf(3) by auto
  have u: "unat (t_draining (c_tp c) - 1) = pending_calls tp" using unat_minus_one [OF z] nf(3) by simp
  have dz: "t_draining (c_tp c) - 1 = 0 \<longleftrightarrow> pending_calls tp = 0" using u by (simp add: unat_eq_0 flip: u)
  define tp' where "tp' = tp\<lparr>t_draining := t_draining tp - 1\<rparr>"
  have t: "t_draining tp = t_draining (c_tp c)" "t_closed tp' = t_closed (c_tp c)" "iss tp' = iss (c_tp c)" "pending_calls tp' = pending_calls tp"
    "t_draining tp' = t_draining (c_tp c) - 1" "tcp_timer_active tp' t = tcp_timer_active (c_tp c) t" for t
    by (simp_all add: tp_def tp'_def pending_calls_def tcp_timer_active_def)
  define c' where "c' = (if pending_calls tp = 0 then c\<lparr>c_tp := tp', c_freed := True\<rparr> else c\<lparr>c_tp := tp'\<rparr>)"
  have "tcp_timer_enter w c = (False, c')"
    using nf dz unfolding tcp_timer_enter_def Let_def on_tp_def by (simp add: c'_def tp'_def tp_def)
  moreover have "refs c' = refs c" "detached c' = detached c" "c_released c' = c_released c" "c_gone c' = c_gone c" "c_sent c' = c_sent c" "c_tp c' = tp'"
    "c_freed c' \<longleftrightarrow> pending_calls tp = 0" using nf by (simp_all add: c'_def refs_def detached_def)
  then have "closed_down S h c'" using l p nf u by (auto simp: closed_down_def sent_ok_def t split: if_splits)
  ultimately show ?thesis by blast
qed

text \<open>A handler whose work keeps the invariant of a held connection keeps that of the connection.\<close>

lemma timer_handler_spec:
  assumes inv: "conn_inv S 0 c" and d: "co_dispatched (timers (c_tp c) w) \<noteq> t_timer_entered (c_tp c) w"
    and body: "\<And>c. live S 1 c \<Longrightarrow> \<exists>c'. body c = Some c' \<and> conn_inv S 1 c'"
  shows "\<exists>c'. timer_handler w body c = Some c' \<and> conn_inv S 0 c'"
proof (cases "c_gone c")
  case True
  then have cd: "closed_down S 0 c" using inv by (simp add: conn_inv_def)
  have nf: "\<not> c_freed c" "t_closed (c_tp c)" using cd pending_enter [OF d] by (auto simp: closed_down_def)
  obtain c' where c': "tcp_timer_enter w c = (False, c')" "closed_down S 0 c'" using enter_closed [OF cd d] by blast
  then show ?thesis using nf by (auto simp: timer_handler_def conn_inv_def closed_down_def)
next
  case False
  then have lv: "live S 0 c" using inv by (simp add: conn_inv_def)
  have nf: "\<not> c_freed c" "\<not> t_closed (c_tp c)" "1 \<le> refs c" using lv by (auto simp: live_def sending_def split: if_splits)
  obtain so where so: "c_so c = Some so" using refs_so [OF nf(3)] by blast
  have d': "co_dispatched (timers (c_tp (on_so sock_hold c)) w) \<noteq> t_timer_entered (c_tp (on_so sock_hold c)) w" using d by simp
  obtain c1 where c1: "tcp_timer_enter w (on_so sock_hold c) = (True, c1)" "live S 1 c1" using enter_live [OF live_hold [OF lv] d'] by blast
  obtain c2 where c2: "body c1 = Some c2" "conn_inv S 1 c2" using body [OF c1(2)] by blast
  obtain c3 where "release_so c2 = Some c3" "conn_inv S 0 c3" using inv_release [of S 0 c2] c2(2) by auto
  then show ?thesis using nf so c1(1) c2(1) by (simp add: timer_handler_def)
qed

lemma live_gone: "live S h c \<Longrightarrow> \<not> c_gone c" by (simp add: live_def)

lemma live_inv: "live S h c \<Longrightarrow> conn_inv S h c" by (simp add: conn_inv_def live_gone)

lemma closed_gone: "closed_down S h c \<Longrightarrow> c_gone c" by (simp add: closed_down_def)

lemma closed_inv: "closed_down S h c \<Longrightarrow> conn_inv S h c" by (simp add: conn_inv_def closed_gone)

lemma live_send: "live S h c \<Longrightarrow> \<exists>c'. send_out c = Some c' \<and> live S h c'"
  using live_send_out by blast

lemma inv_send: "live S h c \<Longrightarrow> \<exists>c'. send_out c = Some c' \<and> conn_inv S h c'"
  using live_send_out live_inv by blast

lemma inv_drop: "live S h c \<Longrightarrow> \<exists>c'. tcp_drop e c = Some c' \<and> conn_inv S h c'"
  using drop_spec closed_inv by blast

lemma inv_close: "live S h c \<Longrightarrow> \<exists>c'. tcp_close c = Some c' \<and> conn_inv S h c'"
  using close_spec live_closable closed_inv by blast

text \<open>Changes of the core that keep a connection live: the send sequence starts again at what is not acknowledged, the
  scoreboard is forgotten.\<close>

lemma live_tpI:
  assumes l: "live S h c" and seq: "\<And>n. n = length (snd_stream c) \<Longrightarrow> snd_seq_ok n (c_tp c) \<Longrightarrow> snd_seq_ok n tp"
    and same: "tp_state tp = tp_state (c_tp c)" "iss tp = iss (c_tp c)" "snd_una tp = snd_una (c_tp c)" "snd_max tp = snd_max (c_tp c)"
      "tp_flag TF_SENTFIN tp = tp_flag TF_SENTFIN (c_tp c)" "t_closed tp = t_closed (c_tp c)" "pending_calls tp = pending_calls (c_tp c)"
    and fast: "tp_flag TF_FASTRECOVERY tp \<Longrightarrow> tp_flag TF_FASTRECOVERY (c_tp c) \<or> TCPS_HAVEESTABLISHED (tp_state (c_tp c))"
    and sack: "TCPS_HAVEESTABLISHED (tp_state (c_tp c)) \<or> sack_count tp \<le> sack_count (c_tp c)"
  shows "live S h (c\<lparr>c_tp := tp\<rparr>)"
proof -
  have o: "snd_stream (c\<lparr>c_tp := tp\<rparr>) = snd_stream c" "sndbuf_ok (c\<lparr>c_tp := tp\<rparr>) = sndbuf_ok c" "refs (c\<lparr>c_tp := tp\<rparr>) = refs c" "detached (c\<lparr>c_tp := tp\<rparr>) = detached c"
    by (simp_all add: snd_stream_def sndbuf_ok_def refs_def detached_def)
  have "acked_to k tp = acked_to k (c_tp c)" for k by (simp add: acked_to_def fin_acked_def same)
  moreover have "sends_data tp \<Longrightarrow> sends_data (c_tp c)" using fast by (auto simp: sends_data_def same)
  ultimately have st: "stream_ok S (c\<lparr>c_tp := tp\<rparr>)" using l by (auto simp: live_def sending_def stream_ok_def o)
  have "\<not> TCPS_HAVEESTABLISHED (tp_state tp) \<longrightarrow> before_open S (c\<lparr>c_tp := tp\<rparr>)"
    using l fast sack by (auto simp: live_def before_open_def same o)
  then show ?thesis using l seq [OF refl] st by (simp add: live_def sending_def snd_ok_def sent_ok_def o same)
qed

lemma live_core: "conn_core c' = conn_core c \<Longrightarrow> live S h c \<Longrightarrow> live S h c'"
  using conn_core_eq(1) by blast

lemma live_tp_core: "tp_core (f (c_tp c)) = tp_core (c_tp c) \<Longrightarrow> live S h c \<Longrightarrow> live S h (on_tp f c)"
  using live_core core_tpI by blast

lemma sack_ok_cleared: "sack_ok tp \<Longrightarrow> sack_ok (tp\<lparr>sack_count := 0\<rparr>)"
  by (simp add: sack_ok_def sack_shape_def sack_view_def)

lemma live_rewind: "live S h c \<Longrightarrow> live S h (c\<lparr>c_tp := (c_tp c)\<lparr>snd_nxt := snd_una (c_tp c)\<rparr>\<rparr>)"
  by (rule live_tpI) (auto simp: snd_seq_ok_def sack_ok_def sack_shape_def sack_view_def snd_limit_def syn_pending_def tp_flag_def pending_calls_def)

lemma live_sack_clear:
  "live S h c \<Longrightarrow> live S h (c\<lparr>c_tp := (c_tp c)\<lparr>t_flags := t_flags (c_tp c) AND NOT TF_FASTRECOVERY, sack_count := 0\<rparr>\<rparr>)"
  by (rule live_tpI) (auto simp: snd_seq_ok_def sack_ok_def sack_shape_def sack_view_def snd_limit_def syn_pending_def tp_flag_def pending_calls_def and_or_zero)

lemma live_rexmt_reset:
  assumes "live S h c"
  shows "live S h (on_tp rexmt_reset c)"
proof -
  define c1 where "c1 = c\<lparr>c_tp := (c_tp c)\<lparr>snd_nxt := snd_una (c_tp c)\<rparr>\<rparr>"
  define c2 where "c2 = c1\<lparr>c_tp := (c_tp c1)\<lparr>t_flags := t_flags (c_tp c1) AND NOT TF_FASTRECOVERY, sack_count := 0\<rparr>\<rparr>"
  have "live S h c2" unfolding c2_def c1_def by (intro live_sack_clear live_rewind assms)
  moreover have "conn_core (on_tp rexmt_reset c) = conn_core c2"
    by (simp add: conn_core_def tp_core_def c2_def c1_def rexmt_reset_def tcp_sack_clear_def clear_flag_tp_def detached_def tp_flag_def)
  ultimately show ?thesis using live_core by blast
qed

lemma core_backoff: "tp_core (rexmt_backoff tp) = tp_core tp" by (simp add: rexmt_backoff_def)

lemma live_cc: "live S h c \<Longrightarrow> cc_frames (c_cc c)" by (simp add: live_def sending_def)

lemma live_cc_do: "live S h c \<Longrightarrow> live S h (on_tp (cc_do (c_cc c) e) c)"
  by (rule live_tp_core) (rule core_cc_do [OF live_cc])

lemma live_stat [simp]: "live S h (on_stat f c) = live S h c" by (rule conn_core_eq) simp

lemma live_timer [simp]: "live S h (tcp_timer_activate w d c) = live S h c" by (rule conn_core_eq) simp

lemma rexmt_timeout_spec: "live S h c \<Longrightarrow> \<exists>c'. tcp_rexmt_timeout c = Some c' \<and> conn_inv S h c'"
proof -
  assume l: "live S h c"
  define c1 where "c1 = on_tp (\<lambda>tp. tp\<lparr>rexmt_shift := rexmt_shift tp + 1\<rparr>) c"
  have l1: "live S h c1" using l by (simp add: c1_def live_tp_core)
  define c2 where "c2 = on_tp rexmt_backoff (on_stat (\<lambda>st. st\<lparr>st_rexmttimeo := st_rexmttimeo st + 1\<rparr>) c1)"
  have l2: "live S h c2" using l1 by (simp add: c2_def live_tp_core core_backoff)
  define c3 where "c3 = (if TCPS_HAVEESTABLISHED (tp_state (c_tp c2)) then on_tp (cc_do (c_cc c2) (Signal CC_RTO)) c2 else c2)"
  have l3: "live S h c3" using live_cc_do [OF l2] l2 by (simp only: c3_def split: if_splits) blast
  define c4 where "c4 = on_tp rexmt_reset c3"
  have l4: "live S h (tcp_timer_activate TCPT_REXMT (ucast (tcp_rexmt_ms (c_tp c4))) c4)" using live_rexmt_reset [OF l3] by (simp add: c4_def)
  have "tcp_rexmt_timeout c = (if rexmt_shift (c_tp c1) > TCP_MAXRXTSHIFT
     then tcp_drop (if t_softerror (c_tp c1) \<noteq> 0 then t_softerror (c_tp c1) else ETIMEDOUT) c1
     else send_out (tcp_timer_activate TCPT_REXMT (ucast (tcp_rexmt_ms (c_tp c4))) c4))"
    unfolding tcp_rexmt_timeout_def Let_def c4_def c3_def c2_def c1_def by (rule refl)
  then show ?thesis using inv_drop [OF l1] inv_send [OF l4] by (simp split: if_splits)
qed

lemma persist_timeout_spec: "live S h c \<Longrightarrow> \<exists>c'. persist_timeout c = Some c' \<and> conn_inv S h c'"
proof -
  assume l: "live S h c"
  define c1 where "c1 = on_tp (set_flag_tp TF_FORCEDATA) (tcp_setpersist (on_stat (\<lambda>st. st\<lparr>st_persisttimeo := st_persisttimeo st + 1\<rparr>) c))"
  have "conn_core c1 = conn_core c" by (simp add: c1_def core_tpI)
  then have "live S h c1" using l live_core by blast
  then obtain c2 where c2: "send_out c1 = Some c2" "live S h c2" using live_send by blast
  have "live S h (on_tp (clear_flag_tp TF_FORCEDATA) c2)" using c2(2) by (simp add: live_tp_core)
  then show ?thesis using c2(1) live_inv by (auto simp: persist_timeout_def c1_def)
qed

text \<open>A segment without data.\<close>

lemma live_sent:
  assumes "live S h c" and "sg_data sg = []"
  shows "live S h (c\<lparr>c_sent := c_sent c @ [sg]\<rparr>)"
proof -
  have o: "snd_stream (c\<lparr>c_sent := x\<rparr>) = snd_stream c" "sndbuf_ok (c\<lparr>c_sent := x\<rparr>) = sndbuf_ok c" "refs (c\<lparr>c_sent := x\<rparr>) = refs c"
    "detached (c\<lparr>c_sent := x\<rparr>) = detached c" for x
    by (simp_all add: snd_stream_def sndbuf_ok_def refs_def detached_def)
  show ?thesis using assms
    by (auto simp: live_def sending_def snd_ok_def stream_ok_def sent_ok_def before_open_def carries_stream_def o)
qed

lemma live_checksum: "live S h c \<Longrightarrow> sg_data sg = [] \<Longrightarrow> live S h (tcp_checksum_and_send sg (c\<lparr>c_allocs := os\<rparr>))"
proof -
  assume a: "live S h c" "sg_data sg = []"
  have "conn_core (tcp_checksum_and_send sg (c\<lparr>c_allocs := os\<rparr>)) = conn_core (c\<lparr>c_sent := c_sent c @ [sg]\<rparr>)"
    by (simp add: tcp_checksum_and_send_def conn_core_def on_stat_def detached_def)
  then show ?thesis using live_core live_sent [OF a] by blast
qed

lemma live_respond: "live S h c \<Longrightarrow> live S h (tcp_respond ack seq flags c)"
  using live_checksum [of S h c] live_core [of "c\<lparr>c_allocs := os\<rparr>" c S h for os]
  by (auto simp: tcp_respond_def tcp_fill_header_def split: prod.splits option.splits)

lemma keep_timeout_spec: "live S h c \<Longrightarrow> \<exists>c'. tcp_keep_timeout c = Some c' \<and> conn_inv S h c'"
proof -
  assume l: "live S h c"
  define c1 where "c1 = on_tp (\<lambda>tp. tp\<lparr>keep_probes := keep_probes tp + 1\<rparr>) c"
  have k: "live S h (tcp_respond (rcv_nxt (c_tp c1)) (snd_una (c_tp c1) - 1) TH_ACK c1)" using l by (intro live_respond) (simp add: c1_def live_tp_core)
  have "live S h (on_tp (\<lambda>tp. tp\<lparr>keep_probes := 0\<rparr>) c)" using l by (simp add: live_tp_core)
  then show ?thesis using k l inv_drop [OF l] inv_drop [of S h "on_stat f c" for f] live_inv
    unfolding tcp_keep_timeout_def Let_def c1_def by auto
qed

lemma delack_spec: "live S h c \<Longrightarrow> \<exists>c'. send_out (on_tp (\<lambda>tp. set_flag_tp TF_ACKNOW (clear_flag_tp TF_DELACK tp)) c) = Some c' \<and> conn_inv S h c'"
  by (intro inv_send live_tp_core) simp_all

definition tcp_timer_handler :: "tcp_timer_type \<Rightarrow> tcp_conn \<Rightarrow> tcp_conn option" where
  "tcp_timer_handler w =
     (case w of TCPT_REXMT \<Rightarrow> tcp_timer_rexmt | TCPT_PERSIST \<Rightarrow> tcp_timer_persist | TCPT_KEEP \<Rightarrow> tcp_timer_keep
      | TCPT_2MSL \<Rightarrow> tcp_timer_2msl | TCPT_DELACK \<Rightarrow> tcp_timer_delack)"

lemma timers_spec:
  assumes "conn_inv S 0 c" and "co_dispatched (timers (c_tp c) w) \<noteq> t_timer_entered (c_tp c) w"
  shows "\<exists>c'. tcp_timer_handler w c = Some c' \<and> conn_inv S 0 c'"
  using timer_handler_spec [OF assms rexmt_timeout_spec] timer_handler_spec [OF assms persist_timeout_spec] timer_handler_spec [OF assms keep_timeout_spec]
    timer_handler_spec [OF assms inv_close] timer_handler_spec [OF assms delack_spec]
  by (cases w) (simp_all add: tcp_timer_handler_def tcp_timer_rexmt_def tcp_timer_persist_def tcp_timer_keep_def tcp_timer_2msl_def tcp_timer_delack_def)

end
