(* ===== verification/TCP_Session.thy ===== *)
theory TCP_Session
  imports TCP_Life
begin

text \<open>
  Everything that can happen to a connection keeps the invariant of \<open>TCP_Life\<close>: a segment from the network, whatever is in it,
  requests of the user, errors from ICMP, timers, in any order.
\<close>

section \<open>Establishing\<close>

text \<open>A connection at the moment its SYN is acknowledged: as \<open>live\<close>, but for the sequence numbers.\<close>

definition fresh :: "bytes \<Rightarrow> nat \<Rightarrow> tcp_conn \<Rightarrow> bool" where
  "fresh S h c \<longleftrightarrow> \<not> c_freed c \<and> cc_frames (c_cc c) \<and> sndbuf_ok c \<and> snd_stream c = S \<and> length S < stream_max \<and>
     \<not> c_gone c \<and> \<not> c_released c \<and> \<not> t_closed (c_tp c) \<and> pending_calls (c_tp c) < 2 ^ 32 \<and>
     \<not> tp_flag TF_FASTRECOVERY (c_tp c) \<and> \<not> tp_flag TF_SENTFIN (c_tp c) \<and> (\<forall>sg\<in>set (c_sent c). sg_data sg = []) \<and>
     h + (if detached c then 1 else 2) \<le> refs c \<and> refs c < 2 ^ 31 + h"

lemma live_fresh: "live S h c \<Longrightarrow> \<not> TCPS_HAVEESTABLISHED (tp_state (c_tp c)) \<Longrightarrow> fresh S h c"
  by (auto simp: live_def fresh_def sending_def snd_ok_def before_open_def)

lemma sent_nothing: "\<forall>sg\<in>set (c_sent c). sg_data sg = [] \<Longrightarrow> sent_ok S c"
  by (simp add: sent_ok_def carries_stream_def)

lemma fresh_live:
  assumes f: "fresh S h c" and seq: "snd_una (c_tp c) = iss (c_tp c) + 1" "snd_nxt (c_tp c) = snd_una (c_tp c)" "snd_max (c_tp c) = snd_una (c_tp c)"
    and sack: "sack_ok (c_tp c)" and st: "tp_state (c_tp c) = TCPS_ESTABLISHED \<or> tp_state (c_tp c) = TCPS_FIN_WAIT_1"
  shows "live S h c"
proof -
  have e: "TCPS_HAVEESTABLISHED (tp_state (c_tp c))" "\<not> syn_pending (c_tp c)" using st by (auto simp: TCPS_HAVEESTABLISHED_def less_eq_tcp_state_def syn_pending_def)
  have "snd_seq_ok (length (snd_stream c)) (c_tp c)" using f sack e seq by (simp add: snd_seq_ok_def snd_limit_def fresh_def)
  moreover have "stream_ok S c" using f seq unfolding stream_ok_def
    by (intro exI [of _ 0]) (simp add: fresh_def acked_to_def fin_acked_def)
  ultimately show ?thesis using f e sent_nothing by (simp add: fresh_def live_def sending_def snd_ok_def)
qed

text \<open>The part of the control block \<open>fresh\<close> is about.\<close>

definition fresh_core :: "tcpcb \<Rightarrow> _" where
  "fresh_core tp = (tp_flag TF_FASTRECOVERY tp, tp_flag TF_SENTFIN tp, t_closed tp, pending_calls tp)"

lemma core_fresh: assumes "tp_core tp' = tp_core tp" shows "fresh_core tp' = fresh_core tp"
  by (simp add: fresh_core_def tp_core_eq [OF assms])

lemma fresh_eq:
  assumes "fresh_core (c_tp c') = fresh_core (c_tp c)" "map_option so_core (c_so c') = map_option so_core (c_so c)" "c_cc c' = c_cc c" "c_gone c' = c_gone c"
    "c_freed c' = c_freed c" "c_released c' = c_released c" "detached c' = detached c" "c_sent c' = c_sent c"
  shows "fresh S h c' = fresh S h c"
  using assms so_core_eq [OF assms(2)] by (simp add: fresh_def fresh_core_def)

lemma fresh_conn_core:
  assumes "conn_core c' = conn_core c"
  shows "fresh S h c' = fresh S h c"
proof -
  have "tp_core (c_tp c') = tp_core (c_tp c)" using assms by (simp add: conn_core_def)
  from fresh_eq [OF core_fresh [OF this]] show ?thesis using assms by (simp add: conn_core_def)
qed

lemma fresh_tp: "fresh_core (f (c_tp c)) = fresh_core (c_tp c) \<Longrightarrow> fresh S h (on_tp f c) = fresh S h c"
  by (rule fresh_eq) simp_all

lemma fresh_state: "fresh S h (on_tp (tcp_state_change s) c) = fresh S h c"
  by (rule fresh_tp) (simp add: fresh_core_def tcp_state_change_def pending_calls_def tp_flag_def)

text \<open>\<^verbatim>\<open>tcp_established\<close> changes the state only.\<close>

definition seq_view :: "tcpcb \<Rightarrow> _" where
  "seq_view tp = (iss tp, snd_una tp, snd_nxt tp, snd_max tp, sack_blocks tp, sack_count tp)"

lemma core_seq_view: "tp_core tp' = tp_core tp \<Longrightarrow> seq_view tp' = seq_view tp"
  by (simp add: tp_core_def seq_view_def)

lemma conn_core_seq_view: "conn_core c' = conn_core c \<Longrightarrow> seq_view (c_tp c') = seq_view (c_tp c) \<and> tp_state (c_tp c') = tp_state (c_tp c)"
  by (simp add: conn_core_def tp_core_def seq_view_def)

lemma sack_ok_view: "seq_view tp' = seq_view tp \<Longrightarrow> sack_ok tp' = sack_ok tp"
  by (simp add: seq_view_def sack_ok_def sack_shape_def sack_view_def)

lemma established_spec:
  assumes "fresh S h c"
  shows "fresh S h (tcp_established c) \<and> seq_view (c_tp (tcp_established c)) = seq_view (c_tp c) \<and>
    (tp_state (c_tp (tcp_established c)) = TCPS_ESTABLISHED \<or> tp_state (c_tp (tcp_established c)) = TCPS_FIN_WAIT_1)"
proof -
  define c1 where "c1 = on_tp (tcp_state_change TCPS_ESTABLISHED) c"
  define c2 where "c2 = on_tp (\<lambda>tp. case cc_conn_init (c_cc c) of Some f \<Rightarrow> f tp | None \<Rightarrow> tp) (on_stat (\<lambda>st. st\<lparr>st_connects := st_connects st + 1\<rparr>) c1)"
  define c3 where "c3 = tcp_timer_activate TCPT_KEEP TCP_KEEPIDLE_MS c2"
  define c4 where "c4 = (if \<not> detached c3 then on_so sock_is_connected c3 else c3)"
  have cc: "cc_frames (c_cc c)" using assms by (simp add: fresh_def)
  have "tp_core (case cc_conn_init (c_cc c) of Some f \<Rightarrow> f tp | None \<Rightarrow> tp) = tp_core tp" for tp
    using core_cc [OF cc_frames.conn_frame_law [OF cc]] by (simp split: option.splits)
  then have "conn_core c2 = conn_core c1" by (simp add: c2_def core_tpI)
  moreover have "conn_core c4 = conn_core c3" by (simp add: c4_def core_soI)
  ultimately have core: "conn_core c4 = conn_core c1" by (simp add: c3_def)
  have 1: "fresh S h c1" "seq_view (c_tp c1) = seq_view (c_tp c)" "tp_state (c_tp c1) = TCPS_ESTABLISHED"
    using assms fresh_state by (simp_all add: c1_def seq_view_def tcp_state_change_def) 
  then have 4: "fresh S h c4" "seq_view (c_tp c4) = seq_view (c_tp c)" "tp_state (c_tp c4) = TCPS_ESTABLISHED"
    using fresh_conn_core [OF core] conn_core_seq_view [OF core] by auto
  have e: "tcp_established c = (if tp_flag TF_NEEDFIN (c_tp c4) then on_tp (\<lambda>tp. tcp_state_change TCPS_FIN_WAIT_1 (clear_flag_tp TF_NEEDFIN tp)) c4 else c4)"
    by (simp add: tcp_established_def Let_def c4_def c3_def c2_def c1_def)
  define c5 where "c5 = on_tp (\<lambda>tp. tcp_state_change TCPS_FIN_WAIT_1 (clear_flag_tp TF_NEEDFIN tp)) c4"
  have "c5 = on_tp (tcp_state_change TCPS_FIN_WAIT_1) (on_tp (clear_flag_tp TF_NEEDFIN) c4)" by (simp add: c5_def on_tp_def)
  then have "fresh S h c5" using 4(1) fresh_tp [OF core_fresh, of "clear_flag_tp TF_NEEDFIN" c4] by (simp add: fresh_state)
  moreover have "seq_view (c_tp c5) = seq_view (c_tp c4)" "tp_state (c_tp c5) = TCPS_FIN_WAIT_1"
    by (simp_all add: c5_def seq_view_def tcp_state_change_def clear_flag_tp_def)
  ultimately show ?thesis using 4 unfolding e c5_def [symmetric] by simp
qed

section \<open>Changes of state\<close>

lemma live_state:
  assumes l: "live S h c" and e: "TCPS_HAVEESTABLISHED (tp_state (c_tp c))" "TCPS_HAVEESTABLISHED s"
    and fin: "tp_flag TF_SENTFIN (c_tp c) \<Longrightarrow> TCPS_FIN_WAIT_1 \<le> tp_state (c_tp c) \<Longrightarrow> TCPS_FIN_WAIT_1 \<le> s"
  shows "live S h (on_tp (tcp_state_change s) c)"
proof -
  define tp where "tp = tcp_state_change s (c_tp c)"
  have t: "iss tp = iss (c_tp c)" "t_closed tp = t_closed (c_tp c)" "pending_calls tp = pending_calls (c_tp c)" "tp_state tp = s" "acked_to k tp = acked_to k (c_tp c)" for k
    by (simp_all add: tp_def tcp_state_change_def pending_calls_def acked_to_def fin_acked_def tp_flag_def)
  have "snd_seq_ok n tp" if "snd_seq_ok n (c_tp c)" for n
    using that e fin by (auto simp: tp_def tcp_state_change_def snd_seq_ok_def snd_limit_def syn_pending_def sack_ok_def sack_shape_def sack_view_def tp_flag_def
        TCPS_HAVEESTABLISHED_def less_eq_tcp_state_def less_tcp_state_def split: if_splits)
  then show ?thesis using l e
    by (simp add: live_def sending_def snd_ok_def stream_ok_def sent_ok_def sends_data_def tp_def [symmetric] t)
qed

lemma timewait_spec:
  assumes l: "live S h c" and e: "TCPS_HAVEESTABLISHED (tp_state (c_tp c))"
  shows "\<exists>c'. tcp_enter_timewait c = Some c' \<and> live S h c' \<and> tp_state (c_tp c') = TCPS_TIME_WAIT"
proof -
  define c1 where "c1 = on_tp (\<lambda>tp. tcp_timer_stop_all (tcp_state_change TCPS_TIME_WAIT tp)) c"
  define c2 where "c2 = tcp_timer_activate TCPT_2MSL (2 * TCP_MSL_MS) c1"
  have "live S h (on_tp (tcp_state_change TCPS_TIME_WAIT) c)"
    by (rule live_state [OF l e]) (simp_all add: TCPS_HAVEESTABLISHED_def less_eq_tcp_state_def)
  moreover have c: "conn_core c1 = conn_core (on_tp (tcp_state_change TCPS_TIME_WAIT) c)" by (simp add: c1_def conn_core_def)
  ultimately have l2: "live S h c2" using live_core by (simp add: c2_def)
  have s: "tp_state (c_tp c2) = TCPS_TIME_WAIT" using conn_core_eq(4) [OF c] conn_core_eq(4) [of c2 c1] by (simp add: c2_def tcp_state_change_def)
  have so: "c_so c2 \<noteq> None" if "\<not> detached c2" using l2 that refs_so [of c2] by (auto simp: live_def)
  have "live S h (on_so sock_is_disconnected c2)" using live_core [OF core_soI l2] by simp
  then show ?thesis using l2 s so unfolding tcp_enter_timewait_def Let_def c1_def [symmetric] c2_def [symmetric] by (cases "detached c2") auto
qed

lemma usrclosed_spec:
  assumes "live S h c"
  shows "\<exists>c'. tcp_usrclosed c = Some c' \<and> conn_inv S h c'"
proof (cases "tp_state (c_tp c) \<in> {TCPS_CLOSED, TCPS_LISTEN, TCPS_SYN_SENT}")
  case True
  then show ?thesis using inv_close [OF assms] by (simp add: tcp_usrclosed_def)
next
  case False
  have "live S h (on_tp usrclosed_state c)"
  proof (cases "tp_state (c_tp c)")
    case TCPS_SYN_RECEIVED
    then show ?thesis using assms by (intro live_tp_core) (simp_all add: usrclosed_state_def)
  next
    case TCPS_ESTABLISHED
    then have "on_tp usrclosed_state c = on_tp (tcp_state_change TCPS_FIN_WAIT_1) c" by (simp add: usrclosed_state_def on_tp_def)
    then show ?thesis using TCPS_ESTABLISHED live_state [OF assms] by (simp add: TCPS_HAVEESTABLISHED_def less_eq_tcp_state_def)
  next
    case TCPS_CLOSE_WAIT
    then have "on_tp usrclosed_state c = on_tp (tcp_state_change TCPS_LAST_ACK) c" by (simp add: usrclosed_state_def on_tp_def)
    then show ?thesis using TCPS_CLOSE_WAIT live_state [OF assms] by (simp add: TCPS_HAVEESTABLISHED_def less_eq_tcp_state_def)
  qed (use False assms in \<open>simp_all add: usrclosed_state_def live_tp_core\<close>)
  then show ?thesis using False live_inv by (auto simp: tcp_usrclosed_def Let_def)
qed

lemma usrclosed_output_spec:
  assumes "live S h c"
  shows "\<exists>c'. usrclosed_output c = Some c' \<and> conn_inv S h c'"
proof -
  obtain c1 where c1: "tcp_usrclosed c = Some c1" "conn_inv S h c1" using usrclosed_spec [OF assms] by blast
  then show ?thesis using inv_send [of S h c1] by (auto simp: usrclosed_output_def conn_inv_def)
qed

lemma ctlinput_spec:
  assumes "conn_inv S 0 c"
  shows "\<exists>c'. tcp_ctlinput e mtu c = Some c' \<and> conn_inv S 0 c'"
proof (cases "c_so c = None")
  case True
  then have "c_gone c" using assms refs_so [of c] by (auto simp: conn_inv_def live_def split: if_splits)
  then show ?thesis using True assms by (simp add: tcp_ctlinput_def tcp_ctlinput_locked_def)
next
  case False
  then obtain so where so: "c_so c = Some so" by auto
  have h: "conn_inv S 1 (on_so sock_hold c)"
  proof (cases "c_gone c")
    case True
    then have cd: "closed_down S 0 c" using assms by (simp add: conn_inv_def)
    then have "refs (on_so sock_hold c) = refs c + 1" using hold_refs [OF so] by (simp add: closed_down_def)
    then have "refs (c\<lparr>c_so := map_option sock_hold (c_so c)\<rparr>) + 0 = refs c + 1" by (simp add: on_so_def)
    from closed_refs [OF this cd] show ?thesis by (simp add: closed_inv on_so_def)
  next
    case False
    then show ?thesis using assms live_hold live_inv by (simp add: conn_inv_def)
  qed
  define c1 where "c1 = on_so sock_hold c"
  have "\<exists>c2. tcp_ctlinput_locked e mtu c1 = Some c2 \<and> conn_inv S 1 c2"
  proof (cases "c_gone c1")
    case True
    then show ?thesis using h by (simp add: tcp_ctlinput_locked_def c1_def)
  next
    case False
    then have l: "live S 1 c1" using h by (simp add: conn_inv_def c1_def)
    have m: "live S 1 (on_tp (\<lambda>tp. tp\<lparr>mss := x, snd_nxt := snd_una tp\<rparr>) c1)" for x
    proof -
      define c2 where "c2 = c1\<lparr>c_tp := (c_tp c1)\<lparr>snd_nxt := snd_una (c_tp c1)\<rparr>\<rparr>"
      have "on_tp (\<lambda>tp. tp\<lparr>mss := x, snd_nxt := snd_una tp\<rparr>) c1 = on_tp (\<lambda>tp. tp\<lparr>mss := x\<rparr>) c2" by (simp add: on_tp_def c2_def)
      then show ?thesis using live_rewind [OF l, folded c2_def] by (simp add: live_tp_core)
    qed
    have "live S 1 (on_tp (\<lambda>tp. tp\<lparr>t_softerror := e\<rparr>) c1)" using l by (simp add: live_tp_core)
    then show ?thesis using False inv_send [OF m] inv_drop [OF l] live_inv [OF l] live_inv
      unfolding tcp_ctlinput_locked_def Let_def by (auto split: if_splits)
  qed
  then obtain c2 where c2: "tcp_ctlinput_locked e mtu c1 = Some c2" "conn_inv S 1 c2" by blast
  then show ?thesis using inv_release [of S 0 c2] False by (auto simp: tcp_ctlinput_def c1_def)
qed

section \<open>Requests of the user\<close>

text \<open>The addresses of the connection, its route and its place in the hash table do not matter.\<close>

lemma INHASH_detached: "(x OR INPCB_INHASH) AND INPCB_DETACHED = x AND INPCB_DETACHED"
  by (rule and_or_zero) (simp add: INPCB_INHASH_def INPCB_DETACHED_def)

lemma core_addr [simp]:
  "conn_core (c\<lparr>c_v4 := v\<rparr>) = conn_core c" "conn_core (c\<lparr>c_lport := p\<rparr>) = conn_core c" "conn_core (c\<lparr>c_fport := p\<rparr>) = conn_core c"
  "conn_core (c\<lparr>c_route := r\<rparr>) = conn_core c" "conn_core (c\<lparr>c_inp_flags := c_inp_flags c OR INPCB_INHASH\<rparr>) = conn_core c"
  by (simp_all add: conn_core_def detached_def INHASH_detached)

lemma listen_spec:
  assumes "live S h c"
  shows "live S h (snd (tcp_listen bd c))"
proof -
  have s: "live S h (on_tp (tcp_state_change TCPS_LISTEN) c1)"
    if l: "live S h c1" and st: "tp_state (c_tp c1) = TCPS_CLOSED \<or> tp_state (c_tp c1) = TCPS_LISTEN" for c1
  proof -
    define tp where "tp = tcp_state_change TCPS_LISTEN (c_tp c1)"
    have n: "\<not> TCPS_HAVEESTABLISHED (tp_state (c_tp c1))" "\<not> TCPS_HAVEESTABLISHED (tp_state tp)"
      using st by (auto simp: TCPS_HAVEESTABLISHED_def less_eq_tcp_state_def tp_def tcp_state_change_def)
    have b: "before_open S c1" using l n by (simp add: live_def)
    have "before_open S (on_tp (tcp_state_change TCPS_LISTEN) c1)" using b by (simp add: before_open_def tcp_state_change_def tp_flag_def)
    moreover have "snd_seq_ok n tp" if "snd_seq_ok n (c_tp c1)" for n
      using that st b by (auto simp: before_open_def tp_def tcp_state_change_def snd_seq_ok_def snd_limit_def syn_pending_def sack_ok_def sack_shape_def sack_view_def tp_flag_def
          less_eq_tcp_state_def less_tcp_state_def split: if_splits)
    moreover have "\<not> sends_data tp" using b n(2) by (simp add: sends_data_def before_open_def tp_def tcp_state_change_def tp_flag_def)
    moreover have "iss tp = iss (c_tp c1)" "t_closed tp = t_closed (c_tp c1)" "pending_calls tp = pending_calls (c_tp c1)"
      by (simp_all add: tp_def tcp_state_change_def pending_calls_def)
    ultimately show ?thesis using l by (auto simp: live_def sending_def snd_ok_def stream_ok_def sent_ok_def tp_def [symmetric])
  qed
  define c1 where "c1 = c\<lparr>c_lport := snd bd, c_inp_flags := c_inp_flags c OR INPCB_INHASH\<rparr>"
  have c1: "conn_core c1 = conn_core c" by (simp add: c1_def conn_core_def detached_def INHASH_detached)
  have "live S h c1" "tp_state (c_tp c1) = tp_state (c_tp c)" using live_core [OF c1 assms] by (auto simp: c1_def)
  then show ?thesis using s [of c1] s [OF assms] assms by (auto simp: tcp_listen_def Let_def c1_def)
qed

text \<open>A connection that has just sent, or is about to send, its SYN.\<close>

lemma fresh_syn:
  assumes f: "fresh S h c" and seq: "snd_una (c_tp c) = iss (c_tp c)" "rel (iss (c_tp c)) (snd_nxt (c_tp c)) \<le> rel (iss (c_tp c)) (snd_max (c_tp c))"
      "rel (iss (c_tp c)) (snd_max (c_tp c)) \<le> 1"
    and sack: "sack_shape (c_tp c)" "sack_count (c_tp c) = 0" and st: "syn_pending (c_tp c)"
  shows "live S h c"
proof -
  have e: "\<not> TCPS_HAVEESTABLISHED (tp_state (c_tp c))" using st by (auto simp: TCPS_HAVEESTABLISHED_def less_eq_tcp_state_def syn_pending_def)
  have "sack_ok (c_tp c)" using sack seq by (simp add: sack_ok_def sack_view_def half_def)
  then have "snd_seq_ok (length (snd_stream c)) (c_tp c)" using f sack seq st by (simp add: snd_seq_ok_def snd_limit_def fresh_def)
  moreover have "stream_ok S c" using f e unfolding stream_ok_def
    by (intro exI [of _ 0]) (simp add: fresh_def sends_data_def)
  moreover have "before_open S c" using f sack by (simp add: before_open_def fresh_def)
  ultimately show ?thesis using f e sent_nothing by (simp add: fresh_def live_def sending_def snd_ok_def)
qed

lemma live_sack: "live S h c \<Longrightarrow> sack_ok (c_tp c)" by (simp add: live_def sending_def snd_ok_def snd_seq_ok_def)

lemma connect_spec:
  assumes "live S h c"
  shows "\<exists>r' c'. tcp_connect r c = Some (r', c') \<and> live S h c' \<and>
    (tp_state (c_tp c) = TCPS_CLOSED \<and> cr_err r = 0 \<longrightarrow> tp_state (c_tp c') = TCPS_SYN_SENT \<and> detached c' = detached c)"
proof (cases "tp_state (c_tp c) \<noteq> TCPS_CLOSED \<or> cr_err r \<noteq> 0")
  case True
  then show ?thesis using assms live_gone [OF assms] by (auto simp: tcp_connect_def)
next
  case False
  define c1 where "c1 = c\<lparr>c_v4 := cr_v4 r, c_lport := cr_lport r, c_fport := cr_fport r, c_route := cr_route r, c_inp_flags := c_inp_flags c OR INPCB_INHASH\<rparr>"
  define c2 where "c2 = on_tp (tcp_state_change TCPS_SYN_SENT) (tcp_sendseqinit (cr_hash r) c1)"
  define c3 where "c3 = on_stat (\<lambda>st. st\<lparr>st_connattempt := st_connattempt st + 1\<rparr>) (tcp_timer_activate TCPT_KEEP TCP_KEEPINIT_MS (on_so sock_is_connecting c2))"
  have "conn_core c1 = conn_core c" by (simp add: c1_def conn_core_def detached_def INHASH_detached)
  then have l1: "live S h c1" using live_core assms by blast
  have st: "tp_state (c_tp c1) = TCPS_CLOSED" using False by (simp add: c1_def)
  have n: "\<not> TCPS_HAVEESTABLISHED (tp_state (c_tp c1))" by (simp add: st TCPS_HAVEESTABLISHED_def less_eq_tcp_state_def)
  have "fresh S h (tcp_sendseqinit (cr_hash r) c1)"
    using live_fresh [OF l1 n] unfolding tcp_sendseqinit_def Let_def
    by (subst fresh_tp) (simp_all add: fresh_core_def pending_calls_def tp_flag_def)
  then have f: "fresh S h c2" by (simp add: c2_def fresh_state)
  have "sack_count (c_tp c1) = 0" using l1 n by (simp add: live_def before_open_def)
  then have "live S h c2"
    using live_sack [OF l1] by (intro fresh_syn [OF f]) (simp_all add: c2_def tcp_state_change_def tcp_sendseqinit_def Let_def syn_pending_def sack_ok_def sack_shape_def)
  moreover have k3: "conn_core c3 = conn_core c2" by (simp add: c3_def core_soI)
  ultimately have "live S h c3" using live_core by blast
  then obtain c4 where c4: "send_out c3 = Some c4" "live S h c4" "quiet c3 c4" using live_send_out by blast
  have "tp_state (c_tp c4) = TCPS_SYN_SENT" using quiet_same(9) [OF c4(3)] conn_core_eq(4) [OF k3] by (simp add: c2_def tcp_state_change_def)
  moreover have "detached c4 = detached c" using quiet_same(4) [OF c4(3)]
    by (simp add: c3_def c2_def tcp_sendseqinit_def Let_def tcp_timer_activate_def) (simp add: c1_def detached_def INHASH_detached)
  moreover have "tcp_connect r c = Some (0, c4)"
    using c4(1) False live_gone [OF assms] by (simp add: tcp_connect_def Let_def c3_def c2_def c1_def)
  ultimately show ?thesis using c4(2) by auto
qed

lemma carries_append: "carries_stream S i sg \<Longrightarrow> carries_stream (S @ d) i sg"
  by (auto simp: carries_stream_def Let_def)

lemma send_spec:
  assumes l: "live S h c" and nb: "chain_wf nb" "length (snd_stream c @ sb_data nb) \<le> 2 ^ 30" "length (S @ sb_data nb) < stream_max"
    and st: "TCPS_SYN_SENT \<le> tp_state (c_tp c)" "tp_state (c_tp c) \<le> TCPS_CLOSE_WAIT"
  shows "live (S @ sb_data nb) h (on_so (\<lambda>so. so\<lparr>so_snd := sockbuf_append (so_snd so) nb\<rparr>) c)"
proof -
  define c1 where "c1 = on_so (\<lambda>so. so\<lparr>so_snd := sockbuf_append (so_snd so) nb\<rparr>) c"
  obtain so where so: "c_so c = Some so" using l refs_so [of c] by (auto simp: live_def split: if_splits)
  have ok: "sndbuf_ok c" "snd_seq_ok (length (snd_stream c)) (c_tp c)" using l by (auto simp: live_def sending_def snd_ok_def)
  have a: "sockbuf_inv (sockbuf_append (so_snd so) nb)" "sb_stream (sockbuf_append (so_snd so) nb) = sb_stream (so_snd so) @ sb_data nb"
    using sockbuf_append_spec [of "so_snd so" nb] ok(1) nb so by (auto simp: sndbuf_ok_def snd_stream_def)
  have s: "snd_stream c1 = snd_stream c @ sb_data nb" "sndbuf_ok c1" "refs c1 = refs c"
    using a nb(2) so by (auto simp: c1_def snd_stream_def sndbuf_ok_def refs_def)
  have nf: "\<not> tp_flag TF_SENTFIN (c_tp c)" using ok(2) st by (auto simp: snd_seq_ok_def less_eq_tcp_state_def)
  have "snd_limit (length (snd_stream c1)) (c_tp c)" using ok(2) nf by (auto simp: snd_seq_ok_def snd_limit_def s)
  then have seq: "snd_ok c1" using ok(2) s by (simp add: snd_ok_def snd_seq_ok_def c1_def)
  obtain k where k: "k \<le> length S" "snd_stream c = drop k S" "sends_data (c_tp c) \<longrightarrow> acked_to k (c_tp c)"
    using l by (auto simp: live_def sending_def stream_ok_def)
  have "stream_ok (S @ sb_data nb) c1" unfolding stream_ok_def by (rule exI [of _ k]) (use k s in \<open>simp add: c1_def\<close>)
  moreover have "sent_ok (S @ sb_data nb) c1" using l carries_append by (auto simp: live_def sending_def sent_ok_def c1_def)
  moreover have "before_open S c \<Longrightarrow> before_open (S @ sb_data nb) c1" using s by (simp add: before_open_def c1_def)
  ultimately show ?thesis unfolding c1_def [symmetric] using l seq s nb(3) by (simp add: live_def sending_def) (auto simp: c1_def split: if_splits)
qed

lemma detach_flag: "detached (c\<lparr>c_inp_flags := c_inp_flags c OR INPCB_DETACHED\<rparr>)"
proof -
  have "(c_inp_flags c OR INPCB_DETACHED) AND INPCB_DETACHED \<noteq> 0" by (rule and_or_zero) (simp add: INPCB_DETACHED_def)
  then show ?thesis by (simp add: detached_def)
qed

lemma detach_spec:
  assumes inv: "conn_inv S 0 c" and u: "\<not> c_released c"
  shows "\<exists>c'. tcp_detach c = Some c' \<and> conn_inv S 0 c'"
proof -
  define c1 where "c1 = c\<lparr>c_inp_flags := c_inp_flags c OR INPCB_DETACHED\<rparr>"
  have d: "detached c1" by (simp add: c1_def detach_flag)
  have o: "snd_stream c1 = snd_stream c" "sndbuf_ok c1 = sndbuf_ok c" "refs c1 = refs c"
    by (simp_all add: c1_def snd_stream_def sndbuf_ok_def refs_def)
  show ?thesis
  proof (cases "c_gone c")
    case True
    then have cd: "closed_down S 0 c" using inv by (simp add: conn_inv_def)
    have "\<exists>c'. tcp_pcb_release c1 = Some c' \<and> closed_down S 0 c'"
      by (rule pcb_release) (use cd u o in \<open>auto simp: closed_down_def c1_def sent_ok_def split: if_splits\<close>)
    then show ?thesis using True closed_inv by (auto simp: tcp_detach_def Let_def c1_def)
  next
    case False
    then have l: "live S 0 c" using inv by (simp add: conn_inv_def)
    then have l1: "live S 0 c1" using d o
      by (simp add: live_def sending_def snd_ok_def stream_ok_def sent_ok_def before_open_def) (auto simp: c1_def split: if_splits)
    show ?thesis using False inv_close [OF l1] usrclosed_output_spec [OF l1] by (auto simp: tcp_detach_def Let_def c1_def)
  qed
qed

end
