(* ===== verification/TCP_Arrivals.thy ===== *)
theory TCP_Arrivals
  imports TCP_Session
begin

text \<open>
  A segment from the network keeps the invariant of \<open>TCP_Life\<close>, whatever it contains.
\<close>

section \<open>Trimming and reassembly\<close>

lemma adj_front_nonempty: "netbuf_adj_front c n = (c', left) \<Longrightarrow> c \<noteq> [] \<Longrightarrow> c' \<noteq> []"
  by (cases c) (auto simp: Let_def split: prod.splits if_splits)

lemma adj_nonempty:
  assumes "nb \<noteq> []"
  shows "\<exists>nb'. netbuf_adj nb len = Done nb' \<and> nb' \<noteq> []"
proof -
  obtain b rest where nb: "nb = b # rest" using assms by (cases nb) auto
  have s: "c \<noteq> [] \<Longrightarrow> set_pkt_len v c \<noteq> []" for v c by (cases c) auto
  have k: "netbuf_cut_after (b # rest) n \<noteq> []" for n by simp
  obtain c left where f: "netbuf_adj_front (b # rest) (nat len) = (c, left)" by fastforce
  show ?thesis using s [OF adj_front_nonempty [OF f]] s [OF k] by (simp add: nb f Let_def del: netbuf_adj_front.simps netbuf_cut_after.simps)
qed

lemma drop_covered_core: "drop_covered e es fl tp = (es', fl', tp') \<Longrightarrow> tp_core tp' = tp_core tp"
  by (induction e es fl tp rule: drop_covered.induct) (auto simp: tcp_reassemble_free_entry_def split: if_splits)

lemma insert_tail_core:
  assumes "nb \<noteq> []"
  shows "\<exists>tp'. insert_tail ok tp before rest seq len fl nb = Done tp' \<and> tp_core tp' = tp_core tp"
proof -
  obtain es fl' tp1 where d: "drop_covered (seq + len) rest fl tp = (es, fl', tp1)" by (cases "drop_covered (seq + len) rest fl tp")
  have c: "tp_core tp1 = tp_core tp" by (rule drop_covered_core [OF d])
  obtain nb' where a: "netbuf_adj nb x = Done nb'" if "x = - int (unat (seq + len - re_seq (hd es)))" for x using adj_nonempty [OF assms] by blast
  show ?thesis using a c by (cases es) (auto simp: insert_tail_def d Let_def)
qed

lemma reassemble_insert_core:
  assumes "nb \<noteq> []"
  shows "\<exists>tp'. tcp_reassemble_insert ok tp so seq len fl nb = Done tp' \<and> tp_core tp' = tp_core tp"
proof -
  define before where "before = takeWhile (\<lambda>e. SEQ_LT (re_seq e) seq) (reassemble_queue tp)"
  define rest where "rest = dropWhile (\<lambda>e. SEQ_LT (re_seq e) seq) (reassemble_queue tp)"
  define overlap where "overlap = re_seq (last before) + re_len (last before) - seq"
  obtain nb' where a: "netbuf_adj nb (sint overlap) = Done nb'" "nb' \<noteq> []" using adj_nonempty [OF assms] by blast
  have i: "\<exists>tp'. insert_tail ok tp before rest seq' len' fl nb' = Done tp' \<and> tp_core tp' = tp_core tp" for seq' len' by (rule insert_tail_core [OF a(2)])
  have j: "\<exists>tp'. insert_tail ok tp before rest seq' len' fl nb = Done tp' \<and> tp_core tp' = tp_core tp" for seq' len' by (rule insert_tail_core [OF assms])
  show ?thesis
    unfolding tcp_reassemble_insert_def Let_def before_def [symmetric] rest_def [symmetric] overlap_def [symmetric] using i j a by (cases "before = []") simp_all
qed

lemma core_rcv_buf [simp]: "so_core (s\<lparr>so_rcv := r\<rparr>) = so_core s" by (simp add: so_core_def)

lemma pull_loop_core:
  "pull_loop es tp so st fl dl = (tp', so', st', fl', dl') \<Longrightarrow> tp_core tp' = tp_core tp \<and> map_option so_core so' = map_option so_core so"
proof (induction es arbitrary: tp so st fl dl)
  case (Cons e es)
  show ?case using Cons.prems by (auto simp: Let_def split: option.splits if_splits dest!: Cons.IH)
qed auto

lemma reassemble_core:
  assumes "nb \<noteq> []"
  shows "\<exists>tp' so' st' fin. tcp_reassemble ok tp so st (Some (seq, fl)) nb len = Done (tp', so', st', fin) \<and>
    tp_core tp' = tp_core tp \<and> map_option so_core so' = map_option so_core so"
proof -
  obtain tp1 where i: "tcp_reassemble_insert ok tp so seq len (fl AND TH_FIN) nb = Done tp1" "tp_core tp1 = tp_core tp"
    using reassemble_insert_core [OF assms] by blast
  obtain tp2 so2 st2 fl2 dl2 where p: "pull_loop (reassemble_queue tp1) tp1 so st 0 False = (tp2, so2, st2, fl2, dl2)"
    by (cases "pull_loop (reassemble_queue tp1) tp1 so st 0 False")
  from pull_loop_core [OF p] show ?thesis using i p
    by (simp add: tcp_reassemble_def tcp_reassemble_pull_def option.map_comp o_def)
qed

lemma reassemble_conn_spec:
  assumes "in_data seg \<noteq> []"
  shows "\<exists>fin c'. reassemble_conn seg c = Some (fin, c') \<and> conn_core c' = conn_core c"
proof -
  obtain ok c1 where t: "take_alloc c = (ok, c1)" by fastforce
  have c1: "conn_core c1 = conn_core c" using core_simple(3) [of c] by (simp add: t)
  obtain tp so st fin where r: "tcp_reassemble ok (c_tp c1) (c_so c1) (c_stat c1) (Some (in_seq seg, in_flags seg)) (in_data seg) (in_len seg) = Done (tp, so, st, fin)"
    "tp_core tp = tp_core (c_tp c1)" "map_option so_core so = map_option so_core (c_so c1)" using reassemble_core [OF assms] by blast
  have "conn_core (c1\<lparr>c_tp := tp, c_so := so, c_stat := st\<rparr>) = conn_core c1" using r(2,3) by (simp add: conn_core_def detached_def)
  then show ?thesis using c1 by (simp add: reassemble_conn_def t r(1))
qed

lemma trim_spec:
  assumes "in_data seg \<noteq> []"
  shows "\<exists>seg' c'. tcp_trim_segment seg c = Some (seg', c') \<and> conn_core c' = conn_core c \<and> (\<forall>s. seg' = Some s \<longrightarrow> in_data s \<noteq> [])"
proof -
  have f: "\<exists>seg' c'. trim_front seg c = Some (seg', c') \<and> conn_core c' = conn_core c \<and> in_data seg' \<noteq> []"
  proof -
    define todrop where "todrop = rcv_nxt (c_tp c) - in_seq seg"
    obtain seg1 todrop1 where 1: "(if in_has seg TH_SYN
                 then (seg\<lparr>in_flags := in_flags seg AND NOT TH_SYN, in_seq := in_seq seg + 1\<rparr>, todrop - 1) else (seg, todrop)) = (seg1, todrop1)" by fastforce
    have d1: "in_data seg1 = in_data seg" using 1 by (auto split: if_splits)
    define P where "P \<longleftrightarrow> todrop1 > in_len seg1 \<or> todrop1 = in_len seg1 \<and> \<not> in_has seg1 TH_FIN"
    define seg2 where "seg2 = (if P then seg1\<lparr>in_flags := in_flags seg1 AND NOT TH_FIN\<rparr> else seg1)"
    define todrop2 where "todrop2 = (if P then in_len seg1 else todrop1)"
    define c2 where "c2 = (if P
       then on_stat (\<lambda>st. st\<lparr>st_rcvduppack := st_rcvduppack st + 1\<rparr>) (on_tp (set_flag_tp TF_ACKNOW) c) else c)"
    have c2: "conn_core c2 = conn_core c" by (simp add: c2_def core_tpI)
    have d2: "in_data seg2 \<noteq> []" using assms d1 by (simp add: seg2_def)
    obtain nb where nb: "netbuf_adj (in_data seg2) (sint todrop2) = Done nb" "nb \<noteq> []" using adj_nonempty [OF d2] by blast
    have "trim_front seg c = (if sint todrop > 0
       then Some (seg2\<lparr>in_data := nb, in_seq := in_seq seg2 + todrop2, in_len := in_len seg2 - todrop2\<rparr>, c2) else Some (seg, c))"
      using nb(1) unfolding trim_front_def Let_def todrop_def [symmetric] 1 prod.case P_def [symmetric]
      by (cases P) (simp_all add: seg2_def todrop2_def c2_def)
    then show ?thesis using c2 nb(2) assms by auto
  qed
  then obtain seg1 c1 where 1: "trim_front seg c = Some (seg1, c1)" "conn_core c1 = conn_core c" "in_data seg1 \<noteq> []" by blast
  have "\<exists>seg' c'. trim_back seg1 c1 = Some (seg', c') \<and> conn_core c' = conn_core c1 \<and> (\<forall>s. seg' = Some s \<longrightarrow> in_data s \<noteq> [])"
  proof -
    have a: "conn_core (on_tp (set_flag_tp TF_ACKNOW) c1) = conn_core c1" by (simp add: core_tpI)
    obtain nb where nb: "netbuf_adj (in_data seg1) x = Done (nb x)" "nb x \<noteq> []" for x using adj_nonempty [OF 1(3)] by metis
    show ?thesis using nb a 1(3) by (auto simp: trim_back_def Let_def)
  qed
  then show ?thesis using 1 by (auto simp: tcp_trim_segment_def)
qed

section \<open>Retransmission\<close>

definition open_live :: "bytes \<Rightarrow> nat \<Rightarrow> tcp_conn \<Rightarrow> bool" where
  "open_live S h c \<longleftrightarrow> live S h c \<and> TCPS_HAVEESTABLISHED (tp_state (c_tp c))"

lemma open_core: assumes "conn_core c' = conn_core c" shows "open_live S h c' = open_live S h c"
  by (simp add: open_live_def conn_core_eq [OF assms])

lemma open_tp_core: "tp_core (f (c_tp c)) = tp_core (c_tp c) \<Longrightarrow> open_live S h (on_tp f c) = open_live S h c"
  by (intro open_core core_tpI)

lemma live_seq: "live S h c \<Longrightarrow> snd_seq_ok (length (snd_stream c)) (c_tp c) \<and> length (snd_stream c) \<le> 2 ^ 30"
  by (simp add: live_def sending_def snd_ok_def sndbuf_ok_def)

lemma live_nxt:
  assumes "live S h c" and "rel (snd_una (c_tp c)) x \<le> rel (snd_una (c_tp c)) (snd_max (c_tp c))"
  shows "live S h (on_tp (\<lambda>tp. tp\<lparr>snd_nxt := x\<rparr>) c)"
  unfolding on_tp_def
  by (rule live_tpI [OF assms(1)]) (use assms(2) in \<open>auto simp: snd_seq_ok_def sack_ok_def sack_shape_def sack_view_def snd_limit_def syn_pending_def tp_flag_def pending_calls_def\<close>)

text \<open>What stays when segments are sent: the acknowledged part of the stream and the state; more may have been sent.\<close>

definition progress :: "tcp_conn \<Rightarrow> tcp_conn \<Rightarrow> bool" where
  "progress c c' \<longleftrightarrow> snd_una (c_tp c') = snd_una (c_tp c) \<and> tp_state (c_tp c') = tp_state (c_tp c) \<and>
     rel (snd_una (c_tp c)) (snd_max (c_tp c)) \<le> rel (snd_una (c_tp c)) (snd_max (c_tp c'))"

lemma progress_core: assumes "conn_core c' = conn_core c" shows "progress c c'"
  by (simp add: progress_def conn_core_eq [OF assms])

lemma progress_trans: "progress a b \<Longrightarrow> progress b c \<Longrightarrow> progress a c"
  by (auto simp: progress_def)

lemma progress_quiet: "quiet c c' \<Longrightarrow> progress c c'"
  using quiet_same(9,11) [of c c'] by (simp add: progress_def quiet_def)

lemma progress_tp: "snd_una (f (c_tp c)) = snd_una (c_tp c) \<Longrightarrow> tp_state (f (c_tp c)) = tp_state (c_tp c) \<Longrightarrow> snd_max (f (c_tp c)) = snd_max (c_tp c) \<Longrightarrow>
    progress c (on_tp f c)"
  by (simp add: progress_def)

lemma retransmit_spec:
  assumes l: "live S h c" and fr: "rel (snd_una (c_tp c)) from \<le> rel (snd_una (c_tp c)) (snd_max (c_tp c))"
  shows "\<exists>stop c'. tcp_retransmit_from from cwnd c = Some (stop, c') \<and> live S h c' \<and> progress c c'"
proof -
  define c1 where "c1 = on_tp (\<lambda>tp. tp\<lparr>snd_nxt := from, snd_cwnd := cwnd\<rparr>) c"
  have "c1 = on_tp (\<lambda>tp. tp\<lparr>snd_cwnd := cwnd\<rparr>) (on_tp (\<lambda>tp. tp\<lparr>snd_nxt := from\<rparr>) c)" by (simp add: c1_def on_tp_def)
  then have l1: "live S h c1" using live_nxt [OF l fr] by (simp add: live_tp_core)
  have p1: "progress c c1" unfolding c1_def by (rule progress_tp) simp_all
  obtain c2 where c2: "send_out c1 = Some c2" "live S h c2" "quiet c1 c2" using live_send_out [OF l1] by blast
  have p2: "progress c c2" using progress_trans [OF p1 progress_quiet [OF c2(3)]] .
  define c3 where "c3 = on_tp (\<lambda>tp. if SEQ_GT (snd_nxt (c_tp c)) (snd_nxt tp) then tp\<lparr>snd_nxt := snd_nxt (c_tp c)\<rparr> else tp) c2"
  have "live S h c3"
  proof (cases "SEQ_GT (snd_nxt (c_tp c)) (snd_nxt (c_tp c2))")
    case True
    have "rel (snd_una (c_tp c)) (snd_nxt (c_tp c)) \<le> rel (snd_una (c_tp c)) (snd_max (c_tp c))" using live_seq [OF l] snd_seq_bounds by blast
    then have "rel (snd_una (c_tp c2)) (snd_nxt (c_tp c)) \<le> rel (snd_una (c_tp c2)) (snd_max (c_tp c2))" using p2 by (simp add: progress_def)
    from live_nxt [OF c2(2) this] show ?thesis using True by (simp add: c3_def on_tp_def)
  next
    case False
    then show ?thesis using c2(2) by (simp add: c3_def on_tp_def)
  qed
  moreover have "progress c2 c3" by (simp add: c3_def progress_def)
  ultimately have "live S h c3" "progress c c3" using progress_trans [OF p2] by auto
  then show ?thesis using c2(1) by (simp add: tcp_retransmit_from_def c1_def [symmetric] c3_def Let_def)
qed

lemma live_recovery:
  assumes "open_live S h c"
  shows "open_live S h (on_tp (recovery_window stop) c)"
proof -
  define c1 where "c1 = c\<lparr>c_tp := (c_tp c)\<lparr>t_flags := t_flags (c_tp c) OR TF_FASTRECOVERY\<rparr>\<rparr>"
  have l: "live S h c" "TCPS_HAVEESTABLISHED (tp_state (c_tp c))" using assms by (auto simp: open_live_def)
  then have syn: "\<not> syn_pending (c_tp c)" by (simp add: established_not_syn)
  have "live S h c1" unfolding c1_def
    by (rule live_tpI [OF l(1)]) (use l(2) syn in \<open>auto simp: snd_seq_ok_def sack_ok_def sack_shape_def sack_view_def snd_limit_def syn_pending_def tp_flag_def pending_calls_def and_or_zero\<close>)
  then have "open_live S h c1" using l(2) by (simp add: open_live_def c1_def)
  moreover have "conn_core (on_tp (recovery_window stop) c) = conn_core c1"
  proof -
    have "tp_core (recovery_window stop tp) = tp_core (set_flag_tp TF_FASTRECOVERY tp)" for tp by (simp add: recovery_window_def Let_def)
    then show ?thesis by (simp add: conn_core_def c1_def set_flag_tp_def detached_def)
  qed
  ultimately show ?thesis using open_core by blast
qed

lemma core_open_cc: assumes "open_live S h c" shows "conn_core (on_tp (cc_do (c_cc c) e) c) = conn_core c"
proof -
  have "cc_frames (c_cc c)" using assms live_cc by (auto simp: open_live_def)
  then show ?thesis by (intro core_tpI core_cc_do)
qed

lemma open_cc_do: "open_live S h c \<Longrightarrow> open_live S h (on_tp (cc_do (c_cc c) e) c)"
  using open_core [OF core_open_cc] by blast

lemma open_progress: "open_live S h c \<Longrightarrow> live S h c' \<Longrightarrow> progress c c' \<Longrightarrow> open_live S h c'"
  by (simp add: open_live_def progress_def)

lemma enter_recovery_spec:
  assumes "open_live S h c"
  shows "\<exists>c'. tcp_enter_recovery c = Some c' \<and> open_live S h c'"
proof -
  define c1 where "c1 = on_tp (cc_do (c_cc c) (Signal CC_DUPACK)) c"
  define c2 where "c2 = on_tp (\<lambda>tp. (tcp_timer_stop TCPT_REXMT (tp\<lparr>snd_recover := snd_max tp\<rparr>))\<lparr>rtt_start := 0\<rparr>) c1"
  have "open_live S h c1" unfolding c1_def by (rule open_cc_do [OF assms])
  then have o2: "open_live S h c2" by (simp add: c2_def open_tp_core)
  then obtain stop c3 where c3: "tcp_retransmit_from (snd_una (c_tp c2)) (ucast (mss (c_tp c2))) c2 = Some (stop, c3)" "live S h c3" "progress c2 c3"
    using retransmit_spec [of S h c2 "snd_una (c_tp c2)" "ucast (mss (c_tp c2))"] by (auto simp: open_live_def)
  have "open_live S h (on_tp (recovery_window stop) c3)" by (rule live_recovery [OF open_progress [OF o2 c3(2,3)]])
  moreover have "tcp_enter_recovery c = Some (on_tp (recovery_window stop) c3)"
    unfolding tcp_enter_recovery_def Let_def c1_def [symmetric] c2_def [symmetric] by (simp add: c3(1))
  ultimately show ?thesis by blast
qed

lemma dupack_spec:
  assumes "open_live S h c"
  shows "\<exists>c'. tcp_dupack seg c = Some c' \<and> open_live S h c'"
proof -
  have o: "open_live S h (on_tp (\<lambda>tp. tp\<lparr>dupacks := 0\<rparr>) c)" "open_live S h (on_tp (\<lambda>tp. tp\<lparr>snd_cwnd := snd_cwnd tp + ucast (mss tp)\<rparr>) c)"
    "open_live S h (on_tp (\<lambda>tp. tp\<lparr>dupacks := dupacks tp + 1\<rparr>) c)" using assms by (simp_all add: open_tp_core)
  show ?thesis using o assms enter_recovery_spec [OF o(3)] by (auto simp: tcp_dupack_def Let_def)
qed

section \<open>A new acknowledgement\<close>

lemma live_exit:
  assumes "open_live S h c"
  shows "open_live S h (tcp_exit_recovery c) \<and> progress c (tcp_exit_recovery c)"
proof -
  define c1 where "c1 = c\<lparr>c_tp := (c_tp c)\<lparr>t_flags := t_flags (c_tp c) AND NOT TF_FASTRECOVERY\<rparr>\<rparr>"
  define c2 where "c2 = on_tp (\<lambda>tp. tp\<lparr>dupacks := 0, sack_rexmit_bytes := 0\<rparr>) c1"
  have l: "live S h c" using assms by (simp add: open_live_def)
  have "live S h c1" unfolding c1_def
    by (rule live_tpI [OF l]) (auto simp: snd_seq_ok_def sack_ok_def sack_shape_def sack_view_def snd_limit_def syn_pending_def tp_flag_def pending_calls_def and_or_zero)
  then have "open_live S h c1" using assms by (simp add: open_live_def c1_def)
  then have o2: "open_live S h c2" by (simp add: c2_def open_tp_core)
  have e: "tcp_exit_recovery c = on_tp (cc_do (c_cc c2) Recovered) c2"
    by (simp add: tcp_exit_recovery_def c2_def c1_def on_tp_def clear_flag_tp_def del: cc_do.simps)
  from progress_core [OF core_open_cc [OF o2]] have "progress c2 (tcp_exit_recovery c)" by (simp only: e)
  moreover have "progress c c2" by (simp add: progress_def c2_def c1_def)
  ultimately show ?thesis using open_cc_do [OF o2] progress_trans by (simp only: e)
qed

lemma core_xmit [simp]: "tp_core (tcp_xmit_timer hz rtt tp) = tp_core tp"
  by (simp add: tcp_xmit_timer_def Let_def)

lemma core_rtt_sample: "conn_core (tcp_rtt_sample seg c) = conn_core c"
  by (simp add: tcp_rtt_sample_def Let_def core_tpI)

lemma partial_ack_spec:
  assumes o: "open_live S h c" and ack: "rel (snd_una (c_tp c)) ack \<le> rel (snd_una (c_tp c)) (snd_max (c_tp c))"
  shows "\<exists>c'. tcp_partial_ack ack c = Some c' \<and> open_live S h c' \<and> progress c c'"
proof (cases "tp_flag TF_SACK_PERMIT (c_tp c)")
  case True
  then show ?thesis using o by (simp add: tcp_partial_ack_def progress_def)
next
  case False
  define c1 where "c1 = on_tp (\<lambda>tp. (tcp_timer_stop TCPT_REXMT tp)\<lparr>rtt_start := 0\<rparr>) c"
  have k: "conn_core c1 = conn_core c" by (simp add: c1_def core_tpI)
  have o1: "open_live S h c1" using o open_core [OF k] by simp
  have e: "snd_una (c_tp c1) = snd_una (c_tp c)" "snd_max (c_tp c1) = snd_max (c_tp c)" using conn_core_eq [OF k] by auto
  then obtain stop c2 where c2: "tcp_retransmit_from ack (ucast (mss (c_tp c1)) + (ack - snd_una (c_tp c))) c1 = Some (stop, c2)" "live S h c2" "progress c1 c2"
    using retransmit_spec [of S h c1 ack "ucast (mss (c_tp c1)) + (ack - snd_una (c_tp c))"] o1 ack by (auto simp: open_live_def)
  define c3 where "c3 = on_tp (\<lambda>tp. tp\<lparr>snd_cwnd := (if snd_cwnd (c_tp c) > ack - snd_una (c_tp c) then snd_cwnd (c_tp c) - (ack - snd_una (c_tp c)) else 0) + ucast (mss tp)\<rparr>) c2"
  have k3: "conn_core c3 = conn_core c2" by (simp add: c3_def core_tpI)
  have "open_live S h c3" using open_core [OF k3] open_progress [OF o1 c2(2,3)] by simp
  moreover have "progress c c3" using progress_trans [OF progress_trans [OF progress_core [OF k] c2(3)] progress_core [OF k3]] .
  moreover have "tcp_partial_ack ack c = Some c3"
    using False c2(1) unfolding tcp_partial_ack_def Let_def c1_def [symmetric] by (simp add: c3_def)
  ultimately show ?thesis by blast
qed

lemma new_ack_window_spec:
  assumes o: "open_live S h c" and ack: "rel (snd_una (c_tp c)) ack \<le> rel (snd_una (c_tp c)) (snd_max (c_tp c))"
  shows "\<exists>c'. new_ack_window ack c = Some c' \<and> open_live S h c' \<and> progress c c'"
proof -
  define c1 where "c1 = on_tp (\<lambda>tp. cc_do (c_cc c) (Ack (ack - snd_una tp)) (tp\<lparr>dupacks := 0\<rparr>)) c"
  have "cc_frames (c_cc c)" using o live_cc by (auto simp: open_live_def)
  then have k: "conn_core c1 = conn_core c" unfolding c1_def by (intro core_tpI) (simp only: core_cc_do core_upd)
  show ?thesis using partial_ack_spec [OF assms] live_exit [OF o] open_core [OF k] o progress_core [OF k]
    unfolding new_ack_window_def c1_def [symmetric] by auto
qed

lemma sack_loop_frame: "sack_frame tp (sack_ack_loop tp ack)"
proof (induction tp ack rule: sack_ack_loop.induct)
  case (1 tp ack)
  show ?case
  proof (cases "sack_count tp \<noteq> 0 \<and> SEQ_LEQ (sb_end (sack_blocks tp ! 0)) ack")
    case True
    then show ?thesis using sack_frame_trans [OF sack_frame_intros(2) 1 [OF True]] by (subst sack_ack_loop.simps) simp
  next
    case False
    then show ?thesis by (subst sack_ack_loop.simps) auto
  qed
qed

lemma sack_frame_put: "sack_frame tp tp' \<Longrightarrow> tp' = tp\<lparr>sack_blocks := sack_blocks tp', sack_count := sack_count tp'\<rparr>"
  by (cases tp, cases tp') (simp add: sack_frame_def)

lemma sack_ack_frame: "\<exists>bs n r. tcp_sack_ack tp ack = tp\<lparr>sack_blocks := bs, sack_count := n, sack_rxmit := r\<rparr>"
proof -
  obtain bs n where l: "sack_ack_loop tp ack = tp\<lparr>sack_blocks := bs, sack_count := n\<rparr>" using sack_frame_put [OF sack_loop_frame] by blast
  define bs' where "bs' = (if n \<noteq> 0 \<and> SEQ_LT (sb_start (bs ! 0)) ack then bs[0 := (bs ! 0)\<lparr>sb_start := ack\<rparr>] else bs)"
  have "tcp_sack_ack tp ack = tp\<lparr>sack_blocks := bs', sack_count := n, sack_rxmit := (if SEQ_LT (sack_rxmit tp) ack then ack else sack_rxmit tp)\<rparr>"
    by (simp add: tcp_sack_ack_def l Let_def bs'_def)
  then show ?thesis by blast
qed

lemma advance_spec:
  assumes ok: "sack_ok tp" and ack: "rel (snd_una tp) ack \<le> rel (snd_una tp) (snd_max tp)"
  defines "tp' \<equiv> new_ack_advance ack tp"
  shows "sack_ok tp'" "snd_una tp' = ack" "iss tp' = iss tp" "snd_max tp' = snd_max tp" "tp_state tp' = tp_state tp"
    "snd_nxt tp' = (if SEQ_LT (snd_nxt tp) ack then ack else snd_nxt tp)" "t_flags tp' = t_flags tp" "t_closed tp' = t_closed tp"
    "pending_calls tp' = pending_calls tp"
proof -
  define x where "x = (if SEQ_LT (snd_nxt tp) ack then ack else snd_nxt tp)"
  have e: "tp' = (tcp_sack_ack ((tp\<lparr>snd_nxt := x\<rparr>)\<lparr>snd_una := ack\<rparr>) ack)\<lparr>rexmt_shift := 0\<rparr>"
  proof -
    have s: "tp\<lparr>snd_nxt := x, snd_una := ack\<rparr> = (if SEQ_LT (snd_nxt (tp\<lparr>snd_una := ack\<rparr>)) ack then tp\<lparr>snd_una := ack, snd_nxt := ack\<rparr> else tp\<lparr>snd_una := ack\<rparr>)"
      by (simp add: x_def)
    show ?thesis unfolding s by (simp only: tp'_def new_ack_advance_def Let_def)
  qed
  obtain bs n r where f: "tcp_sack_ack ((tp\<lparr>snd_nxt := x\<rparr>)\<lparr>snd_una := ack\<rparr>) ack = tp\<lparr>snd_nxt := x, snd_una := ack, sack_blocks := bs, sack_count := n, sack_rxmit := r\<rparr>"
    using sack_ack_frame by blast
  have "sack_ok (tp\<lparr>snd_nxt := x\<rparr>)" using ok by (simp add: sack_ok_def sack_shape_def sack_view_def)
  from tcp_sack_ack_ok [OF this, of ack] ack have "sack_ok (tcp_sack_ack ((tp\<lparr>snd_nxt := x\<rparr>)\<lparr>snd_una := ack\<rparr>) ack)" by simp
  then show "sack_ok tp'" by (simp add: e sack_ok_def sack_shape_def sack_view_def)
  show "snd_una tp' = ack" "iss tp' = iss tp" "snd_max tp' = snd_max tp" "tp_state tp' = tp_state tp"
    "snd_nxt tp' = (if SEQ_LT (snd_nxt tp) ack then ack else snd_nxt tp)" "t_flags tp' = t_flags tp" "t_closed tp' = t_closed tp"
    "pending_calls tp' = pending_calls tp"
    by (simp_all add: e f pending_calls_def flip: x_def)
qed

text \<open>The bytes an acknowledgement takes out of the send buffer.\<close>

lemma acked_bytes_spec:
  assumes seq: "snd_seq_ok n tp" "n \<le> 2 ^ 30" and k: "acked_to k tp" "k < stream_max"
    and ack: "0 < rel (snd_una tp) ack" "rel (snd_una tp) ack \<le> rel (snd_una tp) (snd_max tp)" and est: "TCPS_HAVEESTABLISHED (tp_state tp)"
  defines "fin \<equiv> tp_flag TF_SENTFIN tp \<and> ack = snd_max tp"
  defines "d \<equiv> rel (snd_una tp) ack - (if fin then 1 else 0)"
  shows "unat (acked_bytes tp ack (ack - snd_una tp)) = d" "d \<le> n" "fin \<Longrightarrow> d = n" "\<not> fin_acked tp"
    "tp_flag TF_SENTFIN tp \<Longrightarrow> rel (snd_una tp) (snd_max tp) = n + 1" "\<not> tp_flag TF_SENTFIN tp \<Longrightarrow> rel (snd_una tp) (snd_max tp) \<le> n"
proof -
  have nz: "snd_una tp \<noteq> snd_max tp" using ack by auto
  then show nf: "\<not> fin_acked tp" by (simp add: fin_acked_def)
  have ns: "\<not> syn_pending tp" "\<not> tp_state tp < TCPS_SYN_SENT" using est by (auto simp: established_not_syn TCPS_HAVEESTABLISHED_def less_eq_tcp_state_def less_tcp_state_def)
  show lim: "rel (snd_una tp) (snd_max tp) = n + 1" if "tp_flag TF_SENTFIN tp" using seq(1) ns that nz by (auto simp: snd_seq_ok_def snd_limit_def)
  show lim2: "rel (snd_una tp) (snd_max tp) \<le> n" if "\<not> tp_flag TF_SENTFIN tp" using seq(1) ns that by (auto simp: snd_seq_ok_def snd_limit_def)
  have una: "snd_una tp = iss tp + word_of_nat (Suc k)" using k(1) nf by (simp add: acked_to_def)
  have r: "rel (iss tp) (snd_una tp) = Suc k" using k(2) by (simp add: una rel_def unat_word_of_nat_id stream_max_def del: of_nat_Suc)
  have "\<not> SEQ_LEQ (snd_una tp) (iss tp)" using r k(2) seq_cmp [of "iss tp" "snd_una tp" "iss tp"] by (simp add: stream_max_def half_def)
  then have a: "acked_bytes tp ack (ack - snd_una tp) = (if fin then ack - snd_una tp - 1 else ack - snd_una tp)"
    by (simp add: acked_bytes_def fin_def Let_def)
  have z: "ack - snd_una tp \<noteq> 0" using ack(1) by auto
  show "unat (acked_bytes tp ack (ack - snd_una tp)) = d" using unat_minus_one [OF z] by (simp add: a d_def rel_def)
  show "fin \<Longrightarrow> d = n" using lim by (auto simp: d_def fin_def)
  show "d \<le> n"
  proof (cases "tp_flag TF_SENTFIN tp")
    case True
    have "rel (snd_una tp) ack \<le> n + 1" "rel (snd_una tp) ack = n + 1 \<longleftrightarrow> fin"
      using lim [OF True] ack(2) rel_inj [of "snd_una tp" ack "snd_max tp"] True by (simp_all add: fin_def)
    then show ?thesis by (auto simp: d_def)
  next
    case False
    then show ?thesis using lim2 ack(2) by (simp add: d_def fin_def)
  qed
qed

text \<open>Dropping the acknowledged bytes and advancing \<^verbatim>\<open>snd_una\<close> keeps the send buffer in step.\<close>

lemma drop_acked_so:
  assumes so: "c_so c = Some so" and ok: "sndbuf_ok c" and d: "unat (acked_bytes (c_tp c) ack acked) \<le> length (snd_stream c)"
  shows "\<exists>so'. tcp_drop_acked_data ack acked c = c\<lparr>c_so := Some so'\<rparr> \<and> so_refcount so' = so_refcount so \<and>
    sockbuf_inv (so_snd so') \<and> sb_stream (so_snd so') = drop (unat (acked_bytes (c_tp c) ack acked)) (snd_stream c)"
proof (cases "acked_bytes (c_tp c) ack acked = 0")
  case True
  have "c = c\<lparr>c_so := Some so\<rparr>" using so by (cases c) simp
  then show ?thesis using True so ok by (intro exI [of _ so]) (simp add: tcp_drop_acked_data_def sndbuf_ok_def snd_stream_def)
next
  case False
  define a where "a = acked_bytes (c_tp c) ack acked"
  define n where "n = unat (if ucast a < sb_cc (so_snd so) then ucast a else sb_cc (so_snd so))"
  have i: "sockbuf_inv (so_snd so)" "snd_stream c = sb_stream (so_snd so)" "length (snd_stream c) \<le> 2 ^ 30"
    using ok so by (auto simp: sndbuf_ok_def snd_stream_def)
  have cc: "unat (sb_cc (so_snd so)) = length (snd_stream c)" using i by (simp add: sockbuf_inv_def unat_word_of_nat_id)
  have u: "unat (ucast a :: u64) = unat a" using d i(3) by (simp add: unsigned_ucast_eq take_bit_nat_eq_self a_def)
  have n: "n = unat a" using d cc u unfolding n_def a_def [symmetric] by (auto simp: word_less_nat_alt)
  define so' where "so' = sock_wakeup (so\<lparr>so_snd := sockbuf_drop (so_snd so) n\<rparr>)"
  have "tcp_drop_acked_data ack acked c = c\<lparr>c_so := Some so'\<rparr>"
    using False so by (simp add: tcp_drop_acked_data_def Let_def on_so_def so'_def n_def a_def)
  moreover have "sockbuf_inv (sockbuf_drop (so_snd so) n)" "sb_stream (sockbuf_drop (so_snd so) n) = drop n (sb_stream (so_snd so))"
    using sockbuf_drop_spec [OF i(1)] by auto
  moreover have "so_core so' = so_core (so\<lparr>so_snd := sockbuf_drop (so_snd so) n\<rparr>)" by (simp add: so'_def)
  ultimately show ?thesis using n i(2)
    by (intro exI [of _ so']) (simp add: so_core_def sockbuf_inv_def sb_stream_def a_def)
qed

lemma new_ack_live:
  assumes o: "open_live S h c" and ack: "0 < rel (snd_una (c_tp c)) ack" "rel (snd_una (c_tp c)) ack \<le> rel (snd_una (c_tp c)) (snd_max (c_tp c))"
  shows "open_live S h (on_tp (new_ack_advance ack) (tcp_drop_acked_data ack (ack - snd_una (c_tp c)) c))"
proof -
  define tp where "tp = c_tp c"
  define n where "n = length (snd_stream c)"
  define fin where "fin \<longleftrightarrow> tp_flag TF_SENTFIN tp \<and> ack = snd_max tp"
  define d where "d = rel (snd_una tp) ack - (if fin then 1 else 0)"
  have l: "live S h c" and est: "TCPS_HAVEESTABLISHED (tp_state tp)" using o by (auto simp: open_live_def tp_def)
  have seq: "snd_seq_ok n tp" "n \<le> 2 ^ 30" and buf: "sndbuf_ok c" using live_seq [OF l] l by (auto simp: n_def tp_def live_def sending_def snd_ok_def)
  obtain k where k: "k \<le> length S" "snd_stream c = drop k S" "acked_to k tp" and S: "length S < stream_max"
    using l est by (auto simp: live_def sending_def stream_ok_def sends_data_def tp_def)
  have ks: "k < stream_max" using k(1) S by simp
  note a = acked_bytes_spec [OF seq k(3) ks ack [folded tp_def] est, folded fin_def, folded d_def]
  obtain so where so: "c_so c = Some so" using l refs_so [of c] by (auto simp: live_def split: if_splits)
  obtain so' where so': "tcp_drop_acked_data ack (ack - snd_una tp) c = c\<lparr>c_so := Some so'\<rparr>" "so_refcount so' = so_refcount so"
    "sockbuf_inv (so_snd so')" "sb_stream (so_snd so') = drop d (snd_stream c)"
    using drop_acked_so [OF so buf, of ack "ack - snd_una tp"] a(1,2) by (auto simp: n_def tp_def)
  define tp' where "tp' = new_ack_advance ack tp"
  have sk: "sack_ok tp" using seq(1) by (simp add: snd_seq_ok_def)
  note v = advance_spec [OF sk ack(2) [folded tp_def], folded tp'_def]
  define c' where "c' = c\<lparr>c_tp := tp', c_so := Some so'\<rparr>"
  have c': "on_tp (new_ack_advance ack) (tcp_drop_acked_data ack (ack - snd_una (c_tp c)) c) = c'"
    using so'(1) by (simp add: c'_def tp'_def tp_def on_tp_def)
  have st: "snd_stream c' = drop (k + d) S" "length (snd_stream c') = n - d" using so'(4) k(2) by (simp_all add: c'_def snd_stream_def n_def ac_simps)
  have ob: "sndbuf_ok c'" "refs c' = refs c" "detached c' = detached c"
    using so' so st seq(2) by (simp_all add: sndbuf_ok_def) (simp_all add: c'_def refs_def detached_def)
  have fl: "tp_flag f tp' = tp_flag f tp" for f by (simp add: tp_flag_def v)
  have fa: "fin_acked tp' \<longleftrightarrow> fin" by (auto simp: fin_acked_def fl v fin_def)
  have "snd_una tp' = snd_una tp + word_of_nat (rel (snd_una tp) ack)" by (simp add: v rel_def)
  moreover have "rel (snd_una tp) ack = d + (if fin then 1 else 0)" using ack(1) by (simp add: d_def tp_def)
  ultimately have at: "acked_to (k + d) tp'" using k(3) a(4) by (simp add: acked_to_def fa v)
  have "k + d \<le> length S" using a(2) k(1,2) by (simp add: n_def)
  then have stream: "stream_ok S c'" using at st(1) by (auto simp: stream_ok_def c'_def)
  have reb: "rel ack x = rel (snd_una tp) x - rel (snd_una tp) ack" if "rel (snd_una tp) ack \<le> rel (snd_una tp) x" for x by (rule rel_rebase [OF that])
  have m: "rel ack (snd_max tp) = rel (snd_una tp) (snd_max tp) - rel (snd_una tp) ack" using ack(2) by (simp add: reb tp_def)
  have nx: "rel ack (snd_nxt tp') \<le> rel ack (snd_max tp)"
  proof (cases "SEQ_LT (snd_nxt tp) ack")
    case False
    note b = snd_seq_bounds [OF seq]
    have "rel (snd_una tp) ack \<le> rel (snd_una tp) (snd_nxt tp)" using False b(1,4) ack(2) by (simp add: seq_cmp [of "snd_una tp"] tp_def)
    then show ?thesis using False b(1) by (simp add: v m reb)
  qed (simp add: v)
  have ns: "\<not> syn_pending tp'" using est by (simp add: established_not_syn v)
  have "snd_limit (n - d) tp'"
  proof (cases "tp_flag TF_SENTFIN tp")
    case True
    have "fin \<or> rel ack (snd_max tp) = n - d + 1" using a(2,5) True m ack(2) by (auto simp: d_def tp_def)
    then show ?thesis using True ns a(3) by (auto simp: snd_limit_def fl v fin_def)
  next
    case False
    then show ?thesis using ns a(2,6) m by (simp add: snd_limit_def fl v d_def fin_def)
  qed
  then have "snd_seq_ok (n - d) tp'" using v nx seq(1) by (simp add: snd_seq_ok_def fl)
  then have "snd_ok c'" using ob st by (simp add: snd_ok_def c'_def)
  then have "sending S c'" using l stream v(3) by (simp add: live_def sending_def sent_ok_def c'_def tp_def)
  then have "live S h c'" using l est ob v by (simp add: live_def) (simp add: c'_def tp_def)
  then show ?thesis unfolding c' using est v(5) by (simp add: open_live_def c'_def)
qed

lemma core_new_ack_timer:
  "conn_core (if ack = snd_max (c_tp c) then on_tp (tcp_timer_stop TCPT_REXMT) c
     else if \<not> tcp_timer_active (c_tp c) TCPT_PERSIST then tcp_timer_activate TCPT_REXMT t c else c) = conn_core c"
  by (simp add: core_tpI)

lemma new_ack_final:
  assumes w: "new_ack_window (in_ack seg) (tcp_rtt_sample seg c) = Some c2"
    and o: "open_live S h (on_tp (new_ack_advance (in_ack seg)) (tcp_drop_acked_data (in_ack seg) (in_ack seg - snd_una (c_tp c)) c2))"
  shows "\<exists>c'. tcp_new_ack seg c = Some c' \<and> open_live S h c'"
proof -
  define c3 where "c3 = on_tp (new_ack_advance (in_ack seg)) (tcp_drop_acked_data (in_ack seg) (in_ack seg - snd_una (c_tp c)) c2)"
  have "tcp_new_ack seg c = Some (if in_ack seg = snd_max (c_tp c3) then on_tp (tcp_timer_stop TCPT_REXMT) c3
     else if \<not> tcp_timer_active (c_tp c3) TCPT_PERSIST then tcp_timer_activate TCPT_REXMT (ucast (tcp_rexmt_ms (c_tp c3))) c3 else c3)"
    unfolding tcp_new_ack_def Let_def w bind.bind_lunit c3_def by (rule refl)
  then show ?thesis using o [folded c3_def] open_core [OF core_new_ack_timer, of S h "in_ack seg" c3] by blast
qed

lemma new_ack_spec:
  assumes o: "open_live S h c" and ack: "0 < rel (snd_una (c_tp c)) (in_ack seg)" "rel (snd_una (c_tp c)) (in_ack seg) \<le> rel (snd_una (c_tp c)) (snd_max (c_tp c))"
  shows "\<exists>c'. tcp_new_ack seg c = Some c' \<and> open_live S h c'"
proof -
  define c1 where "c1 = tcp_rtt_sample seg c"
  have k: "conn_core c1 = conn_core c" by (simp add: c1_def core_rtt_sample)
  note e = conn_core_eq [OF k]
  have o1: "open_live S h c1" using o open_core [OF k] by simp
  obtain c2 where c2: "new_ack_window (in_ack seg) c1 = Some c2" "open_live S h c2" "progress c1 c2"
    using new_ack_window_spec [OF o1, of "in_ack seg"] ack(2) by (auto simp: e)
  have u: "snd_una (c_tp c2) = snd_una (c_tp c)" using c2(3) by (simp add: progress_def e)
  define c3 where "c3 = on_tp (new_ack_advance (in_ack seg)) (tcp_drop_acked_data (in_ack seg) (in_ack seg - snd_una (c_tp c)) c2)"
  have "rel (snd_una (c_tp c2)) (in_ack seg) \<le> rel (snd_una (c_tp c2)) (snd_max (c_tp c2))" using ack(2) c2(3) by (simp add: progress_def e)
  then have "open_live S h c3" using new_ack_live [OF c2(2), of "in_ack seg"] ack(1) by (simp add: u c3_def)
  from new_ack_final [OF c2(1) [unfolded c1_def] this [unfolded c3_def]] show ?thesis .
qed

text \<open>The acknowledgement of the SYN, in \<^verbatim>\<open>SYN_RECEIVED\<close>: nothing leaves the buffer.\<close>

definition syn_acked :: "bytes \<Rightarrow> nat \<Rightarrow> tcp_conn \<Rightarrow> bool" where
  "syn_acked S h c \<longleftrightarrow> fresh S h c \<and> snd_una (c_tp c) = iss (c_tp c) \<and> snd_max (c_tp c) = iss (c_tp c) + 1 \<and>
     rel (iss (c_tp c)) (snd_nxt (c_tp c)) \<le> 1 \<and> sack_ok (c_tp c) \<and>
     (tp_state (c_tp c) = TCPS_ESTABLISHED \<or> tp_state (c_tp c) = TCPS_FIN_WAIT_1)"

lemma syn_acked_core: assumes "conn_core c' = conn_core c" shows "syn_acked S h c' = syn_acked S h c"
proof -
  have "seq_view (c_tp c') = seq_view (c_tp c)" "tp_state (c_tp c') = tp_state (c_tp c)" using conn_core_seq_view [OF assms] by auto
  then show ?thesis using fresh_conn_core [OF assms] sack_ok_view [of "c_tp c'" "c_tp c"] by (simp add: syn_acked_def seq_view_def)
qed

lemma rel_self_one [simp]: "rel w (w + 1) = 1" "rel w w = 0"
  by (simp_all add: rel_def)

lemma rel_one: "rel w x \<le> 1 \<Longrightarrow> x = w \<or> x = w + 1"
  using rel_inj [of w x w] rel_inj [of w x "w + 1"] by (auto simp: le_Suc_eq)

lemma syn_acked_spec:
  assumes s: "syn_acked S h c" and ack: "in_ack seg = iss (c_tp c) + 1"
  shows "\<exists>c'. tcp_new_ack seg c = Some c' \<and> open_live S h c'"
proof -
  define c1 where "c1 = tcp_rtt_sample seg c"
  define c2 where "c2 = on_tp (\<lambda>tp. cc_do (c_cc c1) (Ack (in_ack seg - snd_una tp)) (tp\<lparr>dupacks := 0\<rparr>)) c1"
  have k1: "conn_core c1 = conn_core c" by (simp add: c1_def core_rtt_sample)
  have "cc_frames (c_cc c1)" using s k1 by (simp add: syn_acked_def fresh_def conn_core_def)
  then have "conn_core c2 = conn_core c1" unfolding c2_def by (intro core_tpI) (simp only: core_cc_do core_upd)
  then have k2: "conn_core c2 = conn_core c" using k1 by simp
  have s1: "syn_acked S h c1" and s2: "syn_acked S h c2" using s syn_acked_core [OF k1] syn_acked_core [OF k2] by auto
  have i: "iss (c_tp c2) = iss (c_tp c)" "snd_una (c_tp c) = iss (c_tp c)" using conn_core_seq_view [OF k2] s by (auto simp: seq_view_def syn_acked_def)
  have w: "new_ack_window (in_ack seg) c1 = Some c2" using s1 by (simp add: new_ack_window_def c2_def syn_acked_def fresh_def del: cc_do.simps)
  have "SEQ_LEQ (snd_una (c_tp c2)) (iss (c_tp c2))" "\<not> tp_flag TF_SENTFIN (c_tp c2)" using s2 by (auto simp: syn_acked_def SEQ_LEQ_def fresh_def)
  then have d: "tcp_drop_acked_data (in_ack seg) (in_ack seg - snd_una (c_tp c)) c2 = c2"
    by (simp add: tcp_drop_acked_data_def acked_bytes_def Let_def ack i)
  define c3 where "c3 = on_tp (new_ack_advance (in_ack seg)) c2"
  have ok: "sack_ok (c_tp c2)" and le: "rel (snd_una (c_tp c2)) (in_ack seg) \<le> rel (snd_una (c_tp c2)) (snd_max (c_tp c2))"
    using s2 by (auto simp: syn_acked_def ack i)
  note v = advance_spec [OF ok le, unfolded ack]
  have n: "snd_nxt (c_tp c2) = iss (c_tp c) \<or> snd_nxt (c_tp c2) = iss (c_tp c) + 1" using s2 rel_one by (auto simp: syn_acked_def i)
  have lt: "SEQ_LT (iss (c_tp c)) (iss (c_tp c) + 1)" by (simp add: SEQ_LT_def)
  have nx: "snd_nxt (new_ack_advance (in_ack seg) (c_tp c2)) = iss (c_tp c) + 1" using n lt by (auto simp: v ack)
  have "fresh S h c3" unfolding c3_def ack using s2 v(7-9) by (subst fresh_tp) (simp_all add: fresh_core_def tp_flag_def syn_acked_def)
  then have "live S h c3" by (rule fresh_live) (use s2 nx v in \<open>simp_all add: c3_def ack i syn_acked_def\<close>)
  then have "open_live S h c3" using s2 v(5) by (auto simp: open_live_def c3_def ack syn_acked_def TCPS_HAVEESTABLISHED_def less_eq_tcp_state_def)
  then show ?thesis using new_ack_final [OF w [unfolded c1_def]] by (simp only: d c3_def)
qed

section \<open>Acknowledgements and data\<close>

text \<open>What \<^verbatim>\<open>tcp_process_ack\<close> leaves.\<close>

definition ack_done :: "bytes \<Rightarrow> nat \<Rightarrow> tcp_ack_result \<times> tcp_conn \<Rightarrow> bool" where
  "ack_done S h rc = (case fst rc of TCP_ACK_CONTINUE \<Rightarrow> open_live S h (snd rc) | TCP_ACK_GONE \<Rightarrow> closed_down S h (snd rc) | _ \<Rightarrow> live S h (snd rc))"

lemma our_fin_acked_spec:
  assumes "open_live S h c"
  shows "\<exists>rc. tcp_our_fin_acked c = Some rc \<and> ack_done S h rc"
proof -
  have l: "live S h c" "TCPS_HAVEESTABLISHED (tp_state (c_tp c))" using assms by (auto simp: open_live_def)
  have s: "live S h (on_tp (tcp_state_change TCPS_FIN_WAIT_2) c)" by (rule live_state [OF l]) (simp_all add: TCPS_HAVEESTABLISHED_def less_eq_tcp_state_def)
  define c1 where "c1 = on_tp (tcp_state_change TCPS_FIN_WAIT_2) c"
  have 1: "open_live S h c1" using s by (simp add: open_live_def c1_def tcp_state_change_def TCPS_HAVEESTABLISHED_def less_eq_tcp_state_def)
  then have "open_live S h (if detached c1 then tcp_timer_activate TCPT_2MSL (2 * TCP_MSL_MS) c1 else c1)"
    using open_core [of "tcp_timer_activate TCPT_2MSL (2 * TCP_MSL_MS) c1" c1] by simp
  moreover obtain c2 where "tcp_enter_timewait c = Some c2" "open_live S h c2"
    using timewait_spec [OF l] by (auto simp: open_live_def TCPS_HAVEESTABLISHED_def less_eq_tcp_state_def)
  moreover obtain c3 where "tcp_close c = Some c3" "closed_down S h c3" using close_spec [OF live_closable [OF l(1)]] by blast
  ultimately show ?thesis using assms
    by (simp add: tcp_our_fin_acked_def ack_done_def Let_def c1_def [symmetric] split: tcp_state.splits)
qed

lemma sack_update_open:
  assumes "open_live S h c"
  shows "open_live S h (on_tp (\<lambda>tp. tcp_sack_update tp bs) c)" "progress c (on_tp (\<lambda>tp. tcp_sack_update tp bs) c)"
proof -
  have l: "live S h c" "TCPS_HAVEESTABLISHED (tp_state (c_tp c))" using assms by (auto simp: open_live_def)
  define tp where "tp = tcp_sack_update (c_tp c) bs"
  have ok: "sack_ok tp" "sack_frame (c_tp c) tp" using sack_update_spec [OF live_sack [OF l(1)]] by (auto simp: tp_def)
  obtain b n where e: "tp = (c_tp c)\<lparr>sack_blocks := b, sack_count := n\<rparr>" using sack_frame_put [OF ok(2)] by blast
  have ns: "\<not> syn_pending (c_tp c)" using l(2) by (rule established_not_syn)
  have "live S h (c\<lparr>c_tp := tp\<rparr>)"
    by (rule live_tpI [OF l(1)])
      (use ok(1) ns l(2) in \<open>auto simp: snd_seq_ok_def snd_limit_def e syn_pending_def tp_flag_def pending_calls_def\<close>)
  then show "open_live S h (on_tp (\<lambda>tp. tcp_sack_update tp bs) c)" "progress c (on_tp (\<lambda>tp. tcp_sack_update tp bs) c)"
    using l(2) by (simp_all add: open_live_def on_tp_def progress_def flip: tp_def) (simp_all add: e)
qed

lemma syn_acked_sack:
  assumes "syn_acked S h c"
  shows "syn_acked S h (on_tp (\<lambda>tp. tcp_sack_update tp bs) c)"
proof -
  define tp where "tp = tcp_sack_update (c_tp c) bs"
  have ok: "sack_ok tp" "sack_frame (c_tp c) tp" using sack_update_spec [of "c_tp c" bs] assms by (auto simp: tp_def syn_acked_def)
  obtain b n where e: "tp = (c_tp c)\<lparr>sack_blocks := b, sack_count := n\<rparr>" using sack_frame_put [OF ok(2)] by blast
  have "fresh S h (on_tp (\<lambda>tp. tcp_sack_update tp bs) c)" using assms
    by (subst fresh_tp) (simp_all add: syn_acked_def fresh_core_def tp_def [symmetric] e pending_calls_def tp_flag_def)
  then show ?thesis using assms ok(1) by (simp add: syn_acked_def flip: tp_def) (simp add: e)
qed

lemma live_half: "live S h c \<Longrightarrow> rel (snd_una (c_tp c)) (snd_max (c_tp c)) < half"
  using live_sack by (simp add: sack_ok_def)

lemma seq_leq_gt: "SEQ_GT x y \<longleftrightarrow> \<not> SEQ_LEQ x y" by (auto simp: SEQ_GT_def SEQ_LEQ_def)

text \<open>An acknowledgement that is neither old nor beyond what was sent.\<close>

lemma new_ack_range:
  assumes m: "rel una mx < half" and a: "\<not> SEQ_LEQ ack una" "\<not> SEQ_GT ack mx"
  shows "0 < rel una ack \<and> rel una ack \<le> rel una mx"
proof -
  have "0 < sint (ack - una)" using a(1) by (simp add: SEQ_LEQ_def)
  then have r: "rel una ack < half" "ack \<noteq> una" using sint_geq_rel [of ack una] by auto
  then have "rel una ack \<noteq> 0" using rel_inj [of una ack una] by simp
  then show ?thesis using a(2) r(1) m seq_cmp(3) [of una ack mx] by auto
qed

lemma new_ack_bind:
  assumes "\<exists>c'. tcp_new_ack seg c = Some c' \<and> open_live S h c'"
  shows "\<exists>rc. tcp_new_ack seg c \<bind> tcp_our_fin_acked = Some rc \<and> ack_done S h rc"
  using assms our_fin_acked_spec by auto

lemma process_ack_unfold:
  assumes c1: "c1 = (if tp_state (c_tp c) = TCPS_SYN_RECEIVED then tcp_established c else c)"
    and c2: "c2 = (if tp_flag TF_SACK_PERMIT (c_tp c1) \<and> has_opt (in_to seg) TOF_SACK then on_tp (\<lambda>tp. tcp_sack_update tp (to_sacks (in_to seg))) c1 else c1)"
    and n: "\<not> (tp_state (c_tp c) = TCPS_SYN_RECEIVED \<and> (SEQ_LEQ (in_ack seg) (snd_una (c_tp c)) \<or> SEQ_GT (in_ack seg) (snd_max (c_tp c))))"
  shows "tcp_process_ack seg c = (if SEQ_GT (in_ack seg) (snd_max (c_tp c1)) then Some (TCP_ACK_DROP_ACK, c1)
     else if SEQ_LEQ (in_ack seg) (snd_una (c_tp c2)) then map_option (Pair TCP_ACK_CONTINUE) (tcp_dupack seg c2)
     else tcp_new_ack seg c2 \<bind> tcp_our_fin_acked)"
  unfolding tcp_process_ack_def Let_def if_not_P [OF n] c2 c1 by (rule refl)

lemma process_ack_syn:
  assumes l: "live S h c" and st: "tp_state (c_tp c) = TCPS_SYN_RECEIVED"
  shows "\<exists>rc. tcp_process_ack seg c = Some rc \<and> ack_done S h rc"
proof (cases "SEQ_LEQ (in_ack seg) (snd_una (c_tp c)) \<or> SEQ_GT (in_ack seg) (snd_max (c_tp c))")
  case True
  then show ?thesis using st live_respond [OF l] by (simp add: tcp_process_ack_def Let_def ack_done_def)
next
  case False
  have n: "\<not> TCPS_HAVEESTABLISHED (tp_state (c_tp c))" "syn_pending (c_tp c)" by (simp_all add: st TCPS_HAVEESTABLISHED_def less_eq_tcp_state_def syn_pending_def)
  have seq: "snd_una (c_tp c) = iss (c_tp c)" "rel (snd_una (c_tp c)) (snd_max (c_tp c)) \<le> 1" "rel (snd_una (c_tp c)) (snd_nxt (c_tp c)) \<le> 1"
    using live_seq [OF l] n(2) by (auto simp: snd_seq_ok_def snd_limit_def)
  have r: "0 < rel (snd_una (c_tp c)) (in_ack seg)" "rel (snd_una (c_tp c)) (in_ack seg) \<le> rel (snd_una (c_tp c)) (snd_max (c_tp c))"
    using new_ack_range [OF live_half [OF l]] False by auto
  have ack: "in_ack seg = iss (c_tp c) + 1" "snd_max (c_tp c) = iss (c_tp c) + 1"
    using r seq rel_one [of "iss (c_tp c)" "in_ack seg"] rel_one [of "iss (c_tp c)" "snd_max (c_tp c)"] by auto
  define c1 where "c1 = tcp_established c"
  note e = established_spec [OF live_fresh [OF l n(1)], folded c1_def]
  have v: "seq_view (c_tp c1) = seq_view (c_tp c)" using e by simp
  have f1: "iss (c_tp c1) = iss (c_tp c)" using v by (simp add: seq_view_def)
  have s1: "syn_acked S h c1"
    using e seq ack sack_ok_view [OF v] live_sack [OF l] unfolding syn_acked_def by (auto simp: seq_view_def)
  define c2 where "c2 = (if tp_flag TF_SACK_PERMIT (c_tp c1) \<and> has_opt (in_to seg) TOF_SACK then on_tp (\<lambda>tp. tcp_sack_update tp (to_sacks (in_to seg))) c1 else c1)"
  have s2: "syn_acked S h c2" using s1 syn_acked_sack [OF s1] by (simp add: c2_def)
  have i2: "iss (c_tp c2) = iss (c_tp c)"
  proof -
    obtain b n where "tcp_sack_update (c_tp c1) (to_sacks (in_to seg)) = (c_tp c1)\<lparr>sack_blocks := b, sack_count := n\<rparr>"
      using sack_update_spec [of "c_tp c1"] sack_frame_put s1 unfolding syn_acked_def by blast
    then show ?thesis by (simp add: c2_def f1)
  qed
  have u2: "snd_una (c_tp c2) = iss (c_tp c)" "snd_max (c_tp c1) = iss (c_tp c) + 1" using s1 s2 i2 f1 by (auto simp: syn_acked_def)
  have "tcp_process_ack seg c = tcp_new_ack seg c2 \<bind> tcp_our_fin_acked"
    using False st process_ack_unfold [OF _ c2_def, of c] by (simp add: c1_def [symmetric] u2 ack seq(1) SEQ_LEQ_def SEQ_GT_def)
  then show ?thesis using new_ack_bind [OF syn_acked_spec [OF s2]] ack(1) by (simp add: i2)
qed

lemma process_ack_spec:
  assumes l: "live S h c" and st: "TCPS_HAVERCVDSYN (tp_state (c_tp c))"
  shows "\<exists>rc. tcp_process_ack seg c = Some rc \<and> ack_done S h rc"
proof (cases "tp_state (c_tp c) = TCPS_SYN_RECEIVED")
  case True
  then show ?thesis by (rule process_ack_syn [OF l])
next
  case False
  have o: "open_live S h c" using l st False by (cases "tp_state (c_tp c)") (auto simp: open_live_def TCPS_HAVERCVDSYN_def TCPS_HAVEESTABLISHED_def less_eq_tcp_state_def)
  define c2 where "c2 = (if tp_flag TF_SACK_PERMIT (c_tp c) \<and> has_opt (in_to seg) TOF_SACK then on_tp (\<lambda>tp. tcp_sack_update tp (to_sacks (in_to seg))) c else c)"
  have o2: "open_live S h c2" using o sack_update_open(1) [OF o] by (simp add: c2_def)
  have "progress c c2" using sack_update_open(2) [OF o] by (simp add: c2_def) (simp add: progress_def)
  have m: "snd_max (c_tp c2) = snd_max (c_tp c)"
  proof -
    obtain b n where "tcp_sack_update (c_tp c) (to_sacks (in_to seg)) = (c_tp c)\<lparr>sack_blocks := b, sack_count := n\<rparr>"
      using sack_update_spec [OF live_sack [OF l]] sack_frame_put by blast
    then show ?thesis by (simp add: c2_def)
  qed
  show ?thesis
  proof (cases "SEQ_GT (in_ack seg) (snd_max (c_tp c))")
    case True
    then show ?thesis using False l by (simp add: tcp_process_ack_def ack_done_def)
  next
    case gt: False
    have e: "tcp_process_ack seg c = (if SEQ_LEQ (in_ack seg) (snd_una (c_tp c2)) then map_option (Pair TCP_ACK_CONTINUE) (tcp_dupack seg c2)
       else tcp_new_ack seg c2 \<bind> tcp_our_fin_acked)"
      using False gt process_ack_unfold [OF _ c2_def, of c] by simp
    show ?thesis
    proof (cases "SEQ_LEQ (in_ack seg) (snd_una (c_tp c2))")
      case True
      then show ?thesis using e dupack_spec [OF o2, of seg] by (auto simp: ack_done_def)
    next
      case leq: False
      have "live S h c2" using o2 by (simp add: open_live_def)
      from new_ack_range [OF live_half [OF this] leq] gt m
      have "0 < rel (snd_una (c_tp c2)) (in_ack seg)" "rel (snd_una (c_tp c2)) (in_ack seg) \<le> rel (snd_una (c_tp c2)) (snd_max (c_tp c2))" by auto
      then show ?thesis using e leq new_ack_bind [OF new_ack_spec [OF o2]] by simp
    qed
  qed
qed

lemma open_state:
  assumes "open_live S h c" and "TCPS_HAVEESTABLISHED s" and "tp_flag TF_SENTFIN (c_tp c) \<Longrightarrow> TCPS_FIN_WAIT_1 \<le> tp_state (c_tp c) \<Longrightarrow> TCPS_FIN_WAIT_1 \<le> s"
  shows "live S h (on_tp (tcp_state_change s) c)"
  using assms live_state by (auto simp: open_live_def)

lemma process_fin_spec:
  assumes "open_live S h c"
  shows "\<exists>c'. tcp_process_fin c = Some c' \<and> live S h c'"
proof -
  define c1 where "c1 = (if \<not> detached c then on_so sock_cant_recv_more c else c)"
  define c2 where "c2 = on_tp (\<lambda>tp. set_flag_tp TF_ACKNOW (tp\<lparr>rcv_nxt := rcv_nxt tp + 1\<rparr>)) c1"
  have "conn_core c1 = conn_core c" by (simp add: c1_def core_soI)
  then have k: "conn_core c2 = conn_core c" by (simp add: c2_def core_tpI)
  have o: "open_live S h c2" using assms open_core [OF k] by simp
  have l: "live S h c2" "TCPS_HAVEESTABLISHED (tp_state (c_tp c2))" using o by (auto simp: open_live_def)
  have w: "live S h (on_tp (tcp_state_change TCPS_CLOSE_WAIT) c2)" if "tp_state (c_tp c2) = TCPS_ESTABLISHED"
    by (rule open_state [OF o]) (use that in \<open>simp_all add: TCPS_HAVEESTABLISHED_def less_eq_tcp_state_def\<close>)
  have g: "live S h (on_tp (tcp_state_change TCPS_CLOSING) c2)"
    by (rule open_state [OF o]) (simp_all add: TCPS_HAVEESTABLISHED_def less_eq_tcp_state_def)
  have n: "tp_state (c_tp c2) \<noteq> TCPS_SYN_RECEIVED" using l(2) by (auto simp: TCPS_HAVEESTABLISHED_def less_eq_tcp_state_def)
  show ?thesis using w g n l timewait_spec [OF l]
    unfolding tcp_process_fin_def Let_def c1_def [symmetric] c2_def [symmetric] by (cases "tp_state (c_tp c2)") auto
qed

lemma process_data_spec:
  assumes o: "open_live S h c" and d: "in_data seg \<noteq> []"
  shows "\<exists>rc. tcp_process_data seg c = Some rc \<and> (if fst rc then live S h (snd rc) else conn_inv S h (snd rc))"
proof -
  have l: "live S h c" using o by (simp add: open_live_def)
  define in_order where "in_order \<longleftrightarrow> in_seq seg = rcv_nxt (c_tp c) \<and> reassemble_queue (c_tp c) = []"
  define c1 where "c1 = (if \<not> in_order then on_stat (\<lambda>st. st\<lparr>st_rcvoopack := st_rcvoopack st + 1\<rparr>) c else c)"
  obtain fin c2 where r: "reassemble_conn seg c1 = Some (fin, c2)" "conn_core c2 = conn_core c1" using reassemble_conn_spec [OF d] by blast
  define c3 where "c3 = (if in_len seg \<noteq> 0 then tcp_schedule_ack in_order c2 else c2)"
  have "conn_core c3 = conn_core c2" by (simp add: c3_def tcp_schedule_ack_def core_tpI)
  then have k: "conn_core c3 = conn_core c" using r(2) by (simp add: c1_def)
  have o3: "open_live S h c3" using o open_core [OF k] by simp
  have f: "\<exists>c'. (if fin \<noteq> 0 then tcp_process_fin c3 else Some c3) = Some c' \<and> live S h c'"
    using process_fin_spec [OF o3] o3 by (simp add: open_live_def)
  then obtain c4 where c4: "(if fin \<noteq> 0 then tcp_process_fin c3 else Some c3) = Some c4" "live S h c4" by blast
  obtain c5 where c5: "tcp_drop 0 c = Some c5" "conn_inv S h c5" using inv_drop [OF l] by blast
  have "tcp_process_data seg c =
     (if TCPS_HAVERCVDFIN (tp_state (c_tp c)) \<or> in_len seg = 0 \<and> \<not> in_has seg TH_FIN then Some (True, c)
      else if in_len seg \<noteq> 0 \<and> detached c then Some (False, c5) else Some (True, c4))"
    unfolding tcp_process_data_def Let_def in_order_def [symmetric] c1_def [symmetric] r(1) c5(1) bind.bind_lunit prod.case c3_def [symmetric] c4(1)
    by simp
  then show ?thesis using l c4(2) c5(2) by simp blast
qed

section \<open>The input routine\<close>

lemma drop_after_ack_spec: "live S h c \<Longrightarrow> \<exists>c'. drop_after_ack c = Some c' \<and> conn_inv S h c'"
  unfolding drop_after_ack_def by (intro inv_send live_tp_core) simp_all

lemma sync_rest_spec:
  assumes "open_live S h c" and "in_data seg \<noteq> []"
  shows "\<exists>c'. sync_rest seg c = Some c' \<and> conn_inv S h c'"
proof -
  have "open_live S h (on_tp (tcp_update_window seg) c)" using assms(1) by (simp add: open_tp_core tcp_update_window_def)
  from process_data_spec [OF this assms(2)] obtain go c1
    where c1: "tcp_process_data seg (on_tp (tcp_update_window seg) c) = Some (go, c1)" "if go then live S h c1 else conn_inv S h c1" by (metis prod.collapse)
  then show ?thesis using inv_send [of S h c1] by (cases go) (simp_all add: sync_rest_def)
qed

lemma core_ts_recent: "conn_core (tcp_update_ts_recent seg c) = conn_core c"
  by (simp add: tcp_update_ts_recent_def Let_def core_tpI)

lemma sync_ack_spec:
  assumes l: "live S h c" and st: "TCPS_HAVERCVDSYN (tp_state (c_tp c))" and d: "in_data seg \<noteq> []"
  shows "\<exists>c'. sync_ack seg c = Some c' \<and> conn_inv S h c'"
proof -
  have l1: "live S h (tcp_update_ts_recent seg c)" by (rule live_core [OF core_ts_recent l])
  have "TCPS_HAVERCVDSYN (tp_state (c_tp (tcp_update_ts_recent seg c)))" using st by (simp add: conn_core_eq(4) [OF core_ts_recent])
  from process_ack_spec [OF l1 this, of seg] obtain r c1
    where c1: "tcp_process_ack seg (tcp_update_ts_recent seg c) = Some (r, c1)" "ack_done S h (r, c1)" by auto
  have "\<exists>c'. (case r of TCP_ACK_CONTINUE \<Rightarrow> sync_rest seg c1 | TCP_ACK_DROP \<Rightarrow> Some c1 | TCP_ACK_DROP_ACK \<Rightarrow> drop_after_ack c1 | TCP_ACK_GONE \<Rightarrow> Some c1) = Some c' \<and>
      conn_inv S h c'"
    using c1(2) sync_rest_spec [OF _ d] drop_after_ack_spec live_inv closed_inv by (cases r) (simp_all add: ack_done_def)
  then show ?thesis using c1(1) live_inv [OF live_respond [OF l]] live_inv [OF l] by (simp add: sync_ack_def tcp_send_challenge_ack_def)
qed

lemma input_rst_spec:
  assumes "live S h c"
  shows "\<exists>c'. tcp_input_rst seg c = Some c' \<and> conn_inv S h c'"
proof -
  have "closable S h (set_so_error e c)" for e using closable_core [OF core_simple(4)] live_closable [OF assms] by simp
  then have "closable S h (if b then set_so_error e c else c)" for b e using live_closable [OF assms] by simp
  then have "\<exists>c'. tcp_close (if b then set_so_error e c else c) = Some c' \<and> conn_inv S h c'" for b e using close_spec closed_inv by blast
  then show ?thesis using live_inv [OF live_respond [OF assms]] live_inv [OF assms]
    unfolding tcp_input_rst_def Let_def tcp_send_challenge_ack_def by simp
qed

lemma input_sync_spec:
  assumes l: "live S h c" and st: "TCPS_HAVERCVDSYN (tp_state (c_tp c))" and d: "in_data seg \<noteq> []"
  shows "\<exists>c'. tcp_input_sync seg c = Some c' \<and> conn_inv S h c'"
proof -
  define c1 where "c1 = on_tp (\<lambda>tp. tp\<lparr>rcv_wnd := tcp_rcv_space c\<rparr>) c"
  obtain ok c2 where p: "tcp_paws_ok seg c1 = (ok, c2)" by fastforce
  have k1: "conn_core c1 = conn_core c" by (simp add: c1_def core_tpI)
  have "conn_core c2 = conn_core c1" using p by (auto simp: tcp_paws_ok_def Let_def core_tpI split: if_splits)
  then have k2: "conn_core c2 = conn_core c" using k1 by simp
  have l2: "live S h c2" by (rule live_core [OF k2 l])
  obtain seg' c3 where t: "tcp_trim_segment seg c2 = Some (seg', c3)" "conn_core c3 = conn_core c2" "\<And>s. seg' = Some s \<Longrightarrow> in_data s \<noteq> []"
    using trim_spec [OF d] by blast
  have l3: "live S h c3" by (rule live_core [OF t(2) l2])
  have st3: "TCPS_HAVERCVDSYN (tp_state (c_tp c3))" using st conn_core_eq(4) [OF t(2)] conn_core_eq(4) [OF k2] by simp
  have "\<exists>c'. (case seg' of None \<Rightarrow> drop_after_ack c3 | Some seg \<Rightarrow> sync_ack seg c3) = Some c' \<and> conn_inv S h c'"
    using drop_after_ack_spec [OF l3] sync_ack_spec [OF l3 st3] t(3) by (cases seg') auto
  then show ?thesis using t(1) drop_after_ack_spec [OF l2] input_rst_spec [OF l2]
    by (simp add: tcp_input_sync_def Let_def c1_def [symmetric] p)
qed

lemma core_syn_opts: "conn_core (tcp_apply_syn_opts to c) = conn_core c"
proof -
  have "conn_core (tcp_mss_update m c) = conn_core c" for m c by (simp add: tcp_mss_update_def Let_def core_tpI)
  then show ?thesis by (simp add: tcp_apply_syn_opts_def Let_def core_tpI)
qed

lemma core_init_rcv: "tp_core (tcp_init_rcv i tp) = tp_core tp" by (simp add: tcp_init_rcv_def)

text \<open>\<^verbatim>\<open>SYN_SENT\<close>: the SYN has been sent, or is about to be.\<close>

lemma live_syn:
  assumes "live S h c" and "syn_pending (c_tp c)"
  shows "fresh S h c" "snd_una (c_tp c) = iss (c_tp c)" "rel (iss (c_tp c)) (snd_max (c_tp c)) \<le> 1" "rel (iss (c_tp c)) (snd_nxt (c_tp c)) \<le> rel (iss (c_tp c)) (snd_max (c_tp c))"
    "sack_count (c_tp c) = 0" "sack_shape (c_tp c)"
proof -
  have n: "\<not> TCPS_HAVEESTABLISHED (tp_state (c_tp c))" using assms(2) by (auto simp: TCPS_HAVEESTABLISHED_def less_eq_tcp_state_def syn_pending_def)
  show "fresh S h c" by (rule live_fresh [OF assms(1) n])
  show "snd_una (c_tp c) = iss (c_tp c)" "rel (iss (c_tp c)) (snd_max (c_tp c)) \<le> 1" "rel (iss (c_tp c)) (snd_nxt (c_tp c)) \<le> rel (iss (c_tp c)) (snd_max (c_tp c))"
    "sack_count (c_tp c) = 0" using live_seq [OF assms(1)] assms(2) by (auto simp: snd_seq_ok_def snd_limit_def)
  show "sack_shape (c_tp c)" using live_sack [OF assms(1)] by (simp add: sack_ok_def)
qed

lemma syn_sent_ack_spec:
  assumes l: "live S h c" and st: "tp_state (c_tp c) = TCPS_SYN_SENT" and ack: "in_ack seg = iss (c_tp c) + 1" "snd_max (c_tp c) = iss (c_tp c) + 1"
  shows "open_live S h (syn_sent_ack seg c)"
proof -
  define c1 where "c1 = on_tp (\<lambda>tp. tcp_timer_stop TCPT_REXMT (tp\<lparr>rtt_start := 0, rexmt_shift := 0\<rparr>))
     (on_tp (\<lambda>tp. if rtt_start tp \<noteq> 0 then tcp_xmit_timer (c_hz c) (ucast (tcp_now_ms c - rtt_start tp)) tp else tp) c)"
  define c2 where "c2 = on_tp (\<lambda>tp. if SEQ_LT (snd_nxt tp) (snd_una tp) then tp\<lparr>snd_nxt := snd_una tp\<rparr> else tp) (on_tp (\<lambda>tp. tp\<lparr>snd_una := in_ack seg\<rparr>) c1)"
  define c3 where "c3 = on_tp (\<lambda>tp. tp\<lparr>sack_rxmit := snd_una tp\<rparr>) c2"
  have k1: "conn_core c1 = conn_core c" by (simp add: c1_def core_tpI)
  have l1: "live S h c1" by (rule live_core [OF k1 l])
  have v1: "seq_view (c_tp c1) = seq_view (c_tp c)" "syn_pending (c_tp c1)" using conn_core_seq_view [OF k1] st by (auto simp: syn_pending_def)
  note s = live_syn [OF l1 v1(2)]
  have e1: "iss (c_tp c1) = iss (c_tp c)" "snd_max (c_tp c1) = iss (c_tp c) + 1" using v1(1) ack(2) by (simp_all add: seq_view_def)
  have "rel (iss (c_tp c)) (snd_nxt (c_tp c1)) \<le> 1" using s(3,4) e1 by simp
  then have n: "snd_nxt (c_tp c1) = iss (c_tp c) \<or> snd_nxt (c_tp c1) = iss (c_tp c) + 1" by (rule rel_one)
  have lt: "SEQ_LT (iss (c_tp c)) (iss (c_tp c) + 1)" by (simp add: SEQ_LT_def)
  have f3: "fresh S h c3"
    unfolding c3_def c2_def using s(1) by (subst fresh_tp, simp add: fresh_core_def tp_flag_def pending_calls_def)+
  have v3: "iss (c_tp c3) = iss (c_tp c)" "snd_una (c_tp c3) = iss (c_tp c) + 1" "snd_max (c_tp c3) = iss (c_tp c) + 1" "snd_nxt (c_tp c3) = iss (c_tp c) + 1"
    "sack_count (c_tp c3) = 0" "sack_shape (c_tp c3)"
    using n lt e1 s(5,6) by (auto simp: c3_def c2_def ack(1) sack_shape_def)
  define c4 where "c4 = tcp_established c3"
  note e = established_spec [OF f3, folded c4_def]
  have v4: "seq_view (c_tp c4) = seq_view (c_tp c3)" using e by simp
  have "sack_ok (c_tp c3)" using v3 by (simp add: sack_ok_def sack_view_def half_def)
  then have "sack_ok (c_tp c4)" using sack_ok_view [OF v4] by simp
  then have "live S h c4" by (intro fresh_live) (use e v3 v4 in \<open>auto simp: seq_view_def\<close>)
  then have "open_live S h c4" using e by (auto simp: open_live_def TCPS_HAVEESTABLISHED_def less_eq_tcp_state_def)
  moreover have "syn_sent_ack seg c = on_tp (\<lambda>tp. tp\<lparr>snd_wl1 := in_seq seg\<rparr>) c4"
    by (simp add: syn_sent_ack_def Let_def c4_def c3_def c2_def c1_def)
  ultimately show ?thesis by (simp add: open_tp_core)
qed

lemma input_syn_sent_spec:
  assumes l: "live S h c" and st: "tp_state (c_tp c) = TCPS_SYN_SENT"
  shows "\<exists>sc. tcp_input_syn_sent seg c = Some sc \<and> (if fst sc = None then conn_inv S h (snd sc) else open_live S h (snd sc))"
proof -
  have syn: "syn_pending (c_tp c)" by (simp add: st syn_pending_def)
  note s = live_syn [OF l syn]
  define c1 where "c1 = on_tp (set_flag_tp TF_ACKNOW) (tcp_apply_syn_opts (in_to seg) (on_tp (tcp_init_rcv (in_seq seg)) c))"
  have k: "conn_core c1 = conn_core c" by (simp add: c1_def core_tpI core_syn_opts core_init_rcv)
  have l1: "live S h c1" by (rule live_core [OF k l])
  have v: "seq_view (c_tp c1) = seq_view (c_tp c)" "tp_state (c_tp c1) = TCPS_SYN_SENT" using conn_core_seq_view [OF k] st by auto
  have f1: "fresh S h c1" using s(1) fresh_conn_core [OF k] by simp
  define c2 where "c2 = on_tp (\<lambda>tp. tcp_state_change TCPS_SYN_RECEIVED (tp\<lparr>snd_wnd := in_wnd seg, snd_wl1 := in_seq seg, snd_nxt := iss tp\<rparr>)) c1"
  have "fresh S h c2" unfolding c2_def using f1
    by (subst fresh_tp) (simp_all add: fresh_core_def tcp_state_change_def tp_flag_def pending_calls_def)
  then have "live S h c2"
    by (rule fresh_syn) (use s v in \<open>simp_all add: c2_def tcp_state_change_def seq_view_def syn_pending_def sack_shape_def\<close>)
  then obtain c3 where c3: "send_out c2 = Some c3" "conn_inv S h c3" using inv_send by blast
  obtain c4 where c4: "tcp_drop ECONNREFUSED c = Some c4" "conn_inv S h c4" using inv_drop [OF l] by blast
  have a: "open_live S h (syn_sent_ack seg c1)" if n: "\<not> (SEQ_LEQ (in_ack seg) (iss (c_tp c)) \<or> SEQ_GT (in_ack seg) (snd_max (c_tp c)))"
  proof -
    have h: "rel (iss (c_tp c)) (snd_max (c_tp c)) < half" using live_half [OF l] s(2) by simp
    have "0 < rel (iss (c_tp c)) (in_ack seg)" "rel (iss (c_tp c)) (in_ack seg) \<le> rel (iss (c_tp c)) (snd_max (c_tp c))" using new_ack_range [OF h] n by auto
    then have "in_ack seg = iss (c_tp c) + 1" "snd_max (c_tp c) = iss (c_tp c) + 1"
      using s(3) rel_one [of "iss (c_tp c)" "in_ack seg"] rel_one [of "iss (c_tp c)" "snd_max (c_tp c)"] by auto
    then show ?thesis using v by (intro syn_sent_ack_spec [OF l1]) (simp_all add: seq_view_def)
  qed
  show ?thesis using a c3 c4 live_inv [OF l] live_inv [OF live_respond [OF l]]
    unfolding tcp_input_syn_sent_def Let_def c1_def [symmetric] c2_def [symmetric] by simp
qed

text \<open>A new connection.\<close>

lemma attach_spec:
  assumes cc: "cc_frames (tcp_cc_default reg)" and so: "c_so c = Some so" "so_refcount so = 1" "sockbuf_inv (so_snd so)" "sb_stream (so_snd so) = []"
    and c: "c_sent c = []" "\<not> c_released c" "\<not> detached c" and a: "tcp_attach_pcb reg c = (True, c')"
  shows "fresh [] 0 c' \<and> sack_count (c_tp c') = 0 \<and> sack_shape (c_tp c') \<and> seq_view (c_tp c') = seq_view tcpcb_zero \<and> tp_state (c_tp c') = TCPS_CLOSED"
proof -
  obtain ok c1 where 1: "take_alloc c = (ok, c1)" by fastforce
  obtain ok2 c2 where 2: "tcp_newtcpcb reg c1 = (ok2, c2)" by fastforce
  have ok: "ok" "ok2" "c' = on_so sock_hold c2" using a by (auto simp: tcp_attach_pcb_def 1 2 split: if_splits)
  obtain ok3 c3 where 3: "take_alloc c1 = (ok3, c3)" by fastforce
  define tp0 where "tp0 = tcpcb_zero\<lparr>tp_state := TCPS_CLOSED, mss := (if c_inp_flags c3 AND INPCB_IPV6 \<noteq> 0 then TCP_DEFAULT_MSS6 else TCP_DEFAULT_MSS),
                      rto := TCP_RTO_INITIAL_MS, req_rcv_scale := tcp_pick_rcv_scale (c_so c3), t_rcvtime := tcp_now_ms c3\<rparr>"
  define tp where "tp = fst (tcp_cc_set None (tcp_cc_default reg) tp0)"
  have c2: "c2 = c3\<lparr>c_tp := tp, c_cc := tcp_cc_default reg, c_gone := False, c_freed := False\<rparr>"
    using 2 ok(2) by (auto simp: tcp_newtcpcb_def 3 Let_def tp_def tp0_def split: if_splits)
  have k: "conn_core c3 = conn_core c" using core_simple(3) [of c] core_simple(3) [of c1] by (simp add: 1 3)
  have so3: "c_so c3 = Some so" using so(1) 1 3 by (auto simp: take_alloc_def split: list.splits)
  have t: "tp_core tp = tp_core tp0"
    using core_cc [OF cc_frames.init_frame_law [OF cc]] by (simp add: tp_def tcp_cc_set_def split: option.splits)
  have z: "tp_flag f tp0 = False" "t_closed tp0 = False" "pending_calls tp0 = 0" "sack_count tp0 = 0" "length (sack_blocks tp0) = TCP_SACK_SCOREBOARD" for f
    by (simp_all add: tp0_def tcpcb_zero_def tp_flag_def pending_calls_def all_timers_def callout_init_def)
  have v: "seq_view tp = seq_view tp0" "fresh_core tp = fresh_core tp0" using core_seq_view [OF t] core_fresh [OF t] by auto
  have e: "c_sent c3 = []" "\<not> c_released c3" "\<not> detached c3" using k c by (auto simp: conn_core_def)
  have c': "c_tp c' = tp" "tp_state tp = TCPS_CLOSED" using ok(3) tp_core_eq(1) [OF t] by (simp_all add: c2 tp0_def)
  have vz: "seq_view tp0 = seq_view tcpcb_zero" by (simp add: tp0_def seq_view_def)
  have "fresh [] 0 c'" using cc so(2-4) e v(2) z
    by (simp add: fresh_def ok(3) c2 fresh_core_def so3 sndbuf_ok_def snd_stream_def refs_def sock_hold_def detached_def stream_max_def)
  then show ?thesis using c' v(1) vz z by (simp add: seq_view_def sack_shape_def)
qed

lemma new_conn_spec:
  assumes "sock_new_conn ok i n b head = Some so"
  shows "so_refcount so = 1" "sockbuf_inv (so_snd so)" "sb_stream (so_snd so) = []"
  using assms by (auto simp: sock_new_conn_def sock_alloc_def sockbuf_init_def sockbuf_inv_def sb_stream_def Let_def split: if_splits)

lemma not_detached_mask: "x AND INPCB_DETACHED = 0 \<Longrightarrow> (x OR (y AND (INPCB_IPV6 OR INPCB_IPV6_ONLY)) OR INPCB_INHASH) AND INPCB_DETACHED = 0"
proof -
  assume "x AND INPCB_DETACHED = 0"
  moreover have "(y AND (INPCB_IPV6 OR INPCB_IPV6_ONLY)) AND INPCB_DETACHED = 0" by (simp add: and.assoc INPCB_IPV6_def INPCB_IPV6_ONLY_def INPCB_DETACHED_def)
  moreover have "INPCB_INHASH AND INPCB_DETACHED = 0" by (simp add: INPCB_INHASH_def INPCB_DETACHED_def)
  ultimately show ?thesis by (simp add: bit.conj_disj_distrib2)
qed

lemma listen_open_spec:
  assumes f: "fresh [] 0 c" and sack: "sack_count (c_tp c) = 0" "sack_shape (c_tp c)" and d: "\<not> detached c"
  shows "\<exists>c'. listen_open e seg lp c = Some c' \<and> conn_inv [] 0 c'"
proof -
  define c1 where "c1 = c\<lparr>c_v4 := le_v4 e, c_fport := in_sport seg, c_lport := c_lport lp, c_route := le_route e,
                c_inp_flags := c_inp_flags c OR (c_inp_flags lp AND (INPCB_IPV6 OR INPCB_IPV6_ONLY)) OR INPCB_INHASH\<rparr>"
  define c2 where "c2 = on_tp (tcp_init_rcv (in_seq seg)) (tcp_apply_syn_opts (in_to seg) c1)"
  define c3 where "c3 = on_tp (\<lambda>tp. tcp_state_change TCPS_SYN_RECEIVED (tp\<lparr>snd_wnd := in_wnd seg, snd_wl1 := in_seq seg\<rparr>)) (tcp_sendseqinit (le_hash e) c2)"
  define c4 where "c4 = on_stat (\<lambda>st. st\<lparr>st_accepts := st_accepts st + 1\<rparr>) (on_tp (set_flag_tp TF_ACKNOW) (tcp_timer_activate TCPT_KEEP TCP_KEEPINIT_MS c3))"
  have "detached c1 = detached c" using d not_detached_mask by (simp add: detached_def c1_def)
  then have "conn_core c1 = conn_core c" by (simp add: conn_core_def c1_def)
  then have k2: "conn_core c2 = conn_core c" by (simp add: c2_def core_tpI core_init_rcv core_syn_opts)
  have "fresh [] 0 c2" using f fresh_conn_core [OF k2] by simp
  then have f3: "fresh [] 0 c3" unfolding c3_def tcp_sendseqinit_def Let_def
    by (subst fresh_tp, simp add: fresh_core_def tcp_state_change_def tp_flag_def pending_calls_def)+
  have "sack_count (c_tp c2) = 0" "sack_shape (c_tp c2)" using conn_core_seq_view [OF k2] sack by (auto simp: seq_view_def sack_shape_def)
  then have "live [] 0 c3"
    by (intro fresh_syn [OF f3]) (simp_all add: c3_def tcp_sendseqinit_def Let_def tcp_state_change_def syn_pending_def sack_shape_def)
  moreover have "conn_core c4 = conn_core c3" by (simp add: c4_def core_tpI)
  ultimately have "live [] 0 c4" using live_core by blast
  moreover have "listen_open e seg lp c = send_out c4" by (simp add: listen_open_def Let_def c4_def c3_def c2_def c1_def)
  ultimately show ?thesis using inv_send by simp
qed

lemma live_reply_reset: "live S h c \<Longrightarrow> live S h (reply_reset_conn seg c)"
proof -
  assume l: "live S h c"
  obtain r os where e: "tcp_reply_reset seg (c_allocs c) = (r, os)" by fastforce
  have d: "sg_data sg = []" if "r = Some sg" for sg
    using e that by (auto simp: tcp_reply_reset_def tcp_respond_stray_def tcp_fill_header_def Let_def split: if_splits prod.splits option.splits)
  show ?thesis using live_checksum [OF l] live_core [of "c\<lparr>c_allocs := os\<rparr>" c S h] l d by (cases r) (auto simp: reply_reset_conn_def e)
qed

definition arrived :: "bytes \<Rightarrow> nat \<Rightarrow> tcp_conn \<times> tcp_conn option \<Rightarrow> bool" where
  "arrived S h r \<longleftrightarrow> conn_inv S h (fst r) \<and> (\<forall>n. snd r = Some n \<longrightarrow> conn_inv [] 0 n)"

lemma input_listen_spec:
  assumes l: "live S h lp" and cc: "cc_frames (tcp_cc_default (le_reg e))"
  shows "\<exists>r. tcp_input_listen e seg lp = Some r \<and> arrived S h r"
proof -
  obtain head where head: "c_so lp = Some head" using l refs_so [of lp] by (auto simp: live_def split: if_splits)
  obtain ok lp1 where 1: "take_alloc lp = (ok, lp1)" by fastforce
  have l1: "live S h lp1" using live_core [of lp1 lp] core_simple(3) [of lp] l by (simp add: 1)
  have u: "live S h (lp1\<lparr>c_allocs := os, c_stat := st\<rparr>)" for os st
    using live_core [OF _ l1, of "lp1\<lparr>c_allocs := os, c_stat := st\<rparr>"] by (simp add: conn_core_def detached_def)
  have u': "live S h (lp1\<lparr>c_allocs := os\<rparr>)" for os using live_core [OF _ l1] by simp
  show ?thesis
  proof (cases "in_has seg TH_RST \<or> in_has seg TH_ACK \<or> \<not> in_has seg TH_SYN")
    case True
    then show ?thesis using live_inv [OF l] live_inv [OF live_reply_reset [OF l]] by (auto simp: tcp_input_listen_def arrived_def)
  next
    case False
    show ?thesis
    proof (cases "sock_new_conn ok (le_incomplete e) (le_complete e) (le_backlog e) head")
      case None
      then show ?thesis using False head 1 live_inv [OF l1] by (simp add: tcp_input_listen_def arrived_def)
    next
      case (Some so)
      define c0 where "c0 = lp1\<lparr>c_so := Some so, c_sent := [], c_inp_flags := c_inp_flags lp1 AND INPCB_IPV6, c_released := False\<rparr>"
      obtain ok2 c where a: "tcp_attach_pcb (le_reg e) c0 = (ok2, c)" by fastforce
      have d0: "\<not> detached c0" by (simp add: detached_def c0_def and.assoc INPCB_IPV6_def INPCB_DETACHED_def)
      show ?thesis
      proof (cases ok2)
        case True
        have f: "fresh [] 0 c" "sack_count (c_tp c) = 0" "sack_shape (c_tp c)"
          using attach_spec [OF cc _ new_conn_spec [OF Some], of c0] a True d0 by (simp_all add: c0_def)
        have "\<not> detached c" using a True d0
          by (auto simp: tcp_attach_pcb_def tcp_newtcpcb_def take_alloc_def Let_def detached_def on_so_def split: prod.splits if_splits list.splits)
        from listen_open_spec [OF f this, of e seg lp1] obtain c' where c': "listen_open e seg lp1 c = Some c'" "conn_inv [] 0 c'" by blast
        then show ?thesis using False head 1 Some a True live_inv [OF u] by (simp add: tcp_input_listen_def arrived_def c0_def [symmetric])
      next
        case f: False
        then show ?thesis using False head 1 Some a live_inv [OF u'] by (simp add: tcp_input_listen_def arrived_def c0_def [symmetric])
      qed
    qed
  qed
qed

lemma input_spec:
  assumes l: "live S h c" and cc: "cc_frames (tcp_cc_default (le_reg e))" and pk: "pk_chain pk \<noteq> []"
  shows "\<exists>r. tcp_input e pk c = Some r \<and> arrived S h r"
proof -
  obtain to where to: "tcp_dooptions (pk_opts pk) (pk_flags pk AND TH_SYN \<noteq> 0) = Done to"
    unfolding tcp_dooptions_def using dooptions_ok [of no_opts] by (fastforce simp: no_opts_def TCP_MAX_WINSHIFT_def)
  define seg where "seg = \<lparr>in_sport = pk_sport pk, in_dport = pk_dport pk, in_seq = pk_seq pk, in_ack = pk_ack pk, in_flags = pk_flags pk,
                     in_to = to, in_data = [], in_len = pk_len pk,
                     in_wnd = (if pk_flags pk AND TH_SYN \<noteq> 0 then ucast (pk_win pk) else push_bit (unat (snd_scale (c_tp c))) (ucast (pk_win pk)))\<rparr>"
  define c1 where "c1 = on_tp (\<lambda>tp. tp\<lparr>t_rcvtime := tcp_now_ms c, keep_probes := 0\<rparr>) c"
  have nf: "\<not> c_freed c" using l by (simp add: live_def sending_def)
  have l1: "live S h c1" using l by (simp add: c1_def live_tp_core)
  obtain nb where nb: "netbuf_adj (pk_chain pk) (int (pk_off pk)) = Done nb" "nb \<noteq> []" using adj_nonempty [OF pk] by blast
  have e: "tcp_input e pk c =
     (if tp_state (c_tp c1) = TCPS_CLOSED then Some (reply_reset_conn seg c1, None)
      else if tp_state (c_tp c1) = TCPS_LISTEN then tcp_input_listen e seg c1
      else (if tp_state (c_tp c1) = TCPS_SYN_SENT then tcp_input_syn_sent seg c1 else Some (Some seg, c1)) \<bind>
        (\<lambda>(seg, c). case seg of None \<Rightarrow> Some (c, None) | Some seg \<Rightarrow> map_option (\<lambda>c. (c, None)) (tcp_input_sync (seg\<lparr>in_data := nb\<rparr>) c)))"
    unfolding tcp_input_def to run.case nb(1) if_not_P [OF nf] Let_def unfolding seg_def [symmetric] c1_def [symmetric] by (rule refl)
  have sync: "\<exists>r. map_option (\<lambda>c. (c, None)) (tcp_input_sync (seg\<lparr>in_data := nb\<rparr>) c) = Some r \<and> arrived S h r"
    if "live S h c" "TCPS_HAVERCVDSYN (tp_state (c_tp c))" for seg c
    using input_sync_spec [OF that, of "seg\<lparr>in_data := nb\<rparr>"] nb(2) by (auto simp: arrived_def)
  consider "tp_state (c_tp c1) = TCPS_CLOSED" | "tp_state (c_tp c1) = TCPS_LISTEN" | "tp_state (c_tp c1) = TCPS_SYN_SENT"
    | "TCPS_HAVERCVDSYN (tp_state (c_tp c1))" "tp_state (c_tp c1) \<notin> {TCPS_CLOSED, TCPS_LISTEN, TCPS_SYN_SENT}"
    by (cases "tp_state (c_tp c1)") (auto simp: TCPS_HAVERCVDSYN_def less_eq_tcp_state_def)
  then show ?thesis
  proof cases
    case 1
    then show ?thesis using e live_inv [OF live_reply_reset [OF l1]] by (simp add: arrived_def)
  next
    case 2
    then show ?thesis using e input_listen_spec [OF l1 cc] by simp
  next
    case 3
    obtain sg c2 where s: "tcp_input_syn_sent seg c1 = Some (sg, c2)" "if sg = None then conn_inv S h c2 else open_live S h c2"
      using input_syn_sent_spec [OF l1 3, of seg] by (metis prod.collapse)
    show ?thesis
    proof (cases sg)
      case None
      then show ?thesis using e 3 s by (simp add: arrived_def)
    next
      case (Some sg')
      then have o: "live S h c2" "TCPS_HAVEESTABLISHED (tp_state (c_tp c2))" using s(2) by (auto simp: open_live_def)
      have "TCPS_HAVERCVDSYN (tp_state (c_tp c2))" using o(2) by (cases "tp_state (c_tp c2)") (auto simp: TCPS_HAVERCVDSYN_def TCPS_HAVEESTABLISHED_def less_eq_tcp_state_def)
      from sync [OF o(1) this] show ?thesis using e 3 s(1) Some by simp
    qed
  next
    case 4
    then show ?thesis using e sync [OF l1 4(1), of seg] by simp
  qed
qed

end
