(* ===== verification/TCP_Safety.thy ===== *)
theory TCP_Safety
  imports TCP_Arrivals
begin

text \<open>
  A connection from the creation of its socket to its end, under any sequence of packets, timer calls, requests of its
  user and changes of its surroundings. The properties of \<open>TCP_Life\<close>, \<open>TCP_Session\<close> and \<open>TCP_Arrivals\<close> are put together here.
\<close>

section \<open>Events\<close>

text \<open>What can happen: a packet for the connection; a timer that expires (the softclock dispatches the call of its handler)
  and the call itself, which may come much later; an ICMP error; the requests of the user; and changes of the surroundings:
  the clock, the route to the peer, the memory available, the receive buffer, which the user reads.\<close>

datatype conn_event =
    Packet listen_env tcp_packet
  | Expire tcp_timer_type
  | Timer_call tcp_timer_type
  | Icmp int u32
  | Listen "int \<times> u16"
  | Connect connect_result
  | Send bool chain
  | Rcvd
  | Shutdown bool
  | Disconnect
  | Abort
  | Detach
  | Option_set int int nat int bool
  | Clock u64
  | Route "u32 option"
  | Memory malloc_results
  | Rcv_buffer sockbuf

text \<open>The middle of \<^verbatim>\<open>tcp_input_packet\<close>, once the connection has been found: the socket is held meanwhile.\<close>

definition tcp_deliver :: "listen_env \<Rightarrow> tcp_packet \<Rightarrow> tcp_conn \<Rightarrow> (tcp_conn \<times> tcp_conn option) option" where
  "tcp_deliver e pk c =
     do {
       (c, new) \<leftarrow> tcp_input e pk (on_so sock_hold c);
       c \<leftarrow> release_so c;
       Some (c, new)
     }"

text \<open>What \<^verbatim>\<open>callout_dispatch\<close> does to the timer before it calls the handler.\<close>

definition tcp_timer_expire :: "tcp_timer_type \<Rightarrow> tcpcb \<Rightarrow> tcpcb" where
  "tcp_timer_expire w tp = set_timer w ((timers tp w)\<lparr>co_pending := False, co_dispatched := co_dispatched (timers tp w) + 1\<rparr>) tp"

definition no_new :: "tcp_conn option \<Rightarrow> (tcp_conn \<times> tcp_conn option) option" where
  "no_new r = map_option (\<lambda>c. (c, None)) r"

fun conn_step :: "conn_event \<Rightarrow> tcp_conn \<Rightarrow> (tcp_conn \<times> tcp_conn option) option" where
  "conn_step (Packet e pk) c = tcp_deliver e pk c"
| "conn_step (Expire w) c = no_new (Some (on_tp (tcp_timer_expire w) c))"
| "conn_step (Timer_call w) c = no_new (tcp_timer_handler w c)"
| "conn_step (Icmp e mtu) c = no_new (tcp_ctlinput e mtu c)"
| "conn_step (Listen bd) c = no_new (Some (snd (tcp_listen bd c)))"
| "conn_step (Connect r) c = no_new (map_option snd (tcp_connect r c))"
| "conn_step (Send oob nb) c = no_new (map_option snd (tcp_send oob nb c))"
| "conn_step Rcvd c = no_new (tcp_rcvd c)"
| "conn_step (Shutdown rd) c = no_new (tcp_shutdown rd c)"
| "conn_step Disconnect c = no_new (map_option snd (tcp_disconnect c))"
| "conn_step Abort c = no_new (tcp_abort c)"
| "conn_step Detach c = no_new (tcp_detach c)"
| "conn_step (Option_set level name len val wr) c = no_new (map_option (\<lambda>(_, _, c). c) (tcp_ctloutput level name len val wr c))"
| "conn_step (Clock t) c = no_new (Some (c\<lparr>c_ticks := t\<rparr>))"
| "conn_step (Route r) c = no_new (Some (c\<lparr>c_route := r\<rparr>))"
| "conn_step (Memory os) c = no_new (Some (c\<lparr>c_allocs := os\<rparr>))"
| "conn_step (Rcv_buffer sb) c = no_new (Some (on_so (\<lambda>so. so\<lparr>so_rcv := sb\<rparr>) c))"

text \<open>The bytes an event adds to the stream to be sent.\<close>

definition accepts_data :: "tcp_conn \<Rightarrow> bool" where
  "accepts_data c \<longleftrightarrow> \<not> c_gone c \<and> TCPS_SYN_SENT \<le> tp_state (c_tp c) \<and> tp_state (c_tp c) \<le> TCPS_CLOSE_WAIT"

fun data_sent :: "conn_event \<Rightarrow> tcp_conn \<Rightarrow> bytes" where
  "data_sent (Send oob nb) c = (if \<not> oob \<and> accepts_data c then sb_data nb else [])"
| "data_sent _ c = []"

text \<open>When an event can happen. Packets are handed to connections that have a control block, in a chain that holds at least
  the headers; the congestion control algorithm of a new connection touches its two window fields only. A timer expires
  when it is running, in memory that has not been freed, and a call follows each expiry. The user's requests come before the socket is
  detached. The send buffer is at most a gigabyte, the whole stream shorter than half of the sequence space.\<close>

fun possible :: "bytes \<Rightarrow> conn_event \<Rightarrow> tcp_conn \<Rightarrow> bool" where
  "possible S (Packet e pk) c \<longleftrightarrow> \<not> c_gone c \<and> pk_chain pk \<noteq> [] \<and> cc_frames (tcp_cc_default (le_reg e))"
| "possible S (Expire w) c \<longleftrightarrow> tcp_timer_active (c_tp c) w \<and> \<not> c_freed c \<and> Suc (pending_calls (c_tp c)) < 2 ^ 32"
| "possible S (Timer_call w) c \<longleftrightarrow> co_dispatched (timers (c_tp c) w) \<noteq> t_timer_entered (c_tp c) w"
| "possible S (Icmp e mtu) c \<longleftrightarrow> \<not> c_released c"
| "possible S (Send oob nb) c \<longleftrightarrow> \<not> detached c \<and> \<not> c_released c \<and> chain_wf nb \<and> length (snd_stream c) + length (sb_data nb) \<le> 2 ^ 30 \<and>
     length S + length (sb_data nb) < stream_max"
| "possible S (Clock t) c \<longleftrightarrow> True"
| "possible S (Route r) c \<longleftrightarrow> True"
| "possible S (Memory os) c \<longleftrightarrow> True"
| "possible S (Rcv_buffer sb) c \<longleftrightarrow> True"
| "possible S e c \<longleftrightarrow> \<not> detached c \<and> \<not> c_released c"

section \<open>One event\<close>

definition step_ok :: "bytes \<Rightarrow> (tcp_conn \<times> tcp_conn option) option \<Rightarrow> bool" where
  "step_ok S r \<longleftrightarrow> (\<exists>c new. r = Some (c, new) \<and> arrived S 0 (c, new))"

lemma step_okI: "\<exists>c'. r = Some c' \<and> conn_inv S 0 c' \<Longrightarrow> step_ok S (no_new r)"
  by (auto simp: step_ok_def no_new_def arrived_def)

lemma deliver_ok:
  assumes "conn_inv S 0 c" and "possible S (Packet e pk) c"
  shows "step_ok S (tcp_deliver e pk c)"
proof -
  have "live S 0 c" using assms by (simp add: conn_inv_def)
  then have l: "live S 1 (on_so sock_hold c)" by (rule live_hold)
  obtain c1 new where 1: "tcp_input e pk (on_so sock_hold c) = Some (c1, new)" "arrived S 1 (c1, new)" using input_spec [OF l, of e pk] assms(2) by auto
  obtain c2 where "release_so c1 = Some c2" "conn_inv S 0 c2" using inv_release [of S 0 c1] 1(2) by (auto simp: arrived_def)
  then show ?thesis using 1 by (simp add: step_ok_def tcp_deliver_def arrived_def)
qed

lemma pending_expire:
  assumes "pending_calls tp < 2 ^ 32 - 1"
  shows "pending_calls (tcp_timer_expire w tp) \<le> Suc (pending_calls tp)"
proof -
  define d where "d = co_dispatched (timers tp w) - t_timer_entered tp w"
  have e: "co_dispatched (timers tp w) + 1 - t_timer_entered tp w = d + 1" by (simp add: d_def)
  have "unat (co_dispatched (timers tp w) + 1 - t_timer_entered tp w) \<le> Suc (unat (co_dispatched (timers tp w) - t_timer_entered tp w))"
    unfolding e by (simp add: d_def [symmetric] unat_word_ariths)
  then show ?thesis by (cases w) (simp_all add: tcp_timer_expire_def set_timer_def pending_calls_def all_timers_def)
qed

lemma expire_ok:
  assumes inv: "conn_inv S 0 c" and p: "possible S (Expire w) c"
  shows "conn_inv S 0 (on_tp (tcp_timer_expire w) c)"
proof -
  have a: "tcp_timer_active (c_tp c) w" using p by simp
  have "\<not> c_gone c" using inv a by (auto simp: conn_inv_def closed_down_def split: if_splits)
  then have l: "live S 0 c" using inv by (simp add: conn_inv_def)
  define tp where "tp = tcp_timer_expire w (c_tp c)"
  have pc: "pending_calls tp < 2 ^ 32" using pending_expire [of "c_tp c" w] p by (simp add: tp_def)
  have s: "snd_seq_ok n tp = snd_seq_ok n (c_tp c)" "acked_to k tp = acked_to k (c_tp c)" "sends_data tp = sends_data (c_tp c)" for n k
    by (simp_all add: tp_def tcp_timer_expire_def set_timer_def snd_seq_ok_def sack_ok_def sack_shape_def sack_view_def snd_limit_def syn_pending_def
        acked_to_def fin_acked_def sends_data_def tp_flag_def)
  have t: "tp_state tp = tp_state (c_tp c)" "iss tp = iss (c_tp c)" "t_closed tp = t_closed (c_tp c)" "sack_count tp = sack_count (c_tp c)" "t_flags tp = t_flags (c_tp c)"
    by (simp_all add: tp_def tcp_timer_expire_def set_timer_def)
  have "live S 0 (on_tp (tcp_timer_expire w) c)"
    using l pc by (auto simp: live_def sending_def snd_ok_def stream_ok_def sent_ok_def before_open_def s t tp_flag_def tp_def [symmetric])
  then show ?thesis by (rule live_inv)
qed

text \<open>Requests to a connection that is gone.\<close>

lemma gone_so:
  assumes inv: "conn_inv S 0 c" and g: "c_gone c" and f: "\<And>so. so_refcount (f so) = so_refcount so"
  shows "conn_inv S 0 (on_so f c)"
proof -
  have "refs (on_so f c) = refs c" by (simp add: refs_def f split: option.splits)
  then have "closed_down S 0 (on_so f c)" using inv g by (auto simp: conn_inv_def closed_down_def sent_ok_def split: if_splits)
  then show ?thesis by (rule closed_inv)
qed

lemma user_so: "conn_inv S 0 c \<Longrightarrow> \<not> c_released c \<Longrightarrow> \<exists>so. c_so c = Some so"
  using refs_so [of c] by (auto simp: conn_inv_def live_def closed_down_def split: if_splits)

lemma send_ok:
  assumes inv: "conn_inv S 0 c" and p: "possible S (Send oob nb) c"
  shows "step_ok (S @ data_sent (Send oob nb) c) (conn_step (Send oob nb) c)"
proof -
  obtain so where so: "c_so c = Some so" using user_so [OF inv] p by auto
  show ?thesis
  proof (cases "\<not> oob \<and> accepts_data c")
    case False
    then have "\<exists>r. tcp_send oob nb c = Some (r, c)" by (auto simp: tcp_send_def so accepts_data_def not_le)
    then show ?thesis using False inv by (auto simp: step_ok_def no_new_def arrived_def)
  next
    case True
    then have l: "live S 0 c" using inv by (simp add: conn_inv_def accepts_data_def)
    have "live (S @ sb_data nb) 0 (on_so (\<lambda>so. so\<lparr>so_snd := sockbuf_append (so_snd so) nb\<rparr>) c)"
      by (rule send_spec [OF l]) (use p True in \<open>auto simp: accepts_data_def\<close>)
    from inv_send [OF this] show ?thesis using True so
      by (auto simp: tcp_send_def accepts_data_def not_less intro!: step_okI)
  qed
qed

lemma option_ok:
  assumes inv: "conn_inv S 0 c" and u: "\<not> c_released c"
  shows "step_ok S (conn_step (Option_set level name len val wr) c)"
proof -
  obtain so where so: "c_so c = Some so" using user_so [OF inv u] by blast
  show ?thesis
  proof (cases "c_gone c")
    case True
    then show ?thesis using inv so by (auto simp: tcp_ctloutput_def step_ok_def no_new_def arrived_def)
  next
    case False
    then have l: "live S 0 c" using inv by (simp add: conn_inv_def)
    have 1: "conn_inv S 0 (on_tp (clear_flag_tp TF_NODELAY) c)" "conn_inv S 0 (on_tp (\<lambda>tp. tp\<lparr>mss := word_of_int val\<rparr>) c)"
      using l by (simp_all add: live_inv live_tp_core)
    have 2: "\<exists>c'. send_out (on_tp (set_flag_tp TF_NODELAY) c) = Some c' \<and> conn_inv S 0 c'" using l by (intro inv_send) (simp add: live_tp_core)
    have "\<exists>e v c'. tcp_ctloutput level name len val wr c = Some (e, v, c') \<and> conn_inv S 0 c'"
      unfolding tcp_ctloutput_def using False so 1 2 inv by auto
    then show ?thesis by (auto intro!: step_okI)
  qed
qed

lemma shutdown_ok:
  assumes inv: "conn_inv S 0 c"
  shows "\<exists>c'. tcp_shutdown rd c = Some c' \<and> conn_inv S 0 c'"
proof (cases "c_gone c")
  case True
  have "conn_inv S 0 (on_so sock_cant_send_more c)"
    by (rule gone_so [OF inv True]) (use core_so(6) in \<open>simp add: so_core_def\<close>)
  then show ?thesis using inv True by (simp add: tcp_shutdown_def)
next
  case False
  then have "live S 0 c" using inv by (simp add: conn_inv_def)
  then have "live S 0 (on_so sock_cant_send_more c)" using live_core [OF core_soI] by simp
  from usrclosed_output_spec [OF this] show ?thesis using False inv by (simp add: tcp_shutdown_def)
qed

lemma disconnect_ok:
  assumes inv: "conn_inv S 0 c" and u: "\<not> c_released c"
  shows "\<exists>r c'. tcp_disconnect c = Some (r, c') \<and> conn_inv S 0 c'"
proof (cases "c_gone c")
  case True
  then show ?thesis using inv by (simp add: tcp_disconnect_def)
next
  case False
  obtain so where so: "c_so c = Some so" using user_so [OF inv u] by blast
  have l: "live S 0 c" using False inv by (simp add: conn_inv_def)
  have "live S 0 (on_so sock_is_disconnecting c)" using live_core [OF core_soI l] by simp
  from usrclosed_output_spec [OF this] show ?thesis
    using False so inv_close [OF l] inv_drop [OF l, of 0] by (auto simp: tcp_disconnect_def)
qed

lemma inv_surroundings:
  assumes "conn_inv S 0 c"
  shows "conn_inv S 0 (c\<lparr>c_ticks := t\<rparr>)" "conn_inv S 0 (c\<lparr>c_route := r\<rparr>)" "conn_inv S 0 (c\<lparr>c_allocs := os\<rparr>)"
    "conn_inv S 0 (on_so (\<lambda>so. so\<lparr>so_rcv := sb\<rparr>) c)"
proof -
  have e: "conn_inv S 0 c'" if k: "conn_core c' = conn_core c" and t: "c_tp c' = c_tp c" for c'
  proof (cases "c_gone c")
    case True
    have o: "map_option so_core (c_so c') = map_option so_core (c_so c)" "c_gone c' = c_gone c" "c_freed c' = c_freed c" "c_released c' = c_released c"
      "detached c' = detached c" "c_sent c' = c_sent c" using k by (simp_all add: conn_core_def)
    have "closed_down S 0 c" using True assms by (simp add: conn_inv_def)
    then have "closed_down S 0 c'" using so_core_eq(3) [OF o(1)] o t by (auto simp: closed_down_def sent_ok_def split: if_splits)
    then show ?thesis by (rule closed_inv)
  next
    case False
    then show ?thesis using assms live_core [OF k] live_inv by (simp add: conn_inv_def)
  qed
  show "conn_inv S 0 (c\<lparr>c_ticks := t\<rparr>)" by (rule e) (simp_all add: conn_core_def detached_def)
  show "conn_inv S 0 (c\<lparr>c_route := r\<rparr>)" "conn_inv S 0 (c\<lparr>c_allocs := os\<rparr>)" "conn_inv S 0 (on_so (\<lambda>so. so\<lparr>so_rcv := sb\<rparr>) c)"
    by (rule e, simp_all add: core_soI)+
qed

lemma user_ok:
  assumes inv: "conn_inv S 0 c"
  shows "\<exists>c'. Some (snd (tcp_listen bd c)) = Some c' \<and> conn_inv S 0 c'" "\<exists>c'. map_option snd (tcp_connect r c) = Some c' \<and> conn_inv S 0 c'"
    "\<exists>c'. tcp_rcvd c = Some c' \<and> conn_inv S 0 c'" "\<exists>c'. tcp_abort c = Some c' \<and> conn_inv S 0 c'"
proof -
  have l: "live S 0 c" if "\<not> c_gone c" using that inv by (simp add: conn_inv_def)
  show "\<exists>c'. Some (snd (tcp_listen bd c)) = Some c' \<and> conn_inv S 0 c'"
    using inv listen_spec [OF l] live_inv by (cases "c_gone c") (auto simp: tcp_listen_def)
  show "\<exists>c'. map_option snd (tcp_connect r c) = Some c' \<and> conn_inv S 0 c'"
    using inv connect_spec [OF l] live_inv by (cases "c_gone c") (fastforce simp: tcp_connect_def)+
  show "\<exists>c'. tcp_rcvd c = Some c' \<and> conn_inv S 0 c'" using inv inv_send [OF l] by (cases "c_gone c") (auto simp: tcp_rcvd_def)
  show "\<exists>c'. tcp_abort c = Some c' \<and> conn_inv S 0 c'" using inv inv_drop [OF l] by (cases "c_gone c") (auto simp: tcp_abort_def)
qed

lemma conn_step_ok:
  assumes inv: "conn_inv S 0 c" and p: "possible S e c"
  shows "step_ok (S @ data_sent e c) (conn_step e c)"
proof (cases e)
  case (Packet env pk)
  then show ?thesis using deliver_ok [OF inv] p by simp
next
  case (Expire w)
  then show ?thesis using expire_ok [OF inv] p by (auto intro!: step_okI)
next
  case (Timer_call w)
  then show ?thesis using timers_spec [OF inv] p by (auto intro!: step_okI)
next
  case (Icmp er mtu)
  then show ?thesis using ctlinput_spec [OF inv] by (auto intro!: step_okI)
next
  case (Send oob nb)
  then show ?thesis using send_ok [OF inv] p by simp
next
  case (Option_set l n ln v w)
  then show ?thesis using option_ok [OF inv] p by simp
next
  case Disconnect
  then show ?thesis using disconnect_ok [OF inv] p by (auto intro!: step_okI)
next
  case Detach
  then show ?thesis using detach_spec [OF inv] p by (auto intro!: step_okI)
qed (use inv user_ok [OF inv] shutdown_ok [OF inv] inv_surroundings [OF inv] in \<open>auto intro!: step_okI\<close>)

section \<open>Reachable connections\<close>

text \<open>\<open>conn_reach S c\<close>: \<open>c\<close> is a state of a connection whose user has sent the stream \<open>S\<close>. Connections come from a new socket
  or from a listening connection.\<close>

inductive conn_reach :: "bytes \<Rightarrow> tcp_conn \<Rightarrow> bool" where
  Socket: "conn_reach [] c'" if "c_so c = Some (sock_alloc type)" and "c_sent c = []" and "\<not> c_released c" and "\<not> detached c"
    and "cc_frames (tcp_cc_default reg)" and "tcp_attach_pcb reg c = (True, c')"
| Step: "conn_reach (S @ data_sent e c) c'" if "conn_reach S c" and "possible S e c" and "conn_step e c = Some (c', new)"
| Accept: "conn_reach [] n" if "conn_reach S c" and "possible S e c" and "conn_step e c = Some (c', Some n)"

lemma attach_live:
  assumes "c_so c = Some (sock_alloc type)" "c_sent c = []" "\<not> c_released c" "\<not> detached c" "cc_frames (tcp_cc_default reg)" "tcp_attach_pcb reg c = (True, c')"
  shows "live [] 0 c'"
proof -
  have so: "so_refcount (sock_alloc type) = 1" "sockbuf_inv (so_snd (sock_alloc type))" "sb_stream (so_snd (sock_alloc type)) = []"
    by (simp_all add: sock_alloc_def sockbuf_init_def sockbuf_inv_def sb_stream_def)
  note a = attach_spec [OF assms(5,1) so assms(2-4,6)]
  have f: "fresh [] 0 c'" and st: "tp_state (c_tp c') = TCPS_CLOSED" and sk: "sack_count (c_tp c') = 0" "sack_shape (c_tp c')"
    and v: "seq_view (c_tp c') = seq_view tcpcb_zero" using a by auto
  have seq: "snd_una (c_tp c') = 0" "snd_nxt (c_tp c') = 0" "snd_max (c_tp c') = 0" using v by (simp_all add: seq_view_def tcpcb_zero_def)
  have ok: "sack_ok (c_tp c')" using sk seq by (simp add: sack_ok_def sack_view_def half_def)
  have n: "\<not> TCPS_HAVEESTABLISHED (tp_state (c_tp c'))" "\<not> syn_pending (c_tp c')" by (simp_all add: st TCPS_HAVEESTABLISHED_def less_eq_tcp_state_def syn_pending_def)
  have "snd_seq_ok (length (snd_stream c')) (c_tp c')" using f ok seq n by (simp add: snd_seq_ok_def snd_limit_def fresh_def)
  moreover have "stream_ok [] c'" using f n by (simp add: stream_ok_def fresh_def sends_data_def)
  moreover have "before_open [] c'" using f sk by (simp add: before_open_def fresh_def)
  ultimately show ?thesis using f n sent_nothing by (simp add: fresh_def live_def sending_def snd_ok_def)
qed

lemma reach_inv: "conn_reach S c \<Longrightarrow> conn_inv S 0 c"
proof (induction rule: conn_reach.induct)
  case (Socket c type reg c')
  then show ?case by (intro live_inv attach_live)
next
  case (Step S c e c' new)
  then show ?case using conn_step_ok [of S c e] by (auto simp: step_ok_def arrived_def)
next
  case (Accept S c e c' n)
  then show ?case using conn_step_ok [of S c e] by (auto simp: step_ok_def arrived_def)
qed

section \<open>Examples\<close>

definition example_new :: tcp_conn where
  "example_new = example_conn\<lparr>c_so := Some (sock_alloc 1), c_allocs := [Some (\<lambda>_. 0), Some (\<lambda>_. 0), Some (\<lambda>_. 0)]\<rparr>"

definition example_attached :: tcp_conn where
  "example_attached = snd (tcp_attach_pcb [Some tcp_cc_newreno] example_new)"

definition example_connect :: connect_result where
  "example_connect = \<lparr>cr_err = 0, cr_v4 = True, cr_lport = 49152, cr_fport = 80, cr_route = Some 1500, cr_hash = 7\<rparr>"

lemma example_attach:
  "c_so example_new = Some (sock_alloc 1)" "c_sent example_new = []" "\<not> c_released example_new" "\<not> detached example_new"
  "cc_frames (tcp_cc_default [Some tcp_cc_newreno])" "tcp_attach_pcb [Some tcp_cc_newreno] example_new = (True, example_attached)"
proof -
  show "c_so example_new = Some (sock_alloc 1)" "c_sent example_new = []" "\<not> c_released example_new" "\<not> detached example_new"
    by (simp_all add: example_new_def example_conn_def detached_def)
  show "cc_frames (tcp_cc_default [Some tcp_cc_newreno])" by (simp add: tcp_cc_default_def nr.cc_frames_axioms)
  have "fst (tcp_attach_pcb [Some tcp_cc_newreno] example_new)"
    by (simp add: tcp_attach_pcb_def tcp_newtcpcb_def take_alloc_def example_new_def Let_def)
  then show "tcp_attach_pcb [Some tcp_cc_newreno] example_new = (True, example_attached)"
    by (cases "tcp_attach_pcb [Some tcp_cc_newreno] example_new") (simp add: example_attached_def)
qed

lemma example_reach: "conn_reach [] example_attached"
  by (rule conn_reach.Socket [OF example_attach])

lemma example_attached_simps: "\<not> detached example_attached" "\<not> c_released example_attached" "tp_state (c_tp example_attached) = TCPS_CLOSED"
  by (simp_all add: example_attached_def tcp_attach_pcb_def tcp_newtcpcb_def take_alloc_def example_new_def example_conn_def tcp_cc_default_def tcp_cc_set_def
      tcp_cc_newreno_def newreno_init_def Let_def detached_def on_so_def)

text \<open>A connection whose user has sent five bytes.\<close>

lemma example_sent: "\<exists>c. conn_reach [1, 2, 3, 4, 5] c"
proof -
  have p: "possible [] (Connect example_connect) example_attached" using example_attached_simps by simp
  obtain r c1 where c1: "tcp_connect example_connect example_attached = Some (r, c1)" "live [] 0 c1" "tp_state (c_tp c1) = TCPS_SYN_SENT" "detached c1 = detached example_attached"
    using connect_spec [OF attach_live [OF example_attach], of example_connect] example_attached_simps by (auto simp: example_connect_def)
  have "conn_reach ([] @ data_sent (Connect example_connect) example_attached) c1"
    by (rule conn_reach.Step [OF example_reach p]) (simp add: c1(1) no_new_def)
  then have r1: "conn_reach [] c1" by simp
  have d: "sb_data example_pkt = [1, 2, 3, 4, 5]"
    by (simp add: example_pkt_def example_buf_def netbuf_setup_def sb_data_def nb_bytes_def sockbuf_is_addr_def NETBUF_PKTHDR_def NETBUF_SOCKADDR_def)
  have "snd_stream c1 = []" "\<not> c_released c1" "\<not> c_gone c1"
    using c1(2,3) by (auto simp: live_def before_open_def TCPS_HAVEESTABLISHED_def less_eq_tcp_state_def)
  then have q: "possible [] (Send False example_pkt) c1" "data_sent (Send False example_pkt) c1 = [1, 2, 3, 4, 5]"
    using example_pkt_wf c1(3,4) example_attached_simps by (simp_all add: d pkt_wf_def stream_max_def accepts_data_def less_eq_tcp_state_def)
  obtain c2 new where "conn_step (Send False example_pkt) c1 = Some (c2, new)" using conn_step_ok [OF reach_inv [OF r1] q(1)] by (auto simp: step_ok_def)
  from conn_reach.Step [OF r1 q(1) this] show ?thesis unfolding q(2) by auto
qed

section \<open>Properties\<close>





text \<open>C38: what an acknowledgement takes out of the send buffer. While less than 2 GiB of the stream have been acknowledged, an
  acknowledgement of \<open>n\<close> sequence numbers removes \<open>n\<close> bytes (the SYN, which is not in the buffer, accounts for
  one); beyond, \<^verbatim>\<open>tcp_drop_acked_data\<close> takes every acknowledgement for that of the SYN and leaves one
  acknowledged byte in the buffer each time, so that what is sent next is not what its sequence numbers stand for.\<close>

theorem tcp_acked_data_2gib:
  fixes ack :: tcp_seq
  assumes "c_so c \<noteq> None" and "sndbuf_ok c" and "\<not> tp_flag TF_SENTFIN (c_tp c)"
  defines "n \<equiv> rel (snd_una (c_tp c)) ack"
  assumes "0 < n" and "n \<le> length (snd_stream c)"
  shows "snd_stream (tcp_drop_acked_data ack (ack - snd_una (c_tp c)) c) =
    drop (if 0 < rel (iss (c_tp c)) (snd_una (c_tp c)) \<and> rel (iss (c_tp c)) (snd_una (c_tp c)) < 2 ^ 31 then n else n - 1) (snd_stream c)"
proof -
  define u where "u = rel (iss (c_tp c)) (snd_una (c_tp c))"
  have z: "u = 0 \<longleftrightarrow> snd_una (c_tp c) - iss (c_tp c) = 0" by (simp add: u_def rel_def unat_eq_0)
  have le: "SEQ_LEQ (snd_una (c_tp c)) (iss (c_tp c)) \<longleftrightarrow> \<not> (0 < u \<and> u < 2 ^ 31)"
    using sint_geq_rel [of "snd_una (c_tp c)" "iss (c_tp c)"] z signed_eq_0_iff [of "snd_una (c_tp c) - iss (c_tp c)"] by (auto simp: SEQ_LEQ_def u_def half_def not_less)
  have nz: "ack - snd_una (c_tp c) \<noteq> 0" using assms(5) by (auto simp: n_def rel_def)
  define a where "a = acked_bytes (c_tp c) ack (ack - snd_una (c_tp c))"
  have a: "unat a = (if 0 < u \<and> u < 2 ^ 31 then n else n - 1)"
    using assms(3) le unat_minus_one [OF nz] by (simp add: a_def acked_bytes_def Let_def n_def rel_def)
  obtain so where so: "c_so c = Some so" using assms(1) by blast
  have "unat a \<le> length (snd_stream c)" using assms(6) by (auto simp: a)
  then obtain so' where "tcp_drop_acked_data ack (ack - snd_una (c_tp c)) c = c\<lparr>c_so := Some so'\<rparr>" "sb_stream (so_snd so') = drop (unat a) (snd_stream c)"
    using drop_acked_so [OF so assms(2), of ack "ack - snd_una (c_tp c)"] unfolding a_def by blast
  then show ?thesis unfolding u_def [symmetric] by (simp add: snd_stream_def a)
qed

theorem tcp_acked_data_2gib_witness:
  "snd_stream (tcp_drop_acked_data 103 2 example_conn) = [3, 4, 5] \<and>
   snd_stream (tcp_drop_acked_data 103 2 (on_tp (\<lambda>tp. tp\<lparr>iss := 0x80000065\<rparr>) example_conn)) = [2, 3, 4, 5]"
proof -
  define c where "c = on_tp (\<lambda>tp. tp\<lparr>iss := 0x80000065\<rparr>) example_conn"
  have i: "iss (c_tp example_conn) = 100" "c_so example_conn \<noteq> None" "\<not> tp_flag TF_SENTFIN (c_tp example_conn)" by (simp_all add: example_conn_def tp_flag_def tcpcb_zero_def)
  have b: "sndbuf_ok example_conn" using example_conn_ok(1) by (simp add: snd_ok_def)
  have c: "c_so c \<noteq> None" "sndbuf_ok c" "\<not> tp_flag TF_SENTFIN (c_tp c)" "iss (c_tp c) = 0x80000065" "snd_una (c_tp c) = 101" "snd_stream c = [1, 2, 3, 4, 5]"
    using i b example_conn_ok(2,3) by (simp_all add: c_def tp_flag_def)
  show ?thesis unfolding c_def [symmetric]
    using tcp_acked_data_2gib [OF i(2) b i(3), of 103] tcp_acked_data_2gib [OF c(1-3), of 103] by (simp add: example_conn_ok c i rel_def)
qed

end
