(* ===== verification/Spec2Isabelle.thy ===== *)
theory Spec2Isabelle
  imports Dlist_Queue Inet_Checksum Page_Frames Pipe Socket_Buffers Format Kernel_Heap Callout TCP_Options TCP_Safety
begin

text \<open>
  HermesOS is a 64-bit multiprocessor kernel in C. This development models parts of its memory
  management, its string and formatting library, its data structures, its timers, its pipes and its
  network stack, and proves that they do what the rest of the kernel relies on. Paths below are
  relative to \<^verbatim>\<open>src/src/kernel\<close>.

  \<^bold>\<open>How C is read.\<close> A struct is a record with the fields in their order, an enum a datatype, an
  unsigned integer a word of its width (so that arithmetic wraps as in C), a signed one an integer
  or, where it may wrap, a word read with \<open>sint\<close>. Counts and lengths that cannot overflow are natural
  numbers. A linked structure is the list of its elements where only the order matters, and nodes in
  a memory where the links themselves are at stake (\<open>Dlist_Queue\<close>, the free list of \<open>Kernel_Heap\<close>).
  A read or write outside an object and a null pointer dereference are the value \<open>Fault\<close> of the type
  \<open>run\<close>. An allocation that may fail takes its outcome from a list of outcomes, an argument, except
  where the heap itself is the subject. A loop that might not end is a partial function into
  \<open>option\<close>, and that it returns is proved. Critical sections are single steps; where several
  processors or processes interleave between them, the interleaving is an argument or a step relation.

  \<^bold>\<open>Foundations.\<close>
  \<^item> \<open>Kernel_Prelude\<close>: word sizes, faults, allocation outcomes, lemmas on words and lists.
  \<^item> \<open>Kernel_Errno\<close>: \<^verbatim>\<open>include/os/errno.h\<close>.
  \<^item> \<open>Dlist_Queue\<close>: \<^verbatim>\<open>utils/queue/queue.c\<close>; insertion and removal refine list operations. Locale \<open>node_queue\<close>.
  \<^item> \<open>C_Strings\<close>: \<^verbatim>\<open>utils/str/str.h\<close>; numerals, tokens, UTF-16 to UTF-8.
  \<^item> \<open>Format\<close>: \<^verbatim>\<open>utils/str/vsnprintf.c\<close>; the text is independent of the buffer, integer conversion.
  \<^item> \<open>Memory_Ops\<close>: the memory functions of \<^verbatim>\<open>hardware/memory/alloc.c\<close> equal their bytewise meaning.

  \<^bold>\<open>Memory.\<close>
  \<^item> \<open>Page_Frames\<close>: \<^verbatim>\<open>hardware/memory/pmm.c\<close>, the bitmap allocator of physical pages, with sharing
    counters and boot-time initialisation. Locale \<open>frame_store\<close>.
  \<^item> \<open>Kernel_Heap\<close>: the heap of \<^verbatim>\<open>hardware/memory/alloc.c\<close> on top of the page allocator: free list, size
    classes, caches per processor, large blocks. \<open>malloc\<close> returns, live blocks never overlap along any
    interleaving of operations (\<open>heap_safety\<close>), double frees are harmless.

  \<^bold>\<open>Timers and pipes.\<close>
  \<^item> \<open>Callout\<close>: \<^verbatim>\<open>drivers/timer/callout.c\<close>, the timer wheel; a timer fires exactly once, at its tick.
  \<^item> \<open>Byte_Stream\<close>: locale \<open>byte_stream\<close>, the contract of a first-in first-out stream, interpreted by pipes
    and by socket buffers.
  \<^item> \<open>Pipe\<close>: \<^verbatim>\<open>drivers/fs/pipe/pipe.c\<close> under any interleaving of readers and writers.

  \<^bold>\<open>Network.\<close>
  \<^item> \<open>Net_Buffers\<close>: \<^verbatim>\<open>drivers/net/core/netbuf.c\<close>, chains of buffers viewed as byte strings.
  \<^item> \<open>Inet_Checksum\<close>: \<^verbatim>\<open>drivers/net/core/checksum.c\<close> against the definition of RFC 1071.
  \<^item> \<open>Socket_Buffers\<close>, \<open>Socket_State\<close>: \<^verbatim>\<open>drivers/net/socket/sockbuf.c\<close> and the state of a socket of \<^verbatim>\<open>socket.c\<close>.
  \<^item> \<open>TCP_Base\<close>, \<open>TCP_Options\<close>, \<open>TCP_Sack\<close>, \<open>TCP_Congestion\<close>, \<open>TCP_Reassembly\<close>: \<^verbatim>\<open>drivers/net/tcp\<close>. Sequence
    numbers are compared by their distance from the start of a window below half the sequence
    space. Options are parsed safely and written to be read back; the scoreboard of selective
    acknowledgements marks exactly the bytes reported; NewReno keeps its window in bounds (locale
    \<open>cc_contract\<close>); reassembly delivers exactly the stream of the peer.

  \<^bold>\<open>Bounds and fuel.\<close> No definition uses fuel. The partial functions (\<open>callout_run\<close>, the loops of the
  heap) are shown to return for every state their invariants allow. Hypotheses on sizes exclude
  counters of 64 bits wrapping and, for TCP, more than half the sequence space in flight.

  \<^bold>\<open>Not modelled.\<close> Device drivers, interrupt and page table code, which act on hardware; the file
  systems, the process scheduler, the system calls and the rest of the network stack (IP, neighbour
  discovery, UDP, DNS), which are larger than what is covered here and depend on them; locks, which
  the single-step reading of critical sections replaces. \<^verbatim>\<open>netbuf\<close> and slab freeing has no result in
  these models and appears only where ownership matters (the heap).
\<close>

end
